(* ===== verification/Qore_Prelude.thy ===== *)
theory Qore_Prelude
  imports Main "HOL-Library.Signed_Division"
begin

text \<open>
  Shared vocabulary of the development: the C++ integer semantics the sources rely on
  (truncating division, narrowing conversions), the exception sink, and generic lemmas.

  \<^item> C++ \<open>int\<close> and \<open>int64\<close> values are HOL integers.  Division and remainder are the
    truncating \<open>sdiv\<close> and \<open>smod\<close>.  A conversion to a narrower type, and the products of
    two \<open>int\<close> operands that the sources form without a wider operand, go through
    \<open>int32\<close>: two's complement wrap-around.
  \<^item> An \<open>ExceptionSink\<close> is the list of the codes raised on it, oldest first.
\<close>

section \<open>Collections of rewrite rules\<close>

named_theorems c_arith "rewriting of truncating division and narrowing conversions"
named_theorems date_defs "definitions of the calendar layer"
named_theorems lock_defs "definitions of the lock layer"

section \<open>Exception sinks\<close>

type_synonym xsink = "string list"

definition raiseException :: "xsink \<Rightarrow> string \<Rightarrow> xsink" where
  "raiseException xs e = xs @ [e]"

lemma raiseException_neq [simp]: "raiseException xs e \<noteq> xs" "raiseException xs e \<noteq> []"
  by (auto simp: raiseException_def)

section \<open>Fixed-width integers\<close>

definition int32 :: "int \<Rightarrow> int" where
  "int32 x = (x + 2147483648) mod 4294967296 - 2147483648"

definition uint32 :: "int \<Rightarrow> int" where
  "uint32 x = x mod 4294967296"

definition int64 :: "int \<Rightarrow> int" where
  "int64 x = (x + 9223372036854775808) mod 18446744073709551616 - 9223372036854775808"

definition in_int32 :: "int \<Rightarrow> bool" where
  "in_int32 x \<longleftrightarrow> - 2147483648 \<le> x \<and> x < 2147483648"

definition in_int64 :: "int \<Rightarrow> bool" where
  "in_int64 x \<longleftrightarrow> - 9223372036854775808 \<le> x \<and> x < 9223372036854775808"

lemma int32_range: "in_int32 (int32 x)"
  by (simp add: in_int32_def int32_def)

lemma int32_id [c_arith]: "in_int32 x \<Longrightarrow> int32 x = x"
  by (simp add: in_int32_def int32_def)

lemma int64_id [c_arith]: "in_int64 x \<Longrightarrow> int64 x = x"
  by (simp add: in_int64_def int64_def)

lemma int32_idem [simp]: "int32 (int32 x) = int32 x"
  by (rule int32_id) (rule int32_range)

lemma uint32_id [c_arith]: "0 \<le> x \<Longrightarrow> x < 4294967296 \<Longrightarrow> uint32 x = x"
  by (simp add: uint32_def)

lemma in_int32_in_int64: "in_int32 x \<Longrightarrow> in_int64 x"
  by (simp add: in_int32_def in_int64_def)

lemma in_int32_abs_le: "\<bar>y\<bar> \<le> \<bar>x\<bar> \<Longrightarrow> in_int32 x \<Longrightarrow> x \<noteq> - 2147483648 \<Longrightarrow> in_int32 y"
  by (auto simp: in_int32_def)

section \<open>Truncating division\<close>

lemma sdiv_nonneg [c_arith]: "0 \<le> a \<Longrightarrow> 0 < b \<Longrightarrow> a sdiv b = a div (b::int)"
  by (cases "a = 0") (simp_all add: signed_divide_int_def)

lemma smod_nonneg [c_arith]: "0 \<le> a \<Longrightarrow> 0 < b \<Longrightarrow> a smod b = a mod (b::int)"
  by (cases "a = 0") (simp_all add: signed_modulo_int_def)

lemma sdiv_neg [c_arith]: "a < 0 \<Longrightarrow> 0 < b \<Longrightarrow> a sdiv b = - ((- a) div (b::int))"
  by (simp add: signed_divide_int_def)

lemma smod_neg [c_arith]: "a < 0 \<Longrightarrow> 0 < b \<Longrightarrow> a smod b = - ((- a) mod (b::int))"
  by (simp add: signed_modulo_int_def)

lemma smod_zero_iff: "0 < b \<Longrightarrow> a smod b = 0 \<longleftrightarrow> a mod (b::int) = 0"
  by (cases "a < 0") (auto simp: smod_neg smod_nonneg dvd_eq_mod_eq_0 [symmetric])

lemma sdiv_smod_floor:
  assumes "0 < (b::int)"
  shows "(if a smod b < 0 then a sdiv b - 1 else a sdiv b) = a div b"
    and "(if a smod b < 0 then a smod b + b else a smod b) = a mod b"
proof -
  have eq: "b * (a sdiv b) + a smod b = a" by (rule mult_sdiv_smod_eq)
  have bnd: "- b < a smod b" "a smod b < b"
    using assms pos_mod_bound [of b a] pos_mod_bound [of b "- a"]
      pos_mod_sign [of b a] pos_mod_sign [of b "- a"]
    by (cases "a < 0"; simp add: smod_neg smod_nonneg; linarith)+
  let ?q = "if a smod b < 0 then a sdiv b - 1 else a sdiv b"
  let ?r = "if a smod b < 0 then a smod b + b else a smod b"
  have "a = b * ?q + ?r" using eq by (auto simp: algebra_simps)
  moreover have "0 \<le> ?r" "?r < b" using bnd assms by auto
  ultimately show "?q = a div b" and "?r = a mod b"
    using int_div_pos_eq [of a b ?q ?r] int_mod_pos_eq [of a b ?q ?r] by metis+
qed

lemma sdiv_mult_le: "0 < b \<Longrightarrow> \<bar>a sdiv b * b\<bar> \<le> \<bar>a :: int\<bar>"
proof -
  assume b: "0 < b"
  have "0 \<le> \<bar>a\<bar> div b" using b by (simp add: pos_imp_zdiv_nonneg_iff)
  then have "\<bar>a sdiv b * b\<bar> \<le> \<bar>a\<bar> div \<bar>b\<bar> * \<bar>b\<bar>"
    using b by (simp add: signed_divide_int_def abs_mult abs_sgn_eq)
  also have "\<dots> \<le> \<bar>a\<bar>" using b by (simp add: div_times_less_eq_dividend minus_mod_eq_div_mult [symmetric])
  finally show ?thesis .
qed

lemma sdiv_abs_le: "0 < b \<Longrightarrow> \<bar>a sdiv b\<bar> \<le> \<bar>a :: int\<bar>"
proof -
  assume b: "0 < b"
  have "\<bar>a sdiv b\<bar> * 1 \<le> \<bar>a sdiv b\<bar> * \<bar>b\<bar>"
    using b by (intro mult_left_mono) auto
  then show ?thesis using sdiv_mult_le [OF b, of a] by (simp add: abs_mult)
qed

end
