(* ===== verification/Date_Info.thy ===== *)
theory Date_Info
  imports Qore_Prelude
begin

text \<open>
  The proleptic Gregorian calendar arithmetic of \<open>src/include/qore/intern/qore_date_private.h\<close>
  (class \<open>qore_date_info\<close>, the \<open>normalize_units\<close> templates) and of
  \<open>src/lib/qore_date_private.cpp\<close> (\<open>isLeapYear\<close>, \<open>normalize_dm\<close>, \<open>normalize_day\<close>).
  A year-month-day triple is related to a count of days by \<open>days_from_civil\<close>, the
  mathematical calendar; the lemmas show that the code's conversions compute it.
\<close>

section \<open>Constants\<close>

abbreviation (input) SECS_PER_MINUTE :: int where "SECS_PER_MINUTE \<equiv> 60"
abbreviation (input) SECS_PER_HOUR :: int where "SECS_PER_HOUR \<equiv> 3600"
abbreviation (input) SECS_PER_DAY :: int where "SECS_PER_DAY \<equiv> 86400"
abbreviation (input) SECS_PER_YEAR :: int where "SECS_PER_YEAR \<equiv> 31536000"
abbreviation (input) SECS_TO_2KLD :: int where "SECS_TO_2KLD \<equiv> 951868800"
abbreviation (input) SECS_IN_400_YEARS :: int where "SECS_IN_400_YEARS \<equiv> 12622780800"
abbreviation (input) SECS_IN_100_YEARS :: int where "SECS_IN_100_YEARS \<equiv> 3155673600"
abbreviation (input) SECS_IN_4_YEARS :: int where "SECS_IN_4_YEARS \<equiv> 126230400"
abbreviation (input) LEAPDAY_OFFSET :: int where "LEAPDAY_OFFSET \<equiv> 5097600"
abbreviation (input) SECS_AFTER_LD :: int where "SECS_AFTER_LD \<equiv> 26438400"

lemma secs_constants:
  "SECS_PER_YEAR = SECS_PER_DAY * 365"
  "SECS_TO_2KLD = SECS_PER_YEAR * 30 + SECS_PER_DAY * (7 + 60)"
  "SECS_IN_400_YEARS = SECS_PER_YEAR * 400 + SECS_PER_DAY * 97"
  "SECS_IN_100_YEARS = SECS_PER_YEAR * 100 + SECS_PER_DAY * 24"
  "SECS_IN_4_YEARS = SECS_PER_YEAR * 4 + SECS_PER_DAY"
  "LEAPDAY_OFFSET = SECS_PER_DAY * 59" "SECS_AFTER_LD = SECS_PER_DAY * 306"
  by simp_all

definition month_lengths :: "int list" where
  "month_lengths = [0, 31, 28, 31, 30, 31, 30, 31, 31, 30, 31, 30, 31]"

definition positive_months :: "int list" where
  "positive_months = [0, 31, 59, 90, 120, 151, 181, 212, 243, 273, 304, 334, 365]"

section \<open>Unit normalisation\<close>

text \<open>
  The three templates take the two units by reference and return them updated.  The
  conversions \<open>t1\<close> and \<open>t2\<close> are the template types \<open>T1\<close> and \<open>T2\<close>.
\<close>

definition normalize_units ::
    "(int \<Rightarrow> int) \<Rightarrow> (int \<Rightarrow> int) \<Rightarrow> int \<Rightarrow> int \<Rightarrow> int \<Rightarrow> int \<times> int" where
  "normalize_units t1 t2 bigger smaller ratio =
     (let (b, s) = (if smaller \<le> - ratio \<or> smaller \<ge> ratio then
                      let units = smaller sdiv ratio
                      in (bigger + t1 units, smaller - t2 (units * ratio))
                    else (bigger, smaller))
      in if b > 0 then (if s < 0 then (b - 1, s + ratio) else (b, s))
         else if b < 0 \<and> s > 0 then (b + 1, s - ratio)
         else (b, s))"

definition normalize_units2 ::
    "(int \<Rightarrow> int) \<Rightarrow> (int \<Rightarrow> int) \<Rightarrow> int \<Rightarrow> int \<Rightarrow> int \<Rightarrow> int \<times> int" where
  "normalize_units2 t1 t2 bigger smaller ratio =
     (let (b, s) = (if smaller \<le> - ratio \<or> smaller \<ge> ratio then
                      let units = smaller sdiv ratio
                      in (bigger + t1 units, smaller - t2 (units * ratio))
                    else (bigger, smaller))
      in if s < 0 then (b - 1, s + ratio) else (b, s))"

definition normalize_units3 :: "int \<Rightarrow> int \<Rightarrow> int \<Rightarrow> int \<times> int" where
  "normalize_units3 bigger smaller ratio =
     (if smaller \<ge> ratio then
        let units = smaller div ratio
        in (bigger + units, smaller - int32 (units * ratio))
      else (bigger, smaller))"

section \<open>Calendar primitives\<close>

definition isLeapYear :: "int \<Rightarrow> bool" where
  "isLeapYear year =
     (if year smod 100 = 0 then year smod 400 = 0 else year smod 4 = 0)"

text \<open>
  \<open>get_epoch_year\<close> updates its first argument in place and sets the other two: the model
  returns the seconds into the year, the year and the leap flag.  \<open>get_epoch_year_cycle\<close>
  is its part inside one 400-year cycle, after the offset was made positive.
\<close>

definition get_epoch_year_cycle :: "int \<Rightarrow> int \<Rightarrow> int \<times> int \<times> bool" where
  "get_epoch_year_cycle mult e3 =
     (let d100 = e3 sdiv SECS_IN_100_YEARS;
          (e4, yo1) = (if d100 \<noteq> 0 then
                         let d = (if d100 = 4 then 3 else d100)
                         in (e3 - d * SECS_IN_100_YEARS, 100 * d)
                       else (e3, 0));
          d4 = e4 sdiv SECS_IN_4_YEARS;
          (e5, yo2) = (if d4 \<noteq> 0 then (e4 smod SECS_IN_4_YEARS, yo1 + d4 * 4) else (e4, yo1));
          ly = (e5 < SECS_AFTER_LD \<or> e5 \<ge> SECS_PER_YEAR * 4);
          d1 = e5 sdiv SECS_PER_YEAR;
          (e6, yo3) = (if d1 \<noteq> 0 then
                         let d = (if d1 = 4 then 3 else d1)
                         in (e5 - d * SECS_PER_YEAR, yo2 + d)
                       else (e5, yo2));
          year = int32 (mult * 400 + 2000 + yo3)
      in if e6 \<ge> SECS_AFTER_LD then (e6 - SECS_AFTER_LD, year + 1, ly)
         else (e6 + LEAPDAY_OFFSET + (if ly then SECS_PER_DAY else 0), year, ly))"

definition get_epoch_year :: "int \<Rightarrow> int \<times> int \<times> bool" where
  "get_epoch_year epoch =
     (let e1 = epoch - SECS_TO_2KLD;
          mult = e1 sdiv SECS_IN_400_YEARS;
          e2 = e1 smod SECS_IN_400_YEARS
      in if e2 = 0 then (LEAPDAY_OFFSET + SECS_PER_DAY, int32 (mult * 400 + 2000), True)
         else if e2 < 0 then get_epoch_year_cycle (mult - 1) (e2 + SECS_IN_400_YEARS)
         else get_epoch_year_cycle mult e2)"

definition leap_days_from_epoch :: "int \<Rightarrow> int \<Rightarrow> int" where
  "leap_days_from_epoch year month =
     (if year \<ge> 1970 then
        let d = year sdiv 4 - year sdiv 100 + year sdiv 400 - 477
        in if month < 3 \<and> isLeapYear year then d - 1 else d
      else
        let y = year - 1;
            d = y sdiv 4 - y sdiv 100 + y sdiv 400 - 477;
            d' = (if y < 0 then d - 1 else d)
        in if month > 2 \<and> isLeapYear (y + 1) then d' + 1 else d')"

definition getLastDayOfMonth :: "int \<Rightarrow> int \<Rightarrow> int" where
  "getLastDayOfMonth month year =
     (if month \<noteq> 2 then month_lengths ! nat month else if isLeapYear year then 29 else 28)"

definition getDayOfWeek :: "int \<Rightarrow> int \<Rightarrow> int \<Rightarrow> int" where
  "getDayOfWeek year month day =
     (let a = (14 - month) sdiv 12; y = year - a; m = month + 12 * a - 2
      in (day + y + y sdiv 4 - y sdiv 100 + y sdiv 400 + (31 * m) sdiv 12) smod 7)"

text \<open>
  \<open>SECS_PER_YEAR\<close> is a \<open>long long\<close> constant and \<open>SECS_PER_DAY\<close> an \<open>int\<close> one, so the day
  product is an \<open>int\<close> product.
\<close>

definition getEpochSeconds_date :: "int \<Rightarrow> int \<Rightarrow> int \<Rightarrow> int" where
  "getEpochSeconds_date year month day =
     (let month = (if month < 1 then 1 else if month > 12 then 12 else month);
          day = (if day < 1 then 1 else day)
      in (year - 1970) * SECS_PER_YEAR
         + int32 ((positive_months ! nat (month - 1) + day - 1
                   + leap_days_from_epoch year month) * SECS_PER_DAY))"

definition getEpochSeconds ::
    "int \<Rightarrow> int \<Rightarrow> int \<Rightarrow> int \<Rightarrow> int \<Rightarrow> int \<Rightarrow> int" where
  "getEpochSeconds year month day hour minute second =
     getEpochSeconds_date year month day + hour * 3600 + minute * 60 + second"

definition getDayNumber :: "int \<Rightarrow> int \<Rightarrow> int \<Rightarrow> int" where
  "getDayNumber year month day =
     positive_months ! nat ((if month < 13 then month else 12) - 1) + day
     + (if month > 2 \<and> isLeapYear year then 1 else 0)"

definition normalize_dm :: "int \<Rightarrow> int \<Rightarrow> int \<Rightarrow> int \<times> int \<times> int" where
  "normalize_dm year month day =
     (let (y, m) = (if month > 12 \<or> month < 1 then
                      let (y, m) = normalize_units2 int32 int32 year (month - 1) 12 in (y, m + 1)
                    else (year, month));
          d = (if m = 2 \<and> day > 28 then (if isLeapYear y then 29 else 28)
               else if day > month_lengths ! nat m then month_lengths ! nat m else day)
      in (y, m, d))"

lemma month_cases:
  assumes "0 < (m::int)" and "m < 13"
  shows "m \<in> {1, 2, 3, 4, 5, 6, 7, 8, 9, 10, 11, 12}"
  using assms by (simp only: insert_iff empty_iff) presburger

lemma getLastDayOfMonth_bounds:
  assumes "0 < m" and "m < 13"
  shows "28 \<le> getLastDayOfMonth m y" and "getLastDayOfMonth m y \<le> 31"
  using month_cases [OF assms]
  by (auto simp: getLastDayOfMonth_def month_lengths_def)

text \<open>
  The two loops of \<open>normalize_day\<close>.  The source asserts \<open>0 < month < 13\<close> on entry and the
  loops keep it; the guard on the month is that assertion.
\<close>

function normalize_day_up :: "int \<Rightarrow> int \<Rightarrow> int \<Rightarrow> int \<times> int \<times> int" where
  "normalize_day_up year month day =
     (if 0 < month \<and> month < 13 \<and> day > getLastDayOfMonth month year then
        (if month + 1 = 13
         then normalize_day_up (year + 1) 1 (day - getLastDayOfMonth month year)
         else normalize_day_up year (month + 1) (day - getLastDayOfMonth month year))
      else (year, month, day))"
  by pat_completeness auto
termination
proof (relation "measure (\<lambda>(y, m, d). nat d)", goal_cases)
  case (2 y m d)
  then show ?case using getLastDayOfMonth_bounds(1) [of m y] by simp
next
  case (3 y m d)
  then show ?case using getLastDayOfMonth_bounds(1) [of m y] by simp
qed simp

function normalize_day_down :: "int \<Rightarrow> int \<Rightarrow> int \<Rightarrow> int \<times> int \<times> int" where
  "normalize_day_down year month day =
     (if 0 < month \<and> month < 13 \<and> day < 1 then
        (if month - 1 = 0
         then normalize_day_down (year - 1) 12 (day + getLastDayOfMonth 12 (year - 1))
         else normalize_day_down year (month - 1) (day + getLastDayOfMonth (month - 1) year))
      else (year, month, day))"
  by pat_completeness auto
termination
proof (relation "measure (\<lambda>(y, m, d). nat (1 - d))", goal_cases)
  case (2 y m d)
  then show ?case using getLastDayOfMonth_bounds(1) [of 12 "y - 1"] by simp
next
  case (3 y m d)
  then show ?case using getLastDayOfMonth_bounds(1) [of "m - 1" y] by simp
qed simp

declare normalize_day_up.simps [simp del] normalize_day_down.simps [simp del]

definition normalize_day :: "int \<Rightarrow> int \<Rightarrow> int \<Rightarrow> int \<times> int \<times> int" where
  "normalize_day year month day =
     (if day > 0 then normalize_day_up year month day else normalize_day_down year month day)"

section \<open>The reference calendar\<close>

text \<open>
  \<open>leaps y\<close> counts the leap years up to and including \<open>y\<close> (with floor division, so that it
  is the proleptic count for every integer year); \<open>year_start y\<close> is the day number of
  1 January of \<open>y\<close> relative to 1970-01-01.
\<close>

definition leaps :: "int \<Rightarrow> int" where
  "leaps y = y div 4 - y div 100 + y div 400"

definition year_start :: "int \<Rightarrow> int" where
  "year_start y = 365 * (y - 1970) + leaps (y - 1) - 477"

definition month_start :: "bool \<Rightarrow> int \<Rightarrow> int" where
  "month_start ly m = positive_months ! nat (m - 1) + (if ly \<and> m > 2 then 1 else 0)"

definition month_len :: "bool \<Rightarrow> int \<Rightarrow> int" where
  "month_len ly m = (if m = 2 \<and> ly then 29 else month_lengths ! nat m)"

definition days_from_civil :: "int \<Rightarrow> int \<Rightarrow> int \<Rightarrow> int" where
  "days_from_civil y m d = year_start y + month_start (isLeapYear y) m + d - 1"

definition valid_date :: "int \<Rightarrow> int \<Rightarrow> int \<Rightarrow> bool" where
  "valid_date y m d \<longleftrightarrow> 1 \<le> m \<and> m \<le> 12 \<and> 1 \<le> d \<and> d \<le> getLastDayOfMonth m y"

lemma mod_100_400:
  "(y::int) mod 100 = 0 \<Longrightarrow> y mod 4 = 0" "(y::int) mod 400 = 0 \<Longrightarrow> y mod 100 = 0"
  using dvd_trans [of 4 100 y] dvd_trans [of 100 400 y]
  unfolding dvd_eq_mod_eq_0 by simp_all

lemma isLeapYear_iff:
  "isLeapYear y \<longleftrightarrow> y mod 4 = 0 \<and> (y mod 100 \<noteq> 0 \<or> y mod 400 = 0)"
  unfolding isLeapYear_def using mod_100_400 [of y] by (auto simp: smod_zero_iff)

lemma div_pred:
  assumes "0 < (k::int)"
  shows "y div k = (y - 1) div k + (if y mod k = 0 then 1 else 0)"
proof -
  have y: "y = k * (y div k) + y mod k" by simp
  have r: "0 \<le> y mod k" "y mod k < k" using assms by simp_all
  show ?thesis
  proof (cases "y mod k = 0")
    case True
    then have "y - 1 = k * (y div k - 1) + (k - 1)" using y by (simp add: algebra_simps)
    then have "(y - 1) div k = y div k - 1"
      using int_div_pos_eq [of "y - 1" k "y div k - 1" "k - 1"] assms by simp
    with True show ?thesis by simp
  next
    case False
    then have "(y - 1) div k = y div k"
      using int_div_pos_eq [of "y - 1" k "y div k" "y mod k - 1"] r y by simp
    with False show ?thesis by simp
  qed
qed

lemma leaps_step: "leaps y = leaps (y - 1) + (if isLeapYear y then 1 else 0)"
proof -
  have s: "y div 4 = (y - 1) div 4 + (if y mod 4 = 0 then 1 else 0)"
    "y div 100 = (y - 1) div 100 + (if y mod 100 = 0 then 1 else 0)"
    "y div 400 = (y - 1) div 400 + (if y mod 400 = 0 then 1 else 0)"
    by (rule div_pred; simp)+
  show ?thesis
    unfolding leaps_def isLeapYear_iff s using mod_100_400 [of y]
    by (cases "y mod 4 = 0"; cases "y mod 100 = 0"; cases "y mod 400 = 0") simp_all
qed

lemma year_start_step: "year_start (y + 1) = year_start y + 365 + (if isLeapYear y then 1 else 0)"
  using leaps_step [of y] by (simp add: year_start_def)

lemma getLastDayOfMonth_eq: "getLastDayOfMonth m y = month_len (isLeapYear y) m"
  by (simp add: getLastDayOfMonth_def month_len_def month_lengths_def)

lemma month_start_step:
  assumes "1 \<le> m" and "m < 12"
  shows "month_start ly (m + 1) = month_start ly m + month_len ly m"
  using month_cases [of m] assms
  by (auto simp: month_start_def month_len_def month_lengths_def positive_months_def)

lemma month_start_1 [simp]: "month_start ly 1 = 0"
  by (simp add: month_start_def positive_months_def)

lemma month_start_12 [simp]: "month_start ly 12 = 334 + (if ly then 1 else 0)"
  by (simp add: month_start_def positive_months_def)

lemma month_len_12 [simp]: "month_len ly 12 = 31"
  by (simp add: month_len_def month_lengths_def)

text \<open>
  The reference is the calendar: consecutive dates have consecutive numbers, across
  month ends, leap days and year ends.
\<close>

definition next_day :: "int \<Rightarrow> int \<Rightarrow> int \<Rightarrow> int \<times> int \<times> int" where
  "next_day y m d =
     (if d < getLastDayOfMonth m y then (y, m, d + 1)
      else if m < 12 then (y, m + 1, 1) else (y + 1, 1, 1))"

lemma days_from_civil_next_day:
  assumes "valid_date y m d" and "next_day y m d = (y', m', d')"
  shows "valid_date y' m' d' \<and> days_from_civil y' m' d' = days_from_civil y m d + 1"
proof (cases "d < getLastDayOfMonth m y")
  case True
  with assms show ?thesis by (auto simp: next_day_def valid_date_def days_from_civil_def)
next
  case False
  with assms have d: "d = month_len (isLeapYear y) m" and m: "1 \<le> m" "m \<le> 12"
    by (auto simp: valid_date_def getLastDayOfMonth_eq)
  show ?thesis
  proof (cases "m < 12")
    case True
    with False assms d m show ?thesis
      using month_start_step [of m "isLeapYear y"] getLastDayOfMonth_bounds [of "m + 1" y]
      by (auto simp: next_day_def valid_date_def days_from_civil_def)
  next
    case Dec: False
    with m have "m = 12" by simp
    with False assms d show ?thesis
      using getLastDayOfMonth_bounds [of 1 "y + 1"]
      by (auto simp: next_day_def valid_date_def days_from_civil_def year_start_step)
  qed
qed

section \<open>Seconds to year and day of year\<close>

text \<open>
  \<open>march_split\<close> is \<open>get_epoch_year\<close> on whole days counted from 2000-03-01, with floor
  division.
\<close>

definition march_split :: "int \<Rightarrow> int \<times> int \<times> bool" where
  "march_split n =
     (let q = n div 146097; r = n mod 146097;
          c = (if r div 36524 = 4 then 3 else r div 36524);
          r4 = r - c * 36524; f = r4 div 1461; r5 = r4 mod 1461;
          a = (if r5 div 365 = 4 then 3 else r5 div 365);
          r6 = r5 - a * 365; y = q * 400 + 2000 + (100 * c + f * 4 + a);
          ly = (r5 < 306 \<or> r5 \<ge> 1460)
      in if r6 \<ge> 306 then (r6 - 306, y + 1, ly)
         else (r6 + 59 + (if ly then 1 else 0), y, ly))"

lemma div_mod_days:
  assumes "0 \<le> (s::int)" "s < 86400" "0 < k"
  shows "(86400 * n + s) div (86400 * k) = n div k"
    and "(86400 * n + s) mod (86400 * k) = 86400 * (n mod k) + s"
proof -
  have n: "n = k * (n div k) + n mod k" and r: "0 \<le> n mod k" "n mod k < k"
    using assms by simp_all
  have eq: "86400 * n + s = (86400 * k) * (n div k) + (86400 * (n mod k) + s)"
    by (subst n) (simp only: algebra_simps)
  have le: "86400 * (n mod k) + 86400 \<le> 86400 * k" using r by simp
  show "(86400 * n + s) div (86400 * k) = n div k"
    using int_div_pos_eq [OF eq] r le assms by simp
  show "(86400 * n + s) mod (86400 * k) = 86400 * (n mod k) + s"
    using int_mod_pos_eq [OF eq] r le assms by simp
qed

lemma year_fields:
  assumes "0 \<le> (c::int)" "c \<le> 3" "0 \<le> f" "f \<le> 24" "0 \<le> a" "a \<le> 3"
  shows "(q * 400 + (100 * c + f * 4 + a)) div 400 = q"
    and "(q * 400 + (100 * c + f * 4 + a)) div 100 = 4 * q + c"
    and "(q * 400 + (100 * c + f * 4 + a)) div 4 = 100 * q + 25 * c + f"
    and "(q * 400 + (100 * c + f * 4 + a)) mod 400 = 100 * c + f * 4 + a"
    and "(q * 400 + (100 * c + f * 4 + a)) mod 100 = f * 4 + a"
    and "(q * 400 + (100 * c + f * 4 + a)) mod 4 = a"
proof -
  let ?y = "q * 400 + (100 * c + f * 4 + a)"
  have e: "?y = 400 * q + (100 * c + f * 4 + a)" "?y = 100 * (4 * q + c) + (f * 4 + a)"
    "?y = 4 * (100 * q + 25 * c + f) + a" by simp_all
  show "?y div 400 = q" "?y mod 400 = 100 * c + f * 4 + a"
    using int_div_pos_eq [OF e(1)] int_mod_pos_eq [OF e(1)] assms by simp_all
  show "?y div 100 = 4 * q + c" "?y mod 100 = f * 4 + a"
    using int_div_pos_eq [OF e(2)] int_mod_pos_eq [OF e(2)] assms by simp_all
  show "?y div 4 = 100 * q + 25 * c + f" "?y mod 4 = a"
    using int_div_pos_eq [OF e(3)] int_mod_pos_eq [OF e(3)] assms by simp_all
qed

lemma march_first:
  "year_start (2000 + y) + 59 + (if isLeapYear (2000 + y) then 1 else 0)
     = 11017 + 365 * y + leaps y"
proof -
  have "leaps (2000 + y) = 485 + leaps y"
    using div_mult_self3 [of 4 500 y] div_mult_self3 [of 100 20 y] div_mult_self3 [of 400 5 y]
    by (simp add: leaps_def)
  then show ?thesis using leaps_step [of "2000 + y"] by (simp add: year_start_def)
qed

lemma isLeapYear_2000: "isLeapYear (2000 + y) = isLeapYear y"
proof -
  have "(2000 + y) mod 4 = y mod 4" "(2000 + y) mod 100 = y mod 100" "(2000 + y) mod 400 = y mod 400"
    using mod_mult_self3 [of 500 4 y] mod_mult_self3 [of 20 100 y] mod_mult_self3 [of 5 400 y]
    by simp_all
  then show ?thesis by (simp add: isLeapYear_iff)
qed

definition year_split_ok :: "int \<Rightarrow> int \<Rightarrow> int \<Rightarrow> bool \<Rightarrow> bool" where
  "year_split_ok n k y ly \<longleftrightarrow>
     (if ly then (if k = 59 then isLeapYear y \<and> n = year_start y + 59
                  else 60 \<le> k \<and> k \<le> 365 \<and> n = year_start y + k - (if isLeapYear y then 0 else 1))
      else 0 \<le> k \<and> k \<le> 364 \<and> (k < 59 \<or> \<not> isLeapYear y) \<and> n = year_start y + k)"

lemma capped_div:
  assumes "0 \<le> (r::int)" "r \<le> 4 * k" "0 < k" and c: "c = (if r div k = 4 then 3 else r div k)"
  shows "0 \<le> c" "c \<le> 3" "0 \<le> r - c * k" "r - c * k \<le> k" "r - c * k = k \<longleftrightarrow> r = 4 * k"
    and "r - c * k = k \<longrightarrow> c = 3"
proof -
  have r: "k * (r div k) + r mod k = r" and m: "0 \<le> r mod k" "r mod k < k"
    using assms by simp_all
  have d: "0 \<le> r div k" "r div k \<le> 4"
    using zdiv_mono1 [OF assms(2,3)] assms by (simp_all add: pos_imp_zdiv_nonneg_iff)
  have 4: "r = 4 * k" if "r div k = 4"
    using r [unfolded that] m assms(2) by linarith
  have n4: "r - c * k = r mod k" if "r div k \<noteq> 4"
    using c that by (simp add: minus_mult_div_eq_mod mult.commute)
  have "0 \<le> r - c * k \<and> r - c * k \<le> k \<and> (r - c * k = k \<longleftrightarrow> r = 4 * k)
      \<and> (r - c * k = k \<longrightarrow> c = 3)"
  proof (cases "r div k = 4")
    case True
    then have "c = 3" "r - c * k = k" using 4 c by simp_all
    then show ?thesis using 4 [OF True] assms(3) by simp
  next
    case False
    have "r \<noteq> 4 * k" using False assms(3) by auto
    then show ?thesis using n4 [OF False] m by simp
  qed
  then show "0 \<le> r - c * k" "r - c * k \<le> k" "r - c * k = k \<longleftrightarrow> r = 4 * k"
    "r - c * k = k \<longrightarrow> c = 3" by blast+
  show "0 \<le> c" "c \<le> 3" using d c by simp_all
qed

lemma march_split_parts:
  obtains q c f a r6 where "0 \<le> c" "c \<le> 3" "0 \<le> f" "f \<le> 24" "0 \<le> a" "a \<le> 3"
    "0 \<le> r6" "r6 \<le> 365" "r6 = 365 \<longrightarrow> a = 3 \<and> (f = 24 \<longrightarrow> c = 3)"
    "n = 146097 * q + 36524 * c + 1461 * f + 365 * a + r6"
    "march_split n =
       (let y = 2000 + (q * 400 + (100 * c + f * 4 + a));
            ly = (a = 0 \<and> r6 < 306 \<or> r6 = 365)
        in if r6 \<ge> 306 then (r6 - 306, y + 1, ly)
           else (r6 + 59 + (if ly then 1 else 0), y, ly))"
proof -
  define q r where qr: "q = n div 146097" "r = n mod 146097"
  define c where c_def: "c = (if r div 36524 = 4 then 3 else r div 36524)"
  define r4 where r4_def: "r4 = r - c * 36524"
  define f r5 where fr: "f = r4 div 1461" "r5 = r4 mod 1461"
  define a where a_def: "a = (if r5 div 365 = 4 then 3 else r5 div 365)"
  define r6 where r6_def: "r6 = r5 - a * 365"
  have r: "0 \<le> r" "r \<le> 4 * 36524" and n: "n = 146097 * q + r"
    using pos_mod_bound [of 146097 n] by (simp_all add: qr)
  note c = capped_div [OF r _ c_def, folded r4_def, simplified]
  have r4: "r4 = 1461 * f + r5" and r5: "0 \<le> r5" "r5 \<le> 4 * 365"
    using pos_mod_bound [of 1461 r4] by (simp_all add: fr)
  have f: "0 \<le> f" "f \<le> 24" using r4 r5 c by linarith+
  note a = capped_div [OF r5 _ a_def, folded r6_def, simplified]
  have ly: "r5 < 306 \<or> r5 \<ge> 1460 \<longleftrightarrow> a = 0 \<and> r6 < 306 \<or> r6 = 365"
    using a r5 r6_def by linarith
  show ?thesis
  proof (rule that)
    show "n = 146097 * q + 36524 * c + 1461 * f + 365 * a + r6"
      using n r4 r4_def r6_def by linarith
    show "r6 = 365 \<longrightarrow> a = 3 \<and> (f = 24 \<longrightarrow> c = 3)" using a(5,6) c(6) r4 by auto
    show "march_split n =
       (let y = 2000 + (q * 400 + (100 * c + f * 4 + a));
            ly = (a = 0 \<and> r6 < 306 \<or> r6 = 365)
        in if r6 \<ge> 306 then (r6 - 306, y + 1, ly)
           else (r6 + 59 + (if ly then 1 else 0), y, ly))"
      unfolding march_split_def Let_def
      unfolding qr [symmetric] c_def [symmetric] r4_def [symmetric] fr [symmetric]
        a_def [symmetric] r6_def [symmetric] ly by (simp add: algebra_simps)
  qed (use c f a in simp_all)
qed

lemma march_split_ok:
  assumes "march_split n = (k, y, ly)"
  shows "year_split_ok (n + 11017) k y ly"
proof -
  obtain q c f a r6 where b: "0 \<le> c" "c \<le> 3" "0 \<le> f" "f \<le> 24" "0 \<le> a" "a \<le> 3"
    "0 \<le> r6" "r6 \<le> 365" "r6 = 365 \<longrightarrow> a = 3 \<and> (f = 24 \<longrightarrow> c = 3)"
    and n: "n = 146097 * q + 36524 * c + 1461 * f + 365 * a + r6"
    and m: "march_split n =
       (let y = 2000 + (q * 400 + (100 * c + f * 4 + a));
            ly = (a = 0 \<and> r6 < 306 \<or> r6 = 365)
        in if r6 \<ge> 306 then (r6 - 306, y + 1, ly)
           else (r6 + 59 + (if ly then 1 else 0), y, ly))"
    by (rule march_split_parts)
  define Y where "Y = q * 400 + (100 * c + f * 4 + a)"
  note F = year_fields [OF b(1-6), of q, folded Y_def]
  have n': "n + 11017 = 11017 + 365 * Y + leaps Y + r6"
    by (simp add: leaps_def F n) (simp add: Y_def)
  have "isLeapYear Y \<longleftrightarrow> a = 0 \<and> (f * 4 + a \<noteq> 0 \<or> 100 * c + f * 4 + a = 0)"
    by (simp only: isLeapYear_iff F(4-6))
  also have "\<dots> \<longleftrightarrow> a = 0 \<and> (f \<noteq> 0 \<or> c = 0)"
    using b(1-6) by (cases "a = 0") simp_all
  finally have leap: "isLeapYear (2000 + Y) \<longleftrightarrow> a = 0 \<and> (f \<noteq> 0 \<or> c = 0)"
    by (simp only: isLeapYear_2000)
  have mar: "n + 11017 = year_start (2000 + Y) + 59 + (if isLeapYear (2000 + Y) then 1 else 0) + r6"
    using march_first [of Y] n' by simp
  show ?thesis
  proof (cases "r6 \<ge> 306")
    case True
    have e: "k = r6 - 306" "y = 2000 + Y + 1" "ly \<longleftrightarrow> r6 = 365"
      using assms True unfolding m by (auto simp: Let_def Y_def)
    have "r6 = 365 \<Longrightarrow> isLeapYear (2000 + Y + 1)"
    proof -
      assume "r6 = 365"
      with b have a: "a = 3" and f: "f = 24 \<longrightarrow> c = 3" by auto
      have y1: "Y + 1 = (if f = 24 then (q + 1) * 400 else q * 400 + (100 * c + (f + 1) * 4 + 0))"
        using a f by (simp add: Y_def)
      show ?thesis
      proof (cases "f = 24")
        case True
        with y1 have "Y + 1 = (q + 1) * 400" by simp
        then have "(Y + 1) mod 400 = 0" by simp
        with mod_100_400 [of "Y + 1"] have "isLeapYear (Y + 1)" by (simp add: isLeapYear_iff)
        then show ?thesis using isLeapYear_2000 [of "Y + 1"] by (simp add: add.assoc)
      next
        case False
        from b False have f': "0 \<le> f + 1" "f + 1 \<le> 24" by simp_all
        note G = year_fields [OF b(1,2) f', of 0 q]
        have "Y + 1 = q * 400 + (100 * c + (f + 1) * 4 + 0)" using False y1 by simp
        then have "(Y + 1) mod 4 = 0" "(Y + 1) mod 100 = (f + 1) * 4 + 0"
          by (simp_all only: G order.refl)
        then have "isLeapYear (Y + 1)" using f' b(3) by (simp add: isLeapYear_iff)
        then show ?thesis using isLeapYear_2000 [of "Y + 1"] by (simp add: add.assoc)
      qed
    qed
    moreover have "n + 11017 = year_start (2000 + Y + 1) + k"
      using mar year_start_step [of "2000 + Y"] e by simp
    ultimately show ?thesis using e b True by (auto simp: year_split_ok_def)
  next
    case False
    then have e: "y = 2000 + Y" "ly \<longleftrightarrow> a = 0" "k = r6 + 59 + (if ly then 1 else 0)"
      using assms unfolding m by (auto simp: Let_def Y_def)
    then show ?thesis using mar leap False b by (auto simp: year_split_ok_def)
  qed
qed

lemma days_le: "0 \<le> s \<Longrightarrow> s < 86400 \<Longrightarrow> 86400 * k \<le> 86400 * r + s \<longleftrightarrow> k \<le> (r::int)"
  by (rule iffI) linarith+

lemma get_epoch_year_cycle_march:
  assumes s: "0 \<le> s" "s < 86400" and rng: "\<bar>n div 146097\<bar> \<le> 1000000"
  shows "get_epoch_year_cycle (n div 146097) (86400 * (n mod 146097) + s)
           = (case march_split n of (k, y, ly) \<Rightarrow> (86400 * k + s, y, ly))"
proof -
  define q r where qr: "q = n div 146097" "r = n mod 146097"
  define c where c_def: "c = (if r div 36524 = 4 then 3 else r div 36524)"
  define r4 where r4_def: "r4 = r - c * 36524"
  define f r5 where fr: "f = r4 div 1461" "r5 = r4 mod 1461"
  define a where a_def: "a = (if r5 div 365 = 4 then 3 else r5 div 365)"
  define r6 where r6_def: "r6 = r5 - a * 365"
  have r: "0 \<le> r" "r \<le> 4 * 36524"
    using pos_mod_bound [of 146097 n] by (simp_all add: qr)
  note c = capped_div [OF r _ c_def, folded r4_def, simplified]
  have r4: "r4 = 1461 * f + r5" and r5: "0 \<le> r5" "r5 \<le> 4 * 365"
    using pos_mod_bound [of 1461 r4] by (simp_all add: fr)
  note a = capped_div [OF r5 _ a_def, folded r6_def, simplified]
  have f: "0 \<le> f" "f \<le> 24" using r4 r5 c by linarith+
  have 1: "(86400 * r + s) sdiv SECS_IN_100_YEARS = r div 36524"
    using div_mod_days [OF s, of 36524 r] r s by (simp add: sdiv_nonneg)
  have 2: "86400 * r + s - c * SECS_IN_100_YEARS = 86400 * r4 + s"
    by (simp add: r4_def algebra_simps)
  have 3: "(86400 * r4 + s) sdiv SECS_IN_4_YEARS = f" "(86400 * r4 + s) smod SECS_IN_4_YEARS = 86400 * r5 + s"
    using div_mod_days [OF s, of 1461 r4] c s by (simp_all add: sdiv_nonneg smod_nonneg fr)
  have 4: "(86400 * r5 + s) sdiv SECS_PER_YEAR = r5 div 365"
    using div_mod_days [OF s, of 365 r5] r5 s by (simp add: sdiv_nonneg)
  have 5: "86400 * r5 + s - a * SECS_PER_YEAR = 86400 * r6 + s"
    by (simp add: r6_def algebra_simps)
  have y: "int32 (q * 400 + 2000 + (100 * c + f * 4 + a)) = q * 400 + 2000 + (100 * c + f * 4 + a)"
  proof (rule int32_id)
    show "in_int32 (q * 400 + 2000 + (100 * c + f * 4 + a))"
      using rng [folded qr] c(1,2) f a(1,2) unfolding in_int32_def by linarith
  qed
  have s1: "(if r div 36524 \<noteq> 0 then let d = if r div 36524 = 4 then 3 else r div 36524
        in (86400 * r + s - d * SECS_IN_100_YEARS, 100 * d) else (86400 * r + s, 0))
      = (86400 * r4 + s, 100 * c)"
    using 2 by (simp add: c_def r4_def Let_def split: if_splits)
  have s2: "(if f \<noteq> 0 then (86400 * r5 + s, 100 * c + f * 4) else (86400 * r4 + s, 100 * c))
      = (86400 * r5 + s, 100 * c + f * 4)"
    using r4 by simp
  have s3: "(if r5 div 365 \<noteq> 0 then let d = if r5 div 365 = 4 then 3 else r5 div 365
        in (86400 * r5 + s - d * SECS_PER_YEAR, 100 * c + f * 4 + d) else (86400 * r5 + s, 100 * c + f * 4))
      = (86400 * r6 + s, 100 * c + f * 4 + a)"
    using 5 by (simp add: a_def r6_def Let_def split: if_splits)
  have l: "(86400 * r5 + s < SECS_AFTER_LD \<or> 86400 * r5 + s \<ge> SECS_PER_YEAR * 4) \<longleftrightarrow> r5 < 306 \<or> r5 \<ge> 1460"
    using days_le [OF s, of 306 r5] days_le [OF s, of 1460 r5] by (simp add: not_le [symmetric])
  have g: "86400 * r6 + s \<ge> SECS_AFTER_LD \<longleftrightarrow> r6 \<ge> 306"
    using days_le [OF s, of 306 r6] by simp
  have "get_epoch_year_cycle q (86400 * r + s) =
     (let ly = (r5 < 306 \<or> r5 \<ge> 1460); year = q * 400 + 2000 + (100 * c + f * 4 + a) in
      if r6 \<ge> 306 then (86400 * r6 + s - SECS_AFTER_LD, year + 1, ly)
      else (86400 * r6 + s + LEAPDAY_OFFSET + (if ly then SECS_PER_DAY else 0), year, ly))"
    by (simp only: get_epoch_year_cycle_def Let_def 1 s1 [unfolded Let_def] prod.case 3 s2 4
        s3 [unfolded Let_def] l g y)
  also have "\<dots> = (case march_split n of (k, y, ly) \<Rightarrow> (86400 * k + s, y, ly))"
    unfolding march_split_def Let_def
    unfolding qr [symmetric] c_def [symmetric] r4_def [symmetric] fr [symmetric]
        a_def [symmetric] r6_def [symmetric] by simp
  finally show ?thesis by (simp add: qr)
qed

lemma get_epoch_year_march:
  assumes rng: "\<bar>epoch\<bar> \<le> 10000000000000000"
  shows "get_epoch_year epoch =
     (case march_split (epoch div 86400 - 11017) of (k, y, ly) \<Rightarrow> (86400 * k + epoch mod 86400, y, ly))"
proof -
  define n s where ns: "n = epoch div 86400 - 11017" "s = epoch mod 86400"
  have s: "0 \<le> s" "s < 86400" by (simp_all add: ns)
  have ep: "epoch - SECS_TO_2KLD = 86400 * n + s"
    using mult_div_mod_eq [of 86400 epoch] by (simp add: ns)
  let ?e = "epoch - SECS_TO_2KLD" and ?X = "SECS_IN_400_YEARS"
  have dv: "?e div ?X = n div 146097" and md: "?e mod ?X = 86400 * (n mod 146097) + s"
    unfolding ep using div_mod_days [OF s, of 146097 n] by simp_all
  have X: "0 < ?X" by simp
  note fl = sdiv_smod_floor [OF X, of ?e, unfolded dv md]
  have q: "\<bar>n div 146097\<bar> \<le> 1000000"
  proof -
    have "epoch \<le> 10000000000000000" "- epoch \<le> 10000000000000000" using rng by simp_all
    then have "n \<le> 146097 * 1000000" "- (146097 * 1000000) \<le> n" using ep s by linarith+
    then show ?thesis
      using zdiv_mono1 [of n "146097 * 1000000" 146097] zdiv_mono1 [of "146097 * (- 1000000)" n 146097]
      by simp
  qed
  have "get_epoch_year epoch = get_epoch_year_cycle (n div 146097) (86400 * (n mod 146097) + s)"
  proof (cases "?e smod ?X = 0")
    case True
    then have 0: "86400 * (n mod 146097) + s = 0" and m: "?e sdiv ?X = n div 146097"
      using fl by simp_all
    then have "n mod 146097 = 0" "s = 0" using s pos_mod_sign [of 146097 n] by linarith+
    then have "get_epoch_year_cycle (n div 146097) (86400 * (n mod 146097) + s)
       = (LEAPDAY_OFFSET + SECS_PER_DAY, int32 (n div 146097 * 400 + 2000), True)"
      by (simp add: get_epoch_year_cycle_def)
    with True m show ?thesis by (simp only: get_epoch_year_def Let_def if_True simp_thms)
  next
    case False
    with fl show ?thesis
      by (cases "?e smod ?X < 0") (simp_all only: get_epoch_year_def Let_def if_True if_False simp_thms)
  qed
  then show ?thesis
    using get_epoch_year_cycle_march [OF s q] by (simp only: ns)
qed

lemma get_epoch_year_ok:
  assumes "\<bar>epoch\<bar> \<le> 10000000000000000" and "get_epoch_year epoch = (e, y, ly)"
  shows "year_split_ok (epoch div 86400) (e div 86400) y ly" and "e mod 86400 = epoch mod 86400"
    and "0 \<le> e"
proof -
  obtain k where m: "march_split (epoch div 86400 - 11017) = (k, y, ly)"
    and e: "e = 86400 * k + epoch mod 86400"
    using assms get_epoch_year_march [OF assms(1)] by (auto split: prod.splits)
  have "e div 86400 = k" "e mod 86400 = epoch mod 86400" unfolding e by simp_all
  with march_split_ok [OF m]
  show "year_split_ok (epoch div 86400) (e div 86400) y ly" "e mod 86400 = epoch mod 86400" by simp_all
  then have "0 \<le> k" using e by (auto simp: year_split_ok_def split: if_splits)
  then show "0 \<le> e" unfolding e by simp
qed

section \<open>Month and day of the year\<close>

text \<open>The month loop of \<open>qore_simple_tm::set\<close>.\<close>

function month_loop :: "bool \<Rightarrow> int \<Rightarrow> int \<Rightarrow> int \<times> int" where
  "month_loop ly month day =
     (if month < 12 then
        let ml = (if ly \<and> month = 2 then 29 else month_lengths ! nat month)
        in if ml > day then (month, day) else month_loop ly (month + 1) (day - ml)
      else (month, day))"
  by pat_completeness auto
termination by (relation "measure (\<lambda>(ly, m, d). nat (12 - m))") auto

declare month_loop.simps [simp del]

lemma month_loop_ok:
  assumes "1 \<le> m" "m \<le> 12" "0 \<le> d" "month_start ly m + d < 365 + (if ly then 1 else 0)"
    and "month_loop ly m d = (m', d')"
  shows "m \<le> m' \<and> m' \<le> 12 \<and> 0 \<le> d' \<and> d' < month_len ly m'
    \<and> month_start ly m' + d' = month_start ly m + d"
  using assms
proof (induction ly m d arbitrary: m' d' rule: month_loop.induct)
  case (1 ly m d)
  let ?ml = "month_len ly m"
  have ml: "(if ly \<and> m = 2 then 29 else month_lengths ! nat m) = ?ml"
    by (simp add: month_len_def)
  note step = month_loop.simps [of ly m d, unfolded ml Let_def]
  consider "m = 12" | "m < 12" "d < ?ml" | "m < 12" "\<not> d < ?ml" using "1.prems"(2) by linarith
  then show ?case
  proof cases
    case 1
    with "1.prems" step show ?thesis by (auto split: if_splits)
  next
    case 2
    with "1.prems" step show ?thesis by auto
  next
    case 3
    have ms: "month_start ly (m + 1) = month_start ly m + ?ml"
      using "1.prems"(1) 3 by (intro month_start_step) auto
    have "m + 1 \<le> m' \<and> m' \<le> 12 \<and> 0 \<le> d' \<and> d' < month_len ly m'
        \<and> month_start ly m' + d' = month_start ly (m + 1) + (d - ?ml)"
      by (rule "1.IH" [OF _ refl, unfolded ml]) (use "1.prems" 3 step ms in auto)
    with ms show ?thesis by auto
  qed
qed

lemma month_start_early: "1 \<le> m \<Longrightarrow> m \<le> 12 \<Longrightarrow> month_start ly m < 59 + (if ly then 1 else 0) \<Longrightarrow> m \<le> 2"
  using month_cases [of m] by (auto simp: month_start_def positive_months_def split: if_splits)

lemma month_start_late:
  "1 \<le> m \<Longrightarrow> m \<le> 12 \<Longrightarrow> month_start ly m + d \<ge> 59 + (if ly then 1 else 0) \<Longrightarrow> d < month_len ly m \<Longrightarrow> m > 2"
  using month_cases [of m]
  by (auto simp: month_start_def positive_months_def month_len_def month_lengths_def split: if_splits)

lemma year_split_civil:
  assumes ok: "year_split_ok n k y ly" and loop: "month_loop ly 1 k = (m, d)"
  shows "valid_date y m (d + 1) \<and> days_from_civil y m (d + 1) = n"
proof -
  have "0 \<le> k" "k < 365 + (if ly then 1 else 0)"
    using ok by (auto simp: year_split_ok_def split: if_splits)
  then have L: "1 \<le> m" "m \<le> 12" "0 \<le> d" "d < month_len ly m" "month_start ly m + d = k"
    using month_loop_ok [OF _ _ _ _ loop] by simp_all
  have "month_start (isLeapYear y) m + d + year_start y = n \<and> d < month_len (isLeapYear y) m"
  proof (cases "ly = isLeapYear y")
    case True
    with ok L show ?thesis by (auto simp: year_split_ok_def split: if_splits)
  next
    case False
    show ?thesis
    proof (cases ly)
      case True
      with ok False have k: "60 \<le> k" "n = year_start y + k - 1" "\<not> isLeapYear y"
        by (auto simp: year_split_ok_def split: if_splits)
      with L True have "m > 2" using month_start_late [of m ly d] by simp
      with L k True show ?thesis by (simp add: month_start_def month_len_def)
    next
      case nly: False
      with ok False have k: "k < 59" "n = year_start y + k" "isLeapYear y"
        by (auto simp: year_split_ok_def split: if_splits)
      with L nly have "m \<le> 2" using month_start_early [of m ly] by simp
      with L k nly show ?thesis
        by (auto simp: month_start_def month_len_def month_lengths_def split: if_splits)
    qed
  qed
  then show ?thesis
    using L by (auto simp: valid_date_def days_from_civil_def getLastDayOfMonth_eq)
qed

section \<open>Dates to day numbers\<close>

lemma month_start_last:
  "1 \<le> m \<Longrightarrow> m < m' \<Longrightarrow> m' \<le> 12 \<Longrightarrow> month_start ly m + month_len ly m \<le> month_start ly m'"
proof (induction "nat (m' - m - 1)" arbitrary: m')
  case 0
  then have "m' = m + 1" by simp
  with 0 show ?case using month_start_step [of m ly] by simp
next
  case (Suc k)
  then have "month_start ly m + month_len ly m \<le> month_start ly (m' - 1)" by simp
  also have "\<dots> \<le> month_start ly m'"
    using month_start_step [of "m' - 1" ly] getLastDayOfMonth_bounds [of "m' - 1" 2001] Suc
      month_cases [of "m' - 1"] by (auto simp: month_len_def month_lengths_def)
  finally show ?case .
qed

lemma month_start_end: "1 \<le> m \<Longrightarrow> m \<le> 12 \<Longrightarrow> month_start ly m + month_len ly m \<le> 365 + (if ly then 1 else 0)"
  using month_start_last [of m 12 ly] by (cases "m = 12") auto

lemma month_start_nonneg: "1 \<le> m \<Longrightarrow> m \<le> 12 \<Longrightarrow> 0 \<le> month_start ly m"
  using month_cases [of m] by (auto simp: month_start_def positive_months_def)

lemma year_start_mono: "y < y' \<Longrightarrow> year_start y + 365 + (if isLeapYear y then 1 else 0) \<le> year_start y'"
proof (induction "nat (y' - y - 1)" arbitrary: y')
  case 0
  then have "y' = y + 1" by simp
  then show ?case by (simp add: year_start_step)
next
  case (Suc k)
  then have "year_start y + 365 + (if isLeapYear y then 1 else 0) \<le> year_start (y' - 1)" by simp
  also have "\<dots> \<le> year_start y'" using year_start_step [of "y' - 1"] by simp
  finally show ?case .
qed

lemma days_from_civil_year:
  assumes "valid_date y m d"
  shows "year_start y \<le> days_from_civil y m d" "days_from_civil y m d < year_start (y + 1)"
proof -
  from assms have v: "1 \<le> m" "m \<le> 12" "1 \<le> d" "d \<le> month_len (isLeapYear y) m"
    by (auto simp: valid_date_def getLastDayOfMonth_eq)
  then show "year_start y \<le> days_from_civil y m d"
    using month_start_nonneg [of m "isLeapYear y"] by (simp add: days_from_civil_def)
  show "days_from_civil y m d < year_start (y + 1)"
    using v month_start_end [of m "isLeapYear y"] by (simp add: days_from_civil_def year_start_step)
qed

lemma days_from_civil_less:
  assumes "valid_date y m d" "valid_date y' m' d'"
    and "y < y' \<or> y = y' \<and> (m < m' \<or> m = m' \<and> d < d')"
  shows "days_from_civil y m d < days_from_civil y' m' d'"
  using assms(3)
proof (elim disjE conjE)
  assume "y < y'"
  then show ?thesis
    using year_start_mono [of y y'] days_from_civil_year [OF assms(1)] days_from_civil_year [OF assms(2)]
    by (simp add: year_start_step)
next
  assume "y = y'" "m < m'"
  then show ?thesis using assms(1,2) month_start_last [of m m' "isLeapYear y"]
    by (simp add: valid_date_def getLastDayOfMonth_eq days_from_civil_def)
qed (simp add: days_from_civil_def)

lemma days_from_civil_inj:
  assumes "valid_date y m d" "valid_date y' m' d'" "days_from_civil y m d = days_from_civil y' m' d'"
  shows "y = y' \<and> m = m' \<and> d = d'"
proof (rule ccontr)
  assume "\<not> ?thesis"
  then consider "y < y' \<or> y = y' \<and> (m < m' \<or> m = m' \<and> d < d')"
    | "y' < y \<or> y' = y \<and> (m' < m \<or> m' = m \<and> d' < d)" by linarith
  then show False
    using days_from_civil_less [OF assms(1,2)] days_from_civil_less [OF assms(2,1)] assms(3)
    by cases auto
qed

lemma leap_days_from_epoch_eq:
  assumes "0 \<le> y" "1 \<le> m" "m \<le> 12"
  shows "leap_days_from_epoch y m = leaps (y - 1) - 477 + (if m > 2 \<and> isLeapYear y then 1 else 0)"
proof (cases "y \<ge> 1970")
  case True
  have d: "y sdiv 4 - y sdiv 100 + y sdiv 400 = leaps y"
    using assms by (simp add: leaps_def sdiv_nonneg)
  show ?thesis
    unfolding leap_days_from_epoch_def Let_def d using leaps_step [of y] True by simp
next
  case False
  show ?thesis
  proof (cases "y = 0")
    case True
    then show ?thesis by (simp add: leap_days_from_epoch_def leaps_def sdiv_neg sdiv_nonneg Let_def)
  next
    case y: False
    then show ?thesis using assms False
      by (simp add: leap_days_from_epoch_def Let_def leaps_def sdiv_nonneg)
  qed
qed

lemma getEpochSeconds_date_civil:
  assumes "0 \<le> y" "y \<le> 95000" "valid_date y m d"
  shows "getEpochSeconds_date y m d = 86400 * days_from_civil y m d"
proof -
  have v: "1 \<le> m" "m \<le> 12" "1 \<le> d" "d \<le> 31"
    using assms getLastDayOfMonth_bounds [of m y] by (auto simp: valid_date_def)
  let ?x = "positive_months ! nat (m - 1) + d - 1 + leap_days_from_epoch y m"
  have pm: "0 \<le> positive_months ! nat (m - 1)" "positive_months ! nat (m - 1) \<le> 334"
    using month_cases [of m] v by (auto simp: positive_months_def)
  have "leaps (y - 1) \<ge> - 1 \<and> leaps (y - 1) \<le> 23100"
    using assms by (cases "y = 0") (simp_all add: leaps_def, linarith)
  then have "- 500 \<le> ?x" "?x \<le> 23500"
    using pm v leap_days_from_epoch_eq [OF assms(1) v(1,2)] by auto
  then have "int32 (?x * SECS_PER_DAY) = ?x * SECS_PER_DAY"
    by (intro int32_id) (simp add: in_int32_def)
  then show ?thesis
    using v leap_days_from_epoch_eq [OF assms(1) v(1,2)]
    by (simp add: getEpochSeconds_date_def Let_def days_from_civil_def year_start_def month_start_def)
qed

lemma getDayNumber_civil:
  assumes "1 \<le> m" "m \<le> 12"
  shows "getDayNumber y m d = days_from_civil y m d - year_start y + 1"
  using assms by (simp add: getDayNumber_def days_from_civil_def month_start_def)

text \<open>
  Zeller-style day of the week: 1970-01-01 was a Thursday, day 4 of the week that starts
  on Sunday.
\<close>

lemma getDayOfWeek_civil:
  assumes "1 \<le> y" "1 \<le> m" "m \<le> 12" "0 \<le> d"
  shows "getDayOfWeek y m d = (days_from_civil y m d + 4) mod 7"
proof -
  have m: "m \<in> {1, 2, 3, 4, 5, 6, 7, 8, 9, 10, 11, 12}" using month_cases [of m] assms by simp
  define Y where "Y = (if m > 2 then y else y - 1)"
  define g where "g = (if m > 2 then m - 2 else m + 10)"
  have a: "(14 - m) sdiv 12 = (if m > 2 then 0 else 1)"
    using m by (auto simp: sdiv_nonneg)
  have Y: "0 \<le> Y" using assms by (simp add: Y_def)
  have lv: "leaps y = leaps (y - 1) + (if isLeapYear y then 1 else 0)" by (rule leaps_step)
  have "0 \<le> leaps Y" using Y by (simp add: leaps_def)
  have g: "0 \<le> 31 * g" using assms by (simp add: g_def)
  have "getDayOfWeek y m d = (d + Y + leaps Y + 31 * g div 12) mod 7"
  proof -
    have *: "y - (if m > 2 then 0 else 1) = Y" "m + 12 * (if m > 2 then 0 else 1) - 2 = g"
      by (simp_all add: Y_def g_def)
    have "0 \<le> d + Y + leaps Y + 31 * g div 12" using assms Y g \<open>0 \<le> leaps Y\<close> by simp
    then show ?thesis
      unfolding getDayOfWeek_def Let_def a * using Y g
      by (simp add: sdiv_nonneg smod_nonneg leaps_def algebra_simps)
  qed
  moreover have "7 dvd (days_from_civil y m d + 4) - (d + Y + leaps Y + 31 * g div 12)"
  proof -
    let ?w = "positive_months ! nat (m - 1) - 31 * g div 12"
    have "(days_from_civil y m d + 4) - (d + Y + leaps Y + 31 * g div 12)
        = 364 * y - 719524 + ?w + (if m > 2 then 0 else 1)"
      using lv by (simp add: days_from_civil_def year_start_def month_start_def Y_def)
    also have "\<dots> = 7 * (52 * y) + (?w + (if m > 2 then 0 else 1) - 719524)" by simp
    also have "7 dvd \<dots>"
    proof (rule dvd_add)
      show "7 dvd ?w + (if m > 2 then 0 else 1) - 719524"
        using m by (elim insertE emptyE) (simp_all add: positive_months_def g_def)
    qed simp
    finally show ?thesis .
  qed
  ultimately show ?thesis by (simp add: mod_eq_dvd_iff [THEN iffD2])
qed

section \<open>Normalisation of days, months and units\<close>

lemma days_from_civil_next_month:
  assumes "0 < m" "m < 13"
  shows "days_from_civil (if m + 1 = 13 then y + 1 else y) (if m + 1 = 13 then 1 else m + 1)
           (d - getLastDayOfMonth m y) = days_from_civil y m d"
  using assms month_start_step [of m "isLeapYear y"]
  by (auto simp: days_from_civil_def getLastDayOfMonth_eq year_start_step)

lemma normalize_day_up_ok:
  "0 < m \<Longrightarrow> m < 13 \<Longrightarrow> 0 < d \<Longrightarrow> normalize_day_up y m d = (y', m', d') \<Longrightarrow>
     valid_date y' m' d' \<and> days_from_civil y' m' d' = days_from_civil y m d"
proof (induction y m d rule: normalize_day_up.induct)
  case (1 y m d)
  note step = normalize_day_up.simps [of y m d]
  show ?case
  proof (cases "d > getLastDayOfMonth m y")
    case False
    with "1.prems" step show ?thesis by (auto simp: valid_date_def)
  next
    case True
    then have c: "0 < m \<and> m < 13 \<and> d > getLastDayOfMonth m y" using "1.prems" by simp
    note dm = days_from_civil_next_month [of m y d]
    show ?thesis
    proof (cases "m + 1 = 13")
      case m: True
      have "normalize_day_up (y + 1) 1 (d - getLastDayOfMonth m y) = (y', m', d')"
        using step c m "1.prems"(4) by simp
      then show ?thesis using "1.IH"(1) [OF c m] True dm m by simp
    next
      case m: False
      have "normalize_day_up y (m + 1) (d - getLastDayOfMonth m y) = (y', m', d')"
        using step c m "1.prems"(4) by simp
      then show ?thesis using "1.IH"(2) [OF c m] True c dm m by simp
    qed
  qed
qed

lemma normalize_day_down_ok:
  "0 < m \<Longrightarrow> m < 13 \<Longrightarrow> d \<le> getLastDayOfMonth m y \<Longrightarrow> normalize_day_down y m d = (y', m', d') \<Longrightarrow>
     valid_date y' m' d' \<and> days_from_civil y' m' d' = days_from_civil y m d"
proof (induction y m d rule: normalize_day_down.induct)
  case (1 y m d)
  note step = normalize_day_down.simps [of y m d]
  show ?case
  proof (cases "d < 1")
    case False
    with "1.prems" step show ?thesis by (auto simp: valid_date_def)
  next
    case True
    then have c: "0 < m \<and> m < 13 \<and> d < 1" using "1.prems" by simp
    show ?thesis
    proof (cases "m - 1 = 0")
      case m: True
      have "normalize_day_down (y - 1) 12 (d + getLastDayOfMonth 12 (y - 1)) = (y', m', d')"
        using step c m "1.prems"(4) by simp
      then show ?thesis
        using "1.IH"(1) [OF c m] True m
          days_from_civil_next_month [of 12 "y - 1" "d + getLastDayOfMonth 12 (y - 1)"] by simp
    next
      case m: False
      have "normalize_day_down y (m - 1) (d + getLastDayOfMonth (m - 1) y) = (y', m', d')"
        using step c m "1.prems"(4) by simp
      then show ?thesis
        using "1.IH"(2) [OF c m] True c m
          days_from_civil_next_month [of "m - 1" y "d + getLastDayOfMonth (m - 1) y"] by simp
    qed
  qed
qed

lemma normalize_day_ok:
  assumes "0 < m" "m < 13" "normalize_day y m d = (y', m', d')"
  shows "valid_date y' m' d' \<and> days_from_civil y' m' d' = days_from_civil y m d"
  using assms getLastDayOfMonth_bounds [of m y] normalize_day_up_ok [of m d y y' m' d']
    normalize_day_down_ok [of m d y y' m' d']
  by (auto simp: normalize_day_def split: if_splits)

lemma normalize_units2_ok:
  assumes "0 < ratio" "in_int32 smaller" "smaller \<noteq> - 2147483648"
    and t1: "\<And>x. in_int32 x \<Longrightarrow> t1 x = x"
    and n: "normalize_units2 t1 int32 bigger smaller ratio = (b, s)"
  shows "b = bigger + smaller div ratio" and "s = smaller mod ratio"
proof -
  let ?u = "smaller sdiv ratio"
  have u: "t1 ?u = ?u" "int32 (?u * ratio) = ?u * ratio"
    using sdiv_abs_le [OF assms(1), of smaller] sdiv_mult_le [OF assms(1), of smaller]
      in_int32_abs_le [OF _ assms(2,3)] t1 int32_id by blast+
  have sm: "smaller - ?u * ratio = smaller smod ratio" by (rule minus_sdiv_mult_eq_smod)
  have small: "\<not> (smaller \<le> - ratio \<or> smaller \<ge> ratio) \<Longrightarrow> ?u = 0 \<and> smaller smod ratio = smaller"
    by (cases "smaller < 0") (auto simp: sdiv_neg sdiv_nonneg smod_neg smod_nonneg)
  have "(b, s) = (if smaller smod ratio < 0 then (bigger + ?u - 1, smaller smod ratio + ratio)
                  else (bigger + ?u, smaller smod ratio))"
    unfolding n [symmetric] normalize_units2_def Let_def u sm using small
    by (cases "smaller \<le> - ratio \<or> smaller \<ge> ratio") auto
  then show "b = bigger + smaller div ratio" "s = smaller mod ratio"
    using sdiv_smod_floor [OF assms(1), of smaller] by (auto split: if_splits)
qed

lemma normalize_units_gen:
  assumes "0 < ratio"
    and u: "t1 (smaller sdiv ratio) = smaller sdiv ratio"
      "t2 (smaller sdiv ratio * ratio) = smaller sdiv ratio * ratio"
    and n: "normalize_units t1 t2 bigger smaller ratio = (b, s)"
  shows "b * ratio + s = bigger * ratio + smaller" and "\<bar>s\<bar> < ratio"
    and "b > 0 \<longrightarrow> s \<ge> 0" and "b < 0 \<longrightarrow> s \<le> 0"
proof -
  let ?u = "smaller sdiv ratio" and ?m = "smaller smod ratio"
  have sm: "smaller - ?u * ratio = ?m" by (rule minus_sdiv_mult_eq_smod)
  have small: "\<not> (smaller \<le> - ratio \<or> smaller \<ge> ratio) \<Longrightarrow> ?u = 0 \<and> ?m = smaller"
    by (cases "smaller < 0") (auto simp: sdiv_neg sdiv_nonneg smod_neg smod_nonneg)
  have m: "\<bar>?m\<bar> < ratio"
    using assms(1) pos_mod_bound [of ratio smaller] pos_mod_bound [of ratio "- smaller"]
      pos_mod_sign [of ratio smaller] pos_mod_sign [of ratio "- smaller"]
    by (cases "smaller < 0") (simp_all add: smod_neg smod_nonneg)
  have eq: "?u * ratio + ?m = smaller" by (rule sdiv_mult_smod_eq)
  have bs: "(b, s) = (let b = bigger + ?u in
      if b > 0 then (if ?m < 0 then (b - 1, ?m + ratio) else (b, ?m))
      else if b < 0 \<and> ?m > 0 then (b + 1, ?m - ratio) else (b, ?m))"
    unfolding n [symmetric] normalize_units_def Let_def u sm using small
    by (cases "smaller \<le> - ratio \<or> smaller \<ge> ratio") auto
  have "b = bigger + ?u - 1 \<and> s = ?m + ratio \<or> b = bigger + ?u + 1 \<and> s = ?m - ratio
      \<or> b = bigger + ?u \<and> s = ?m"
    using bs by (auto simp: Let_def split: if_splits)
  then have "b * ratio + s = (bigger + ?u) * ratio + ?m"
    by (elim disjE conjE; simp only:; simp add: algebra_simps)
  also have "\<dots> = bigger * ratio + (?u * ratio + ?m)" by (simp add: algebra_simps)
  finally show "b * ratio + s = bigger * ratio + smaller" by (simp only: eq)
  show "\<bar>s\<bar> < ratio" "b > 0 \<longrightarrow> s \<ge> 0" "b < 0 \<longrightarrow> s \<le> 0"
    using bs m by (auto simp: Let_def split: if_splits)
qed

lemma normalize_units_ok:
  assumes "0 < ratio" "in_int32 smaller" "smaller \<noteq> - 2147483648"
    and t1: "\<And>x. in_int32 x \<Longrightarrow> t1 x = x" and t2: "\<And>x. in_int32 x \<Longrightarrow> t2 x = x"
    and n: "normalize_units t1 t2 bigger smaller ratio = (b, s)"
  shows "b * ratio + s = bigger * ratio + smaller" and "\<bar>s\<bar> < ratio"
    and "b > 0 \<longrightarrow> s \<ge> 0" and "b < 0 \<longrightarrow> s \<le> 0"
proof -
  let ?u = "smaller sdiv ratio"
  have u: "t1 ?u = ?u" "t2 (?u * ratio) = ?u * ratio"
    using sdiv_abs_le [OF assms(1), of smaller] sdiv_mult_le [OF assms(1), of smaller]
      in_int32_abs_le [OF _ assms(2,3)] t1 t2 by blast+
  show "b * ratio + s = bigger * ratio + smaller" "\<bar>s\<bar> < ratio"
    "b > 0 \<longrightarrow> s \<ge> 0" "b < 0 \<longrightarrow> s \<le> 0"
    by (rule normalize_units_gen [OF assms(1) u n])+
qed

lemma normalize_dm_id: "valid_date y m d \<Longrightarrow> normalize_dm y m d = (y, m, d)"
  by (auto simp: valid_date_def normalize_dm_def getLastDayOfMonth_def month_lengths_def split: if_splits)

lemma normalize_dm_ok:
  assumes "in_int32 m" "m > - 2147483000" "1 \<le> d" "normalize_dm y m d = (y', m', d')"
  shows "valid_date y' m' d'" and "y' * 12 + (m' - 1) = y * 12 + (m - 1)"
    and "d' = min d (getLastDayOfMonth m' y')"
proof -
  obtain y1 m1 where ym: "(y1, m1) = (if m > 12 \<or> m < 1 then
                      let (y, m) = normalize_units2 int32 int32 y (m - 1) 12 in (y, m + 1)
                    else (y, m))" by (metis surj_pair)
  have "y1 = y + (m - 1) div 12 \<and> m1 = (m - 1) mod 12 + 1"
  proof (cases "m > 12 \<or> m < 1")
    case True
    obtain b s where n: "normalize_units2 int32 int32 y (m - 1) 12 = (b, s)" by fastforce
    have "b = y + (m - 1) div 12" "s = (m - 1) mod 12"
      using normalize_units2_ok [OF _ _ _ _ n] assms(1,2) int32_id by (auto simp: in_int32_def)
    with ym n True show ?thesis by simp
  next
    case False
    with ym show ?thesis by simp
  qed
  then have m1: "1 \<le> m1" "m1 \<le> 12" "y1 * 12 + (m1 - 1) = y * 12 + (m - 1)"
    using mult_div_mod_eq [of 12 "m - 1"] pos_mod_bound [of 12 "m - 1"] pos_mod_sign [of 12 "m - 1"]
    by (auto simp: algebra_simps)
  have "28 \<le> getLastDayOfMonth 2 y1" by (simp add: getLastDayOfMonth_def)
  then have d: "(if m1 = 2 \<and> d > 28 then (if isLeapYear y1 then 29 else 28)
               else if d > month_lengths ! nat m1 then month_lengths ! nat m1 else d)
      = min d (getLastDayOfMonth m1 y1)"
    by (auto simp: getLastDayOfMonth_def month_lengths_def)
  have "(y', m', d') = (y1, m1, min d (getLastDayOfMonth m1 y1))"
    unfolding assms(4) [symmetric] normalize_dm_def ym [symmetric] by (simp add: d)
  then show "valid_date y' m' d'" "y' * 12 + (m' - 1) = y * 12 + (m - 1)"
    "d' = min d (getLastDayOfMonth m' y')"
    using m1 assms(3) getLastDayOfMonth_bounds [of m1 y1] by (auto simp: valid_date_def)
qed

end
