(* ===== verification/Qore_Text.thy ===== *)
theory Qore_Text
  imports Qore_Prelude
begin

text \<open>
  C strings as the date code uses them: a cursor \<open>const char* p\<close> is the rest of the string,
  whose end reads as the NUL character; decimal digits, \<open>sprintf("%d")\<close> and
  \<open>sprintf("%0Nd")\<close>; and the digit readers of \<open>src/lib/qore_date_private.cpp\<close>.
\<close>

definition cur :: "string \<Rightarrow> char" where
  "cur p = (case p of [] \<Rightarrow> CHR 0x00 | c # _ \<Rightarrow> c)"

definition isdigit :: "char \<Rightarrow> bool" where
  "isdigit c \<longleftrightarrow> (48::nat) \<le> of_char c \<and> of_char c \<le> (57::nat)"

definition dig :: "char \<Rightarrow> int" where
  "dig c = int (of_char c) - 48"

definition digit_char :: "nat \<Rightarrow> char" where
  "digit_char d = char_of (48 + d)"

fun nat_digits :: "nat \<Rightarrow> string" where
  "nat_digits n =
     (if n < 10 then [digit_char n] else nat_digits (n div 10) @ [digit_char (n mod 10)])"

declare nat_digits.simps [simp del]

definition sprintf_d :: "int \<Rightarrow> string" where
  "sprintf_d x = (if x < 0 then CHR ''-'' # nat_digits (nat (- x)) else nat_digits (nat x))"

definition sprintf_0d :: "nat \<Rightarrow> int \<Rightarrow> string" where
  "sprintf_0d w x =
     (let s = nat_digits (nat \<bar>x\<bar>)
      in if x < 0 then CHR ''-'' # replicate (w - 1 - length s) CHR ''0'' @ s
         else replicate (w - length s) CHR ''0'' @ s)"

fun get_uint_loop :: "nat \<Rightarrow> int \<Rightarrow> string \<Rightarrow> int \<times> string" where
  "get_uint_loop 0 rc p = (rc, p)"
| "get_uint_loop (Suc n) rc p =
     (if \<not> isdigit (cur p) then (- 1, p) else get_uint_loop n (10 * rc + dig (cur p)) (tl p))"

definition get_uint :: "string \<Rightarrow> nat \<Rightarrow> int \<times> string" where
  "get_uint p digits = get_uint_loop digits 0 p"

section \<open>Printing and reading back\<close>

definition dval :: "int \<Rightarrow> string \<Rightarrow> int" where
  "dval r s = foldl (\<lambda>r c. 10 * r + dig c) r s"

lemma cur_simps [simp]: "cur [] = CHR 0x00" "cur (c # p) = c"
  by (simp_all add: cur_def)

lemma isdigit_nul [simp]: "\<not> isdigit (CHR 0x00)"
  by (simp add: isdigit_def)

lemma dval_simps [simp]:
  "dval r [] = r" "dval r (c # s) = dval (10 * r + dig c) s" "dval r (s @ t) = dval (dval r s) t"
  by (simp_all add: dval_def)

lemma digit_char_ok [simp]: "d < 10 \<Longrightarrow> isdigit (digit_char d)" "d < 10 \<Longrightarrow> dig (digit_char d) = int d"
  by (simp_all add: digit_char_def isdigit_def dig_def)

lemma isdigit_0 [simp]: "isdigit (CHR ''0'')" "dig (CHR ''0'') = 0"
  by (simp_all add: isdigit_def dig_def)

lemma isdigit_dig: "isdigit c \<Longrightarrow> 0 \<le> dig c \<and> dig c \<le> 9"
  by (auto simp: isdigit_def dig_def)

lemma nat_digits_digits: "\<forall>c \<in> set (nat_digits n). isdigit c"
proof (induction n rule: nat_digits.induct)
  case (1 n)
  then show ?case by (cases "n < 10") (auto simp: nat_digits.simps [of n])
qed

lemma nat_digits_value: "dval 0 (nat_digits n) = int n"
proof (induction n rule: nat_digits.induct)
  case (1 n)
  have "10 * int (n div 10) + int (n mod 10) = int n" by presburger
  with 1 show ?case by (cases "n < 10") (auto simp: nat_digits.simps [of n])
qed

lemma nat_digits_length: "0 < w \<Longrightarrow> n < 10 ^ w \<Longrightarrow> length (nat_digits n) \<le> w"
proof (induction n arbitrary: w rule: nat_digits.induct)
  case (1 n)
  show ?case
  proof (cases "n < 10")
    case True
    with "1.prems" show ?thesis by (simp add: nat_digits.simps [of n])
  next
    case False
    with "1.prems" obtain v where v: "w = Suc v" "0 < v" by (cases w) (auto split: if_splits, fastforce)
    with "1.prems" have "n div 10 < 10 ^ v" by (simp add: less_mult_imp_div_less mult.commute)
    with "1.IH" [OF False v(2)] show ?thesis using v False by (simp add: nat_digits.simps [of n])
  qed
qed

lemma nat_digits_nonempty [simp]: "nat_digits n \<noteq> []"
  by (simp add: nat_digits.simps [of n])

lemma dval_zeros [simp]: "dval 0 (replicate k CHR ''0'') = 0"
  by (induction k) auto

lemma sprintf_0d_ok:
  assumes "0 \<le> x" "x < 10 ^ w" "0 < w"
  shows "length (sprintf_0d w x) = w" "\<forall>c \<in> set (sprintf_0d w x). isdigit c"
    "dval 0 (sprintf_0d w x) = x"
proof -
  have "nat x < 10 ^ w" using assms by (simp add: nat_less_iff)
  then have "length (nat_digits (nat x)) \<le> w" using assms(3) by (rule nat_digits_length [rotated])
  then show "length (sprintf_0d w x) = w" "\<forall>c \<in> set (sprintf_0d w x). isdigit c"
    "dval 0 (sprintf_0d w x) = x"
    using assms(1) nat_digits_digits [of "nat x"]
    by (auto simp: sprintf_0d_def Let_def nat_digits_value)
qed

lemma get_uint_loop_digits:
  "\<forall>c \<in> set s. isdigit c \<Longrightarrow> get_uint_loop (length s) r (s @ p) = (dval r s, p)"
  by (induction s arbitrary: r) auto

lemma get_uint_sprintf [simp]:
  "0 \<le> x \<Longrightarrow> x < 10 ^ w \<Longrightarrow> 0 < w \<Longrightarrow> get_uint (sprintf_0d w x @ p) w = (x, p)"
  using get_uint_loop_digits [of "sprintf_0d w x" 0 p] sprintf_0d_ok [of x w]
  by (simp add: get_uint_def)

lemma get_uint_loop_bounds:
  "get_uint_loop n r p = (v, q) \<Longrightarrow> 0 \<le> r \<Longrightarrow> v = - 1 \<or> 0 \<le> v \<and> v < (r + 1) * 10 ^ n"
proof (induction n arbitrary: r p)
  case 0
  then show ?case by simp
next
  case (Suc n)
  show ?case
  proof (cases "isdigit (cur p)")
    case True
    note d = isdigit_dig [OF True]
    from Suc.prems True have "get_uint_loop n (10 * r + dig (cur p)) (tl p) = (v, q)" by simp
    from Suc.IH [OF this] d Suc.prems(2)
    have "v = - 1 \<or> 0 \<le> v \<and> v < (10 * r + dig (cur p) + 1) * 10 ^ n" by simp
    moreover have "(10 * r + dig (cur p) + 1) * 10 ^ n \<le> (10 * r + 10) * 10 ^ n"
      using d by (intro mult_right_mono) auto
    moreover have "(r + 1) * 10 ^ Suc n = (10 * r + 10) * 10 ^ n" by (simp add: algebra_simps)
    ultimately show ?thesis by linarith
  qed (use Suc.prems in simp)
qed

lemma get_uint_bounds: "get_uint p n = (v, q) \<Longrightarrow> v = - 1 \<or> 0 \<le> v \<and> v < 10 ^ n"
  using get_uint_loop_bounds [of n 0 p v q] by (simp add: get_uint_def)

end
