(* ===== verification/Date_Zone.thy ===== *)
theory Date_Zone
  imports Date_Info Qore_Text
begin

text \<open>
  Time zones: \<open>src/include/qore/intern/QoreTimeZoneManager.h\<close> (\<open>AbstractQoreZoneInfo\<close>,
  \<open>QoreOffsetZoneInfo\<close>, \<open>QoreZoneInfo\<close>) and \<open>src/lib/QoreTimeZoneManager.cpp\<close>
  (\<open>QoreZoneInfo::getUTCOffsetImpl\<close>, the tail of the zone file constructor, the parser and
  the cache of offset zones).  A \<open>const AbstractQoreZoneInfo*\<close> is a \<open>zone option\<close>: the null
  pointer is UTC.  A transition's \<open>trans\<close> pointer into the \<open>tti\<close> vector is the entry itself.
\<close>

section \<open>Zones\<close>

record QoreTransitionInfo =
  ti_utcoff :: int
  ti_abbr :: string
  ti_isdst :: bool

record QoreDSTTransition =
  tr_time :: int
  tr_trans :: QoreTransitionInfo

record QoreZoneInfo =
  zi_name :: string
  zi_utcoff :: int
  zi_has_dst :: bool
  zi_first_pos :: int
  zi_std_abbr :: string
  zi_transitions :: "QoreDSTTransition list"

record QoreOffsetZoneInfo =
  oz_name :: string
  oz_utcoff :: int
  oz_has_dst :: bool

datatype zone = OffsetZone QoreOffsetZoneInfo | RegionZone QoreZoneInfo

text \<open>The protected \<open>AbstractQoreZoneInfo\<close> constructor used by offset zones does not store the name.\<close>

definition mkOffsetZone :: "string \<Rightarrow> int \<Rightarrow> QoreOffsetZoneInfo" where
  "mkOffsetZone n_name n_utcoff = \<lparr>oz_name = [], oz_utcoff = n_utcoff, oz_has_dst = False\<rparr>"

section \<open>Offsets\<close>

text \<open>
  The two loops of \<open>QoreZoneInfo::getUTCOffsetImpl\<close>.  A read outside the transition vector
  is \<open>None\<close>: the behaviour of the program is undefined there.  The results are the offset,
  the DST flag and the zone abbreviation.
\<close>

definition vec_at :: "'a list \<Rightarrow> nat \<Rightarrow> 'a option" where
  "vec_at xs i = (if i < length xs then Some (xs ! i) else None)"

definition zi_unknown :: "QoreZoneInfo \<Rightarrow> int \<times> bool \<times> string" where
  "zi_unknown z = (zi_utcoff z, False, zi_std_abbr z)"

definition tr_result :: "QoreDSTTransition \<Rightarrow> int \<times> bool \<times> string" where
  "tr_result t = (ti_utcoff (tr_trans t), ti_isdst (tr_trans t), ti_abbr (tr_trans t))"

function zi_forward :: "QoreZoneInfo \<Rightarrow> int \<Rightarrow> nat \<Rightarrow> (int \<times> bool \<times> string) option" where
  "zi_forward z e i =
     (if i < length (zi_transitions z) - 1 then
        (case (vec_at (zi_transitions z) i, vec_at (zi_transitions z) (i + 1)) of
           (Some t, Some u) \<Rightarrow>
             if tr_time t \<le> e \<and> tr_time u > e then Some (tr_result t) else zi_forward z e (i + 1)
         | _ \<Rightarrow> None)
      else Some (zi_unknown z))"
  by pat_completeness auto
termination
  by (relation "measure (\<lambda>(z, e, i). length (zi_transitions z) - i)") auto

fun zi_backward :: "QoreZoneInfo \<Rightarrow> int \<Rightarrow> nat \<Rightarrow> (int \<times> bool \<times> string) option" where
  "zi_backward z e 0 = Some (zi_unknown z)"
| "zi_backward z e (Suc i) =
     (case vec_at (zi_transitions z) (Suc i) of
        None \<Rightarrow> None
      | Some t \<Rightarrow>
          if tr_time t > e then
            (case vec_at (zi_transitions z) i of
               None \<Rightarrow> None
             | Some u \<Rightarrow> if tr_time u \<le> e then Some (tr_result t) else zi_backward z e i)
          else zi_backward z e i)"

definition zi_getUTCOffsetImpl :: "QoreZoneInfo \<Rightarrow> int \<Rightarrow> (int \<times> bool \<times> string) option" where
  "zi_getUTCOffsetImpl z e =
     (if zi_first_pos z > 0 then
        (case vec_at (zi_transitions z) (nat (zi_first_pos z - 1)) of
           None \<Rightarrow> None
         | Some t \<Rightarrow>
             if e \<ge> tr_time t then zi_forward z e (nat (zi_first_pos z - 1))
             else zi_backward z e (nat (zi_first_pos z + 1)))
      else zi_backward z e (nat (zi_first_pos z + 1)))"

fun getUTCOffsetImpl :: "zone \<Rightarrow> int \<Rightarrow> (int \<times> bool \<times> string) option" where
  "getUTCOffsetImpl (OffsetZone z) e = Some (oz_utcoff z, False, oz_name z)"
| "getUTCOffsetImpl (RegionZone z) e = zi_getUTCOffsetImpl z e"

fun zone_utcoff :: "zone \<Rightarrow> int" where
  "zone_utcoff (OffsetZone z) = oz_utcoff z"
| "zone_utcoff (RegionZone z) = zi_utcoff z"

text \<open>The static overloads check for the null pointer.\<close>

definition getUTCOffset_std :: "zone option \<Rightarrow> int" where
  "getUTCOffset_std zo =
     (case zo of None \<Rightarrow> 0
      | Some z \<Rightarrow> if zone_utcoff z = - 1 then 0 else zone_utcoff z)"

text \<open>
  A lookup that reads outside of the transition vector has no defined result; \<open>getUTCOffset_full\<close> is then an
  unspecified value, about which nothing can be proved.  \<open>zone_defined\<close> says that this does not happen
  (\<open>zone_defined_region\<close> below).
\<close>

definition getUTCOffset_full :: "zone option \<Rightarrow> int \<Rightarrow> int \<times> bool \<times> string" where
  "getUTCOffset_full zo e =
     (case zo of None \<Rightarrow> (0, False, ''UTC'') | Some z \<Rightarrow> the (getUTCOffsetImpl z e))"

definition getUTCOffset :: "zone option \<Rightarrow> int \<Rightarrow> int" where
  "getUTCOffset zo e = fst (getUTCOffset_full zo e)"

definition zone_defined :: "zone option \<Rightarrow> int \<Rightarrow> bool" where
  "zone_defined zo e \<longleftrightarrow> (case zo of None \<Rightarrow> True | Some z \<Rightarrow> getUTCOffsetImpl z e \<noteq> None)"

fun zone_has_dst :: "zone \<Rightarrow> bool" where
  "zone_has_dst (OffsetZone z) = oz_has_dst z"
| "zone_has_dst (RegionZone z) = zi_has_dst z"

definition hasDST :: "zone option \<Rightarrow> bool" where
  "hasDST zo = (case zo of None \<Rightarrow> False | Some z \<Rightarrow> zone_has_dst z)"

fun zone_name :: "zone \<Rightarrow> string" where
  "zone_name (OffsetZone z) = oz_name z"
| "zone_name (RegionZone z) = zi_name z"

definition getRegionName :: "zone option \<Rightarrow> string" where
  "getRegionName zo = (case zo of None \<Rightarrow> ''UTC'' | Some z \<Rightarrow> zone_name z)"

section \<open>Building a zone from the tables of a zone file\<close>

text \<open>
  The \<open>QoreZoneInfo\<close> constructor after its reads: \<open>ttimes\<close> are the transition times,
  \<open>types\<close> the index of each transition's entry in \<open>tti\<close>.
\<close>

fun find_first_pos :: "nat \<Rightarrow> int list \<Rightarrow> int" where
  "find_first_pos i [] = - 1"
| "find_first_pos i (t # ts) = (if t \<ge> 0 then int i else find_first_pos (Suc i) ts)"

text \<open>
  Bands whose offset equals that of the band before are erased.  \<open>kept\<close> is the part of the
  vector before the iterator, last element first; \<open>i\<close> counts the iterations of the loop.
\<close>

fun prune_bands ::
    "int \<Rightarrow> QoreDSTTransition list \<Rightarrow> int \<Rightarrow> QoreDSTTransition list \<Rightarrow> QoreDSTTransition list \<times> int" where
  "prune_bands i kept first_pos [] = (rev kept, first_pos)"
| "prune_bands i [] first_pos (t # ts) = prune_bands (i + 1) [t] first_pos ts"
| "prune_bands i (k # ks) first_pos (t # ts) =
     (if ti_utcoff (tr_trans t) = ti_utcoff (tr_trans k)
      then prune_bands (i + 1) (k # ks) (if i < first_pos then first_pos - 1 else first_pos) ts
      else prune_bands (i + 1) (t # k # ks) first_pos ts)"

fun default_utcoff :: "QoreTransitionInfo list \<Rightarrow> int" where
  "default_utcoff [] = - 1"
| "default_utcoff (t # rest) =
     (if \<not> ti_isdst t \<and> ti_utcoff t \<noteq> - 1 then ti_utcoff t else default_utcoff rest)"

fun first_std_abbr :: "QoreTransitionInfo list \<Rightarrow> string" where
  "first_std_abbr [] = []"
| "first_std_abbr (t # ts) = (if \<not> ti_isdst t then ti_abbr t else first_std_abbr ts)"

definition mkZoneInfo ::
    "string \<Rightarrow> int list \<Rightarrow> nat list \<Rightarrow> QoreTransitionInfo list \<Rightarrow> xsink \<Rightarrow> QoreZoneInfo option \<times> xsink" where
  "mkZoneInfo n_name ttimes types tti xs =
     (if \<exists>t \<in> set types. t \<ge> length tti then (None, raiseException xs ''TZINFO-ERROR'')
      else
        let trans = map (\<lambda>(t, k). \<lparr>tr_time = t, tr_trans = tti ! k\<rparr>) (zip ttimes types);
            (pruned, first_pos) = prune_bands 0 [] (find_first_pos 0 ttimes) trans
        in (Some \<lparr>zi_name = n_name, zi_utcoff = default_utcoff (rev tti),
                  zi_has_dst = (\<exists>t \<in> set tti. ti_isdst t), zi_first_pos = first_pos,
                  zi_std_abbr = first_std_abbr tti, zi_transitions = pruned\<rparr>, xs))"

section \<open>Offset zones: printing, parsing, caching\<close>

definition concatOffset :: "int \<Rightarrow> string" where
  "concatOffset utcoffset =
     (let u = (if utcoffset < 0 then - utcoffset else utcoffset);
          h = u sdiv SECS_PER_HOUR;
          r = u smod SECS_PER_HOUR;
          m = r sdiv SECS_PER_MINUTE;
          s = u - h * SECS_PER_HOUR - m * SECS_PER_MINUTE
      in (if utcoffset < 0 then CHR ''-'' else CHR ''+'')
         # sprintf_0d 2 (if h < 0 then - h else h) @ '':'' @ sprintf_0d 2 m
         @ (if s \<noteq> 0 then '':'' @ sprintf_0d 2 s else []))"

datatype tz_error = TooShort | FirstDigit | SecondDigit | ExcessText

text \<open>
  \<open>tz_field\<close> is the two-digit field the parser reads three times, with the optional colon
  before the minutes and the seconds; \<open>unit\<close> is the weight of the field.
\<close>

definition tz_field :: "bool \<Rightarrow> int \<Rightarrow> string \<Rightarrow> tz_error + (int \<times> string)" where
  "tz_field colon unit p =
     (let p = (if colon \<and> cur p = CHR '':'' then tl p else p)
      in if \<not> isdigit (cur p) then Inl FirstDigit
         else if \<not> isdigit (cur (tl p)) then Inl SecondDigit
         else Inr (dig (cur p) * unit * 10 + dig (cur (tl p)) * unit, tl (tl p)))"

definition parse_utc_offset :: "string \<Rightarrow> tz_error + int" where
  "parse_utc_offset offset =
     (if length offset < 3 then Inl TooShort
      else case tz_field False SECS_PER_HOUR (tl offset) of
        Inl e \<Rightarrow> Inl e
      | Inr (h, p) \<Rightarrow>
          if p = [] then Inr h
          else case tz_field True SECS_PER_MINUTE p of
            Inl e \<Rightarrow> Inl e
          | Inr (m, p) \<Rightarrow>
              if p = [] then Inr (h + m)
              else case tz_field True 1 p of
                Inl e \<Rightarrow> Inl e
              | Inr (s, p) \<Rightarrow> if p \<noteq> [] then Inl ExcessText else Inr (h + m + s))"

record tz_manager =
  tzo_std_map :: "int \<rightharpoonup> QoreOffsetZoneInfo"
  tzomap :: "int \<rightharpoonup> QoreOffsetZoneInfo"

definition findCreateOffsetZone_str ::
    "tz_manager \<Rightarrow> string \<Rightarrow> xsink \<Rightarrow> tz_manager \<times> QoreOffsetZoneInfo option \<times> xsink" where
  "findCreateOffsetZone_str st offset xs =
     (case parse_utc_offset offset of
        Inl e \<Rightarrow> (st, None, raiseException xs ''PARSE-SET-TIME-ZONE-ERROR'')
      | Inr secs0 \<Rightarrow>
          if secs0 = 0 then (st, None, xs)
          else
            let secs = (if cur offset = CHR ''-'' then - secs0 else secs0)
            in case tzo_std_map st secs of
                 Some z \<Rightarrow> (st, Some z, xs)
               | None \<Rightarrow>
                   (case tzomap st secs of
                      Some z \<Rightarrow> (st, Some z, xs)
                    | None \<Rightarrow>
                        let ozi = mkOffsetZone (concatOffset secs) secs
                        in (st\<lparr>tzomap := (tzomap st)(secs \<mapsto> ozi)\<rparr>, Some ozi, xs)))"

definition findCreateOffsetZone ::
    "tz_manager \<Rightarrow> int \<Rightarrow> tz_manager \<times> QoreOffsetZoneInfo option" where
  "findCreateOffsetZone st seconds_east =
     (if seconds_east = 0 then (st, None)
      else case tzomap st seconds_east of
             Some z \<Rightarrow> (st, Some z)
           | None \<Rightarrow>
               let ozi = mkOffsetZone (concatOffset seconds_east) seconds_east
               in (st\<lparr>tzomap := (tzomap st)(seconds_east \<mapsto> ozi)\<rparr>, Some ozi))"

definition std_zones :: "(int \<times> string) list" where
  "std_zones =
     [(1 * 3600, ''+01''), (2 * 3600, ''+02''), (3 * 3600, ''+03''), (3 * 3600 + 30 * 60, ''+03:30''),
      (4 * 3600, ''+04''), (4 * 3600 + 30 * 60, ''+04:30''), (5 * 3600, ''+05''),
      (5 * 3600 + 30 * 60, ''+05:30''), (5 * 3600 + 45 * 60, ''+05:45''), (6 * 3600, ''+06''),
      (6 * 3600 + 30 * 60, ''+06:30''), (7 * 3600, ''+07''), (8 * 3600, ''+08''), (9 * 3600, ''+09''),
      (9 * 3600 + 30 * 60, ''+09:30''), (10 * 3600, ''+10''), (10 * 3600 + 30 * 60, ''+10:30''),
      (11 * 3600, ''+11''), (11 * 3600 + 30 * 60, ''+11:30''), (12 * 3600, ''+12''),
      (12 * 3600 + 45 * 60, ''+12:45''), (13 * 3600, ''+13''), (14 * 3600, ''+14''),
      (- 1 * 3600, ''-01''), (- 2 * 3600, ''-02''), (- 3 * 3600, ''-03''), (- 3 * 3600 - 30 * 60, ''-03:30''),
      (- 4 * 3600, ''-04''), (- 4 * 3600 - 30 * 60, ''-04:30''), (- 5 * 3600, ''-05''), (- 6 * 3600, ''-06''),
      (- 7 * 3600, ''-07''), (- 8 * 3600, ''-08''), (- 9 * 3600, ''-09''), (- 9 * 3600 - 30 * 60, ''-09:30''),
      (- 10 * 3600, ''-10''), (- 11 * 3600, ''-11''), (- 12 * 3600, ''-12'')]"

definition tz_manager_init :: tz_manager where
  "tz_manager_init =
     \<lparr>tzo_std_map = map_of (map (\<lambda>(off, name). (off, mkOffsetZone name off)) std_zones),
      tzomap = Map.empty\<rparr>"

text \<open>
  \<open>find_create_timezone\<close>: the call is \<open>isdigit(name[1] && isdigit(name[2]))\<close>, so
  \<open>isdigit\<close> is applied to the truth value 0 or 1.  Loading a region reads the file
  system: it is the parameter \<open>load\<close>.
\<close>

definition find_create_timezone ::
    "(string \<Rightarrow> zone option) \<Rightarrow> tz_manager \<Rightarrow> string \<Rightarrow> xsink \<Rightarrow> tz_manager \<times> zone option \<times> xsink" where
  "find_create_timezone load st name xs =
     (if (cur name = CHR ''+'' \<or> cur name = CHR ''-'')
         \<and> isdigit (char_of (if cur (tl name) \<noteq> CHR 0x00 \<and> isdigit (cur (tl (tl name)))
                            then 1 else (0::nat)))
      then (case findCreateOffsetZone_str st name xs of (st', z, xs') \<Rightarrow> (st', map_option OffsetZone z, xs'))
      else (st, load name, xs))"

section \<open>Correctness\<close>

lemma sprintf_2_two:
  assumes "0 \<le> x" "x < 100"
  obtains a b where "sprintf_0d 2 x = [a, b]" "isdigit a" "isdigit b" "dig a * 10 + dig b = x"
proof -
  have x: "x < 10 ^ 2" "0 < (2::nat)" using assms by simp_all
  note ok = sprintf_0d_ok [OF assms(1) x]
  obtain a b where s: "sprintf_0d 2 x = [a, b]"
    using ok(1) by (auto simp: length_Suc_conv numeral_2_eq_2)
  show ?thesis using that [OF s] ok(2,3) s by simp
qed

lemma isdigit_not_colon: "isdigit c \<Longrightarrow> c \<noteq> CHR '':''"
  by (auto simp: isdigit_def)

lemma tz_field_sprintf:
  assumes "0 \<le> x" "x < 100"
  shows "tz_field False u (sprintf_0d 2 x @ p) = Inr (x * u, p)"
    and "tz_field True u (CHR '':'' # sprintf_0d 2 x @ p) = Inr (x * u, p)"
proof -
  from assms obtain a b where s: "sprintf_0d 2 x = [a, b]" and d: "isdigit a" "isdigit b"
    and v: "dig a * 10 + dig b = x" by (rule sprintf_2_two)
  have "dig a * u * 10 + dig b * u = x * u" unfolding v [symmetric] by (simp add: algebra_simps)
  then show "tz_field False u (sprintf_0d 2 x @ p) = Inr (x * u, p)"
    "tz_field True u (CHR '':'' # sprintf_0d 2 x @ p) = Inr (x * u, p)"
    using d by (simp_all add: tz_field_def s)
qed

lemma hms_split:
  assumes "0 \<le> (u::int)"
  shows "u div 3600 * 3600 + (u mod 3600) div 60 * 60 + (u - u div 3600 * 3600 - (u mod 3600) div 60 * 60) = u"
    and "0 \<le> (u mod 3600) div 60" "(u mod 3600) div 60 < 60"
    and "0 \<le> u - u div 3600 * 3600 - (u mod 3600) div 60 * 60"
        "u - u div 3600 * 3600 - (u mod 3600) div 60 * 60 < 60"
proof -
  have "u - u div 3600 * 3600 - (u mod 3600) div 60 * 60 = (u mod 3600) mod 60"
    by (simp add: minus_div_mult_eq_mod)
  then show "0 \<le> u - u div 3600 * 3600 - (u mod 3600) div 60 * 60"
        "u - u div 3600 * 3600 - (u mod 3600) div 60 * 60 < 60" by simp_all
  have "0 \<le> u mod 3600" "u mod 3600 < 60 * 60" by simp_all
  then show "0 \<le> (u mod 3600) div 60" "(u mod 3600) div 60 < 60"
    by (simp_all add: pos_imp_zdiv_nonneg_iff div_less_iff_less_mult)
qed simp

lemma parse_concatOffset:
  assumes "\<bar>off\<bar> < 360000"
  shows "parse_utc_offset (concatOffset off) = Inr \<bar>off\<bar>"
    and "cur (concatOffset off) = (if off < 0 then CHR ''-'' else CHR ''+'')"
proof -
  define u where "u = \<bar>off\<bar>"
  define h m s where hms: "h = u div 3600" "m = (u mod 3600) div 60" "s = u - h * 3600 - m * 60"
  have u: "0 \<le> u" "u < 360000" using assms by (simp_all add: u_def)
  have h: "0 \<le> h" "h < 100" using u by (auto simp: hms pos_imp_zdiv_nonneg_iff div_less_iff_less_mult)
  have m: "0 \<le> m" "m < 100" and s: "0 \<le> s" "s < 100" and t: "h * 3600 + m * 60 + s = u"
    using hms_split [OF u(1), folded hms] by (simp_all add: hms(3))
  have c: "concatOffset off = (if off < 0 then CHR ''-'' else CHR ''+'')
      # sprintf_0d 2 h @ CHR '':'' # sprintf_0d 2 m @ (if s \<noteq> 0 then CHR '':'' # sprintf_0d 2 s @ [] else [])"
    using u h unfolding concatOffset_def Let_def
    by (simp add: hms u_def sdiv_nonneg smod_nonneg abs_if)
  have "length (sprintf_0d 2 h) = 2" using sprintf_0d_ok(1) [of h 2] h by simp
  then show "parse_utc_offset (concatOffset off) = Inr \<bar>off\<bar>"
    unfolding c parse_utc_offset_def u_def [symmetric] t [symmetric]
    using tz_field_sprintf(2) [OF m, of _ "[]"] tz_field_sprintf(2) [OF s, of _ "[]"]
    by (cases "s = 0") (simp_all add: tz_field_sprintf [OF h] tz_field_sprintf [OF m])
  show "cur (concatOffset off) = (if off < 0 then CHR ''-'' else CHR ''+'')" unfolding c by simp
qed

definition tz_inv :: "tz_manager \<Rightarrow> bool" where
  "tz_inv st \<longleftrightarrow> (\<forall>k z. tzomap st k = Some z \<or> tzo_std_map st k = Some z \<longrightarrow> oz_utcoff z = k)"

lemma tz_inv_init: "tz_inv tz_manager_init"
  unfolding tz_inv_def tz_manager_init_def std_zones_def mkOffsetZone_def
  by (auto split: if_splits)

lemma tz_inv_findCreate:
  assumes "tz_inv st" "findCreateOffsetZone st k = (st', z)"
  shows "tz_inv st'" "map_option oz_utcoff z = (if k = 0 then None else Some k)"
  using assms by (auto simp: findCreateOffsetZone_def tz_inv_def mkOffsetZone_def Let_def
      split: if_splits option.splits, metis)

lemma tz_inv_findCreate_str:
  assumes "tz_inv st" "findCreateOffsetZone_str st s xs = (st', z, xs')"
  shows "tz_inv st'"
  using assms by (auto simp: findCreateOffsetZone_str_def tz_inv_def mkOffsetZone_def Let_def
      split: if_splits option.splits sum.splits)
declare zi_forward.simps [simp del]

definition zi_wf :: "QoreZoneInfo \<Rightarrow> bool" where
  "zi_wf z \<longleftrightarrow> sorted_wrt (<) (map tr_time (zi_transitions z))"

definition in_band :: "QoreZoneInfo \<Rightarrow> int \<Rightarrow> nat \<Rightarrow> bool" where
  "in_band z e j \<longleftrightarrow> Suc j < length (zi_transitions z)
     \<and> tr_time (zi_transitions z ! j) \<le> e \<and> e < tr_time (zi_transitions z ! Suc j)"

lemma zi_wf_mono:
  "zi_wf z \<Longrightarrow> i \<le> j \<Longrightarrow> j < length (zi_transitions z) \<Longrightarrow>
     tr_time (zi_transitions z ! i) \<le> tr_time (zi_transitions z ! j)"
  using sorted_wrt_nth_less [of "(<)" "map tr_time (zi_transitions z)" i j]
  by (cases "i = j") (auto simp: zi_wf_def)

lemma zi_forward_band:
  assumes "zi_wf z" "in_band z e j"
  shows "i \<le> j \<Longrightarrow> zi_forward z e i = Some (tr_result (zi_transitions z ! j))"
proof (induction "j - i" arbitrary: i)
  case 0
  with assms show ?case by (simp add: zi_forward.simps [of z e i] in_band_def vec_at_def less_diff_conv)
next
  case (Suc k)
  then have "Suc i \<le> j" by simp
  moreover from this assms have "tr_time (zi_transitions z ! Suc i) \<le> e"
    using zi_wf_mono [of z "Suc i" j] by (simp add: in_band_def)
  ultimately show ?case using Suc assms
    by (simp add: zi_forward.simps [of z e i] in_band_def vec_at_def less_diff_conv)
qed

lemma zi_forward_after:
  assumes "zi_wf z" "zi_transitions z \<noteq> []" "tr_time (last (zi_transitions z)) \<le> e"
  shows "zi_forward z e i = Some (zi_unknown z)"
proof (induction "length (zi_transitions z) - i" arbitrary: i)
  case 0
  then have "\<not> i < length (zi_transitions z) - 1" by simp
  then show ?case by (simp add: zi_forward.simps [of z e i])
next
  case (Suc k)
  show ?case
  proof (cases "i < length (zi_transitions z) - 1")
    case True
    then have "tr_time (zi_transitions z ! Suc i) \<le> e"
      using assms zi_wf_mono [of z "Suc i" "length (zi_transitions z) - 1"] by (simp add: last_conv_nth)
    with True Suc show ?thesis by (simp add: zi_forward.simps [of z e i] vec_at_def)
  next
    case False
    then show ?thesis by (simp add: zi_forward.simps [of z e i])
  qed
qed

lemma zi_backward_band:
  assumes "zi_wf z" "in_band z e j"
  shows "Suc j \<le> i \<Longrightarrow> i < length (zi_transitions z) \<Longrightarrow>
           zi_backward z e i = Some (tr_result (zi_transitions z ! Suc j))"
proof (induction i)
  case 0
  then show ?case by simp
next
  case (Suc i)
  show ?case
  proof (cases "i = j")
    case True
    with assms Suc show ?thesis by (simp add: in_band_def vec_at_def)
  next
    case False
    with Suc have "Suc j \<le> i" by simp
    moreover from this Suc assms have "tr_time (zi_transitions z ! i) > e"
      using zi_wf_mono [of z "Suc j" i] by (simp add: in_band_def)
    ultimately show ?thesis using Suc assms by (auto simp: vec_at_def)
  qed
qed

lemma zi_backward_defined: "i < length (zi_transitions z) \<or> i = 0 \<Longrightarrow> \<exists>r. zi_backward z e i = Some r"
  by (induction i) (auto simp: vec_at_def simp del: split_paired_Ex)

lemma zi_forward_defined: "\<exists>r. zi_forward z e i = Some r"
proof (induction z e i rule: zi_forward.induct)
  case (1 z e i)
  then show ?case by (auto simp: zi_forward.simps [of z e i] vec_at_def less_diff_conv simp del: split_paired_Ex)
qed

lemma zone_defined_region:
  assumes "zi_first_pos z + 1 < int (length (zi_transitions z))"
  shows "zone_defined (Some (RegionZone z)) e"
proof (cases "0 < zi_first_pos z")
  case True
  then have "nat (zi_first_pos z - 1) < length (zi_transitions z)" "nat (zi_first_pos z + 1) < length (zi_transitions z)"
    using assms by linarith+
  then show ?thesis using zi_backward_defined [of "nat (zi_first_pos z + 1)" z e] zi_forward_defined [of z e "nat (zi_first_pos z - 1)"] True
    by (auto simp: zone_defined_def zi_getUTCOffsetImpl_def vec_at_def simp del: split_paired_Ex)
next
  case False
  then have "nat (zi_first_pos z + 1) < length (zi_transitions z) \<or> nat (zi_first_pos z + 1) = 0" using assms by linarith
  then show ?thesis using zi_backward_defined [of "nat (zi_first_pos z + 1)" z e] False
    by (auto simp: zone_defined_def zi_getUTCOffsetImpl_def simp del: split_paired_Ex)
qed

lemma zone_defined_fixed: "zone_defined None e" "zone_defined (Some (OffsetZone z)) e"
  by (simp_all add: zone_defined_def)

section \<open>Properties\<close>

text \<open>For a zone whose transition times increase, the offset of a moment at or after the
transition before \<open>first_pos\<close> is that of the last transition not after the moment; from the
zone's last transition on it is the default offset of the zone.\<close>

theorem zone_offset_from_first_pos:
  assumes "zi_wf z" and "0 < zi_first_pos z" and "zi_first_pos z \<le> int (length (zi_transitions z))"
    and "tr_time (zi_transitions z ! nat (zi_first_pos z - 1)) \<le> e"
  shows "getUTCOffsetImpl (RegionZone z) e =
     Some (if tr_time (last (zi_transitions z)) \<le> e then zi_unknown z
           else tr_result (last (takeWhile (\<lambda>t. tr_time t \<le> e) (zi_transitions z))))"
proof -
  let ?ts = "zi_transitions z" and ?p = "nat (zi_first_pos z - 1)"
  have p: "?p < length ?ts" using assms by linarith
  then have g: "zi_getUTCOffsetImpl z e = zi_forward z e ?p"
    using assms by (simp add: zi_getUTCOffsetImpl_def vec_at_def)
  show ?thesis
  proof (cases "tr_time (last ?ts) \<le> e")
    case True
    have "?ts \<noteq> []" using p by auto
    with True g assms(1) show ?thesis by (simp add: zi_forward_after)
  next
    case False
    define w where "w = takeWhile (\<lambda>t. tr_time t \<le> e) ?ts"
    define j where "j = length w - 1"
    have pw: "?p < length w"
    proof (rule ccontr)
      assume n: "\<not> ?p < length w"
      then have "tr_time (?ts ! length w) \<le> tr_time (?ts ! ?p)" using assms(1) p zi_wf_mono by simp
      moreover have "\<not> tr_time (?ts ! length w) \<le> e"
        using nth_length_takeWhile [of "\<lambda>t. tr_time t \<le> e" ?ts] n p by (simp add: w_def)
      ultimately show False using assms(4) by simp
    qed
    then have jw: "j < length w" "Suc j = length w" "w \<noteq> []" by (auto simp: j_def)
    have lt: "length w < length ?ts"
    proof -
      have "w \<noteq> ?ts" using False p unfolding w_def by (metis takeWhile_eq_all_conv last_in_set list.size(3) not_less_zero)
      then show ?thesis unfolding w_def
        by (metis le_neq_implies_less length_takeWhile_le takeWhile_eq_take take_all order_refl)
    qed
    have wj: "w ! j = ?ts ! j" "tr_time (w ! j) \<le> e"
      using jw(1) takeWhile_nth [of j "\<lambda>t. tr_time t \<le> e" ?ts] nth_mem [OF jw(1)]
        set_takeWhileD [of "w ! j" "\<lambda>t. tr_time t \<le> e" ?ts]
      unfolding w_def by blast+
    have "\<not> tr_time (?ts ! length w) \<le> e"
      using nth_length_takeWhile [of "\<lambda>t. tr_time t \<le> e" ?ts] lt by (simp add: w_def)
    then have b: "in_band z e j" "?p \<le> j" using jw lt wj pw by (auto simp: in_band_def)
    have "last w = ?ts ! j" using wj jw by (simp add: last_conv_nth j_def)
    then show ?thesis using g False zi_forward_band [OF assms(1) b] by (simp add: w_def)
  qed
qed
definition example_zone :: QoreZoneInfo where
  "example_zone = \<lparr>zi_name = ''X'', zi_utcoff = 3600, zi_has_dst = True, zi_first_pos = 2,
     zi_std_abbr = ''CET'',
     zi_transitions = [\<lparr>tr_time = - 3000, tr_trans = \<lparr>ti_utcoff = 3600, ti_abbr = ''CET'', ti_isdst = False\<rparr>\<rparr>,
       \<lparr>tr_time = - 2000, tr_trans = \<lparr>ti_utcoff = 7200, ti_abbr = ''CEST'', ti_isdst = True\<rparr>\<rparr>,
       \<lparr>tr_time = 1000, tr_trans = \<lparr>ti_utcoff = 3600, ti_abbr = ''CET'', ti_isdst = False\<rparr>\<rparr>,
       \<lparr>tr_time = 2000, tr_trans = \<lparr>ti_utcoff = 7200, ti_abbr = ''CEST'', ti_isdst = True\<rparr>\<rparr>]\<rparr>"

theorem zone_offset_from_first_pos_witness:
  "getUTCOffsetImpl (RegionZone example_zone) 500 = Some (7200, True, ''CEST'')
   \<and> getUTCOffsetImpl (RegionZone example_zone) 1500 = Some (3600, False, ''CET'')"
  using zone_offset_from_first_pos [of example_zone 500] zone_offset_from_first_pos [of example_zone 1500]
  by (simp add: example_zone_def zi_wf_def tr_result_def)

text \<open>Before the last transition preceding 1970 the lookup answers with the wrong band: a
moment between transitions \<open>j\<close> and \<open>j + 1\<close> gets the offset, flag and name of transition
\<open>j + 1\<close>, which is in force only later.\<close>

theorem zone_offset_before_first_pos_next_band:
  assumes "zi_wf z" and "in_band z e j" and "int j < zi_first_pos z - 1"
    and "zi_first_pos z + 1 < int (length (zi_transitions z))"
  shows "getUTCOffsetImpl (RegionZone z) e = Some (tr_result (zi_transitions z ! Suc j))"
proof -
  have p: "nat (zi_first_pos z - 1) < length (zi_transitions z)" "Suc j \<le> nat (zi_first_pos z - 1)"
    using assms by linarith+
  then have "e < tr_time (zi_transitions z ! nat (zi_first_pos z - 1))"
    using assms zi_wf_mono [of z "Suc j" "nat (zi_first_pos z - 1)"] by (simp add: in_band_def)
  then have "zi_getUTCOffsetImpl z e = zi_backward z e (nat (zi_first_pos z + 1))"
    using assms p by (simp add: zi_getUTCOffsetImpl_def vec_at_def)
  also have "\<dots> = Some (tr_result (zi_transitions z ! Suc j))"
    using assms p by (intro zi_backward_band) linarith+
  finally show ?thesis by simp
qed

theorem zone_offset_before_first_pos_witness:
  "in_band example_zone (- 2500) 0
   \<and> ti_utcoff (tr_trans (zi_transitions example_zone ! 0)) = 3600
   \<and> getUTCOffsetImpl (RegionZone example_zone) (- 2500) = Some (7200, True, ''CEST'')"
  using zone_offset_before_first_pos_next_band [of example_zone "- 2500" 0]
  by (simp add: example_zone_def zi_wf_def tr_result_def in_band_def)

text \<open>Every cached offset zone carries the offset it is stored under, in the initial manager
and after any lookup; and the parser reads back the offset the printer writes, so that looking
a printed offset up yields a zone of exactly that offset (UTC, the null zone, for 0).\<close>

theorem offset_zone_round_trip:
  assumes "tz_inv st" and "\<bar>off\<bar> < 360000"
    and "findCreateOffsetZone_str st (concatOffset off) xs = (st', z, xs')"
  shows "tz_inv tz_manager_init \<and> tz_inv st' \<and> xs' = xs
    \<and> map_option oz_utcoff z = (if off = 0 then None else Some off)"
proof -
  note pc = parse_concatOffset [OF assms(2)]
  have "(if cur (concatOffset off) = CHR ''-'' then - \<bar>off\<bar> else \<bar>off\<bar>) = off"
    by (simp add: pc(2))
  then show ?thesis
    using assms tz_inv_init pc(1) tz_inv_findCreate_str [OF assms(1,3)]
    by (auto simp: findCreateOffsetZone_str_def Let_def mkOffsetZone_def tz_inv_def
        split: option.splits if_splits) metis+
qed

theorem offset_zone_round_trip_witness:
  "case findCreateOffsetZone_str tz_manager_init (concatOffset (- 19800)) [] of
     (st', z, xs') \<Rightarrow> map_option oz_utcoff z = Some (- 19800)"
proof -
  obtain st' z xs' where r: "findCreateOffsetZone_str tz_manager_init (concatOffset (- 19800)) [] = (st', z, xs')"
    by (metis prod_cases3)
  show ?thesis using offset_zone_round_trip [OF tz_inv_init _ r] r by simp
qed

text \<open>\<open>find_create_timezone\<close> never treats its argument as a UTC offset: whatever the name, it
asks for a region of that name.\<close>

theorem find_create_timezone_always_region:
  "find_create_timezone load st name xs = (st, load name, xs)"
  by (simp add: find_create_timezone_def isdigit_def)

end
