(* ===== verification/Date_Time.thy ===== *)
theory Date_Time
  imports Date_Zone
begin

text \<open>
  Broken-down, absolute and relative date/time values:
  \<open>qore_simple_tm\<close>, \<open>qore_time_info\<close>, \<open>qore_simple_tm2\<close>, \<open>qore_absolute_time\<close>,
  \<open>qore_relative_time\<close> and \<open>qore_date_private\<close> of
  \<open>src/include/qore/intern/qore_date_private.h\<close> and \<open>src/lib/qore_date_private.cpp\<close>.
  Methods that update their object return the new object; the current time zone, the clock
  and the zone of a literal are arguments.
\<close>

section \<open>Broken-down values\<close>

record qore_simple_tm =
  year :: int
  month :: int
  day :: int
  hour :: int
  minute :: int
  second :: int
  us :: int

definition tm_zero :: qore_simple_tm where
  "tm_zero = \<lparr>year = 0, month = 0, day = 0, hour = 0, minute = 0, second = 0, us = 0\<rparr>"

definition tm_fields :: "int \<Rightarrow> int \<Rightarrow> int \<Rightarrow> int \<Rightarrow> int \<Rightarrow> int \<Rightarrow> int \<Rightarrow> qore_simple_tm" where
  "tm_fields y mo d h mi s u =
     \<lparr>year = y, month = mo, day = d, hour = h, minute = mi, second = s, us = u\<rparr>"

definition tm_set :: "int \<Rightarrow> int \<Rightarrow> qore_simple_tm" where
  "tm_set seconds my_us =
     (let (secs, u) = normalize_units3 seconds my_us 1000000;
          (e, y, ly) = get_epoch_year secs;
          (mo, d) = month_loop ly 1 (int32 (e sdiv SECS_PER_DAY));
          s = int32 (e smod SECS_PER_DAY);
          h = s sdiv SECS_PER_HOUR;
          s1 = s smod SECS_PER_HOUR
      in tm_fields y mo (d + 1) h (s1 sdiv SECS_PER_MINUTE) (s1 smod SECS_PER_MINUTE) (int32 u))"

definition tm_hasValue :: "qore_simple_tm \<Rightarrow> bool" where
  "tm_hasValue t \<longleftrightarrow> year t \<noteq> 0 \<or> month t \<noteq> 0 \<or> day t \<noteq> 0 \<or> hour t \<noteq> 0 \<or> minute t \<noteq> 0
     \<or> second t \<noteq> 0 \<or> us t \<noteq> 0"

record qore_time_info = qore_simple_tm +
  ti_zname :: string
  ti_utcoffset :: int
  ti_dst :: bool
  ti_zone :: "zone option"

definition info_of ::
    "qore_simple_tm \<Rightarrow> string \<Rightarrow> int \<Rightarrow> bool \<Rightarrow> zone option \<Rightarrow> qore_time_info" where
  "info_of t zn off dst z =
     \<lparr>year = year t, month = month t, day = day t, hour = hour t, minute = minute t,
      second = second t, us = us t, ti_zname = zn, ti_utcoffset = off, ti_dst = dst, ti_zone = z\<rparr>"

definition info_set ::
    "int \<Rightarrow> int \<Rightarrow> int \<Rightarrow> bool \<Rightarrow> string \<Rightarrow> zone option \<Rightarrow> qore_time_info" where
  "info_set epoch n_us n_utcoffset n_isdst n_zname n_zone =
     info_of (tm_set (epoch + n_utcoffset) n_us) n_zname n_utcoffset n_isdst n_zone"

text \<open>The decimal literal \<open>YYYYMMDDhhmmss\<close> shared by both \<open>setLiteral\<close> methods.\<close>

definition literal_fields :: "int \<Rightarrow> int \<Rightarrow> qore_simple_tm" where
  "literal_fields date usecs =
     (let y = int32 (date sdiv 10000000000); d1 = date - y * 10000000000;
          mo = int32 (d1 sdiv 100000000); d2 = d1 - mo * 100000000;
          d = int32 (d2 sdiv 1000000); d3 = d2 - d * 1000000;
          h = int32 (d3 sdiv 10000); d4 = d3 - h * 10000;
          mi = int32 (d4 sdiv 100)
      in tm_fields y mo d h mi (int32 (d4 - mi * 100)) usecs)"

definition tm2_setLiteral :: "int \<Rightarrow> int \<Rightarrow> qore_simple_tm" where
  "tm2_setLiteral date usecs =
     (let t = literal_fields date usecs;
          (s, u) = normalize_units2 int32 int32 (second t) (us t) 1000000;
          (mi, s) = normalize_units2 int32 int32 (minute t) s 60;
          (h, mi) = normalize_units2 int32 int32 (hour t) mi 60;
          (d, h) = normalize_units2 int32 int32 (day t) h 24;
          (y, mo) = (if month t > 12 then
                       let (y, m) = normalize_units2 int32 int32 (year t) (month t - 1) 12 in (y, m + 1)
                     else (year t, if month t = 0 then 1 else month t));
          d = (if d = 0 then 1 else d);
          (y, mo, d) = normalize_day y mo d
      in tm_fields y mo d h mi s u)"

definition tm2_getISOWeek :: "int \<Rightarrow> int \<Rightarrow> int \<Rightarrow> int \<times> int \<times> int" where
  "tm2_getISOWeek yr mo d =
     (let jan1 = getDayOfWeek yr 1 1;
          dn = getDayNumber yr mo d;
          dow = (dn + jan1 - 1) smod 7;
          wday = (if dow = 0 then 7 else dow)
      in if (jan1 = 0 \<and> dn = 1) \<or> (jan1 = 5 \<and> dn < 4) \<or> (jan1 = 6 \<and> dn < 3) then
           let y = yr - 1; j = getDayOfWeek y 1 1
           in (y, if (j = 4 \<and> \<not> isLeapYear y) \<or> (j = 3 \<and> isLeapYear y) then 53 else 52, wday)
         else
           let offset = (if jan1 > 4 then jan1 - 9 else jan1 - 2);
               week = (dn + offset) sdiv 7 + 1
           in if week = 53 \<and> \<not> ((jan1 = 4 \<and> \<not> isLeapYear yr) \<or> (jan1 = 3 \<and> isLeapYear yr))
              then (yr + 1, 1, wday) else (yr, week, wday))"

section \<open>Absolute date/time values\<close>

record qore_absolute_time =
  epoch :: int
  abs_us :: int
  abs_zone :: "zone option"

definition abs_set :: "zone option \<Rightarrow> int \<Rightarrow> int \<Rightarrow> qore_absolute_time" where
  "abs_set z n_epoch n_us =
     (let (e, u) = normalize_units2 int64 int32 n_epoch n_us 1000000
      in \<lparr>epoch = e, abs_us = uint32 u, abs_zone = z\<rparr>)"

definition setLocalIntern :: "qore_absolute_time \<Rightarrow> int \<Rightarrow> qore_absolute_time" where
  "setLocalIntern t n_us =
     (let (e, u) = normalize_units2 int64 int32 (epoch t) n_us 1000000;
          off = getUTCOffset_std (abs_zone t);
          e = e - off;
          aoff = getUTCOffset (abs_zone t) e;
          e = (if aoff \<noteq> off then e - (aoff - off) else e)
      in t\<lparr>epoch := e, abs_us := uint32 u\<rparr>)"

definition abs_setLocal :: "zone option \<Rightarrow> int \<Rightarrow> int \<Rightarrow> qore_absolute_time" where
  "abs_setLocal z n_epoch n_us =
     (let (e, u) = normalize_units2 int64 int32 n_epoch n_us 1000000
      in setLocalIntern \<lparr>epoch = e, abs_us = 0, abs_zone = z\<rparr> u)"

definition abs_set_fields ::
    "zone option \<Rightarrow> int \<Rightarrow> int \<Rightarrow> int \<Rightarrow> int \<Rightarrow> int \<Rightarrow> int \<Rightarrow> int \<Rightarrow> qore_absolute_time" where
  "abs_set_fields z y mo d h mi s n_us =
     setLocalIntern \<lparr>epoch = getEpochSeconds y mo d h mi s, abs_us = 0, abs_zone = z\<rparr> n_us"

definition date_field_error ::
    "int \<Rightarrow> int \<Rightarrow> int \<Rightarrow> int \<Rightarrow> int \<Rightarrow> int \<Rightarrow> int \<Rightarrow> bool" where
  "date_field_error y mo d h mi s n_us \<longleftrightarrow>
     mo < 1 \<or> mo > 12 \<or> d < 1 \<or> (d > 28 \<and> d > getLastDayOfMonth mo y)
     \<or> h < 0 \<or> h > 23 \<or> mi < 0 \<or> mi > 60 \<or> s < 0 \<or> s > 60 \<or> n_us < 0 \<or> n_us > 999999"

definition abs_set_fields_x ::
    "zone option \<Rightarrow> int \<Rightarrow> int \<Rightarrow> int \<Rightarrow> int \<Rightarrow> int \<Rightarrow> int \<Rightarrow> int \<Rightarrow> xsink
       \<Rightarrow> qore_absolute_time \<times> xsink" where
  "abs_set_fields_x z y mo d h mi s n_us xs =
     (abs_set_fields z y mo d h mi s n_us,
      if date_field_error y mo d h mi s n_us then raiseException xs ''INVALID-DATE'' else xs)"

definition local_tm :: "qore_absolute_time \<Rightarrow> qore_simple_tm" where
  "local_tm t = tm_set (epoch t + getUTCOffset (abs_zone t) (epoch t)) (abs_us t)"

definition abs_setTime :: "qore_absolute_time \<Rightarrow> int \<Rightarrow> int \<Rightarrow> int \<Rightarrow> int \<Rightarrow> qore_absolute_time" where
  "abs_setTime t h m s usecs =
     (let tm = local_tm t;
          (s, usecs) = normalize_units2 int32 int32 s usecs 1000000;
          (m, s) = normalize_units2 int32 int32 m s 60;
          (h, m) = normalize_units2 int32 int32 h m 60;
          h = (if h < 0 then 0 else if h > 23 then 23 else h)
      in setLocalIntern (t\<lparr>epoch := getEpochSeconds (year tm) (month tm) (day tm) h m s\<rparr>) usecs)"

definition abs_setLiteral :: "zone option \<Rightarrow> int \<Rightarrow> int \<Rightarrow> qore_absolute_time" where
  "abs_setLiteral tz date usecs =
     (let tm = tm2_setLiteral date usecs
      in abs_set_fields tz (year tm) (month tm) (day tm) (hour tm) (minute tm) (second tm) usecs)"

definition abs_getISOWeek :: "qore_absolute_time \<Rightarrow> int \<times> int \<times> int" where
  "abs_getISOWeek t = (let tm = local_tm t in tm2_getISOWeek (year tm) (month tm) (day tm))"

definition abs_get :: "qore_absolute_time \<Rightarrow> qore_time_info" where
  "abs_get t =
     (let (offset, isdst, zname) = getUTCOffset_full (abs_zone t) (epoch t)
      in info_set (epoch t) (abs_us t) offset isdst zname (abs_zone t))"

definition abs_get_zone :: "zone option \<Rightarrow> qore_absolute_time \<Rightarrow> qore_time_info" where
  "abs_get_zone z t =
     (let (offset, isdst, zname) = getUTCOffset_full z (epoch t)
      in info_set (epoch t) (abs_us t) offset isdst zname (abs_zone t))"

definition int16 :: "int \<Rightarrow> int" where
  "int16 x = (x + 32768) mod 65536 - 32768"

definition abs_getYear :: "qore_absolute_time \<Rightarrow> int" where
  "abs_getYear t = int16 (year (local_tm t))"

definition abs_getMonth :: "qore_absolute_time \<Rightarrow> int" where "abs_getMonth t = month (local_tm t)"

definition abs_getDay :: "qore_absolute_time \<Rightarrow> int" where "abs_getDay t = day (local_tm t)"

definition abs_getHour :: "qore_absolute_time \<Rightarrow> int" where
  "abs_getHour t =
     (if epoch t \<ge> 0 then
        ((epoch t + getUTCOffset (abs_zone t) (epoch t)) smod SECS_PER_DAY) sdiv SECS_PER_HOUR
      else hour (abs_get t))"

definition abs_getMinute :: "qore_absolute_time \<Rightarrow> int" where
  "abs_getMinute t =
     (if epoch t \<ge> 0 then
        ((epoch t + getUTCOffset (abs_zone t) (epoch t)) smod SECS_PER_HOUR) sdiv SECS_PER_MINUTE
      else minute (abs_get t))"

definition abs_getSecond :: "qore_absolute_time \<Rightarrow> int" where
  "abs_getSecond t =
     (if epoch t \<ge> 0 then (epoch t + getUTCOffset (abs_zone t) (epoch t)) smod SECS_PER_MINUTE
      else second (abs_get t))"

definition abs_getMillisecond :: "qore_absolute_time \<Rightarrow> int" where
  "abs_getMillisecond t = int32 (abs_us t div 1000)"

definition abs_getMicrosecond :: "qore_absolute_time \<Rightarrow> int" where
  "abs_getMicrosecond t = int32 (abs_us t)"

definition abs_getRelativeMicroseconds :: "int \<times> int \<Rightarrow> qore_absolute_time \<Rightarrow> int" where
  "abs_getRelativeMicroseconds now t =
     (let ds = (epoch t - fst now) * 1000000 + (abs_us t - snd now) in if ds < 0 then 0 else ds)"

definition abs_compare :: "qore_absolute_time \<Rightarrow> qore_absolute_time \<Rightarrow> int" where
  "abs_compare l r =
     (if epoch l > epoch r then 1 else if epoch l < epoch r then - 1
      else if abs_us l > abs_us r then 1 else if abs_us l < abs_us r then - 1 else 0)"

definition abs_getDayOfWeek :: "qore_absolute_time \<Rightarrow> int" where
  "abs_getDayOfWeek t = (let tm = local_tm t in getDayOfWeek (year tm) (month tm) (day tm))"

definition abs_getDayNumber :: "qore_absolute_time \<Rightarrow> int" where
  "abs_getDayNumber t = (let tm = local_tm t in getDayNumber (year tm) (month tm) (day tm))"

definition abs_getEpochSeconds :: "qore_absolute_time \<Rightarrow> int" where
  "abs_getEpochSeconds t = epoch t + getUTCOffset (abs_zone t) (epoch t)"

definition abs_getEpochMicrosecondsUTC :: "qore_absolute_time \<Rightarrow> int" where
  "abs_getEpochMicrosecondsUTC t = epoch t * 1000000 + abs_us t"

definition abs_getEpochMillisecondsUTC :: "qore_absolute_time \<Rightarrow> int" where
  "abs_getEpochMillisecondsUTC t = epoch t * 1000 + abs_us t div 1000"

definition abs_unaryMinus :: "qore_absolute_time \<Rightarrow> qore_absolute_time" where
  "abs_unaryMinus t = t\<lparr>epoch := - epoch t, abs_us := uint32 (- abs_us t)\<rparr>"

definition abs_addSecondsTo :: "qore_absolute_time \<Rightarrow> int \<Rightarrow> int \<Rightarrow> qore_absolute_time" where
  "abs_addSecondsTo t secs n_us = abs_set (abs_zone t) (epoch t + secs) (int32 (uint32 (abs_us t + n_us)))"

text \<open>
  \<open>operator+=\<close>: the three products of the time part are \<open>int\<close> arithmetic, so their sum is
  taken modulo the width of \<open>int\<close>.
\<close>

definition abs_plus :: "qore_absolute_time \<Rightarrow> qore_simple_tm \<Rightarrow> qore_absolute_time" where
  "abs_plus t dt =
     (let (e, usecs) =
        (if year dt \<noteq> 0 \<or> month dt \<noteq> 0 \<or> day dt \<noteq> 0 then
           let tm = local_tm t;
               (y, mo, d) = normalize_dm (year tm + year dt) (month tm + month dt) (day tm);
               (y, mo, d) = normalize_day y mo (d + day dt);
               e = getEpochSeconds y mo d (hour tm) (minute tm) (second tm)
           in (e - getUTCOffset (abs_zone t) e, us tm)
         else (epoch t, int32 (abs_us t)));
        (e, u) = normalize_units2 int64 int32
                   (e + int32 (SECS_PER_HOUR * hour dt + SECS_PER_MINUTE * minute dt + second dt))
                   (usecs + us dt) 1000000
      in t\<lparr>epoch := e, abs_us := uint32 u\<rparr>)"

section \<open>Relative date/time values\<close>

definition rel_normalize :: "bool \<Rightarrow> qore_simple_tm \<Rightarrow> qore_simple_tm" where
  "rel_normalize for_comparison t =
     (let (s, u) = normalize_units int32 int32 (second t) (us t) 1000000;
          (mi, s) = normalize_units int32 int32 (minute t) s 60;
          (h, mi) = normalize_units int32 int32 (hour t) mi 60;
          (y, mo, d, h) =
            (if for_comparison then
               let (d, h) = normalize_units int32 int32 (day t) h 24;
                   (y, d) = normalize_units int32 int32 (year t) d 365;
                   (mo, d) = normalize_units int32 int32 (month t) d 31
               in (y, mo, d, h)
             else (year t, month t, day t, h));
          (y, mo) = normalize_units int32 int32 y mo 12
      in tm_fields y mo d h mi s u)"

definition rel_set :: "int \<Rightarrow> int \<Rightarrow> int \<Rightarrow> int \<Rightarrow> int \<Rightarrow> int \<Rightarrow> int \<Rightarrow> qore_simple_tm" where
  "rel_set y mo d h mi s u = rel_normalize False (tm_fields y mo d h mi s u)"

definition rel_setDifference :: "int \<Rightarrow> int \<Rightarrow> qore_absolute_time \<Rightarrow> qore_simple_tm" where
  "rel_setDifference seconds micros dt =
     (let (sec, u) = normalize_units int64 int32 (seconds - epoch dt) (int32 (uint32 (micros - abs_us dt))) 1000000;
          (h, sec) = normalize_units int32 int64 0 sec 3600;
          (mi, sec) = normalize_units int32 int64 0 sec 60
      in tm_fields 0 0 0 h mi (int32 sec) u)"

definition rel_setLiteral :: "int \<Rightarrow> int \<Rightarrow> qore_simple_tm" where
  "rel_setLiteral date usecs = rel_normalize False (literal_fields date usecs)"

definition rel_setSeconds :: "int \<Rightarrow> int \<Rightarrow> qore_simple_tm" where
  "rel_setSeconds s usecs =
     (let h = int32 (s sdiv 3600);
          s = (if h \<noteq> 0 then s - int32 (h * 3600) else s);
          mi = int32 (s sdiv 60);
          s = (if mi \<noteq> 0 then s - int32 (mi * 60) else s)
      in tm_fields 0 0 0 h mi (int32 s) usecs)"

definition rel_setTime :: "qore_simple_tm \<Rightarrow> int \<Rightarrow> int \<Rightarrow> int \<Rightarrow> int \<Rightarrow> qore_simple_tm" where
  "rel_setTime t h m s usecs = t\<lparr>hour := h, minute := m, second := s, us := usecs\<rparr>"

definition rel_compare :: "qore_simple_tm \<Rightarrow> qore_simple_tm \<Rightarrow> int" where
  "rel_compare lt rt =
     (let l = rel_normalize True (rel_normalize False lt); r = rel_normalize True (rel_normalize False rt)
      in if year l > year r then 1 else if year l < year r then - 1
         else if month l > month r then 1 else if month l < month r then - 1
         else if day l > day r then 1 else if day l < day r then - 1
         else if hour l > hour r then 1 else if hour l < hour r then - 1
         else if minute l > minute r then 1 else if minute l < minute r then - 1
         else if second l > second r then 1 else if second l < second r then - 1
         else if us l > us r then 1 else if us l < us r then - 1 else 0)"

definition rel_unaryMinus :: "qore_simple_tm \<Rightarrow> qore_simple_tm" where
  "rel_unaryMinus t = tm_fields (- year t) (- month t) (- day t) (- hour t) (- minute t) (- second t) (- us t)"

definition rel_getRelativeMicroseconds :: "qore_simple_tm \<Rightarrow> int" where
  "rel_getRelativeMicroseconds t =
     us t + second t * 1000000 + minute t * 60000000 + hour t * 3600000000 + day t * 86400000000
     + (if month t \<noteq> 0 then month t * (3600000000 * 24 * 31) else 0)
     + (if year t \<noteq> 0 then year t * (86400000000 * 365) else 0)"

definition rel_getRelativeSeconds :: "qore_simple_tm \<Rightarrow> int" where
  "rel_getRelativeSeconds t = rel_getRelativeMicroseconds t sdiv 1000000"

definition rel_getRelativeMilliseconds :: "qore_simple_tm \<Rightarrow> int" where
  "rel_getRelativeMilliseconds t = rel_getRelativeMicroseconds t sdiv 1000"

definition rel_plus :: "qore_simple_tm \<Rightarrow> qore_simple_tm \<Rightarrow> qore_simple_tm" where
  "rel_plus t dt =
     rel_normalize False (tm_fields (year t + year dt) (month t + month dt) (day t + day dt)
       (hour t + hour dt) (minute t + minute dt) (second t + second dt) (us t + us dt))"

definition rel_minus :: "qore_simple_tm \<Rightarrow> qore_simple_tm \<Rightarrow> qore_simple_tm" where
  "rel_minus t dt =
     rel_normalize False (tm_fields (year t - year dt) (month t - month dt) (day t - day dt)
       (hour t - hour dt) (minute t - minute dt) (second t - second dt) (us t - us dt))"

definition rel_minus_abs :: "qore_simple_tm \<Rightarrow> qore_absolute_time \<Rightarrow> qore_simple_tm" where
  "rel_minus_abs t dt =
     rel_normalize False (t\<lparr>second := int32 (second t - epoch dt), us := int32 (uint32 (us t - abs_us dt))\<rparr>)"

definition rel_addSecondsTo :: "qore_simple_tm \<Rightarrow> int \<Rightarrow> int \<Rightarrow> qore_simple_tm" where
  "rel_addSecondsTo t secs n_us =
     (let h = int32 (secs sdiv 3600);
          secs = (if h \<noteq> 0 then secs - int32 (h * 3600) else secs);
          m = int32 (secs sdiv 60);
          secs = (if m \<noteq> 0 then secs - int32 (m * 60) else secs)
      in t\<lparr>hour := hour t + h, minute := minute t + m, second := int32 (second t + secs), us := us t + n_us\<rparr>)"

definition abs_minus :: "qore_absolute_time \<Rightarrow> qore_simple_tm \<Rightarrow> qore_absolute_time" where
  "abs_minus t dt = abs_plus t (rel_unaryMinus dt)"

section \<open>Broken-down values and epoch seconds\<close>

definition valid_tm :: "qore_simple_tm \<Rightarrow> bool" where
  "valid_tm t \<longleftrightarrow> valid_date (year t) (month t) (day t) \<and> 0 \<le> hour t \<and> hour t < 24
     \<and> 0 \<le> minute t \<and> minute t < 60 \<and> 0 \<le> second t \<and> second t < 60 \<and> 0 \<le> us t \<and> us t < 1000000"

definition tm_secs :: "qore_simple_tm \<Rightarrow> int" where
  "tm_secs t = 86400 * days_from_civil (year t) (month t) (day t)
     + hour t * 3600 + minute t * 60 + second t"

lemmas tm_sel = tm_fields_def

lemma hms_bounds:
  assumes "0 \<le> (s::int)" "s < 86400"
  shows "0 \<le> s sdiv 3600" "s sdiv 3600 < 24" "0 \<le> s smod 3600 sdiv 60" "s smod 3600 sdiv 60 < 60"
    "0 \<le> s smod 3600 smod 60" "s smod 3600 smod 60 < 60"
    "s sdiv 3600 * 3600 + s smod 3600 sdiv 60 * 60 + s smod 3600 smod 60 = s"
proof -
  have m: "0 \<le> s mod 3600" "s mod 3600 < 3600" by simp_all
  note c = sdiv_nonneg [OF assms(1), of 3600] smod_nonneg [OF assms(1), of 3600]
    sdiv_nonneg [OF m(1), of 60] smod_nonneg [OF m(1), of 60]
  show "0 \<le> s sdiv 3600" "s sdiv 3600 < 24" "0 \<le> s smod 3600 sdiv 60" "s smod 3600 sdiv 60 < 60"
    "0 \<le> s smod 3600 smod 60" "s smod 3600 smod 60 < 60"
    using assms m by (simp_all add: c pos_imp_zdiv_nonneg_iff div_less_iff_less_mult)
  show "s sdiv 3600 * 3600 + s smod 3600 sdiv 60 * 60 + s smod 3600 smod 60 = s"
    by (simp add: c add.assoc)
qed

lemma tm_set_ok:
  assumes "\<bar>secs\<bar> \<le> 10000000000000000" "0 \<le> u" "u < 1000000"
  shows "valid_tm (tm_set secs u)" "tm_secs (tm_set secs u) = secs" "us (tm_set secs u) = u"
proof -
  obtain e y ly where g: "get_epoch_year secs = (e, y, ly)" by (metis prod_cases3)
  note ok = get_epoch_year_ok [OF assms(1) g]
  obtain mo d where ml: "month_loop ly 1 (e div 86400) = (mo, d)" by fastforce
  have civ: "valid_date y mo (d + 1)" "days_from_civil y mo (d + 1) = secs div 86400"
    using year_split_civil [OF ok(1) ml] by simp_all
  have k: "0 \<le> e div 86400" "e div 86400 \<le> 366"
    using ok(1) by (auto simp: year_split_ok_def split: if_splits)
  have s: "0 \<le> secs mod 86400" "secs mod 86400 < 86400" by simp_all
  have "int32 (secs mod 86400) = secs mod 86400"
    by (rule int32_id) (unfold in_int32_def, use s in linarith)
  then have e: "int32 (e sdiv 86400) = e div 86400" "int32 (e smod 86400) = secs mod 86400"
    using ok(2,3) k by (simp_all add: sdiv_nonneg smod_nonneg int32_id in_int32_def)
  have t: "tm_set secs u = tm_fields y mo (d + 1) (secs mod 86400 sdiv 3600)
      (secs mod 86400 smod 3600 sdiv 60) (secs mod 86400 smod 3600 smod 60) u"
    using assms by (simp add: tm_set_def normalize_units3_def g e ml Let_def int32_id in_int32_def)
  show "valid_tm (tm_set secs u)" "us (tm_set secs u) = u"
    unfolding t using hms_bounds [OF s] civ assms by (simp_all add: valid_tm_def tm_sel)
  have "tm_secs (tm_set secs u) = 86400 * (secs div 86400) + (secs mod 86400 sdiv 3600 * 3600
      + secs mod 86400 smod 3600 sdiv 60 * 60 + secs mod 86400 smod 3600 smod 60)"
    by (simp add: t tm_secs_def tm_sel civ(2))
  also have "\<dots> = secs" by (simp only: hms_bounds(7) [OF s] mult_div_mod_eq)
  finally show "tm_secs (tm_set secs u) = secs" .
qed

lemma valid_tm_unique:
  assumes "valid_tm s" "valid_tm t" "tm_secs s = tm_secs t" "us s = us t"
  shows "s = t"
proof -
  define ns nt where n: "ns = days_from_civil (year s) (month s) (day s)"
    "nt = days_from_civil (year t) (month t) (day t)"
  have eq: "86400 * ns + (hour s * 3600 + minute s * 60 + second s)
      = 86400 * nt + (hour t * 3600 + minute t * 60 + second t)"
    using assms(3) by (simp add: tm_secs_def n)
  have b: "0 \<le> hour s * 3600 + minute s * 60 + second s" "hour s * 3600 + minute s * 60 + second s < 86400"
    "0 \<le> hour t * 3600 + minute t * 60 + second t" "hour t * 3600 + minute t * 60 + second t < 86400"
    using assms(1,2) by (auto simp: valid_tm_def)
  have "ns = nt" using eq b by linarith
  then have d: "year s = year t \<and> month s = month t \<and> day s = day t"
    using assms(1,2) unfolding valid_tm_def n by (intro days_from_civil_inj) simp_all
  have t: "hour s * 3600 + minute s * 60 + second s = hour t * 3600 + minute t * 60 + second t"
    using eq \<open>ns = nt\<close> by simp
  have r: "0 \<le> minute s" "minute s < 60" "0 \<le> second s" "second s < 60" "0 \<le> minute t" "minute t < 60"
      "0 \<le> second t" "second t < 60"
    using assms(1,2) by (auto simp: valid_tm_def)
  have h: "hour s = hour t" using t r by linarith
  have "minute s = minute t" using t h r by linarith
  with h d t assms(4) show ?thesis by simp
qed

lemma getEpochSeconds_tm:
  assumes "valid_tm t" "0 \<le> year t" "year t \<le> 95000"
  shows "getEpochSeconds (year t) (month t) (day t) (hour t) (minute t) (second t) = tm_secs t"
  using assms getEpochSeconds_date_civil [of "year t" "month t" "day t"]
  by (simp add: getEpochSeconds_def tm_secs_def valid_tm_def)

lemma year_of_days:
  assumes "valid_date y m d" "-719528 \<le> days_from_civil y m d" "days_from_civil y m d \<le> 33600000"
  shows "0 \<le> y \<and> y \<le> 95000"
proof -
  have c: "year_start 0 = -719528" "year_start 95001 = 33978875"
    by (simp_all add: year_start_def leaps_def)
  have "\<not> y < 0" using assms(2) days_from_civil_year(2) [OF assms(1)] year_start_mono [of "y + 1" 0] c
    by (cases "y + 1 = 0") (auto split: if_splits)
  moreover have "\<not> y > 95000"
    using assms(3) days_from_civil_year(1) [OF assms(1)] year_start_mono [of 95001 y] c
    by (cases "y = 95001") (auto split: if_splits)
  ultimately show ?thesis by simp
qed

lemma tm_secs_range:
  assumes "valid_tm t" "0 \<le> year t" "year t \<le> 90000"
  shows "- 62167219200 \<le> tm_secs t" "tm_secs t \<le> 2900000000000"
proof -
  have v: "valid_date (year t) (month t) (day t)" using assms(1) by (simp add: valid_tm_def)
  have c: "year_start 0 = -719528" "year_start 90001 = 32152663"
    by (simp_all add: year_start_def leaps_def)
  have "year_start 0 \<le> year_start (year t)"
    using year_start_mono [of 0 "year t"] assms(2) by (cases "year t = 0") (auto split: if_splits)
  moreover have "year_start (year t + 1) \<le> year_start 90001"
    using year_start_mono [of "year t + 1" 90001] assms(3) by (cases "year t = 90000") (auto split: if_splits)
  ultimately have d: "-719528 \<le> days_from_civil (year t) (month t) (day t)"
    "days_from_civil (year t) (month t) (day t) < 32152663"
    using days_from_civil_year [OF v] c by linarith+
  have "0 \<le> hour t * 3600 + minute t * 60 + second t" "hour t * 3600 + minute t * 60 + second t < 86400"
    using assms(1) by (auto simp: valid_tm_def)
  with d show "- 62167219200 \<le> tm_secs t" "tm_secs t \<le> 2900000000000"
    unfolding tm_secs_def by linarith+
qed

end
