(* ===== verification/Date_Value.thy ===== *)
theory Date_Value
  imports Date_Time
begin

text \<open>
  The tagged date/time value \<open>qore_date_private\<close> of
  \<open>src/include/qore/intern/qore_date_private.h\<close> and its two public faces, \<open>DateTime\<close>
  (\<open>src/lib/DateTime.cpp\<close>) and the value node \<open>DateTimeNode\<close> (\<open>src/lib/DateTimeNode.cpp\<close>).
  The union with its \<open>relative\<close> flag is a datatype with one constructor for each member.
  \<open>currentTZ()\<close> and the clock (\<open>q_epoch_us\<close>) are arguments; methods that update the object
  return the new value.
\<close>

section \<open>The value\<close>

datatype qore_date = Absolute qore_absolute_time | Relative qore_simple_tm

definition isRelative :: "qore_date \<Rightarrow> bool" where
  "isRelative d = (case d of Absolute _ \<Rightarrow> False | Relative _ \<Rightarrow> True)"

definition date_new :: "zone option \<Rightarrow> bool \<Rightarrow> qore_date" where
  "date_new tz r = (if r then Relative tm_zero else Absolute (abs_set tz 0 0))"

definition date_new_zone :: "zone option \<Rightarrow> int \<Rightarrow> int \<Rightarrow> qore_date" where
  "date_new_zone z seconds n_us = Absolute (abs_set z seconds n_us)"

definition date_new_fields ::
    "zone option \<Rightarrow> int \<Rightarrow> int \<Rightarrow> int \<Rightarrow> int \<Rightarrow> int \<Rightarrow> int \<Rightarrow> int \<Rightarrow> qore_date" where
  "date_new_fields z y mo dy h mi s n_us = Absolute (abs_set_fields z y mo dy h mi s n_us)"

definition date_new_fields_x ::
    "zone option \<Rightarrow> int \<Rightarrow> int \<Rightarrow> int \<Rightarrow> int \<Rightarrow> int \<Rightarrow> int \<Rightarrow> int \<Rightarrow> xsink \<Rightarrow> qore_date \<times> xsink" where
  "date_new_fields_x z y mo dy h mi s n_us xs =
     (let (t, xs) = abs_set_fields_x z y mo dy h mi s n_us xs in (Absolute t, xs))"

definition date_new_local ::
    "zone option \<Rightarrow> int \<Rightarrow> int \<Rightarrow> int \<Rightarrow> int \<Rightarrow> int \<Rightarrow> int \<Rightarrow> int \<Rightarrow> bool \<Rightarrow> qore_date" where
  "date_new_local tz y mo dy h mi s n_us r =
     (if r then Relative (rel_set y mo dy h mi s n_us)
      else Absolute (abs_set_fields tz y mo dy h mi s n_us))"

definition date_compare :: "qore_date \<Rightarrow> qore_date \<Rightarrow> int" where
  "date_compare left right =
     (case left of
        Relative l \<Rightarrow> (case right of Relative r \<Rightarrow> rel_compare l r | Absolute _ \<Rightarrow> - 1)
      | Absolute l \<Rightarrow> (case right of Relative _ \<Rightarrow> 1 | Absolute r \<Rightarrow> abs_compare l r))"

definition date_isEqual :: "qore_date \<Rightarrow> qore_date \<Rightarrow> bool" where
  "date_isEqual l r \<longleftrightarrow> date_compare l r = 0"

definition abs_setNow :: "zone option \<Rightarrow> int \<times> int \<Rightarrow> qore_absolute_time" where
  "abs_setNow z now = \<lparr>epoch = fst now, abs_us = uint32 (snd now), abs_zone = z\<rparr>"

definition date_setNow :: "zone option \<Rightarrow> int \<times> int \<Rightarrow> qore_date" where
  "date_setNow z now = Absolute (abs_setNow z now)"

definition date_setZone :: "qore_date \<Rightarrow> zone option \<Rightarrow> qore_date" where
  "date_setZone d z =
     (case d of Absolute t \<Rightarrow> Absolute (t\<lparr>abs_zone := z\<rparr>) | Relative t \<Rightarrow> Relative t)"

definition date_getZone :: "qore_date \<Rightarrow> zone option" where
  "date_getZone d = (case d of Absolute t \<Rightarrow> abs_zone t | Relative _ \<Rightarrow> None)"

section \<open>Reading a value\<close>

definition date_getYear :: "qore_date \<Rightarrow> int" where
  "date_getYear d = (case d of Relative t \<Rightarrow> int16 (year t) | Absolute t \<Rightarrow> abs_getYear t)"

definition date_getMonth :: "qore_date \<Rightarrow> int" where
  "date_getMonth d = (case d of Relative t \<Rightarrow> month t | Absolute t \<Rightarrow> abs_getMonth t)"

definition date_getDay :: "qore_date \<Rightarrow> int" where
  "date_getDay d = (case d of Relative t \<Rightarrow> day t | Absolute t \<Rightarrow> abs_getDay t)"

definition date_getHour :: "qore_date \<Rightarrow> int" where
  "date_getHour d = (case d of Relative t \<Rightarrow> hour t | Absolute t \<Rightarrow> abs_getHour t)"

definition date_getMinute :: "qore_date \<Rightarrow> int" where
  "date_getMinute d = (case d of Relative t \<Rightarrow> minute t | Absolute t \<Rightarrow> abs_getMinute t)"

definition date_getSecond :: "qore_date \<Rightarrow> int" where
  "date_getSecond d = (case d of Relative t \<Rightarrow> second t | Absolute t \<Rightarrow> abs_getSecond t)"

definition date_getMillisecond :: "qore_date \<Rightarrow> int" where
  "date_getMillisecond d = (case d of Relative t \<Rightarrow> us t sdiv 1000 | Absolute t \<Rightarrow> abs_getMillisecond t)"

definition date_getMicrosecond :: "qore_date \<Rightarrow> int" where
  "date_getMicrosecond d = (case d of Relative t \<Rightarrow> us t | Absolute t \<Rightarrow> abs_getMicrosecond t)"

definition abs_hasValue :: "qore_absolute_time \<Rightarrow> bool" where
  "abs_hasValue t \<longleftrightarrow> epoch t \<noteq> 0 \<or> abs_us t \<noteq> 0"

definition date_hasValue :: "qore_date \<Rightarrow> bool" where
  "date_hasValue d = (case d of Relative t \<Rightarrow> tm_hasValue t | Absolute t \<Rightarrow> abs_hasValue t)"

definition date_getEpochSeconds :: "qore_date \<Rightarrow> int" where
  "date_getEpochSeconds d =
     (case d of Relative t \<Rightarrow> rel_getRelativeSeconds t | Absolute t \<Rightarrow> abs_getEpochSeconds t)"

definition date_getEpochSecondsUTC :: "qore_date \<Rightarrow> int" where
  "date_getEpochSecondsUTC d =
     (case d of Relative t \<Rightarrow> rel_getRelativeSeconds t | Absolute t \<Rightarrow> epoch t)"

definition date_getEpochMillisecondsUTC :: "qore_date \<Rightarrow> int" where
  "date_getEpochMillisecondsUTC d =
     (case d of Relative t \<Rightarrow> rel_getRelativeMilliseconds t | Absolute t \<Rightarrow> abs_getEpochMillisecondsUTC t)"

definition date_getEpochMicrosecondsUTC :: "qore_date \<Rightarrow> int" where
  "date_getEpochMicrosecondsUTC d =
     (case d of Relative t \<Rightarrow> rel_getRelativeMicroseconds t | Absolute t \<Rightarrow> abs_getEpochMicrosecondsUTC t)"

definition date_getDayNumber :: "qore_date \<Rightarrow> int" where
  "date_getDayNumber d = (case d of Relative _ \<Rightarrow> 0 | Absolute t \<Rightarrow> abs_getDayNumber t)"

definition date_getDayOfWeek :: "qore_date \<Rightarrow> int" where
  "date_getDayOfWeek d = (case d of Relative _ \<Rightarrow> 0 | Absolute t \<Rightarrow> abs_getDayOfWeek t)"

definition date_getISOWeek :: "qore_date \<Rightarrow> int \<times> int \<times> int" where
  "date_getISOWeek d = (case d of Relative _ \<Rightarrow> (1970, 1, 1) | Absolute t \<Rightarrow> abs_getISOWeek t)"

definition date_getRelativeMicroseconds :: "int \<times> int \<Rightarrow> qore_date \<Rightarrow> int" where
  "date_getRelativeMicroseconds now d =
     (case d of Relative t \<Rightarrow> rel_getRelativeMicroseconds t | Absolute t \<Rightarrow> abs_getRelativeMicroseconds now t)"

definition date_getRelativeMilliseconds :: "int \<times> int \<Rightarrow> qore_date \<Rightarrow> int" where
  "date_getRelativeMilliseconds now d =
     (case d of Relative t \<Rightarrow> rel_getRelativeMilliseconds t
      | Absolute t \<Rightarrow> abs_getRelativeMicroseconds now t sdiv 1000)"

definition date_getRelativeSeconds :: "int \<times> int \<Rightarrow> qore_date \<Rightarrow> int" where
  "date_getRelativeSeconds now d =
     (case d of Relative t \<Rightarrow> rel_getRelativeSeconds t
      | Absolute t \<Rightarrow> abs_getRelativeMicroseconds now t sdiv 1000000)"

definition rel_get :: "qore_simple_tm \<Rightarrow> qore_time_info" where
  "rel_get t = info_of t [] 0 False None"

definition date_get :: "qore_date \<Rightarrow> qore_time_info" where
  "date_get d = (case d of Relative t \<Rightarrow> rel_get t | Absolute t \<Rightarrow> abs_get t)"

definition date_get_zone :: "zone option \<Rightarrow> qore_date \<Rightarrow> qore_time_info" where
  "date_get_zone z d = (case d of Relative t \<Rightarrow> rel_get t | Absolute t \<Rightarrow> abs_get_zone z t)"

text \<open>The C library's \<open>struct tm\<close>.\<close>

record c_tm =
  tm_year :: int
  tm_mon :: int
  tm_mday :: int
  tm_hour :: int
  tm_min :: int
  tm_sec :: int
  tm_wday :: int
  tm_yday :: int
  tm_isdst :: int

definition setTM :: "qore_simple_tm \<Rightarrow> bool \<Rightarrow> c_tm" where
  "setTM t dst =
     \<lparr>tm_year = year t - 1900, tm_mon = month t - 1, tm_mday = day t, tm_hour = hour t,
      tm_min = minute t, tm_sec = second t, tm_wday = getDayOfWeek (year t) (month t) (day t),
      tm_yday = getDayNumber (year t) (month t) (day t) - 1, tm_isdst = (if dst then 1 else 0)\<rparr>"

definition zero_tm :: c_tm where
  "zero_tm = \<lparr>tm_year = 70, tm_mon = 0, tm_mday = 1, tm_hour = 0, tm_min = 0, tm_sec = 0,
     tm_wday = 0, tm_yday = 0, tm_isdst = - 1\<rparr>"

definition date_localtime :: "qore_date \<Rightarrow> c_tm" where
  "date_localtime d =
     (case d of
        Relative t \<Rightarrow> \<lparr>tm_year = year t, tm_mon = month t, tm_mday = day t, tm_hour = hour t,
          tm_min = minute t, tm_sec = second t, tm_wday = 0, tm_yday = 0, tm_isdst = - 1\<rparr>
      | Absolute t \<Rightarrow> (case getUTCOffset_full (abs_zone t) (epoch t) of (offset, isdst, _) \<Rightarrow>
          setTM (tm_set (epoch t + offset) (abs_us t)) isdst))"

definition date_gmtime :: "qore_date \<Rightarrow> c_tm" where
  "date_gmtime d =
     (case d of Relative _ \<Rightarrow> zero_tm | Absolute t \<Rightarrow> setTM (tm_set (epoch t) (abs_us t)) False)"

section \<open>Updating a value\<close>

text \<open>
  \<open>add\<close> asserts that a relative value is never asked to add an absolute one: that case is
  \<open>None\<close>.
\<close>

definition date_add :: "zone option \<Rightarrow> qore_date \<Rightarrow> qore_date \<Rightarrow> qore_date option" where
  "date_add tz d dt =
     (case d of
        Absolute t \<Rightarrow>
          (case dt of
             Relative r \<Rightarrow> Some (Absolute (abs_plus t r))
           | Absolute a \<Rightarrow> Some (Absolute (abs_set tz (epoch t + epoch a)
               (int32 (abs_getMicrosecond t + abs_getMicrosecond a)))))
      | Relative t \<Rightarrow>
          (case dt of Relative r \<Rightarrow> Some (Relative (rel_plus t r)) | Absolute _ \<Rightarrow> None))"

definition date_unaryMinus :: "qore_date \<Rightarrow> qore_date" where
  "date_unaryMinus d =
     (case d of Relative t \<Rightarrow> Relative (rel_unaryMinus t) | Absolute t \<Rightarrow> Absolute (abs_unaryMinus t))"

definition date_subtractBy :: "qore_date \<Rightarrow> qore_date \<Rightarrow> qore_date" where
  "date_subtractBy d dt =
     (case d of
        Absolute t \<Rightarrow>
          (case dt of
             Relative r \<Rightarrow> Absolute (abs_minus t r)
           | Absolute a \<Rightarrow> Relative (rel_setDifference (epoch t) (abs_getMicrosecond t) a))
      | Relative t \<Rightarrow>
          (case dt of Relative r \<Rightarrow> Relative (rel_minus t r) | Absolute a \<Rightarrow> Relative (rel_minus_abs t a)))"

definition date_addSecondsTo :: "qore_date \<Rightarrow> int \<Rightarrow> int \<Rightarrow> qore_date" where
  "date_addSecondsTo d secs n_us =
     (case d of Absolute t \<Rightarrow> Absolute (abs_addSecondsTo t secs n_us)
      | Relative t \<Rightarrow> Relative (rel_addSecondsTo t secs n_us))"

definition date_setTime :: "qore_date \<Rightarrow> int \<Rightarrow> int \<Rightarrow> int \<Rightarrow> int \<Rightarrow> qore_date" where
  "date_setTime d h m s n_us =
     (case d of Relative t \<Rightarrow> Relative (rel_setTime t h m s n_us)
      | Absolute t \<Rightarrow> Absolute (abs_setTime t h m s n_us))"

definition date_setLocalDate :: "zone option \<Rightarrow> int \<Rightarrow> int \<Rightarrow> qore_date" where
  "date_setLocalDate z seconds n_us = Absolute (abs_setLocal z seconds n_us)"

definition date_setDateLiteral :: "zone option \<Rightarrow> int \<Rightarrow> int \<Rightarrow> qore_date" where
  "date_setDateLiteral tz date n_us = Absolute (abs_setLiteral tz date n_us)"

definition date_setRelativeDateLiteral :: "int \<Rightarrow> int \<Rightarrow> qore_date" where
  "date_setRelativeDateLiteral date n_us = Relative (rel_setLiteral date n_us)"

definition date_setRelativeDateSeconds :: "int \<Rightarrow> int \<Rightarrow> qore_date" where
  "date_setRelativeDateSeconds s n_us = Relative (rel_setSeconds s n_us)"

definition date_setDate_tm :: "zone option \<Rightarrow> c_tm \<Rightarrow> int \<Rightarrow> qore_date" where
  "date_setDate_tm tz tms n_us =
     Absolute (abs_set_fields tz (1900 + tm_year tms) (tm_mon tms + 1) (tm_mday tms) (tm_hour tms)
       (tm_min tms) (tm_sec tms) n_us)"

definition iso_max_week :: "int \<Rightarrow> int" where
  "iso_max_week yr =
     (let j = getDayOfWeek yr 1 1
      in 52 + (if (j = 4 \<and> \<not> isLeapYear yr) \<or> (j = 3 \<and> isLeapYear yr) then 1 else 0))"

definition getDateFromISOWeek ::
    "zone option \<Rightarrow> qore_date \<Rightarrow> int \<Rightarrow> int \<Rightarrow> int \<Rightarrow> xsink \<Rightarrow> qore_date \<times> xsink" where
  "getDateFromISOWeek tz result yr week dy xs =
     (if week \<le> 0 then (result, raiseException xs ''ISO-8601-INVALID-WEEK'')
      else let jan1 = getDayOfWeek yr 1 1 in
        if week > 52 \<and> week > iso_max_week yr then (result, raiseException xs ''ISO-8601-INVALID-WEEK'')
        else if dy < 1 \<or> dy > 7 then (result, raiseException xs ''ISO-8601-INVALID-DAY'')
        else let (y, m, d) =
               (if jan1 = 1 then (yr, 1, 1)
                else if jan1 > 1 \<and> jan1 < 5 then (yr - 1, 12, 33 - jan1)
                else (yr, 1, if jan1 \<noteq> 0 then 9 - jan1 else 2))
             in (date_setLocalDate tz (getEpochSeconds_date y m d + ((week - 1) * 7 + (dy - 1)) * 86400) 0, xs))"

section \<open>\<open>DateTime\<close> and \<open>DateTimeNode\<close>\<close>

definition DateTime_getDateFromISOWeek ::
    "zone option \<Rightarrow> int \<Rightarrow> int \<Rightarrow> int \<Rightarrow> xsink \<Rightarrow> qore_date \<times> xsink" where
  "DateTime_getDateFromISOWeek tz yr week dy xs = getDateFromISOWeek tz (date_new tz False) yr week dy xs"

definition makeRelativeFromSeconds :: "int \<Rightarrow> int \<Rightarrow> qore_date" where
  "makeRelativeFromSeconds s u =
     (let h = int32 (s sdiv 3600);
          s = (if h \<noteq> 0 then s - int32 (h * 3600) else s);
          m = int32 (s sdiv 60);
          s = (if m \<noteq> 0 then s - int32 (m * 60) else s)
      in Relative (rel_set 0 0 0 h m (int32 s) u))"

text \<open>
  \<open>DateTime::add\<close> hands the pointer \<open>dt.priv\<close> to \<open>qore_date_private::add\<close>, whose
  parameter is a reference to \<open>const qore_date_private\<close>; the pointer converts to \<open>bool\<close>
  and from there, through the constructor \<open>qore_date_private(bool r)\<close>, to the zero relative value.
\<close>

definition DateTime_add :: "zone option \<Rightarrow> qore_date \<Rightarrow> qore_date \<Rightarrow> qore_date option" where
  "DateTime_add tz this dt =
     (if isRelative this then date_add tz dt this else date_add tz this (date_new tz True))"

definition DateTimeNode_add :: "zone option \<Rightarrow> qore_date \<Rightarrow> qore_date \<Rightarrow> qore_date option" where
  "DateTimeNode_add tz this dt =
     (if \<not> date_hasValue dt then Some this
      else if isRelative this then date_add tz dt this else date_add tz this dt)"

definition DateTimeNode_subtractBy :: "qore_date \<Rightarrow> qore_date \<Rightarrow> qore_date" where
  "DateTimeNode_subtractBy this dt =
     (if \<not> date_hasValue dt \<and> isRelative dt then this else date_subtractBy this dt)"

definition DateTimeNode_getAsBigInt :: "qore_date \<Rightarrow> int" where
  "DateTimeNode_getAsBigInt d = date_getEpochSeconds d"

definition DateTimeNode_getAsInt :: "qore_date \<Rightarrow> int" where
  "DateTimeNode_getAsInt d = int32 (date_getEpochSeconds d)"

end
