(* ===== verification/Date_Arith.thy ===== *)
theory Date_Arith
  imports Date_Value
begin

text \<open>
  Arithmetic on absolute and relative date/time values: what the operations of
  \<open>qore_absolute_time\<close>, \<open>qore_relative_time\<close> and \<open>qore_date_private\<close> compute.
  The locale \<open>fixed_zone\<close> is the contract of a zone with one offset, met by UTC and by every
  offset zone; \<open>comparison\<close> is the contract of a three-way comparison, met by the comparisons
  of absolute, relative and tagged values.
\<close>

section \<open>Zones with one offset\<close>

lemma normalize_us [simp]:
  "0 \<le> u \<Longrightarrow> u < 1000000 \<Longrightarrow> normalize_units2 t1 t2 e u 1000000 = (e, u)"
  by (simp add: normalize_units2_def)

lemma uint32_us [simp]: "0 \<le> u \<Longrightarrow> u < 1000000 \<Longrightarrow> uint32 u = u"
  by (simp add: uint32_def)

lemma int32_us [simp]: "0 \<le> u \<Longrightarrow> u < 1000000 \<Longrightarrow> int32 u = u"
  by (simp add: int32_id in_int32_def)

lemma int32_uint32: "int32 (uint32 x) = int32 x"
  by (simp add: int32_def uint32_def mod_add_left_eq)

lemma setLocalIntern_eq:
  assumes "0 \<le> u" "u < 1000000"
  shows "setLocalIntern t u = t\<lparr>epoch := epoch t - getUTCOffset (abs_zone t) (epoch t - getUTCOffset_std (abs_zone t)),
    abs_us := u\<rparr>"
  using assms by (simp add: setLocalIntern_def Let_def)

definition norm_abs :: "qore_absolute_time \<Rightarrow> bool" where
  "norm_abs t \<longleftrightarrow> 0 \<le> abs_us t \<and> abs_us t < 1000000"

lemma tm_set_unique:
  assumes "valid_tm t" "\<bar>tm_secs t\<bar> \<le> 10000000000000000"
  shows "tm_set (tm_secs t) (us t) = t"
proof -
  have u: "0 \<le> us t" "us t < 1000000" using assms by (simp_all add: valid_tm_def)
  show ?thesis
    using valid_tm_unique [OF tm_set_ok(1) [OF assms(2) u] assms(1)] tm_set_ok(2,3) [OF assms(2) u] by simp
qed

lemma set_fields_epoch:
  assumes "valid_tm t" "0 \<le> year t" "year t \<le> 90000"
  shows "abs_set_fields z (year t) (month t) (day t) (hour t) (minute t) (second t) (us t) =
    \<lparr>epoch = tm_secs t - getUTCOffset z (tm_secs t - getUTCOffset_std z), abs_us = us t, abs_zone = z\<rparr>"
  using assms getEpochSeconds_tm [OF assms(1,2)]
  by (simp add: abs_set_fields_def setLocalIntern_eq valid_tm_def)

locale fixed_zone =
  fixes z :: "zone option" and off :: int
  assumes off_at: "getUTCOffset z e = off"
    and off_std: "getUTCOffset_std z = off"
    and off_small: "\<bar>off\<bar> \<le> 100000"
begin

definition fields :: "qore_simple_tm \<Rightarrow> qore_absolute_time" where
  "fields t = abs_set_fields z (year t) (month t) (day t) (hour t) (minute t) (second t) (us t)"

lemma setLocalIntern_fixed:
  "0 \<le> u \<Longrightarrow> u < 1000000 \<Longrightarrow> abs_zone t = z \<Longrightarrow> setLocalIntern t u = t\<lparr>epoch := epoch t - off, abs_us := u\<rparr>"
  by (simp add: setLocalIntern_eq off_at)

lemma fields_eq:
  assumes "valid_tm t" "0 \<le> year t" "year t \<le> 90000"
  shows "fields t = \<lparr>epoch = tm_secs t - off, abs_us = us t, abs_zone = z\<rparr>"
  using set_fields_epoch [OF assms] by (simp add: fields_def off_at)

lemma local_ok:
  assumes "norm_abs t" "abs_zone t = z" "\<bar>epoch t\<bar> \<le> 9000000000000000"
  shows "valid_tm (local_tm t)" "tm_secs (local_tm t) = epoch t + off" "us (local_tm t) = abs_us t"
  using tm_set_ok [of "epoch t + off" "abs_us t"] assms off_small
  by (simp_all add: local_tm_def off_at norm_abs_def)

lemma local_fields:
  assumes "valid_tm t" "0 \<le> year t" "year t \<le> 90000"
  shows "local_tm (fields t) = t"
  using tm_secs_range [OF assms] tm_set_unique [OF assms(1)]
  by (simp add: fields_eq [OF assms] local_tm_def off_at)

lemma fields_local:
  assumes "norm_abs t" "abs_zone t = z" "\<bar>epoch t\<bar> \<le> 9000000000000000"
    and "0 \<le> year (local_tm t)" "year (local_tm t) \<le> 90000"
  shows "fields (local_tm t) = t"
  using local_ok [OF assms(1-3)] assms(2) by (simp add: fields_eq assms(4,5))

end

interpretation utc: fixed_zone None 0
  by unfold_locales (simp_all add: getUTCOffset_def getUTCOffset_full_def getUTCOffset_std_def)

definition zone_fixed :: "zone option \<Rightarrow> bool" where
  "zone_fixed zo = (case zo of None \<Rightarrow> True
     | Some (OffsetZone z) \<Rightarrow> oz_utcoff z \<noteq> - 1 \<and> \<bar>oz_utcoff z\<bar> \<le> 100000
     | Some (RegionZone _) \<Rightarrow> False)"

lemma zone_fixed_zone: "zone_fixed zo \<Longrightarrow> fixed_zone zo (getUTCOffset_std zo)"
  by (unfold_locales)
     (auto simp: zone_fixed_def getUTCOffset_def getUTCOffset_full_def getUTCOffset_std_def
       split: option.splits zone.splits)

section \<open>Adding a relative value\<close>

definition time_part :: "qore_simple_tm \<Rightarrow> int" where
  "time_part dt = 3600 * hour dt + 60 * minute dt + second dt"

text \<open>The relative values whose time part the 32-bit arithmetic of \<open>operator+=\<close> can represent.\<close>

definition rel_small :: "qore_simple_tm \<Rightarrow> bool" where
  "rel_small dt \<longleftrightarrow> in_int32 (time_part dt) \<and> \<bar>us dt\<bar> \<le> 2000000000"

lemma abs_plus_unfold:
  "abs_plus t dt =
     (let (e, usecs) =
        (if year dt \<noteq> 0 \<or> month dt \<noteq> 0 \<or> day dt \<noteq> 0 then
           let tm = local_tm t;
               (y, mo, d) = normalize_dm (year tm + year dt) (month tm + month dt) (day tm);
               (y, mo, d) = normalize_day y mo (d + day dt);
               e = getEpochSeconds y mo d (hour tm) (minute tm) (second tm)
           in (e - getUTCOffset (abs_zone t) e, us tm)
         else (epoch t, int32 (abs_us t)));
        (e, u) = normalize_units2 int64 int32 (e + int32 (time_part dt)) (usecs + us dt) 1000000
      in t\<lparr>epoch := e, abs_us := uint32 u\<rparr>)"
  by (simp add: abs_plus_def time_part_def)

lemma carry_us:
  assumes "0 \<le> u" "u < 1000000" "\<bar>du\<bar> \<le> 2000000000"
    and "normalize_units2 int64 int32 e (u + du) 1000000 = (e', u')"
  shows "e' * 1000000 + u' = e * 1000000 + u + du" "0 \<le> u'" "u' < 1000000"
proof -
  have i: "in_int32 (u + du)" "u + du \<noteq> - 2147483648"
    using assms by (auto simp: in_int32_def)
  have "e' = e + (u + du) div 1000000" "u' = (u + du) mod 1000000"
    using normalize_units2_ok [OF _ i _ assms(4)] int64_id [OF in_int32_in_int64] by simp_all
  then show "e' * 1000000 + u' = e * 1000000 + u + du" "0 \<le> u'" "u' < 1000000"
    using mult_div_mod_eq [of 1000000 "u + du"] by (simp_all add: algebra_simps)
qed

lemma plus_carry:
  assumes "0 \<le> u" "u < 1000000" "rel_small dt"
    and r: "r = (case normalize_units2 int64 int32 (e + int32 (time_part dt)) (u + us dt) 1000000 of
      (e, u) \<Rightarrow> t\<lparr>epoch := e, abs_us := uint32 u\<rparr>)"
  shows "norm_abs r" "abs_zone r = abs_zone t"
    "abs_getEpochMicrosecondsUTC r = (e + time_part dt) * 1000000 + u + us dt"
proof -
  obtain e' u' where n: "normalize_units2 int64 int32 (e + int32 (time_part dt)) (u + us dt) 1000000 = (e', u')"
    by fastforce
  note c = carry_us [OF assms(1,2) _ n]
  have i: "int32 (time_part dt) = time_part dt" "\<bar>us dt\<bar> \<le> 2000000000"
    using assms(3) by (simp_all add: rel_small_def int32_id)
  show "norm_abs r" "abs_zone r = abs_zone t"
    "abs_getEpochMicrosecondsUTC r = (e + time_part dt) * 1000000 + u + us dt"
    using c [OF i(2)] n r by (simp_all add: norm_abs_def abs_getEpochMicrosecondsUTC_def i(1))
qed

lemma abs_plus_time:
  assumes "norm_abs t" "year dt = 0" "month dt = 0" "day dt = 0" "rel_small dt"
  shows "norm_abs (abs_plus t dt)" "abs_zone (abs_plus t dt) = abs_zone t"
    "abs_getEpochMicrosecondsUTC (abs_plus t dt) = abs_getEpochMicrosecondsUTC t + time_part dt * 1000000 + us dt"
proof -
  have u: "0 \<le> abs_us t" "abs_us t < 1000000" using assms(1) by (simp_all add: norm_abs_def)
  have p: "abs_plus t dt = (case normalize_units2 int64 int32 (epoch t + int32 (time_part dt)) (abs_us t + us dt) 1000000 of
      (e, u) \<Rightarrow> t\<lparr>epoch := e, abs_us := uint32 u\<rparr>)"
    using u assms(2-4) by (simp add: abs_plus_unfold)
  show "norm_abs (abs_plus t dt)" "abs_zone (abs_plus t dt) = abs_zone t"
    "abs_getEpochMicrosecondsUTC (abs_plus t dt) = abs_getEpochMicrosecondsUTC t + time_part dt * 1000000 + us dt"
    using plus_carry [OF u assms(5) p] by (simp_all add: abs_getEpochMicrosecondsUTC_def algebra_simps)
qed

lemma abs_total_inj:
  "norm_abs a \<Longrightarrow> norm_abs b \<Longrightarrow> abs_getEpochMicrosecondsUTC a = abs_getEpochMicrosecondsUTC b
    \<Longrightarrow> epoch a = epoch b \<and> abs_us a = abs_us b"
  by (cases "epoch a" "epoch b" rule: linorder_cases) (auto simp: norm_abs_def abs_getEpochMicrosecondsUTC_def)

context fixed_zone
begin

lemma abs_plus_date:
  assumes t: "norm_abs t" "abs_zone t = z" "\<bar>epoch t\<bar> \<le> 9000000000000000"
    and date: "year dt \<noteq> 0 \<or> month dt \<noteq> 0 \<or> day dt \<noteq> 0" and small: "rel_small dt"
    and m: "\<bar>month dt\<bar> \<le> 2000000000"
    and n: "normalize_dm (year (local_tm t) + year dt) (month (local_tm t) + month dt) (day (local_tm t)) = (y, mo, d)"
    and k: "k = days_from_civil y mo d + day dt" "-719528 \<le> k" "k \<le> 33600000"
  shows "norm_abs (abs_plus t dt)" "abs_zone (abs_plus t dt) = z"
    "abs_getEpochMicrosecondsUTC (abs_plus t dt) =
       (86400 * k + time_part (local_tm t) - off + time_part dt) * 1000000 + abs_us t + us dt"
proof -
  let ?tm = "local_tm t"
  note lo = local_ok [OF t]
  have u: "0 \<le> abs_us t" "abs_us t < 1000000" using t(1) by (simp_all add: norm_abs_def)
  have tmv: "1 \<le> month ?tm" "month ?tm \<le> 12" "1 \<le> day ?tm"
    using lo(1) by (simp_all add: valid_tm_def valid_date_def)
  have v: "valid_date y mo d"
    using normalize_dm_ok(1) [OF _ _ tmv(3) n] tmv m by (simp add: in_int32_def)
  then have mo: "0 < mo" "mo < 13" by (simp_all add: valid_date_def)
  obtain y' mo' d' where nd: "normalize_day y mo (d + day dt) = (y', mo', d')" by (metis prod_cases3)
  have v': "valid_date y' mo' d'" "days_from_civil y' mo' d' = k"
    using normalize_day_ok [OF mo nd] k(1) by (simp_all add: days_from_civil_def)
  have yr: "0 \<le> y'" "y' \<le> 95000" using year_of_days [OF v'(1)] v'(2) k by simp_all
  have e: "getEpochSeconds y' mo' d' (hour ?tm) (minute ?tm) (second ?tm) = 86400 * k + time_part ?tm"
    using getEpochSeconds_date_civil [OF yr v'(1)] v'(2) by (simp add: getEpochSeconds_def time_part_def)
  have p: "abs_plus t dt = (case normalize_units2 int64 int32 ((86400 * k + time_part ?tm - off) + int32 (time_part dt)) (abs_us t + us dt) 1000000 of
      (e, u) \<Rightarrow> t\<lparr>epoch := e, abs_us := uint32 u\<rparr>)"
    using date by (simp add: abs_plus_unfold n nd e off_at lo(3) t(2) Let_def)
  show "norm_abs (abs_plus t dt)" "abs_zone (abs_plus t dt) = z"
    "abs_getEpochMicrosecondsUTC (abs_plus t dt) =
       (86400 * k + time_part ?tm - off + time_part dt) * 1000000 + abs_us t + us dt"
    using plus_carry [OF u small p] t(2) by simp_all
qed

lemma local_split:
  assumes "norm_abs t" "abs_zone t = z" "\<bar>epoch t\<bar> \<le> 9000000000000000"
  shows "86400 * days_from_civil (year (local_tm t)) (month (local_tm t)) (day (local_tm t))
    + time_part (local_tm t) = epoch t + off"
  using local_ok(2) [OF assms] by (simp add: tm_secs_def time_part_def)

lemma abs_plus_days:
  assumes t: "norm_abs t" "abs_zone t = z" "\<bar>epoch t\<bar> \<le> 9000000000000000"
    and dt: "year dt = 0" "month dt = 0" "rel_small dt"
    and k: "- 62167219200 \<le> epoch t + off + 86400 * day dt" "epoch t + off + 86400 * day dt \<le> 2900000000000"
  shows "norm_abs (abs_plus t dt)" "abs_zone (abs_plus t dt) = z"
    "abs_getEpochMicrosecondsUTC (abs_plus t dt) =
       abs_getEpochMicrosecondsUTC t + (86400 * day dt + time_part dt) * 1000000 + us dt"
proof -
  let ?tm = "local_tm t"
  have v: "valid_date (year ?tm) (month ?tm) (day ?tm)" "0 \<le> time_part ?tm" "time_part ?tm < 86400"
    using local_ok(1) [OF t] by (auto simp: valid_tm_def time_part_def)
  define k' where "k' = days_from_civil (year ?tm) (month ?tm) (day ?tm) + day dt"
  have k'e: "86400 * k' + time_part ?tm = epoch t + off + 86400 * day dt"
    using local_split [OF t] by (simp add: k'_def algebra_simps)
  then have k'b: "-719528 \<le> k'" "k' \<le> 33600000" using k v(2,3) by linarith+
  have n: "normalize_dm (year ?tm + year dt) (month ?tm + month dt) (day ?tm) = (year ?tm, month ?tm, day ?tm)"
    using normalize_dm_id [OF v(1)] dt by simp
  consider "day dt = 0" | "day dt \<noteq> 0" by blast
  then have "norm_abs (abs_plus t dt) \<and> abs_zone (abs_plus t dt) = z
    \<and> abs_getEpochMicrosecondsUTC (abs_plus t dt) =
       abs_getEpochMicrosecondsUTC t + (86400 * day dt + time_part dt) * 1000000 + us dt"
  proof cases
    case 1
    then show ?thesis using abs_plus_time [OF t(1) dt(1,2) 1 dt(3)] t(2) by simp
  next
    case 2
    have *: "(86400 * k' + time_part ?tm - off + time_part dt) * 1000000 + abs_us t + us dt
        = abs_getEpochMicrosecondsUTC t + (86400 * day dt + time_part dt) * 1000000 + us dt"
      unfolding k'e by (simp add: abs_getEpochMicrosecondsUTC_def algebra_simps)
    show ?thesis
      using abs_plus_date [OF t _ dt(3) _ n k'_def k'b(1,2)] 2 dt(2) * by simp
  qed
  then show "norm_abs (abs_plus t dt)" "abs_zone (abs_plus t dt) = z"
    "abs_getEpochMicrosecondsUTC (abs_plus t dt) =
       abs_getEpochMicrosecondsUTC t + (86400 * day dt + time_part dt) * 1000000 + us dt" by simp_all
qed

lemma abs_plus_months:
  assumes t: "norm_abs t" "abs_zone t = z" "\<bar>epoch t\<bar> \<le> 9000000000000000"
    and dt: "day dt = 0" "hour dt = 0" "minute dt = 0" "second dt = 0" "us dt = 0"
      "year dt \<noteq> 0 \<or> month dt \<noteq> 0" "\<bar>month dt\<bar> \<le> 2000000000"
    and n: "normalize_dm (year (local_tm t) + year dt) (month (local_tm t) + month dt) (day (local_tm t)) = (y, mo, d)"
    and y: "0 \<le> y" "y \<le> 90000"
  shows "local_tm (abs_plus t dt) = (local_tm t)\<lparr>year := y, month := mo, day := d\<rparr>"
proof -
  let ?tm = "local_tm t"
  let ?r = "?tm\<lparr>year := y, month := mo, day := d\<rparr>"
  have tmv: "valid_tm ?tm" "1 \<le> month ?tm" "month ?tm \<le> 12" "1 \<le> day ?tm"
    using local_ok(1) [OF t] by (simp_all add: valid_tm_def valid_date_def)
  have v: "valid_date y mo d"
    using normalize_dm_ok(1) [OF _ _ tmv(4) n] tmv dt(7) by (simp add: in_int32_def)
  have vr: "valid_tm ?r" using tmv(1) v by (simp add: valid_tm_def)
  have sec: "tm_secs ?r = 86400 * days_from_civil y mo d + time_part ?tm"
    by (simp add: tm_secs_def time_part_def)
  have tp: "0 \<le> time_part ?tm" "time_part ?tm < 86400"
    using tmv(1) by (auto simp: valid_tm_def time_part_def)
  have r: "- 62167219200 \<le> tm_secs ?r" "tm_secs ?r \<le> 2900000000000"
    using tm_secs_range [OF vr] y by simp_all
  have k: "days_from_civil y mo d = days_from_civil y mo d + day dt"
    "-719528 \<le> days_from_civil y mo d" "days_from_civil y mo d \<le> 33600000"
    using r tp sec dt(1) by linarith+
  have z: "time_part dt = 0" "rel_small dt" using dt by (simp_all add: time_part_def rel_small_def in_int32_def)
  have dd: "year dt \<noteq> 0 \<or> month dt \<noteq> 0 \<or> day dt \<noteq> 0" using dt(6) by blast
  note p = abs_plus_date [OF t dd z(2) dt(7) n k]
  have "epoch (abs_plus t dt) = tm_secs ?r - off \<and> abs_us (abs_plus t dt) = abs_us t"
    using abs_total_inj [OF p(1), of "\<lparr>epoch = tm_secs ?r - off, abs_us = abs_us t, abs_zone = z\<rparr>"] p(3) z dt(5) t(1) sec
    by (simp add: norm_abs_def abs_getEpochMicrosecondsUTC_def)
  then have "local_tm (abs_plus t dt) = tm_set (tm_secs ?r) (us ?r)"
    using p(2) local_ok(3) [OF t] by (simp add: local_tm_def off_at)
  then show ?thesis using tm_set_unique [OF vr] r by simp
qed

end

section \<open>Differences\<close>

lemma setDifference_ok:
  assumes "norm_abs a" "norm_abs b" "\<bar>epoch a - epoch b\<bar> \<le> 2147483000"
    and r: "r = rel_setDifference (epoch a) (abs_getMicrosecond a) b"
  shows "year r = 0" "month r = 0" "day r = 0"
    "time_part r * 1000000 + us r = abs_getEpochMicrosecondsUTC a - abs_getEpochMicrosecondsUTC b"
    "\<bar>minute r\<bar> < 60" "\<bar>second r\<bar> < 60" "\<bar>us r\<bar> < 1000000"
proof -
  have ua: "0 \<le> abs_us a" "abs_us a < 1000000" "0 \<le> abs_us b" "abs_us b < 1000000"
    using assms by (simp_all add: norm_abs_def)
  have du: "int32 (uint32 (abs_us a - abs_us b)) = abs_us a - abs_us b"
    using ua by (simp add: int32_uint32 int32_id in_int32_def)
  obtain s1 u where n1: "normalize_units int64 int32 (epoch a - epoch b) (abs_us a - abs_us b) 1000000 = (s1, u)" by fastforce
  obtain h s2 where n2: "normalize_units int32 int64 0 s1 3600 = (h, s2)" by fastforce
  obtain m s3 where n3: "normalize_units int32 int64 0 s2 60 = (m, s3)" by fastforce
  have i64: "\<And>x. in_int32 x \<Longrightarrow> int64 x = x" by (simp add: int64_id in_int32_in_int64)
  have "in_int32 (abs_us a - abs_us b)" "abs_us a - abs_us b \<noteq> - 2147483648"
    using ua by (auto simp: in_int32_def)
  note o1 = normalize_units_ok [OF _ this i64 int32_id n1, simplified]
  have "in_int32 s1" "s1 \<noteq> - 2147483648"
    using o1 ua assms(3) unfolding in_int32_def by linarith+
  note o2 = normalize_units_ok [OF _ this int32_id i64 n2, simplified]
  have "in_int32 s2" "s2 \<noteq> - 2147483648"
    using o2 unfolding in_int32_def by linarith+
  note o3 = normalize_units_ok [OF _ this int32_id i64 n3, simplified]
  have s3: "int32 s3 = s3" using o3(2) by (intro int32_id) (auto simp: in_int32_def)
  have rr: "r = tm_fields 0 0 0 h m s3 u"
    using ua unfolding r rel_setDifference_def by (simp add: abs_getMicrosecond_def du n1 n2 n3 s3)
  have "\<bar>m\<bar> < 60" using o2(2) o3 by (cases m "0 :: int" rule: linorder_cases) (auto simp: abs_less_iff)
  then show "year r = 0" "month r = 0" "day r = 0" "\<bar>minute r\<bar> < 60" "\<bar>second r\<bar> < 60" "\<bar>us r\<bar> < 1000000"
    using o1(2) o3(2) by (simp_all add: rr tm_sel)
  show "time_part r * 1000000 + us r = abs_getEpochMicrosecondsUTC a - abs_getEpochMicrosecondsUTC b"
    using o1(1) o2(1) o3(1) by (simp add: rr tm_sel time_part_def abs_getEpochMicrosecondsUTC_def)
qed

section \<open>Orders given by three-way comparisons\<close>

text \<open>The contract of a three-way comparison: the sign of the comparison of a key in a linear order.\<close>

locale comparison =
  fixes cmp :: "'a \<Rightarrow> 'a \<Rightarrow> int" and le :: "'a \<Rightarrow> 'a \<Rightarrow> bool"
  assumes cmp_le: "cmp x y \<le> 0 \<longleftrightarrow> le x y"
    and cmp_flip: "cmp y x = - cmp x y"
    and le_trans: "le x y \<Longrightarrow> le y w \<Longrightarrow> le x w"
begin

lemma cmp_refl: "cmp x x = 0"
  using cmp_flip [of x x] by simp

lemma cmp_trans: "cmp x y \<le> 0 \<Longrightarrow> cmp y w \<le> 0 \<Longrightarrow> cmp x w \<le> 0"
  using le_trans by (simp add: cmp_le)

lemma cmp_eq_trans: "cmp x y = 0 \<Longrightarrow> cmp y w = 0 \<Longrightarrow> cmp x w = 0"
  using cmp_trans [of x y w] cmp_trans [of w y x] cmp_flip [of y x] cmp_flip [of w y] cmp_flip [of w x] by simp

lemma cmp_strict_trans:
  assumes "cmp x y < 0" "cmp y w \<le> 0"
  shows "cmp x w < 0"
proof (rule ccontr)
  assume "\<not> cmp x w < 0"
  then have "cmp w x \<le> 0" using cmp_flip [of w x] by simp
  then have "cmp y x \<le> 0" by (rule cmp_trans [OF assms(2)])
  then show False using assms(1) cmp_flip [of y x] by simp
qed

end

definition lex7 :: "qore_simple_tm \<Rightarrow> int list" where
  "lex7 t = [year t, month t, day t, hour t, minute t, second t, us t]"

fun lex_le :: "int list \<Rightarrow> int list \<Rightarrow> bool" where
  "lex_le (a # as) (b # bs) \<longleftrightarrow> a < b \<or> a = b \<and> lex_le as bs"
| "lex_le _ _ \<longleftrightarrow> True"

lemma lex_le_trans: "length a = length b \<Longrightarrow> length b = length c \<Longrightarrow> lex_le a b \<Longrightarrow> lex_le b c \<Longrightarrow> lex_le a c"
proof (induction a b arbitrary: c rule: lex_le.induct)
  case (1 a as b bs)
  obtain c' cs where c: "c = c' # cs" using 1(3) by (cases c) simp_all
  have "lex_le as bs \<Longrightarrow> lex_le bs cs \<Longrightarrow> lex_le as cs" using 1(1) [of cs] 1(2,3) c by simp
  then show ?case using 1(4,5) c by auto
qed auto

fun lex_cmp :: "int list \<Rightarrow> int list \<Rightarrow> int" where
  "lex_cmp (a # as) (b # bs) = (if a > b then 1 else if a < b then - 1 else lex_cmp as bs)"
| "lex_cmp _ _ = 0"

lemma lex_cmp_le: "lex_cmp a b \<le> 0 \<longleftrightarrow> lex_le a b"
  by (induction a b rule: lex_cmp.induct) auto

lemma lex_cmp_flip: "lex_cmp b a = - lex_cmp a b"
  by (induction a b rule: lex_cmp.induct) (auto simp: neq_Nil_conv split: list.splits)

definition rel_key :: "qore_simple_tm \<Rightarrow> int list" where
  "rel_key t = lex7 (rel_normalize True (rel_normalize False t))"

interpretation abs_cmp: comparison abs_compare
  "\<lambda>l r. epoch l < epoch r \<or> epoch l = epoch r \<and> abs_us l \<le> abs_us r"
  by unfold_locales (auto simp: abs_compare_def)

lemma rel_compare_lex: "rel_compare l r = lex_cmp (rel_key l) (rel_key r)"
  unfolding rel_compare_def Let_def rel_key_def lex7_def by simp

interpretation rel_cmp: comparison rel_compare "\<lambda>l r. lex_le (rel_key l) (rel_key r)"
proof unfold_locales
  fix x y w :: qore_simple_tm
  show "rel_compare x y \<le> 0 \<longleftrightarrow> lex_le (rel_key x) (rel_key y)"
    by (simp add: rel_compare_lex lex_cmp_le)
  show "rel_compare y x = - rel_compare x y" by (simp add: rel_compare_lex lex_cmp_flip [of "rel_key y"])
  show "lex_le (rel_key x) (rel_key y) \<Longrightarrow> lex_le (rel_key y) (rel_key w) \<Longrightarrow> lex_le (rel_key x) (rel_key w)"
    by (rule lex_le_trans [of _ "rel_key y"]) (simp_all add: rel_key_def lex7_def)
qed

interpretation date_cmp: comparison date_compare "\<lambda>l r. date_compare l r \<le> 0"
proof unfold_locales
  fix x y w :: qore_date
  show "date_compare y x = - date_compare x y"
    by (cases x; cases y; simp add: date_compare_def abs_cmp.cmp_flip [symmetric] rel_cmp.cmp_flip [symmetric])
  show "date_compare x y \<le> 0 \<Longrightarrow> date_compare y w \<le> 0 \<Longrightarrow> date_compare x w \<le> 0"
    by (cases x; cases y; cases w) (auto simp: date_compare_def intro: abs_cmp.cmp_trans rel_cmp.cmp_trans)
qed simp

section \<open>Normalising relative values\<close>

lemma normalize_step:
  assumes "normalize_units int32 int32 b s ratio = (b', s')" "1 < ratio" "\<bar>s\<bar> \<le> 2100000000"
  shows "b' * ratio + s' = b * ratio + s" "\<bar>s'\<bar> < ratio" "b' > 0 \<longrightarrow> s' \<ge> 0" "b' < 0 \<longrightarrow> s' \<le> 0"
proof -
  have "in_int32 s" "s \<noteq> - 2147483648" using assms(3) by (auto simp: in_int32_def)
  note n = normalize_units_ok [OF _ this int32_id int32_id assms(1)]
  show "b' * ratio + s' = b * ratio + s" "\<bar>s'\<bar> < ratio" "b' > 0 \<longrightarrow> s' \<ge> 0" "b' < 0 \<longrightarrow> s' \<le> 0"
    using n assms(2) by simp_all
qed

lemma rel_normalize_ok:
  assumes "\<bar>us t\<bar> \<le> 2000000000" "\<bar>second t\<bar> \<le> 2000000000" "\<bar>minute t\<bar> \<le> 2000000000" "\<bar>month t\<bar> \<le> 2000000000"
    and r: "r = rel_normalize False t"
  shows "time_part r * 1000000 + us r = time_part t * 1000000 + us t"
    "12 * year r + month r = 12 * year t + month t" "day r = day t"
    "\<bar>us r\<bar> < 1000000" "\<bar>second r\<bar> < 60" "\<bar>minute r\<bar> < 60" "\<bar>month r\<bar> < 12"
    "hour r > 0 \<longrightarrow> minute r \<ge> 0" "hour r < 0 \<longrightarrow> minute r \<le> 0"
    "year r > 0 \<longrightarrow> month r \<ge> 0" "year r < 0 \<longrightarrow> month r \<le> 0"
proof -
  obtain s1 u where n1: "normalize_units int32 int32 (second t) (us t) 1000000 = (s1, u)" by fastforce
  obtain m1 s where n2: "normalize_units int32 int32 (minute t) s1 60 = (m1, s)" by fastforce
  obtain h m where n3: "normalize_units int32 int32 (hour t) m1 60 = (h, m)" by fastforce
  obtain y mo where n4: "normalize_units int32 int32 (year t) (month t) 12 = (y, mo)" by fastforce
  note o1 = normalize_step [OF n1, simplified]
  have b1: "\<bar>us t\<bar> \<le> 2100000000" "\<bar>month t\<bar> \<le> 2100000000" using assms(1,4) by linarith+
  have s1: "\<bar>s1\<bar> \<le> 2100000000" using o1(1,2) [OF b1(1)] assms(1,2) by (auto simp: abs_le_iff abs_less_iff)
  note o2 = normalize_step [OF n2 _ s1, simplified]
  have m1: "\<bar>m1\<bar> \<le> 2100000000" using o2(1,2) assms(3) s1 by (auto simp: abs_le_iff abs_less_iff)
  note o1 = o1 [OF b1(1)]
  note o3 = normalize_step [OF n3 _ m1, simplified]
  note o4 = normalize_step [OF n4 _ b1(2), simplified]
  have rr: "r = tm_fields y mo (day t) h m s u"
    unfolding r rel_normalize_def by (simp add: n1 n2 n3 n4)
  show "day r = day t" "\<bar>us r\<bar> < 1000000" "\<bar>second r\<bar> < 60" "\<bar>minute r\<bar> < 60" "\<bar>month r\<bar> < 12"
    "hour r > 0 \<longrightarrow> minute r \<ge> 0" "hour r < 0 \<longrightarrow> minute r \<le> 0"
    "year r > 0 \<longrightarrow> month r \<ge> 0" "year r < 0 \<longrightarrow> month r \<le> 0"
    using o1(2) o2(2) o3(2-4) o4(2-4) by (simp_all add: rr tm_sel)
  show "12 * year r + month r = 12 * year t + month t"
    using o4(1) by (simp add: rr tm_sel)
  show "time_part r * 1000000 + us r = time_part t * 1000000 + us t"
    using o1(1) o2(1) o3(1) by (simp add: rr tm_sel time_part_def)
qed

section \<open>Properties\<close>

text \<open>
  C6: breaking a number of seconds since 1970 down into calendar fields gives a valid date and time,
  and putting the fields together again gives back the seconds, for years 0 to about 93000.
\<close>

theorem epoch_to_fields_to_epoch:
  assumes "- 62167219200 \<le> secs" "secs \<le> 2900000000000" "0 \<le> u" "u < 1000000" "t = tm_set secs u"
  shows "valid_tm t \<and> us t = u
    \<and> getEpochSeconds (year t) (month t) (day t) (hour t) (minute t) (second t) = secs"
proof -
  have ok: "valid_tm t" "tm_secs t = secs" "us t = u"
    using tm_set_ok [of secs u] assms by simp_all
  have v: "valid_date (year t) (month t) (day t)" "0 \<le> time_part t" "time_part t < 86400"
    using ok(1) by (auto simp: valid_tm_def time_part_def)
  have "86400 * days_from_civil (year t) (month t) (day t) + time_part t = secs"
    using ok(2) by (simp add: tm_secs_def time_part_def)
  then have "-719528 \<le> days_from_civil (year t) (month t) (day t)"
    "days_from_civil (year t) (month t) (day t) \<le> 33600000" using v(2,3) assms(1,2) by linarith+
  then show ?thesis using year_of_days [OF v(1)] ok getEpochSeconds_tm [OF ok(1)] by simp
qed

lemma epoch_to_fields_to_epoch_witness:
  "tm_set 951782400 5 = tm_fields 2000 2 29 0 0 0 5 \<and> getEpochSeconds 2000 2 29 0 0 0 = 951782400"
proof -
  have t: "tm_set 951782400 5 = tm_fields 2000 2 29 0 0 0 5" by code_simp
  show ?thesis using epoch_to_fields_to_epoch [of 951782400 5] by (simp add: t tm_sel)
qed

text \<open>
  C7: the seconds computed for the fields of a valid date and time of the years 0 to 90000 break down
  into the same fields again: no two valid dates share their seconds.
\<close>

theorem fields_to_epoch_to_fields:
  assumes "valid_tm t" "0 \<le> year t" "year t \<le> 90000"
  shows "tm_set (getEpochSeconds (year t) (month t) (day t) (hour t) (minute t) (second t)) (us t) = t"
  using getEpochSeconds_tm [OF assms(1,2)] tm_secs_range [OF assms] tm_set_unique [OF assms(1)] assms(3) by simp

lemma fields_to_epoch_to_fields_witness:
  "valid_tm (tm_fields 1900 2 28 23 59 59 0)
   \<and> tm_set (getEpochSeconds 1900 2 28 23 59 59) 0 = tm_fields 1900 2 28 23 59 59 0"
proof -
  have v: "valid_tm (tm_fields 1900 2 28 23 59 59 0)" by code_simp
  show ?thesis using fields_to_epoch_to_fields [OF v] v by (simp add: tm_sel)
qed

text \<open>
  The day after a valid date is 86400 seconds later and falls on the next day of the week.
\<close>

theorem next_day_epoch_weekday:
  assumes "valid_date y m d" "1 \<le> y" "y \<le> 90000" "next_day y m d = (y', m', d')"
  shows "valid_date y' m' d' \<and> getEpochSeconds_date y' m' d' = getEpochSeconds_date y m d + 86400
    \<and> getDayOfWeek y' m' d' = (getDayOfWeek y m d + 1) mod 7"
proof -
  have n: "valid_date y' m' d'" "days_from_civil y' m' d' = days_from_civil y m d + 1"
    using days_from_civil_next_day [OF assms(1)] assms(4) by simp_all
  have y': "y \<le> y'" "y' \<le> y + 1" using assms(4) by (auto simp: next_day_def split: if_splits)
  have w: "getDayOfWeek y m d = (days_from_civil y m d + 4) mod 7"
    "getDayOfWeek y' m' d' = (days_from_civil y' m' d' + 4) mod 7"
    using getDayOfWeek_civil [OF assms(2)] getDayOfWeek_civil [of y' m' d'] y' assms(1,2) n(1) by (simp_all add: valid_date_def)
  have "getDayOfWeek y' m' d' = (getDayOfWeek y m d + 1) mod 7"
    unfolding w n(2) by presburger
  then show ?thesis
    using n getEpochSeconds_date_civil [OF _ _ assms(1)] getEpochSeconds_date_civil [OF _ _ n(1)] y' assms(2,3) by simp
qed

lemma next_day_epoch_weekday_witness:
  "next_day 1999 12 31 = (2000, 1, 1) \<and> getEpochSeconds_date 2000 1 1 = getEpochSeconds_date 1999 12 31 + 86400
   \<and> getDayOfWeek 2000 1 1 = 6"
proof -
  have g: "valid_date 1999 12 31" "next_day 1999 12 31 = (2000, 1, 1)" "getDayOfWeek 1999 12 31 = 5"
    by code_simp+
  show ?thesis using next_day_epoch_weekday [OF g(1) _ _ g(2)] g by simp
qed

text \<open>
  the sign rules of the calendar hold from year 0 on only: the last day of year -4 and the first
  day of year -3 get the same seconds.
\<close>

theorem negative_year_collision:
  "valid_date (- 4) 12 31 \<and> valid_date (- 3) 1 1 \<and> next_day (- 4) 12 31 = (- 3, 1, 1)
   \<and> getEpochSeconds_date (- 4) 12 31 = getEpochSeconds_date (- 3) 1 1"
  by code_simp

text \<open>
  C8: local times are stored faithfully: an absolute time built from valid fields in any zone breaks
  down into exactly those fields again whenever the offset found by the second probe of
  \<open>setLocalIntern\<close> is the offset in force at the resulting moment.
\<close>

theorem local_time_round_trip:
  assumes "valid_tm t" "0 \<le> year t" "year t \<le> 90000"
    and "off = getUTCOffset z (tm_secs t - getUTCOffset_std z)"
    and "getUTCOffset z (tm_secs t - off) = off"
  shows "local_tm (abs_set_fields z (year t) (month t) (day t) (hour t) (minute t) (second t) (us t)) = t"
  using assms tm_secs_range [OF assms(1-3)] tm_set_unique [OF assms(1)]
  by (simp add: set_fields_epoch local_tm_def)

lemma local_time_round_trip_witness:
  "local_tm (abs_set_fields (Some (RegionZone example_zone)) 1970 1 1 1 20 0 7) = tm_fields 1970 1 1 1 20 0 7
   \<and> epoch (abs_set_fields (Some (RegionZone example_zone)) 1970 1 1 1 20 0 7) = 1200"
proof -
  let ?t = "tm_fields 1970 1 1 1 20 0 7" and ?z = "Some (RegionZone example_zone)"
  have v: "valid_tm ?t" "getUTCOffset ?z (tm_secs ?t - getUTCOffset_std ?z) = 3600"
    "getUTCOffset ?z (tm_secs ?t - 3600) = 3600"
    "epoch (abs_set_fields ?z 1970 1 1 1 20 0 7) = 1200"
    by code_simp+
  show ?thesis using local_time_round_trip [OF v(1), of 3600 ?z] v by (simp add: tm_sel)
qed

text \<open>
  in UTC and in every offset zone, rebuilding an absolute time from its own local fields gives
  the same moment, microseconds included.
\<close>

theorem fixed_zone_fields_round_trip:
  assumes "zone_fixed (abs_zone t)" "norm_abs t" "\<bar>epoch t\<bar> \<le> 9000000000000000"
    and "l = local_tm t" "0 \<le> year l" "year l \<le> 90000"
  shows "abs_set_fields (abs_zone t) (year l) (month l) (day l) (hour l) (minute l) (second l) (us l) = t"
proof -
  note f = zone_fixed_zone [OF assms(1)]
  show ?thesis
    using fixed_zone.fields_local [OF f assms(2) refl assms(3)] assms(4-6)
    by (simp add: fixed_zone.fields_def [OF f])
qed

lemma fixed_zone_fields_round_trip_witness:
  "abs_set_fields (Some (OffsetZone (mkOffsetZone [] (- 19800)))) 1969 12 31 18 30 0 250 =
     \<lparr>epoch = 0, abs_us = 250, abs_zone = Some (OffsetZone (mkOffsetZone [] (- 19800)))\<rparr>"
proof -
  let ?t = "\<lparr>epoch = 0, abs_us = 250, abs_zone = Some (OffsetZone (mkOffsetZone [] (- 19800)))\<rparr>"
  have v: "zone_fixed (abs_zone ?t)" "norm_abs ?t" "local_tm ?t = tm_fields 1969 12 31 18 30 0 250"
    by code_simp+
  show ?thesis using fixed_zone_fields_round_trip [OF v(1,2) _ refl] by (simp add: v(3) tm_sel)
qed

text \<open>
  C9: adding a relative value without years and months to an absolute one moves it by exactly the
  number of microseconds of the relative value.  A value without days may be added in any zone; with
  days, which count 24 hours, the zone has to be UTC or a fixed offset and the result has to lie in the
  years 0 to about 90000.  The time part of the value has to fit 32 bits of seconds, and its
  microseconds have to stay below 2000 seconds (\<open>rel_small\<close>).
\<close>

theorem add_relative_exact:
  assumes "norm_abs t" "year dt = 0" "month dt = 0" "rel_small dt"
    and "day dt \<noteq> 0 \<longrightarrow> zone_fixed (abs_zone t) \<and> \<bar>epoch t\<bar> \<le> 2000000000000
      \<and> - 62167219200 \<le> abs_getEpochSeconds t + 86400 * day dt
      \<and> abs_getEpochSeconds t + 86400 * day dt \<le> 2900000000000"
  shows "\<exists>r. date_add tz (Absolute t) (Relative dt) = Some (Absolute r) \<and> norm_abs r
    \<and> abs_zone r = abs_zone t
    \<and> abs_getEpochMicrosecondsUTC r = abs_getEpochMicrosecondsUTC t + rel_getRelativeMicroseconds dt"
proof (cases "day dt = 0")
  case True
  then show ?thesis using abs_plus_time [OF assms(1-3) True assms(4)] assms(2,3)
    by (simp add: date_add_def rel_getRelativeMicroseconds_def time_part_def)
next
  case False
  then have z: "zone_fixed (abs_zone t)" and b: "\<bar>epoch t\<bar> \<le> 2000000000000"
      "- 62167219200 \<le> abs_getEpochSeconds t + 86400 * day dt" "abs_getEpochSeconds t + 86400 * day dt \<le> 2900000000000"
    using assms(5) by simp_all
  note f = zone_fixed_zone [OF z]
  have e: "abs_getEpochSeconds t = epoch t + getUTCOffset_std (abs_zone t)"
    using fixed_zone.off_at [OF f] by (simp add: abs_getEpochSeconds_def)
  have "(86400 * day dt + time_part dt) * 1000000 + us dt = rel_getRelativeMicroseconds dt"
    using assms(2,3) by (simp add: rel_getRelativeMicroseconds_def time_part_def)
  then show ?thesis
    using fixed_zone.abs_plus_days [OF f assms(1) refl _ assms(2-4)] b
    by (simp add: date_add_def e)
qed

lemma add_relative_exact_witness:
  "date_add None (Absolute \<lparr>epoch = 1000, abs_us = 999999, abs_zone = None\<rparr>) (Relative (tm_fields 0 0 2 (- 1) 0 0 2))
     = Some (Absolute \<lparr>epoch = 170201, abs_us = 1, abs_zone = None\<rparr>)"
proof -
  let ?t = "\<lparr>epoch = 1000, abs_us = 999999, abs_zone = None\<rparr>" and ?d = "tm_fields 0 0 2 (- 1) 0 0 2"
  have v: "zone_fixed (abs_zone ?t)" "norm_abs ?t" "rel_small ?d" "abs_getEpochSeconds ?t = 1000"
    "rel_getRelativeMicroseconds ?d = 169200000002" by code_simp+
  obtain r where "date_add None (Absolute ?t) (Relative ?d) = Some (Absolute r)" "norm_abs r" "abs_zone r = None"
    "abs_getEpochMicrosecondsUTC r = 170201000001"
    using add_relative_exact [OF v(2) _ _ v(3), of None] v(1,4,5)
    by (auto simp: tm_sel abs_getEpochMicrosecondsUTC_def)
  moreover have "epoch r = 170201 \<and> abs_us r = 1"
    using abs_total_inj [of r "\<lparr>epoch = 170201, abs_us = 1, abs_zone = None\<rparr>"] calculation
    by (simp add: norm_abs_def abs_getEpochMicrosecondsUTC_def)
  ultimately show ?thesis by simp
qed

text \<open>
  C10: adding a value of years and months only, in UTC or a zone with a fixed offset, keeps the local time
  of day and moves the local month by exactly 12 months a year, cutting the day back to the last day of
  the target month, for target years 0 to 90000.
\<close>

theorem add_months_clamps_day:
  assumes "zone_fixed (abs_zone t)" "norm_abs t" "\<bar>epoch t\<bar> \<le> 2000000000000"
    and "dt = tm_fields yrs mos 0 0 0 0 0" "yrs \<noteq> 0 \<or> mos \<noteq> 0" "\<bar>mos\<bar> \<le> 2000000000"
    and "l = local_tm t" "12 * y + (m - 1) = 12 * (year l + yrs) + (month l + mos - 1)"
    and "1 \<le> m" "m \<le> 12" "0 \<le> y" "y \<le> 90000"
  shows "local_tm (abs_plus t dt) = l\<lparr>year := y, month := m, day := min (day l) (getLastDayOfMonth m y)\<rparr>"
proof -
  note f = zone_fixed_zone [OF assms(1)]
  have e: "\<bar>epoch t\<bar> \<le> 9000000000000000" using assms(3) by linarith
  have l: "1 \<le> month l" "month l \<le> 12" "1 \<le> day l"
    using fixed_zone.local_ok(1) [OF f assms(2) refl e] assms(7) by (simp_all add: valid_tm_def valid_date_def)
  obtain y' m' d' where n: "normalize_dm (year l + yrs) (month l + mos) (day l) = (y', m', d')" by (metis prod_cases3)
  have ok: "valid_date y' m' d'" "y' * 12 + (m' - 1) = (year l + yrs) * 12 + (month l + mos - 1)"
    "d' = min (day l) (getLastDayOfMonth m' y')"
    using normalize_dm_ok [OF _ _ l(3) n] l assms(6) by (auto simp: in_int32_def)
  have "1 \<le> m'" "m' \<le> 12" using ok(1) by (simp_all add: valid_date_def)
  then have "y' = y" using ok(2) assms(8-10) by linarith
  then have "m' = m" using ok(2) assms(8) by linarith
  with \<open>y' = y\<close> show ?thesis
    using fixed_zone.abs_plus_months [OF f assms(2) refl e, of dt y m d'] n ok(3) assms(4-7,11,12)
    by (simp add: tm_sel)
qed

lemma add_months_clamps_day_witness:
  "local_tm (abs_plus \<lparr>epoch = 951782400, abs_us = 0, abs_zone = None\<rparr> (tm_fields 1 0 0 0 0 0 0))
     = tm_fields 2001 2 28 0 0 0 0"
proof -
  let ?t = "\<lparr>epoch = 951782400, abs_us = 0, abs_zone = None\<rparr>"
  have v: "zone_fixed (abs_zone ?t)" "norm_abs ?t" "local_tm ?t = tm_fields 2000 2 29 0 0 0 0"
    "getLastDayOfMonth 2 2001 = 28" by code_simp+
  show ?thesis
    using add_months_clamps_day [OF v(1,2) _ refl _ _ refl, of 1 0 2001 2] by (simp add: v(3,4) tm_sel)
qed

text \<open>
  C11: subtracting one absolute time from another and adding the difference to the second gives back
  the first, for moments less than 2147483000 seconds apart; the difference is normalised.
\<close>

theorem subtract_then_add:
  assumes "norm_abs a" "norm_abs b" "\<bar>epoch a - epoch b\<bar> \<le> 2147483000"
    and "date_subtractBy (Absolute a) (Absolute b) = d"
  shows "date_add tz (Absolute b) d = Some (Absolute (a\<lparr>abs_zone := abs_zone b\<rparr>))
    \<and> \<bar>date_getMinute d\<bar> < 60 \<and> \<bar>date_getSecond d\<bar> < 60 \<and> \<bar>date_getMicrosecond d\<bar> < 1000000"
proof -
  define r where "r = rel_setDifference (epoch a) (abs_getMicrosecond a) b"
  note o = setDifference_ok [OF assms(1-3) r_def]
  have d: "d = Relative r" using assms(4) by (simp add: date_subtractBy_def r_def)
  have ep: "epoch b + (epoch a - epoch b) = epoch a" by simp
  have u: "0 \<le> abs_us a" "abs_us a < 1000000" "0 \<le> abs_us b" "abs_us b < 1000000"
    using assms(1,2) by (simp_all add: norm_abs_def)
  have "in_int32 (time_part r)"
    using o(4,7) u assms(3) unfolding in_int32_def abs_getEpochMicrosecondsUTC_def by (auto simp: abs_le_iff abs_less_iff)
  then have small: "rel_small r" using o(7) by (simp add: rel_small_def)
  note p = abs_plus_time [OF assms(2) o(1-3) small]
  have "epoch (abs_plus b r) = epoch a \<and> abs_us (abs_plus b r) = abs_us a"
    using abs_total_inj [OF p(1) assms(1)] p(3) o(4) by simp
  then have "abs_plus b r = a\<lparr>abs_zone := abs_zone b\<rparr>" using p(2) by (cases "abs_plus b r"; cases a) simp
  then show ?thesis
    using o d by (simp add: date_add_def date_getMinute_def date_getSecond_def date_getMicrosecond_def)
qed

lemma subtract_then_add_witness:
  "date_subtractBy (Absolute \<lparr>epoch = 100, abs_us = 5, abs_zone = None\<rparr>) (Absolute \<lparr>epoch = 4000, abs_us = 9, abs_zone = None\<rparr>)
     = Relative (tm_fields 0 0 0 (- 1) (- 5) 0 (- 4))
   \<and> date_add None (Absolute \<lparr>epoch = 4000, abs_us = 9, abs_zone = None\<rparr>) (Relative (tm_fields 0 0 0 (- 1) (- 5) 0 (- 4)))
     = Some (Absolute \<lparr>epoch = 100, abs_us = 5, abs_zone = None\<rparr>)"
proof -
  let ?a = "\<lparr>epoch = 100, abs_us = 5, abs_zone = None\<rparr>" and ?b = "\<lparr>epoch = 4000, abs_us = 9, abs_zone = None\<rparr>"
  have v: "norm_abs ?a" "norm_abs ?b"
    "date_subtractBy (Absolute ?a) (Absolute ?b) = Relative (tm_fields 0 0 0 (- 1) (- 5) 0 (- 4))" by code_simp+
  show ?thesis using subtract_then_add [OF v(1,2) _ v(3), of None] v(3) by simp
qed

text \<open>
  the limit of the previous property is real: the difference of 2100-01-01 and 1970-01-01 has
  1139568 hours, whose seconds do not fit the 32-bit arithmetic of \<open>operator+=\<close>, so that adding
  it back to 1970-01-01 misses 2100-01-01.
\<close>

theorem subtract_then_add_overflow:
  "getEpochSeconds_date 2100 1 1 = 4102444800
   \<and> date_subtractBy (date_new_zone None 4102444800 0) (date_new_zone None 0 0) = Relative (tm_fields 0 0 0 1139568 0 0 0)
   \<and> date_add None (date_new_zone None 0 0) (Relative (tm_fields 0 0 0 1139568 0 0 0)) \<noteq> Some (date_new_zone None 4102444800 0)"
  by code_simp

text \<open>
  \<open>qore_date_private::compare\<close> is a total order on all dates, relative values below absolute
  ones: it is antisymmetric and transitive, its equality is an equivalence compatible with the
  strict order, and on absolute times it is the order of the microseconds.
\<close>

theorem date_compare_total_order:
  "date_compare y x = - date_compare x y
   \<and> (date_compare x y \<le> 0 \<longrightarrow> date_compare y w \<le> 0 \<longrightarrow> date_compare x w \<le> 0)
   \<and> (date_compare x y < 0 \<longrightarrow> date_compare y w \<le> 0 \<longrightarrow> date_compare x w < 0)
   \<and> (date_isEqual x y \<longrightarrow> date_isEqual y w \<longrightarrow> date_isEqual x w)
   \<and> (norm_abs a \<longrightarrow> norm_abs b \<longrightarrow> date_compare (Absolute a) (Absolute b) =
        sgn (abs_getEpochMicrosecondsUTC a - abs_getEpochMicrosecondsUTC b))"
proof -
  have "norm_abs a \<Longrightarrow> norm_abs b \<Longrightarrow> date_compare (Absolute a) (Absolute b) =
        sgn (abs_getEpochMicrosecondsUTC a - abs_getEpochMicrosecondsUTC b)"
    by (auto simp: date_compare_def abs_compare_def norm_abs_def abs_getEpochMicrosecondsUTC_def sgn_if)
  then show ?thesis
    using date_cmp.cmp_flip date_cmp.cmp_trans date_cmp.cmp_strict_trans date_cmp.cmp_eq_trans
    unfolding date_isEqual_def by blast
qed

lemma date_compare_total_order_witness:
  "date_compare (Relative (tm_fields 0 0 0 1 0 0 0)) (date_new_zone None (- 10) 0) < 0
   \<and> date_compare (date_new_zone None (- 10) 0) (date_new_zone None 0 1) \<le> 0
   \<and> date_compare (Relative (tm_fields 0 0 0 1 0 0 0)) (date_new_zone None 0 1) < 0"
proof -
  have v: "date_compare (Relative (tm_fields 0 0 0 1 0 0 0)) (date_new_zone None (- 10) 0) < 0"
    "date_compare (date_new_zone None (- 10) 0) (date_new_zone None 0 1) \<le> 0" by code_simp+
  show ?thesis
    using date_compare_total_order [of "date_new_zone None (- 10) 0" "Relative (tm_fields 0 0 0 1 0 0 0)" "date_new_zone None 0 1"] v
    by blast
qed

text \<open>
  normalising a relative value keeps its length (the microseconds of its time part, its months
  and its days), bounds every unit by the next larger one and makes years and months, and hours
  and minutes, agree in sign.  (Seconds and microseconds may differ in sign from the larger units.)
\<close>

theorem relative_normalize_value:
  assumes "\<bar>us t\<bar> \<le> 2000000000" "\<bar>second t\<bar> \<le> 2000000000" "\<bar>minute t\<bar> \<le> 2000000000" "\<bar>month t\<bar> \<le> 2000000000"
    and "r = rel_set (year t) (month t) (day t) (hour t) (minute t) (second t) (us t)"
  shows "time_part r * 1000000 + us r = time_part t * 1000000 + us t
    \<and> 12 * year r + month r = 12 * year t + month t \<and> day r = day t
    \<and> \<bar>us r\<bar> < 1000000 \<and> \<bar>second r\<bar> < 60 \<and> \<bar>minute r\<bar> < 60 \<and> \<bar>month r\<bar> < 12
    \<and> 0 \<le> hour r * minute r \<and> 0 \<le> year r * month r"
proof -
  have "tm_fields (year t) (month t) (day t) (hour t) (minute t) (second t) (us t) = t"
    by (simp add: tm_sel)
  then have "r = rel_normalize False t" using assms(5) by (simp add: rel_set_def)
  note o = rel_normalize_ok [OF assms(1-4) this]
  have "0 \<le> hour r * minute r" using o(8,9) by (cases "hour r" "0 :: int" rule: linorder_cases) (simp_all add: mult_nonpos_nonpos)
  moreover have "0 \<le> year r * month r" using o(10,11) by (cases "year r" "0 :: int" rule: linorder_cases) (simp_all add: mult_nonpos_nonpos)
  ultimately show ?thesis using o by blast
qed

lemma relative_normalize_value_witness:
  "rel_set 1 (- 14) 40 0 (- 90) 30 (- 1) = tm_fields 0 (- 2) 40 (- 1) (- 29) (- 31) 999999
   \<and> time_part (tm_fields 0 (- 2) 40 (- 1) (- 29) (- 31) 999999) * 1000000 + 999999 = - 5370000001"
proof -
  have v: "rel_set 1 (- 14) 40 0 (- 90) 30 (- 1) = tm_fields 0 (- 2) 40 (- 1) (- 29) (- 31) 999999" by code_simp
  show ?thesis
    using relative_normalize_value [of "tm_fields 1 (- 14) 40 0 (- 90) 30 (- 1)", OF _ _ _ _ refl] v
    by (simp add: tm_sel time_part_def)
qed

text \<open>
  \<open>DateTime::add\<close> called on an absolute date adds nothing: its argument never reaches
  the addition, and the result is the receiver itself (for times whose microseconds are normalised).
\<close>

theorem DateTime_add_ignores_argument:
  assumes "norm_abs t"
  shows "DateTime_add tz (Absolute t) dt = Some (Absolute t)"
proof -
  have "abs_plus t tm_zero = t"
    using assms by (simp add: abs_plus_def tm_zero_def norm_abs_def int32_id in_int32_def)
  then show ?thesis by (simp add: DateTime_add_def isRelative_def date_add_def date_new_def)
qed

lemma DateTime_add_ignores_argument_witness:
  "DateTime_add None (Absolute \<lparr>epoch = 0, abs_us = 1, abs_zone = None\<rparr>) (Relative (tm_fields 0 0 1 0 0 0 0))
     = Some (Absolute \<lparr>epoch = 0, abs_us = 1, abs_zone = None\<rparr>)
   \<and> DateTimeNode_add None (Absolute \<lparr>epoch = 0, abs_us = 1, abs_zone = None\<rparr>) (Relative (tm_fields 0 0 1 0 0 0 0))
     = Some (Absolute \<lparr>epoch = 86400, abs_us = 1, abs_zone = None\<rparr>)"
proof -
  have "norm_abs \<lparr>epoch = 0, abs_us = 1, abs_zone = None\<rparr>"
    "DateTimeNode_add None (Absolute \<lparr>epoch = 0, abs_us = 1, abs_zone = None\<rparr>) (Relative (tm_fields 0 0 1 0 0 0 0))
     = Some (Absolute \<lparr>epoch = 86400, abs_us = 1, abs_zone = None\<rparr>)" by code_simp+
  then show ?thesis using DateTime_add_ignores_argument by simp
qed

text \<open>
  The hour getter disagrees with the broken-down time in zones west of Greenwich just after
  the epoch: for a whole number of hours \<open>k\<close> below the offset the hour of a moment
  before local midnight of 1970 comes out negative.
\<close>

theorem getHour_negative:
  assumes "zone_fixed z" "getUTCOffset_std z = - 3600 * k" "0 < k" "k \<le> 24" "t = \<lparr>epoch = 0, abs_us = 0, abs_zone = z\<rparr>"
  shows "abs_getHour t = (if k = 24 then 0 else - k) \<and> hour (local_tm t) = 24 - k"
proof -
  note f = zone_fixed_zone [OF assms(1)]
  have off: "getUTCOffset z 0 = - 3600 * k" using fixed_zone.off_at [OF f, of 0] assms(2) by simp
  have l: "valid_tm (local_tm t)" "tm_secs (local_tm t) = - 3600 * k"
    using fixed_zone.local_ok [OF f, of t] assms by (simp_all add: norm_abs_def)
  have v: "0 \<le> hour (local_tm t)" "hour (local_tm t) < 24" "0 \<le> minute (local_tm t)" "minute (local_tm t) < 60"
    "0 \<le> second (local_tm t)" "second (local_tm t) < 60"
    using l(1) by (simp_all add: valid_tm_def)
  define n where "n = days_from_civil (year (local_tm t)) (month (local_tm t)) (day (local_tm t))"
  have e: "86400 * n + hour (local_tm t) * 3600 + minute (local_tm t) * 60 + second (local_tm t) = - 3600 * k"
    using l(2) by (simp add: tm_secs_def n_def)
  have "n = - 1" using e v assms(3,4) by linarith
  then have "hour (local_tm t) = 24 - k" using e v by linarith
  moreover have "abs_getHour t = (if k = 24 then 0 else - k)"
  proof -
    have "3600 * k mod 86400 = (if k = 24 then 0 else 3600 * k)" using assms(3,4) by auto
    then show ?thesis using assms(3-5) by (auto simp: abs_getHour_def off smod_nonneg sdiv_nonneg)
  qed
  ultimately show ?thesis by simp
qed

lemma getHour_negative_witness:
  "abs_getHour \<lparr>epoch = 0, abs_us = 0, abs_zone = Some (OffsetZone (mkOffsetZone [] (- 18000)))\<rparr> = - 5"
proof -
  have "zone_fixed (Some (OffsetZone (mkOffsetZone [] (- 18000))))"
    "getUTCOffset_std (Some (OffsetZone (mkOffsetZone [] (- 18000)))) = - 3600 * 5" by code_simp+
  from getHour_negative [OF this] show ?thesis by simp
qed

end
