(* ===== verification/Date_Week.thy ===== *)
theory Date_Week
  imports Date_Value
begin

text \<open>
  ISO-8601 calendar weeks: the conversion from a date to year, week and week day
  (\<open>qore_simple_tm2::getISOWeek\<close>, \<open>src/lib/qore_date_private.cpp\<close>) and back
  (\<open>qore_date_private::getDateFromISOWeek\<close>) against the day on which the ISO year starts.
  The two conversions are inverse to each other except in week 53 of leap years that start on a
  Thursday, which the code gives 52 weeks.
\<close>

section \<open>The ISO year\<close>

definition jan1 :: "int \<Rightarrow> int" where
  "jan1 y = (year_start y + 4) mod 7"

text \<open>\<open>iso_start y\<close> is the day number of the Monday of week 1 of ISO year \<open>y\<close>.\<close>

definition iso_start :: "int \<Rightarrow> int" where
  "iso_start y = year_start y
     + (if jan1 y = 0 then 1 else if jan1 y \<le> 4 then 1 - jan1 y else 8 - jan1 y)"

definition iso_long :: "int \<Rightarrow> bool" where
  "iso_long y \<longleftrightarrow> jan1 y = 4 \<or> jan1 y = 3 \<and> isLeapYear y"

definition code_long :: "int \<Rightarrow> bool" where
  "code_long y \<longleftrightarrow> jan1 y = 4 \<and> \<not> isLeapYear y \<or> jan1 y = 3 \<and> isLeapYear y"

lemma jan1_range: "jan1 y \<in> {0, 1, 2, 3, 4, 5, 6}"
proof -
  have "0 \<le> jan1 y" "jan1 y < 7" by (simp_all add: jan1_def)
  then show ?thesis by (simp only: insert_iff empty_iff) presburger
qed

lemma jan1_step: "jan1 (y + 1) = (jan1 y + (if isLeapYear y then 2 else 1)) mod 7"
proof -
  have "year_start (y + 1) + 4 = (year_start y + 4) + (if isLeapYear y then 2 else 1) + 7 * 52"
    by (simp add: year_start_step)
  then have "jan1 (y + 1) = ((year_start y + 4) + (if isLeapYear y then 2 else 1)) mod 7"
    unfolding jan1_def by (simp only: mod_mult_self2)
  then show ?thesis by (simp only: jan1_def mod_add_left_eq)
qed

lemma iso_start_step: "iso_start (y + 1) = iso_start y + (if iso_long y then 371 else 364)"
  using jan1_range [of y]
  by (elim insertE emptyE)
     (simp_all add: iso_start_def iso_long_def jan1_step year_start_step)

lemma getDayOfWeek_jan1: "1 \<le> y \<Longrightarrow> getDayOfWeek y 1 1 = jan1 y"
  by (simp add: getDayOfWeek_civil days_from_civil_def jan1_def)

lemma mod7_pred: "(if (x::int) mod 7 = 0 then 7 else x mod 7) = (x + 6) mod 7 + 1"
  by presburger

lemma iso_weekday: "(year_start y + k - iso_start y) mod 7 = (k + jan1 y + 6) mod 7"
proof -
  have "k + jan1 y + 6 = year_start y + k - iso_start y + 7 * (if jan1 y = 0 then 1 else if jan1 y \<le> 4 then 1 else 2)"
    by (simp add: iso_start_def)
  then show ?thesis by (metis mod_mult_self2)
qed

lemma getISOWeek_split:
  assumes y: "2 \<le> y" and m: "1 \<le> m" "m \<le> 12"
    and n: "n = days_from_civil y m d" and k: "year_start y \<le> n"
  shows "tm2_getISOWeek y m d =
    (let wd = (n - iso_start y) mod 7 + 1 in
     if n < iso_start y then (y - 1, if code_long (y - 1) then 53 else 52, wd)
     else let week = (n - iso_start y) div 7 + 1
          in if week = 53 \<and> \<not> code_long y then (y + 1, 1, wd) else (y, week, wd))"
proof -
  define kk where "kk = n - year_start y"
  have kk: "0 \<le> kk" using k by (simp add: kk_def)
  have dn: "getDayNumber y m d = kk + 1"
    using getDayNumber_civil [OF m] by (simp add: n kk_def)
  have j: "getDayOfWeek y 1 1 = jan1 y" "getDayOfWeek (y - 1) 1 1 = jan1 (y - 1)"
    using y by (simp_all add: getDayOfWeek_jan1)
  have jr: "0 \<le> jan1 y" using jan1_range [of y] by auto
  have dow: "(kk + 1 + jan1 y - 1) smod 7 = (kk + jan1 y) mod 7"
    using kk jr by (simp add: smod_nonneg)
  have wd: "(if (kk + jan1 y) mod 7 = 0 then 7 else (kk + jan1 y) mod 7) = (n - iso_start y) mod 7 + 1"
    unfolding mod7_pred using iso_weekday [of y kk] by (simp add: kk_def)
  have first: "(jan1 y = 0 \<and> kk + 1 = 1) \<or> (jan1 y = 5 \<and> kk + 1 < 4) \<or> (jan1 y = 6 \<and> kk + 1 < 3) \<longleftrightarrow> n < iso_start y"
    using jan1_range [of y] kk by (elim insertE emptyE) (auto simp: iso_start_def kk_def)
  have off: "kk + 1 + (if jan1 y > 4 then jan1 y - 9 else jan1 y - 2) = n - iso_start y" if "jan1 y \<noteq> 0"
    using that jan1_range [of y] by (auto simp: iso_start_def kk_def)
  have off0: "kk + 1 + (if jan1 y > 4 then jan1 y - 9 else jan1 y - 2) = n - iso_start y"
    using off by (cases "jan1 y = 0") (auto simp: iso_start_def kk_def)
  show ?thesis
    unfolding tm2_getISOWeek_def Let_def j dn dow wd first off0
    using sdiv_nonneg [of "n - iso_start y" 7] by (auto simp: code_long_def)
qed

text \<open>
  A leap year that starts on a Thursday has a week 53 that the code does not know: from 27 December, a
  Monday, to 2 January.
\<close>

definition leap_thursday :: "int \<Rightarrow> bool" where
  "leap_thursday y \<longleftrightarrow> jan1 y = 4 \<and> isLeapYear y"

lemma long_code: "iso_long y = (code_long y \<or> leap_thursday y)" "leap_thursday y \<Longrightarrow> \<not> code_long y"
  by (auto simp: iso_long_def code_long_def leap_thursday_def)

definition week_shift :: "int \<Rightarrow> int \<Rightarrow> int \<Rightarrow> int" where
  "week_shift y m d = (if leap_thursday y \<and> m = 12 \<and> 27 \<le> d then 7 else if leap_thursday (y - 1) \<and> m = 1 \<and> d \<le> 2 then - 7 else 0)"

lemma late_december:
  assumes "valid_date y m d" "isLeapYear y"
  shows "year_start y + 361 \<le> days_from_civil y m d \<longleftrightarrow> m = 12 \<and> 27 \<le> d"
  using assms days_from_civil_less [of y m d y 12 27] days_from_civil_less [of y 12 27 y m d] month_cases [of m]
  by (auto simp: days_from_civil_def valid_date_def getLastDayOfMonth_eq month_len_def month_lengths_def month_start_def positive_months_def)

lemma early_january:
  assumes "valid_date y m d"
  shows "days_from_civil y m d < year_start y + 2 \<longleftrightarrow> m = 1 \<and> d \<le> 2"
  using assms month_cases [of m]
  by (auto simp: days_from_civil_def valid_date_def month_start_def positive_months_def)

lemma week_shift_cases:
  assumes v: "valid_date y m d" and x: "x = days_from_civil y m d - iso_start y"
  shows "x < 0 \<Longrightarrow> week_shift y m d = (if leap_thursday (y - 1) then - 7 else 0)"
    "0 \<le> x \<Longrightarrow> week_shift y m d = (if leap_thursday y \<and> 364 \<le> x then 7 else 0)"
proof -
  have n: "leap_thursday y \<Longrightarrow> \<not> leap_thursday (y - 1)"
    using jan1_step [of "y - 1"] by (auto simp: leap_thursday_def)
  have a: "leap_thursday y \<Longrightarrow> (364 \<le> x \<longleftrightarrow> m = 12 \<and> 27 \<le> d)"
    using late_december [OF v] x by (auto simp: leap_thursday_def iso_start_def)
  have b: "leap_thursday (y - 1) \<Longrightarrow> (x < 0 \<longleftrightarrow> m = 1 \<and> d \<le> 2)"
    using early_january [OF v] x jan1_step [of "y - 1"] by (auto simp: leap_thursday_def iso_start_def)
  show "week_shift y m d = (if leap_thursday (y - 1) then - 7 else 0)" if "x < 0"
    using that a b n by (auto simp: week_shift_def)
  show "week_shift y m d = (if leap_thursday y \<and> 364 \<le> x then 7 else 0)" if "0 \<le> x"
    using that a b n by (auto simp: week_shift_def)
qed

lemma getISOWeek_ok:
  assumes y: "2 \<le> y" and v: "valid_date y m d" and iso: "tm2_getISOWeek y m d = (yr, wk, wd)"
  shows "iso_start yr + (wk - 1) * 7 + (wd - 1) = days_from_civil y m d + week_shift y m d"
    and "1 \<le> wk \<and> wk \<le> (if code_long yr then 53 else 52)" and "1 \<le> wd \<and> wd \<le> 7"
proof -
  define n where "n = days_from_civil y m d"
  define x where "x = n - iso_start y"
  have nb: "year_start y \<le> n" "n < year_start (y + 1)"
    using days_from_civil_year [OF v] by (simp_all add: n_def)
  have mm: "1 \<le> m" "m \<le> 12" using v by (auto simp: valid_date_def)
  note sh = week_shift_cases [OF v, of x, folded n_def, OF x_def]
  note sp = getISOWeek_split [OF y mm n_def nb(1), unfolded iso, folded x_def]
  have st: "iso_start y = iso_start (y - 1) + (if iso_long (y - 1) then 371 else 364)"
    "iso_start (y + 1) = iso_start y + (if iso_long y then 371 else 364)"
    using iso_start_step [of "y - 1"] iso_start_step [of y] by simp_all
  have lo: "- 7 < x"
    using nb(1) jan1_range [of y] by (auto simp: x_def iso_start_def)
  have hi: "x < 371"
    using nb(2) jan1_range [of y] by (auto simp: x_def iso_start_def year_start_step split: if_splits)
  have dm: "7 * (x div 7) + x mod 7 = x" "0 \<le> x mod 7" "x mod 7 < 7" by simp_all
  consider "x < 0" | "0 \<le> x" "x div 7 + 1 = 53" "\<not> code_long y" | "0 \<le> x" "\<not> (x div 7 + 1 = 53 \<and> \<not> code_long y)"
    by linarith
  then have "iso_start yr + (wk - 1) * 7 + (wd - 1) = n + week_shift y m d \<and> 1 \<le> wk \<and> wk \<le> (if code_long yr then 53 else 52)"
  proof cases
    case 1
    then have "x div 7 = - 1" using lo dm by linarith
    then show ?thesis using 1 sp st(1) dm sh(1) long_code(1) [of "y - 1"] long_code(2) [of "y - 1"] x_def
      by (simp add: Let_def split: if_splits)
  next
    case 2
    then have "364 \<le> x" using dm by linarith
    then show ?thesis using 2 sp st(2) dm sh(2) long_code(1) [of y] x_def by (simp add: Let_def split: if_splits)
  next
    case 3
    then have w: "0 \<le> x div 7" "x div 7 < 53" using hi by simp_all
    have "leap_thursday y \<longrightarrow> x < 364" using 3 w dm long_code(2) [of y] by linarith
    then show ?thesis using 3 w sp dm sh(2) x_def by (auto simp: Let_def split: if_splits)
  qed
  then show "iso_start yr + (wk - 1) * 7 + (wd - 1) = days_from_civil y m d + week_shift y m d"
    "1 \<le> wk \<and> wk \<le> (if code_long yr then 53 else 52)" by (simp_all add: n_def)
  show "1 \<le> wd \<and> wd \<le> 7" using sp dm by (auto simp: Let_def split: if_splits)
qed

lemma iso_max_week_eq: "1 \<le> y \<Longrightarrow> iso_max_week y = (if code_long y then 53 else 52)"
  by (auto simp: iso_max_week_def getDayOfWeek_jan1 code_long_def Let_def)

lemma setLocalDate_utc:
  "date_setLocalDate None s 0 = Absolute \<lparr>epoch = s, abs_us = 0, abs_zone = None\<rparr>"
  by (simp add: date_setLocalDate_def abs_setLocal_def setLocalIntern_def normalize_units2_def
      Let_def getUTCOffset_std_def getUTCOffset_def getUTCOffset_full_def uint32_def)

lemma iso_start_seconds:
  assumes "1 \<le> y" "y \<le> 95000"
  shows "(case (if jan1 y = 1 then (y, 1, 1) else if jan1 y > 1 \<and> jan1 y < 5 then (y - 1, 12, 33 - jan1 y)
      else (y, 1, if jan1 y \<noteq> 0 then 9 - jan1 y else 2)) of (y, m, d) \<Rightarrow> getEpochSeconds_date y m d)
    = 86400 * iso_start y"
proof -
  have v: "valid_date y 1 1" "valid_date y 1 2" "valid_date y 1 3" "valid_date y 1 4"
     "valid_date (y - 1) 12 29" "valid_date (y - 1) 12 30" "valid_date (y - 1) 12 31"
    by (simp_all add: valid_date_def getLastDayOfMonth_eq month_len_def month_lengths_def)
  show ?thesis
    using jan1_range [of y] assms year_start_step [of "y - 1"]
    by (elim insertE emptyE)
       (simp_all add: getEpochSeconds_date_civil v iso_start_def days_from_civil_def)
qed

lemma getDateFromISOWeek_ok:
  assumes "1 \<le> yr" "yr \<le> 95000" "1 \<le> wk" "wk \<le> iso_max_week yr" "1 \<le> wd" "wd \<le> 7"
  shows "getDateFromISOWeek None r yr wk wd xs =
    (Absolute \<lparr>epoch = 86400 * (iso_start yr + (wk - 1) * 7 + (wd - 1)), abs_us = 0, abs_zone = None\<rparr>, xs)"
  using assms iso_start_seconds [of yr]
  by (auto simp: getDateFromISOWeek_def getDayOfWeek_jan1 setLocalDate_utc Let_def split: prod.split if_splits)

section \<open>Properties\<close>

text \<open>
  C12: the week computed for a valid date of the years 2 to 94000 is a proper week of its year, and
  \<open>getDateFromISOWeek\<close> in UTC maps it, without raising, to midnight of that day again, except for the days
  of week 53 of a leap year that starts on a Thursday, which the code does not know: the days from 27 to
  31 December come back 7 days later and the first two days of the following January 7 days earlier.
\<close>

theorem iso_week_round_trip:
  assumes "2 \<le> y" "y \<le> 94000" "valid_date y m d" "tm2_getISOWeek y m d = (yr, wk, wd)"
  shows "1 \<le> wk \<and> wk \<le> iso_max_week yr \<and> 1 \<le> wd \<and> wd \<le> 7
    \<and> getDateFromISOWeek None r yr wk wd xs =
         (Absolute \<lparr>epoch = 86400 * (days_from_civil y m d
              + (if getDayOfWeek y 1 1 = 4 \<and> isLeapYear y \<and> m = 12 \<and> 27 \<le> d then 7
                 else if getDayOfWeek (y - 1) 1 1 = 4 \<and> isLeapYear (y - 1) \<and> m = 1 \<and> d \<le> 2 then - 7 else 0)),
            abs_us = 0, abs_zone = None\<rparr>, xs)"
proof -
  have sh: "week_shift y m d = (if getDayOfWeek y 1 1 = 4 \<and> isLeapYear y \<and> m = 12 \<and> 27 \<le> d then 7
      else if getDayOfWeek (y - 1) 1 1 = 4 \<and> isLeapYear (y - 1) \<and> m = 1 \<and> d \<le> 2 then - 7 else 0)"
    using assms(1) by (simp add: week_shift_def leap_thursday_def getDayOfWeek_jan1)
  note ok = getISOWeek_ok [OF assms(1,3,4)]
  have yr: "y - 1 \<le> yr" "yr \<le> y + 1"
    using assms(4) by (auto simp: tm2_getISOWeek_def Let_def split: if_splits)
  have mx: "1 \<le> wk" "wk \<le> iso_max_week yr" using ok(2) yr(1) assms(1) by (simp_all add: iso_max_week_eq)
  have "getDateFromISOWeek None r yr wk wd xs =
    (Absolute \<lparr>epoch = 86400 * (iso_start yr + (wk - 1) * 7 + (wd - 1)), abs_us = 0, abs_zone = None\<rparr>, xs)"
    using yr assms(1,2) mx ok(3) by (intro getDateFromISOWeek_ok) simp_all
  then show ?thesis using ok(3) mx unfolding ok(1) sh by blast
qed

lemma iso_week_round_trip_witness:
  "tm2_getISOWeek 2021 1 3 = (2020, 53, 7)
   \<and> getDateFromISOWeek None (date_new None False) 2020 53 7 [] =
     (Absolute \<lparr>epoch = 86400 * days_from_civil 2021 1 3, abs_us = 0, abs_zone = None\<rparr>, [])"
proof -
  have g: "tm2_getISOWeek 2021 1 3 = (2020, 53, 7)" "valid_date 2021 1 3"
    "\<not> (getDayOfWeek 2021 1 1 = 4 \<and> isLeapYear 2021)" "\<not> (getDayOfWeek (2021 - 1) 1 1 = 4 \<and> isLeapYear (2021 - 1))"
    by code_simp+
  show ?thesis using iso_week_round_trip [OF _ _ g(2,1), of "date_new None False" "[]"] g(1,3,4) by simp
qed

text \<open>
  a leap year that starts on a Thursday has 53 ISO weeks, but the code gives it 52: the first
  of January of the next year and the 25th of December of that year get the same year, week and
  week day, and asking for week 53 raises an exception.
\<close>

theorem iso_week_leap_thursday_collision:
  assumes "2 \<le> y" "getDayOfWeek y 1 1 = 4" "isLeapYear y"
  shows "iso_start (y + 1) = iso_start y + 53 * 7
    \<and> tm2_getISOWeek (y + 1) 1 1 = (y, 52, 6) \<and> tm2_getISOWeek y 12 25 = (y, 52, 6)
    \<and> getDateFromISOWeek tz r y 53 6 xs = (r, raiseException xs ''ISO-8601-INVALID-WEEK'')"
proof -
  have j: "jan1 y = 4" "jan1 (y + 1) = 6"
    using assms by (simp_all add: getDayOfWeek_jan1 jan1_step)
  have n: "days_from_civil (y + 1) 1 1 = year_start y + 366" "days_from_civil y 12 25 = year_start y + 359"
    using assms(3) by (simp_all add: days_from_civil_def year_start_step)
  have s: "iso_start y = year_start y - 3" "iso_start (y + 1) = year_start y + 368"
    using j assms(3) by (simp_all add: iso_start_def year_start_step)
  have c: "\<not> code_long y" using j assms(3) by (simp add: code_long_def)
  have a: "tm2_getISOWeek (y + 1) 1 1 = (y, 52, 6)"
    using getISOWeek_split [of "y + 1" 1 "days_from_civil (y + 1) 1 1" 1] assms(1,3) n s c
    by (simp add: year_start_step)
  have b: "tm2_getISOWeek y 12 25 = (y, 52, 6)"
    using getISOWeek_split [of y 12 "days_from_civil y 12 25" 25] assms(1) n s c by simp
  show ?thesis
    using a b s c assms by (simp add: getDateFromISOWeek_def iso_max_week_eq)
qed

lemma iso_week_leap_thursday_collision_witness:
  "tm2_getISOWeek 2005 1 1 = (2004, 52, 6) \<and> tm2_getISOWeek 2004 12 25 = (2004, 52, 6)"
proof -
  have g: "getDayOfWeek 2004 1 1 = 4" "isLeapYear 2004" by code_simp+
  show ?thesis using iso_week_leap_thursday_collision [OF _ g] by simp
qed

end
