(* ===== verification/Lock_Base.thy ===== *)
theory Lock_Base
  imports Qore_Prelude "HOL-Library.Monad_Syntax"
begin

text \<open>
  Per-thread lock lists with deadlock detection (\<open>VLock\<close>, \<open>src/lib/VLock.cpp\<close>), thread
  resource lists (\<open>src/lib/ThreadResourceList.cpp\<close>) and the base class of all smart locks
  (\<open>AbstractSmartLock\<close>, \<open>src/lib/AbstractSmartLock.cpp\<close>).

  A lock is named by a number, a thread by its TID, and the \<open>VLock\<close> of a thread by the TID of its
  thread.  A method runs under the internal mutex \<open>asl_lock\<close>, which only the waits on a condition
  variable give up: what a method does between two waits is one function on the lock and the
  shared \<open>world\<close>.  A method that starts to wait answers \<open>Block\<close>; a second function continues
  it with the return code of the wait.  Failed assertions and other undefined behaviour (reading
  through a null \<open>VLock\<close> pointer, running off the start of a lock list) are \<open>None\<close>.
\<close>

section \<open>Lock lists and the world\<close>

datatype cond = AslCond nat | ReadCond nat | UserCond nat

datatype signal = Signal cond | Broadcast cond

datatype outcome = Ret int | Block

record world =
  vlist :: "int \<Rightarrow> nat list"
  waiting_on :: "int \<Rightarrow> nat option"
  trset :: "int \<Rightarrow> nat set"
  signals :: "signal list"
  raised :: xsink

abbreviation (input) Lock_Deleted :: int where "Lock_Deleted \<equiv> - 2"
abbreviation (input) Lock_Unlocked :: int where "Lock_Unlocked \<equiv> - 1"

definition vl_push :: "int \<Rightarrow> nat \<Rightarrow> world \<Rightarrow> world" where
  "vl_push t g w = w\<lparr>vlist := (vlist w)(t := vlist w t @ [g])\<rparr>"

text \<open>\<open>pop\<close> erases the last occurrence, which is usually the last entry.\<close>

fun erase_back :: "nat \<Rightarrow> nat list \<Rightarrow> nat list option" where
  "erase_back g [] = None"
| "erase_back g (x # xs) = (if x = g then Some xs else map_option ((#) x) (erase_back g xs))"

definition pop_list :: "nat list \<Rightarrow> nat \<Rightarrow> (nat list \<times> int) option" where
  "pop_list xs g =
     (if xs = [] then None
      else if g = last xs then Some (butlast xs, 0)
      else (case erase_back g (rev (butlast xs)) of
              None \<Rightarrow> None
            | Some ys \<Rightarrow> Some (rev ys @ [last xs], - 1)))"

definition vl_pop :: "int \<Rightarrow> nat \<Rightarrow> world \<Rightarrow> world option" where
  "vl_pop t g w =
     (case pop_list (vlist w t) g of None \<Rightarrow> None
      | Some (xs, rc) \<Rightarrow> Some (w\<lparr>vlist := (vlist w)(t := xs)\<rparr>))"

definition vl_find :: "int \<Rightarrow> nat \<Rightarrow> world \<Rightarrow> bool" where
  "vl_find t g w = (g \<in> set (vlist w t))"

definition world_raise :: "string \<Rightarrow> world \<Rightarrow> world" where
  "world_raise e w = w\<lparr>raised := raiseException (raised w) e\<rparr>"

definition world_signal :: "signal \<Rightarrow> world \<Rightarrow> world" where
  "world_signal s w = w\<lparr>signals := signals w @ [s]\<rparr>"

definition set_thread_resource :: "int \<Rightarrow> nat \<Rightarrow> world \<Rightarrow> world" where
  "set_thread_resource t g w = w\<lparr>trset := (trset w)(t := insert g (trset w t))\<rparr>"

definition remove_thread_resource :: "int \<Rightarrow> nat \<Rightarrow> world \<Rightarrow> int \<times> world" where
  "remove_thread_resource t g w =
     (if g \<in> trset w t then (0, w\<lparr>trset := (trset w)(t := trset w t - {g})\<rparr>) else (- 1, w))"

definition check_thread_resource :: "int \<Rightarrow> nat \<Rightarrow> world \<Rightarrow> bool" where
  "check_thread_resource t g w = (g \<in> trset w t)"

section \<open>Waiting with deadlock detection\<close>

definition deadlock_with :: "int \<Rightarrow> world \<Rightarrow> int \<Rightarrow> bool" where
  "deadlock_with me w owner =
     (case waiting_on w owner of None \<Rightarrow> False | Some q \<Rightarrow> vl_find me q w)"

definition waitOn_end :: "int \<Rightarrow> world \<Rightarrow> world" where
  "waitOn_end me w = w\<lparr>waiting_on := (waiting_on w)(me := None)\<rparr>"

text \<open>
  The three overloads of \<open>waitOn\<close> up to the wait itself: the first two look at the one owner of
  the lock, the third at all threads that hold it.
\<close>

definition waitOn_vmap :: "int \<Rightarrow> nat \<Rightarrow> int list \<Rightarrow> world \<Rightarrow> (outcome \<times> world) option" where
  "waitOn_vmap me asl owners w =
     (if waiting_on w me \<noteq> None then None
      else let w = w\<lparr>waiting_on := (waiting_on w)(me := Some asl)\<rparr> in
        if list_ex (deadlock_with me w) owners
        then Some (Ret (- 1), waitOn_end me (world_raise ''THREAD-DEADLOCK'' w))
        else Some (Block, w))"

definition waitOn :: "int \<Rightarrow> nat \<Rightarrow> int option \<Rightarrow> world \<Rightarrow> (outcome \<times> world) option" where
  "waitOn me asl vl w =
     (if waiting_on w me \<noteq> None then None
      else case vl of None \<Rightarrow> None
        | Some owner \<Rightarrow>
            let w = w\<lparr>waiting_on := (waiting_on w)(me := Some asl)\<rparr> in
            if deadlock_with me w owner
            then Some (Ret (- 1), waitOn_end me (world_raise ''THREAD-DEADLOCK'' w))
            else Some (Block, w))"

section \<open>\<open>AbstractSmartLock\<close>\<close>

record asl =
  vl :: "int option"
  tid :: int
  waiting :: int
  cmap :: "nat \<rightharpoonup> int"

definition asl_init :: asl where
  "asl_init = \<lparr>vl = None, tid = Lock_Unlocked, waiting = 0, cmap = Map.empty\<rparr>"

definition mark_and_push :: "nat \<Rightarrow> int \<Rightarrow> 'a asl_scheme \<times> world \<Rightarrow> 'a asl_scheme \<times> world" where
  "mark_and_push self mtid = (\<lambda>(l, w). (l\<lparr>tid := mtid, vl := Some mtid\<rparr>, vl_push mtid self w))"

definition asl_signalImpl :: "nat \<Rightarrow> 'a asl_scheme \<Rightarrow> world \<Rightarrow> world" where
  "asl_signalImpl self l w = (if waiting l \<noteq> 0 then world_signal (Signal (AslCond self)) w else w)"

definition asl_signalAllImpl :: "nat \<Rightarrow> 'a asl_scheme \<Rightarrow> world \<Rightarrow> world" where
  "asl_signalAllImpl self l w = (if waiting l \<noteq> 0 then world_signal (Broadcast (AslCond self)) w else w)"

definition release_and_signal ::
    "('a asl_scheme \<Rightarrow> world \<Rightarrow> world) \<Rightarrow> nat \<Rightarrow> 'a asl_scheme \<times> world \<Rightarrow> ('a asl_scheme \<times> world) option" where
  "release_and_signal signalImpl self = (\<lambda>(l, w). do {
     owner \<leftarrow> vl l;
     w \<leftarrow> vl_pop owner self w;
     let l = l\<lparr>tid := (if tid l \<ge> 0 then Lock_Unlocked else tid l), vl := None\<rparr>;
     Some (l, signalImpl l w) })"

definition grab_intern :: "nat \<Rightarrow> int \<Rightarrow> 'a asl_scheme \<times> world \<Rightarrow> 'a asl_scheme \<times> world" where
  "grab_intern self mtid s = (let (l, w) = mark_and_push self mtid s in (l, set_thread_resource mtid self w))"

definition release_intern ::
    "('a asl_scheme \<Rightarrow> world \<Rightarrow> world) \<Rightarrow> nat \<Rightarrow> int \<Rightarrow> 'a asl_scheme \<times> world \<Rightarrow> ('a asl_scheme \<times> world) option" where
  "release_intern signalImpl self me = (\<lambda>(l, w).
     release_and_signal signalImpl self (l, snd (remove_thread_resource me self w)))"

definition asl_cleanupImpl ::
    "('a asl_scheme \<Rightarrow> world \<Rightarrow> world) \<Rightarrow> nat \<Rightarrow> int \<Rightarrow> 'a asl_scheme \<times> world \<Rightarrow> (int \<times> 'a asl_scheme \<times> world) option" where
  "asl_cleanupImpl signalImpl self me = (\<lambda>(l, w).
     if tid l = me then map_option (\<lambda>s. (- 1, s)) (release_and_signal signalImpl self (l, w))
     else Some (0, l, w))"

text \<open>The virtual methods are arguments of the base class methods that call them.\<close>

definition asl_cleanup ::
    "('a asl_scheme \<times> world \<Rightarrow> (int \<times> 'a asl_scheme \<times> world) option) \<Rightarrow> 'a asl_scheme \<times> world
       \<Rightarrow> ('a asl_scheme \<times> world) option" where
  "asl_cleanup cleanupImpl s = do {
     (rc, l, w) \<leftarrow> cleanupImpl s;
     Some (if rc = 0 then (l, w) else (l, world_raise ''LOCK-ERROR'' w)) }"

definition asl_destructor ::
    "('a asl_scheme \<times> world \<Rightarrow> ('a asl_scheme \<times> world) option) \<Rightarrow> ('a asl_scheme \<Rightarrow> world \<Rightarrow> world)
       \<Rightarrow> nat \<Rightarrow> int \<Rightarrow> 'a asl_scheme \<times> world \<Rightarrow> ('a asl_scheme \<times> world) option" where
  "asl_destructor destructorImpl signalAllImpl self me s = do {
     (l, w) \<leftarrow> destructorImpl s;
     if tid l \<ge> 0 then do {
       owner \<leftarrow> vl l;
       w \<leftarrow> vl_pop owner self w;
       let w = world_raise ''LOCK-ERROR'' w;
       let w = (if me = tid l then snd (remove_thread_resource me self w) else w);
       Some (l\<lparr>tid := Lock_Deleted\<rparr>, signalAllImpl l w) }
     else Some (l\<lparr>tid := Lock_Deleted\<rparr>, w) }"

definition asl_grab ::
    "('a asl_scheme \<times> world \<Rightarrow> (outcome \<times> 'a asl_scheme \<times> world) option) \<Rightarrow> nat \<Rightarrow> int
       \<Rightarrow> 'a asl_scheme \<times> world \<Rightarrow> (outcome \<times> 'a asl_scheme \<times> world) option" where
  "asl_grab grabImpl self mtid s = do {
     (rc, l, w) \<leftarrow> grabImpl s;
     Some (if rc = Ret 0 then (rc, grab_intern self mtid (l, w)) else (rc, l, w)) }"

definition asl_release ::
    "('a asl_scheme \<times> world \<Rightarrow> (int \<times> 'a asl_scheme \<times> world) option) \<Rightarrow> ('a asl_scheme \<Rightarrow> world \<Rightarrow> world)
       \<Rightarrow> nat \<Rightarrow> 'a asl_scheme \<times> world \<Rightarrow> (int \<times> 'a asl_scheme \<times> world) option" where
  "asl_release releaseImpl signalImpl self s = do {
     (rc, l, w) \<leftarrow> releaseImpl s;
     if rc = 0 then map_option (Pair rc) (release_and_signal signalImpl self (l, w)) else Some (rc, l, w) }"

definition asl_release_x ::
    "('a asl_scheme \<times> world \<Rightarrow> (int \<times> 'a asl_scheme \<times> world) option) \<Rightarrow> ('a asl_scheme \<Rightarrow> world \<Rightarrow> world)
       \<Rightarrow> nat \<Rightarrow> int \<Rightarrow> 'a asl_scheme \<times> world \<Rightarrow> (int \<times> 'a asl_scheme \<times> world) option" where
  "asl_release_x releaseImpl signalImpl self me s = do {
     (rc, l, w) \<leftarrow> releaseImpl s;
     if rc = 0 then map_option (Pair rc) (release_intern signalImpl self me (l, w)) else Some (rc, l, w) }"

definition asl_externWaitImpl :: "'a asl_scheme \<times> world \<Rightarrow> outcome \<times> 'a asl_scheme \<times> world" where
  "asl_externWaitImpl = (\<lambda>(l, w). (Ret (- 1), l, world_raise ''WAIT-ERROR'' w))"

definition verify_wait_unlocked :: "int \<Rightarrow> 'a asl_scheme \<times> world \<Rightarrow> int \<times> 'a asl_scheme \<times> world" where
  "verify_wait_unlocked mtid = (\<lambda>(l, w).
     if tid l = mtid then (0, l, w) else (- 1, l, world_raise ''WAIT-ERROR'' w))"

definition cond_enter :: "nat \<Rightarrow> 'a asl_scheme \<Rightarrow> 'a asl_scheme" where
  "cond_enter c l = l\<lparr>cmap := (cmap l)(c \<mapsto> (case cmap l c of None \<Rightarrow> 1 | Some n \<Rightarrow> n + 1))\<rparr>"

definition cond_leave :: "nat \<Rightarrow> 'a asl_scheme \<Rightarrow> 'a asl_scheme option" where
  "cond_leave c l =
     (case cmap l c of None \<Rightarrow> None
      | Some n \<Rightarrow> Some (l\<lparr>cmap := (if n - 1 = 0 then (cmap l)(c := None) else (cmap l)(c \<mapsto> n - 1))\<rparr>))"

section \<open>Lemmas on the world\<close>

lemma erase_back_remove1: "g \<in> set xs \<Longrightarrow> erase_back g xs = Some (remove1 g xs)"
  by (induction xs) auto

lemma pop_list_eq:
  assumes "g \<in> set xs"
  shows "\<exists>rc. pop_list xs g = Some (rev (remove1 g (rev xs)), rc)"
proof -
  obtain ys x where xs: "xs = ys @ [x]" using assms by (cases xs rule: rev_cases) auto
  show ?thesis using assms by (auto simp: pop_list_def xs erase_back_remove1)
qed

lemma count_list_rev [simp]: "count_list (rev xs) x = count_list xs x"
  by (induction xs) auto

lemma count_list_remove1 [simp]: "count_list (remove1 y xs) x = count_list xs x - (if x = y then 1 else 0)"
proof (induction xs)
  case (Cons a xs)
  have "a \<in> set xs \<Longrightarrow> count_list xs a > 0" by (metis count_list_0_iff gr0I)
  with Cons show ?case by (auto simp: count_list_0_iff)
qed simp

text \<open>\<open>locked w g t\<close> is the number of times lock \<open>g\<close> is on the list of thread \<open>t\<close>.\<close>

definition locked :: "world \<Rightarrow> nat \<Rightarrow> int \<Rightarrow> nat" where
  "locked w g t = count_list (vlist w t) g"

lemma vl_find_locked: "vl_find t g w \<longleftrightarrow> locked w g t > 0"
  by (metis count_list_0_iff locked_def neq0_conv vl_find_def)

lemma vl_pop_ok:
  assumes "locked w g t > 0"
  obtains w' where "vl_pop t g w = Some w'"
    and "\<And>g' t'. locked w' g' t' = locked w g' t' - (if g' = g \<and> t' = t then 1 else 0)"
    and "waiting_on w' = waiting_on w" "trset w' = trset w" "signals w' = signals w" "raised w' = raised w"
proof -
  have "g \<in> set (vlist w t)" using assms vl_find_locked [of t g w] by (simp add: vl_find_def)
  then obtain rc where "pop_list (vlist w t) g = Some (rev (remove1 g (rev (vlist w t))), rc)"
    using pop_list_eq by blast
  then have p: "vl_pop t g w = Some (w\<lparr>vlist := (vlist w)(t := rev (remove1 g (rev (vlist w t))))\<rparr>)"
    by (simp add: vl_pop_def)
  show thesis by (rule that [OF p]) (auto simp: locked_def)
qed

lemma erase_back_mem: "erase_back g xs = Some ys \<Longrightarrow> g \<in> set xs"
  by (induction xs arbitrary: ys) (auto split: if_splits)

lemma vl_pop_mem: "vl_pop t g w = Some w' \<Longrightarrow> locked w g t > 0"
  by (cases "vlist w t" rule: rev_cases)
     (auto simp: vl_pop_def pop_list_def vl_find_locked [symmetric] vl_find_def split: option.splits if_splits
       dest: erase_back_mem)

lemma vl_pop_frame:
  assumes "vl_pop t g w = Some w'"
  shows "locked w' g' t' = locked w g' t' - (if g' = g \<and> t' = t then 1 else 0)" "waiting_on w' = waiting_on w"
  using vl_pop_ok [OF vl_pop_mem [OF assms]] assms by (metis option.inject)+

lemma locked_push [simp]:
  "locked (vl_push t g w) g' t' = locked w g' t' + (if g' = g \<and> t' = t then 1 else 0)"
  by (auto simp: locked_def vl_push_def)

lemma locked_same [simp]:
  "locked (world_raise e w) g t = locked w g t" "locked (world_signal s w) g t = locked w g t"
  "locked (set_thread_resource t' g' w) g t = locked w g t"
  "locked (snd (remove_thread_resource t' g' w)) g t = locked w g t"
  "locked (waitOn_end t' w) g t = locked w g t"
  "locked (w\<lparr>waiting_on := f\<rparr>) g t = locked w g t"
  "locked (asl_signalImpl self l w) g t = locked w g t"
  "locked (asl_signalAllImpl self l w) g t = locked w g t"
  by (simp_all add: locked_def world_raise_def world_signal_def set_thread_resource_def
      remove_thread_resource_def waitOn_end_def asl_signalImpl_def asl_signalAllImpl_def)

lemma waiting_on_same [simp]:
  "waiting_on (world_raise e w) = waiting_on w" "waiting_on (world_signal s w) = waiting_on w"
  "waiting_on (set_thread_resource t' g' w) = waiting_on w"
  "waiting_on (snd (remove_thread_resource t' g' w)) = waiting_on w"
  "waiting_on (vl_push t' g' w) = waiting_on w"
  "waiting_on (asl_signalImpl self l w) = waiting_on w"
  "waiting_on (asl_signalAllImpl self l w) = waiting_on w"
  "waiting_on (waitOn_end t' w) = (waiting_on w)(t' := None)"
  by (simp_all add: world_raise_def world_signal_def set_thread_resource_def
      remove_thread_resource_def vl_push_def waitOn_end_def asl_signalImpl_def asl_signalAllImpl_def)

section \<open>The contract of a smart lock\<close>

definition waiters :: "world \<Rightarrow> nat \<Rightarrow> int set" where
  "waiters w g = {t. waiting_on w t = Some g}"

text \<open>
  What \<open>AbstractSmartLock\<close> relies on: the invariant \<open>inv\<close> of a lock and what its virtual
  methods promise.  \<open>granted t\<close> holds when \<open>grabImpl\<close> or \<open>tryGrabImpl\<close> has answered 0 for
  thread \<open>t\<close>, \<open>releasing t\<close> when \<open>releaseImpl\<close> has.
\<close>

locale smart_lock =
  fixes self :: nat
    and inv :: "'a asl_scheme \<Rightarrow> world \<Rightarrow> bool"
    and granted releasing :: "int \<Rightarrow> 'a asl_scheme \<Rightarrow> world \<Rightarrow> bool"
    and grabImpl resume :: "int \<Rightarrow> 'a asl_scheme \<times> world \<Rightarrow> (outcome \<times> 'a asl_scheme \<times> world) option"
    and tryGrabImpl :: "int \<Rightarrow> 'a asl_scheme \<times> world \<Rightarrow> (outcome \<times> 'a asl_scheme \<times> world) option"
    and releaseImpl :: "int \<Rightarrow> 'a asl_scheme \<times> world \<Rightarrow> (int \<times> 'a asl_scheme \<times> world) option"
    and signalImpl :: "'a asl_scheme \<Rightarrow> world \<Rightarrow> world"
  assumes grab_ok: "inv l w \<Longrightarrow> 0 \<le> t \<Longrightarrow> waiting_on w t = None \<Longrightarrow>
      \<exists>r l' w'. grabImpl t (l, w) = Some (r, l', w') \<and> (if r = Ret 0 then granted t l' w' else inv l' w')"
    and resume_ok: "inv l w \<Longrightarrow> 0 \<le> t \<Longrightarrow> waiting_on w t = Some self \<Longrightarrow>
      \<exists>r l' w'. resume t (l, w) = Some (r, l', w') \<and> (if r = Ret 0 then granted t l' w' else inv l' w')"
    and try_ok: "inv l w \<Longrightarrow> 0 \<le> t \<Longrightarrow> waiting_on w t = None \<Longrightarrow>
      \<exists>r l' w'. tryGrabImpl t (l, w) = Some (r, l', w') \<and> r \<noteq> Block \<and> (if r = Ret 0 then granted t l' w' else inv l' w')"
    and release_ok: "inv l w \<Longrightarrow> 0 \<le> t \<Longrightarrow>
      \<exists>r l' w'. releaseImpl t (l, w) = Some (r, l', w') \<and> (if r = 0 then releasing t l' w' else inv l' w')"
    and grant_inv: "granted t l w \<Longrightarrow> 0 \<le> t \<Longrightarrow> inv (fst (grab_intern self t (l, w))) (snd (grab_intern self t (l, w)))"
    and free_inv: "releasing t l w \<Longrightarrow> \<exists>l' w'. release_intern signalImpl self t (l, w) = Some (l', w') \<and> inv l' w' \<and> tid l' < 0"
begin

lemma grab_intern_tid: "tid (fst (grab_intern self t s)) = t"
  by (cases s) (simp add: grab_intern_def mark_and_push_def)

lemma grabbed:
  assumes "\<exists>r l' w'. f (l, w) = Some (r, l', w') \<and> (if r = Ret 0 then granted t l' w' else inv l' w')" "0 \<le> t"
  shows "\<exists>r l' w'. asl_grab f self t (l, w) = Some (r, l', w') \<and> inv l' w' \<and> (r = Ret 0 \<longrightarrow> tid l' = t)"
proof -
  obtain r l' w' where f: "f (l, w) = Some (r, l', w')" "if r = Ret 0 then granted t l' w' else inv l' w'"
    using assms(1) by blast
  show ?thesis
  proof (cases "r = Ret 0")
    case True
    obtain l2 w2 where g: "grab_intern self t (l', w') = (l2, w2)" by fastforce
    have "inv l2 w2" "tid l2 = t" using grant_inv [of t l' w'] grab_intern_tid [of t "(l', w')"] f True assms(2) g by simp_all
    then show ?thesis using f True by (simp add: asl_grab_def g)
  next
    case False
    then show ?thesis using f by (simp add: asl_grab_def)
  qed
qed

lemma asl_grab_ok:
  assumes "inv l w" "0 \<le> t" "waiting_on w t = None"
  shows "\<exists>r l' w'. asl_grab (grabImpl t) self t (l, w) = Some (r, l', w') \<and> inv l' w' \<and> (r = Ret 0 \<longrightarrow> tid l' = t)"
  by (rule grabbed [where f = "grabImpl t", OF grab_ok [OF assms] assms(2)])

lemma asl_resume_ok:
  assumes "inv l w" "0 \<le> t" "waiting_on w t = Some self"
  shows "\<exists>r l' w'. asl_grab (resume t) self t (l, w) = Some (r, l', w') \<and> inv l' w' \<and> (r = Ret 0 \<longrightarrow> tid l' = t)"
  by (rule grabbed [where f = "resume t", OF resume_ok [OF assms] assms(2)])

lemma asl_tryGrab_ok:
  assumes "inv l w" "0 \<le> t" "waiting_on w t = None"
  shows "\<exists>r l' w'. asl_grab (tryGrabImpl t) self t (l, w) = Some (r, l', w') \<and> inv l' w' \<and> (r = Ret 0 \<longrightarrow> tid l' = t)"
  using try_ok [OF assms] by (intro grabbed [where f = "tryGrabImpl t"] assms(2)) blast

lemma asl_release_ok:
  assumes "inv l w" "0 \<le> t"
  shows "\<exists>r l' w'. asl_release_x (releaseImpl t) signalImpl self t (l, w) = Some (r, l', w') \<and> inv l' w' \<and> (r = 0 \<longrightarrow> tid l' < 0)"
proof -
  obtain r l' w' where f: "releaseImpl t (l, w) = Some (r, l', w')" "if r = 0 then releasing t l' w' else inv l' w'"
    using release_ok [OF assms] by blast
  then show ?thesis
    using free_inv [of t l' w'] by (cases "r = 0") (auto simp: asl_release_x_def)
qed

end

end
