(* ===== verification/Lock_Mutex.thy ===== *)
theory Lock_Mutex
  imports Lock_Base
begin

text \<open>
  The exclusive lock \<open>SmartMutex\<close> (\<open>src/lib/SmartMutex.cpp\<close>) and the recursive lock
  \<open>VRMutex\<close> (\<open>src/lib/VRMutex.cpp\<close>), both shown to meet the contract \<open>smart_lock\<close>.
\<close>

section \<open>\<open>SmartMutex\<close>\<close>

text \<open>The head of the loop in \<open>grabImpl\<close> and what follows the loop.\<close>

definition sm_loop :: "nat \<Rightarrow> int \<Rightarrow> asl \<times> world \<Rightarrow> (outcome \<times> asl \<times> world) option" where
  "sm_loop self mtid = (\<lambda>(l, w).
     if tid l \<ge> 0 then do {
       (r, w) \<leftarrow> waitOn mtid self (vl l) w;
       Some (case r of Block \<Rightarrow> (Block, l\<lparr>waiting := waiting l + 1\<rparr>, w) | Ret _ \<Rightarrow> (Ret (- 1), l, w)) }
     else if tid l = Lock_Deleted then Some (Ret (- 1), l, world_raise ''LOCK-ERROR'' w)
     else Some (Ret 0, l, w))"

definition sm_grabImpl :: "nat \<Rightarrow> int \<Rightarrow> asl \<times> world \<Rightarrow> (outcome \<times> asl \<times> world) option" where
  "sm_grabImpl self mtid = (\<lambda>(l, w).
     if tid l = mtid then Some (Ret (- 1), l, world_raise ''LOCK-ERROR'' w) else sm_loop self mtid (l, w))"

definition sm_resume :: "nat \<Rightarrow> int \<Rightarrow> int \<Rightarrow> asl \<times> world \<Rightarrow> (outcome \<times> asl \<times> world) option" where
  "sm_resume self rc mtid = (\<lambda>(l, w).
     let w = waitOn_end mtid w; l = l\<lparr>waiting := waiting l - 1\<rparr>
     in if rc \<noteq> 0 then Some (Ret (- 1), l, w) else sm_loop self mtid (l, w))"

definition sm_tryGrabImpl :: "int \<Rightarrow> asl \<times> world \<Rightarrow> (outcome \<times> asl \<times> world) option" where
  "sm_tryGrabImpl mtid = (\<lambda>(l, w). Some (if tid l \<noteq> Lock_Unlocked then Ret (- 1) else Ret 0, l, w))"

definition sm_releaseImpl :: "asl \<times> world \<Rightarrow> (int \<times> asl \<times> world) option" where
  "sm_releaseImpl = (\<lambda>(l, w). Some (if tid l < 0 then - 1 else 0, l, w))"

definition sm_releaseImpl_x :: "int \<Rightarrow> asl \<times> world \<Rightarrow> (int \<times> asl \<times> world) option" where
  "sm_releaseImpl_x mtid = (\<lambda>(l, w).
     Some (if tid l < 0 then (- 1, l, world_raise ''LOCK-ERROR'' w)
           else if tid l \<noteq> mtid then (- 1, l, world_raise ''LOCK-ERROR'' w)
           else (0, l, w)))"

definition sm_externWait :: "nat \<Rightarrow> int \<Rightarrow> nat \<Rightarrow> asl \<times> world \<Rightarrow> (outcome \<times> asl \<times> world) option" where
  "sm_externWait self mtid c s =
     (case verify_wait_unlocked mtid s of (rc, l, w) \<Rightarrow>
        if rc \<noteq> 0 then Some (Ret (- 1), l, w)
        else do { (l, w) \<leftarrow> release_intern (asl_signalImpl self) self mtid (cond_enter c l, w); Some (Block, l, w) })"

text \<open>The thread has woken up from the condition variable and takes the lock again.\<close>

definition sm_externWait_wake :: "nat \<Rightarrow> int \<Rightarrow> nat \<Rightarrow> asl \<times> world \<Rightarrow> (outcome \<times> asl \<times> world) option" where
  "sm_externWait_wake self mtid c = (\<lambda>(l, w). do {
     l \<leftarrow> cond_leave c l;
     asl_grab (sm_grabImpl self mtid) self mtid (l, w) })"

text \<open>\<open>conds\<close> lists the condition variables of the program in the order of the map.\<close>

definition sm_destructorImpl :: "nat list \<Rightarrow> asl \<times> world \<Rightarrow> (asl \<times> world) option" where
  "sm_destructorImpl conds = (\<lambda>(l, w).
     let cs = filter (\<lambda>c. cmap l c \<noteq> None) conds
     in Some (l, if cs = [] then w
                 else fold (\<lambda>c. world_signal (Broadcast (UserCond c))) cs (world_raise ''LOCK-ERROR'' w)))"

definition owns_lock :: "int \<Rightarrow> asl \<Rightarrow> bool" where
  "owns_lock me l \<longleftrightarrow> tid l = me"

section \<open>\<open>VRMutex\<close>\<close>

record vrmutex = asl +
  count :: int

definition vr_init :: vrmutex where
  "vr_init = \<lparr>vl = None, tid = Lock_Unlocked, waiting = 0, cmap = Map.empty, count = 0\<rparr>"

definition vr_loop :: "nat \<Rightarrow> int \<Rightarrow> vrmutex \<times> world \<Rightarrow> (outcome \<times> vrmutex \<times> world) option" where
  "vr_loop self mtid = (\<lambda>(l, w).
     if tid l \<noteq> Lock_Unlocked then
       if tid l = Lock_Deleted then Some (Ret (- 1), l, world_raise ''LOCK-ERROR'' w)
       else do {
         (r, w) \<leftarrow> waitOn mtid self (vl l) w;
         Some (case r of Block \<Rightarrow> (Block, l\<lparr>waiting := waiting l + 1\<rparr>, w) | Ret _ \<Rightarrow> (Ret (- 1), l, w)) }
     else if vl l \<noteq> None then None
     else Some (Ret (count l), l\<lparr>count := count l + 1\<rparr>, w))"

definition vr_grabImpl :: "nat \<Rightarrow> int \<Rightarrow> vrmutex \<times> world \<Rightarrow> (outcome \<times> vrmutex \<times> world) option" where
  "vr_grabImpl self mtid = (\<lambda>(l, w).
     if tid l \<noteq> mtid then vr_loop self mtid (l, w)
     else Some (Ret (count l), l\<lparr>count := count l + 1\<rparr>, w))"

definition vr_resume :: "nat \<Rightarrow> int \<Rightarrow> int \<Rightarrow> vrmutex \<times> world \<Rightarrow> (outcome \<times> vrmutex \<times> world) option" where
  "vr_resume self rc mtid = (\<lambda>(l, w).
     let w = waitOn_end mtid w; l = l\<lparr>waiting := waiting l - 1\<rparr>
     in if rc \<noteq> 0 then Some (Ret (- 1), l, w) else vr_loop self mtid (l, w))"

definition vr_tryGrabImpl :: "int \<Rightarrow> vrmutex \<times> world \<Rightarrow> (outcome \<times> vrmutex \<times> world) option" where
  "vr_tryGrabImpl mtid = (\<lambda>(l, w).
     if tid l \<noteq> mtid \<and> tid l \<noteq> Lock_Unlocked then Some (Ret (- 1), l, w)
     else if tid l \<noteq> mtid \<and> vl l \<noteq> None then None
     else Some (Ret (count l), l\<lparr>count := count l + 1\<rparr>, w))"

definition vr_releaseImpl :: "int \<Rightarrow> vrmutex \<times> world \<Rightarrow> (int \<times> vrmutex \<times> world) option" where
  "vr_releaseImpl me = (\<lambda>(l, w).
     if tid l \<noteq> me then None
     else let l = l\<lparr>count := count l - 1\<rparr> in Some (if count l \<noteq> 0 then - 1 else 0, l, w))"

definition vr_releaseImpl_x :: "int \<Rightarrow> vrmutex \<times> world \<Rightarrow> (int \<times> vrmutex \<times> world) option" where
  "vr_releaseImpl_x me = (\<lambda>(l, w).
     if tid l = Lock_Unlocked \<or> tid l = Lock_Deleted \<or> tid l \<noteq> me
     then Some (- 1, l, world_raise ''LOCK-ERROR'' w)
     else if count l = 0 then None
     else let l = l\<lparr>count := count l - 1\<rparr> in Some (if count l \<noteq> 0 then - 1 else 0, l, w))"

definition vr_enter :: "nat \<Rightarrow> int \<Rightarrow> vrmutex \<times> world \<Rightarrow> (outcome \<times> vrmutex \<times> world) option" where
  "vr_enter self mtid s = do {
     (rc, l, w) \<leftarrow> vr_grabImpl self mtid s;
     Some (if rc = Ret 0 then (rc, mark_and_push self mtid (l, w)) else (rc, l, w)) }"

definition vr_exit :: "nat \<Rightarrow> int \<Rightarrow> vrmutex \<times> world \<Rightarrow> (int \<times> vrmutex \<times> world) option" where
  "vr_exit self me = asl_release (vr_releaseImpl me) (asl_signalImpl self) self"

definition vr_cleanupImpl :: "nat \<Rightarrow> int \<Rightarrow> vrmutex \<times> world \<Rightarrow> (int \<times> vrmutex \<times> world) option" where
  "vr_cleanupImpl self me = (\<lambda>(l, w).
     if tid l = me then do {
       (l, w) \<leftarrow> release_and_signal (asl_signalImpl self) self (l, w);
       Some (- 1, l\<lparr>count := 0\<rparr>, w) }
     else Some (0, l, w))"

section \<open>The invariant of an exclusive lock\<close>

text \<open>
  A lock is held by at most one thread, which has it on its lock list exactly once; no other thread
  has it there; the number of waiting threads is right; and the holder does not wait for its own lock.
\<close>

definition asl_inv :: "nat \<Rightarrow> 'a asl_scheme \<Rightarrow> world \<Rightarrow> bool" where
  "asl_inv self l w \<longleftrightarrow> - 2 \<le> tid l
     \<and> (0 \<le> tid l \<longrightarrow> vl l = Some (tid l)) \<and> (tid l = - 1 \<longrightarrow> vl l = None)
     \<and> (\<forall>t. locked w self t = (if 0 \<le> tid l \<and> t = tid l then 1 else 0))
     \<and> finite (waiters w self) \<and> waiting l = int (card (waiters w self)) 
     \<and> (\<forall>t \<in> waiters w self. 0 \<le> t \<and> t \<noteq> tid l)"

lemma waiters_set:
  "waiters (w\<lparr>waiting_on := (waiting_on w)(t := Some g)\<rparr>) g = insert t (waiters w g)"
  "waiters (waitOn_end t w) g = waiters w g - {t}"
  by (auto simp: waiters_def)

lemma waiters_same [simp]:
  "waiters (world_raise e w) g = waiters w g" "waiters (world_signal s w) g = waiters w g"
  "waiters (set_thread_resource t' g' w) g = waiters w g"
  "waiters (snd (remove_thread_resource t' g' w)) g = waiters w g"
  "waiters (vl_push t' g' w) g = waiters w g"
  "waiters (asl_signalImpl self l w) g = waiters w g"
  "waiters (asl_signalAllImpl self l w) g = waiters w g"
  by (simp_all add: waiters_def)

definition free_inv :: "nat \<Rightarrow> 'a asl_scheme \<Rightarrow> world \<Rightarrow> bool" where
  "free_inv self l w \<longleftrightarrow> asl_inv self l w \<and> tid l = - 1"

lemma asl_inv_raise [simp]:
  "asl_inv self l (world_raise e w) = asl_inv self l w"
  "asl_inv self l (snd (remove_thread_resource t g w)) = asl_inv self l w"
  by (simp_all add: asl_inv_def)

lemma asl_inv_wait:
  assumes "asl_inv self l w" "0 \<le> tid l" "tid l \<noteq> t" "0 \<le> t" "waiting_on w t = None"
  shows "\<exists>r w'. waitOn t self (vl l) w = Some (r, w')
    \<and> asl_inv self (if r = Block then l\<lparr>waiting := waiting l + 1\<rparr> else l) w' \<and> r \<noteq> Ret 0"
proof -
  let ?w = "w\<lparr>waiting_on := (waiting_on w)(t := Some self)\<rparr>"
  have v: "vl l = Some (tid l)" and nw: "t \<notin> waiters w self"
    using assms by (simp_all add: asl_inv_def waiters_def)
  have end_w: "waitOn_end t (world_raise e ?w) = world_raise e w" for e
    using assms(5) by (simp add: waitOn_end_def world_raise_def fun_upd_idem)
  show ?thesis
  proof (cases "deadlock_with t ?w (tid l)")
    case True
    then show ?thesis using assms v by (simp add: waitOn_def end_w)
  next
    case False
    then have "waitOn t self (vl l) w = Some (Block, ?w)" using assms(5) v by (simp add: waitOn_def)
    moreover have "asl_inv self (l\<lparr>waiting := waiting l + 1\<rparr>) ?w"
      using assms nw by (auto simp: asl_inv_def waiters_set)
    ultimately show ?thesis by simp
  qed
qed

lemma asl_inv_resume:
  assumes "asl_inv self l w" "waiting_on w t = Some self"
  shows "asl_inv self (l\<lparr>waiting := waiting l - 1\<rparr>) (waitOn_end t w)" "waiting_on (waitOn_end t w) t = None"
    "tid l \<noteq> t"
proof -
  have t: "t \<in> waiters w self" using assms(2) by (simp add: waiters_def)
  then have "0 < card (waiters w self)" using assms(1) by (auto simp: asl_inv_def card_gt_0_iff)
  then show "asl_inv self (l\<lparr>waiting := waiting l - 1\<rparr>) (waitOn_end t w)"
    using assms(1) t by (auto simp: asl_inv_def waiters_set)
  show "waiting_on (waitOn_end t w) t = None" by simp
  show "tid l \<noteq> t" using assms(1) t by (auto simp: asl_inv_def)
qed

lemma asl_inv_grab:
  assumes "free_inv self l w" "0 \<le> t" "waiting_on w t = None"
  shows "asl_inv self (fst (grab_intern self t (l, w))) (snd (grab_intern self t (l, w)))"
  using assms by (auto simp: free_inv_def asl_inv_def grab_intern_def mark_and_push_def waiters_def)

lemma asl_inv_release:
  assumes "asl_inv self l w" "0 \<le> tid l"
  shows "\<exists>l' w'. release_and_signal (asl_signalImpl self) self (l, w) = Some (l', w') \<and> free_inv self l' w'
    \<and> waiting_on w' = waiting_on w \<and> waiting l' = waiting l
    \<and> (0 < waiting l \<longrightarrow> signals w' = signals w @ [Signal (AslCond self)])"
proof -
  have v: "vl l = Some (tid l)" and lk: "\<And>t. locked w self t = (if t = tid l then 1 else 0)"
    and wt: "0 \<le> waiting l" using assms by (simp_all add: asl_inv_def)
  then have "0 < locked w self (tid l)" by simp
  then obtain w' where p: "vl_pop (tid l) self w = Some w'"
    and q: "\<And>g' t'. locked w' g' t' = locked w g' t' - (if g' = self \<and> t' = tid l then 1 else 0)"
    "waiting_on w' = waiting_on w" "signals w' = signals w"
    using vl_pop_ok by metis
  have "waiters w' self = waiters w self" by (simp add: waiters_def q)
  then show ?thesis
    using assms p q lk by (auto simp: release_and_signal_def v free_inv_def asl_inv_def asl_signalImpl_def world_signal_def
        waiters_def locked_def)
qed

section \<open>Both locks meet the contract\<close>

lemma sm_loop_ok:
  assumes "asl_inv self l w" "0 \<le> t" "tid l \<noteq> t" "waiting_on w t = None"
  shows "\<exists>r l' w'. sm_loop self t (l, w) = Some (r, l', w')
    \<and> (if r = Ret 0 then free_inv self l' w' \<and> waiting_on w' t = None else asl_inv self l' w')"
proof (cases "0 \<le> tid l")
  case True
  obtain r w' where r: "waitOn t self (vl l) w = Some (r, w')" "r \<noteq> Ret 0"
    "asl_inv self (if r = Block then l\<lparr>waiting := waiting l + 1\<rparr> else l) w'"
    using asl_inv_wait [OF assms(1) True assms(3,2,4)] by blast
  then show ?thesis using True by (cases r) (auto simp: sm_loop_def)
next
  case False
  then show ?thesis using assms by (auto simp: sm_loop_def free_inv_def asl_inv_def)
qed

interpretation sm: smart_lock self "asl_inv self"
  "\<lambda>t l w. free_inv self l w \<and> waiting_on w t = None" "\<lambda>t l w. asl_inv self l w \<and> tid l = t \<and> 0 \<le> t"
  "sm_grabImpl self" "sm_resume self rc" sm_tryGrabImpl sm_releaseImpl_x "asl_signalImpl self" for self rc
proof unfold_locales
  fix l :: asl and w t
  show "\<exists>r l' w'. sm_grabImpl self t (l, w) = Some (r, l', w')
      \<and> (if r = Ret 0 then free_inv self l' w' \<and> waiting_on w' t = None else asl_inv self l' w')"
    if "asl_inv self l w" "0 \<le> t" "waiting_on w t = None"
    using that sm_loop_ok [of self l w t] by (cases "tid l = t") (auto simp: sm_grabImpl_def)
  show "\<exists>r l' w'. sm_resume self rc t (l, w) = Some (r, l', w')
      \<and> (if r = Ret 0 then free_inv self l' w' \<and> waiting_on w' t = None else asl_inv self l' w')"
    if "asl_inv self l w" "0 \<le> t" "waiting_on w t = Some self"
    using sm_loop_ok [OF asl_inv_resume(1) [OF that(1,3)] that(2)] asl_inv_resume [OF that(1,3)]
    by (cases "rc = 0") (simp_all add: sm_resume_def)
  show "\<exists>r l' w'. sm_tryGrabImpl t (l, w) = Some (r, l', w') \<and> r \<noteq> Block
      \<and> (if r = Ret 0 then free_inv self l' w' \<and> waiting_on w' t = None else asl_inv self l' w')"
    if "asl_inv self l w" "0 \<le> t" "waiting_on w t = None"
    using that by (auto simp: sm_tryGrabImpl_def free_inv_def)
  show "\<exists>r l' w'. sm_releaseImpl_x t (l, w) = Some (r, l', w')
      \<and> (if r = 0 then asl_inv self l' w' \<and> tid l' = t \<and> 0 \<le> t else asl_inv self l' w')"
    if "asl_inv self l w" "0 \<le> t"
    using that by (auto simp: sm_releaseImpl_x_def)
  show "asl_inv self (fst (grab_intern self t (l, w))) (snd (grab_intern self t (l, w)))"
    if "free_inv self l w \<and> waiting_on w t = None" "0 \<le> t"
    using that asl_inv_grab by blast
  show "\<exists>l' w'. release_intern (asl_signalImpl self) self t (l, w) = Some (l', w') \<and> asl_inv self l' w' \<and> tid l' < 0"
    if "asl_inv self l w \<and> tid l = t \<and> 0 \<le> t"
  proof -
    have "asl_inv self l (snd (remove_thread_resource t self w))" using that by simp
    then show ?thesis
      using asl_inv_release [of self l "snd (remove_thread_resource t self w)"] that
      by (auto simp: release_intern_def free_inv_def)
  qed
qed

text \<open>A recursive lock adds the nesting depth, which is positive exactly while the lock is held.\<close>

definition vr_inv :: "nat \<Rightarrow> vrmutex \<Rightarrow> world \<Rightarrow> bool" where
  "vr_inv self l w \<longleftrightarrow> asl_inv self l w \<and> (0 \<le> tid l \<longrightarrow> 0 < count l) \<and> (tid l = - 1 \<longrightarrow> count l = 0)"

lemma vr_inv_raise [simp]: "vr_inv self l (world_raise e w) = vr_inv self l w"
  by (simp add: vr_inv_def)

lemma asl_inv_count [simp]:
  "asl_inv self (l\<lparr>count := c\<rparr>) w = asl_inv self l w" "free_inv self (l\<lparr>count := c\<rparr>) w = free_inv self l w"
  by (simp_all add: asl_inv_def free_inv_def)

lemma vr_loop_ok:
  assumes "vr_inv self l w" "0 \<le> t" "tid l \<noteq> t" "waiting_on w t = None"
  shows "\<exists>r l' w'. vr_loop self t (l, w) = Some (r, l', w')
    \<and> (if r = Ret 0 then free_inv self l' w' \<and> count l' = 1 \<and> waiting_on w' t = None else vr_inv self l' w')"
proof -
  have i: "asl_inv self l w" "0 \<le> tid l \<longrightarrow> 0 < count l" "tid l = - 1 \<longrightarrow> count l = 0"
    using assms(1) by (simp_all add: vr_inv_def)
  consider "0 \<le> tid l" | "tid l = - 2" | "tid l = - 1" using i(1) unfolding asl_inv_def by linarith
  then show ?thesis
  proof cases
    case 1
    obtain r w' where r: "waitOn t self (vl l) w = Some (r, w')" "r \<noteq> Ret 0"
      "asl_inv self (if r = Block then l\<lparr>waiting := waiting l + 1\<rparr> else l) w'"
      using asl_inv_wait [OF i(1) 1 assms(3,2,4)] by blast
    then show ?thesis using 1 i(2) by (cases r) (auto simp: vr_loop_def vr_inv_def)
  next
    case 2
    then show ?thesis using assms(1) by (auto simp: vr_loop_def)
  next
    case 3
    then show ?thesis using i assms(4) by (auto simp: vr_loop_def free_inv_def asl_inv_def)
  qed
qed

interpretation vr: smart_lock self "vr_inv self"
  "\<lambda>t l w. free_inv self l w \<and> count l = 1 \<and> waiting_on w t = None"
  "\<lambda>t l w. asl_inv self l w \<and> tid l = t \<and> 0 \<le> t \<and> count l = 0"
  "vr_grabImpl self" "vr_resume self rc" vr_tryGrabImpl vr_releaseImpl_x "asl_signalImpl self" for self rc
proof unfold_locales
  fix l :: vrmutex and w t
  show "\<exists>r l' w'. vr_grabImpl self t (l, w) = Some (r, l', w')
      \<and> (if r = Ret 0 then free_inv self l' w' \<and> count l' = 1 \<and> waiting_on w' t = None else vr_inv self l' w')"
    if "vr_inv self l w" "0 \<le> t" "waiting_on w t = None"
    using that vr_loop_ok [of self l w t] by (cases "tid l = t") (auto simp: vr_grabImpl_def vr_inv_def)
  show "\<exists>r l' w'. vr_resume self rc t (l, w) = Some (r, l', w')
      \<and> (if r = Ret 0 then free_inv self l' w' \<and> count l' = 1 \<and> waiting_on w' t = None else vr_inv self l' w')"
    if "vr_inv self l w" "0 \<le> t" "waiting_on w t = Some self"
  proof -
    have "asl_inv self l w" using that(1) by (simp add: vr_inv_def)
    note a = asl_inv_resume [OF this that(3)]
    have "vr_inv self (l\<lparr>waiting := waiting l - 1\<rparr>) (waitOn_end t w)" using a that(1) by (simp add: vr_inv_def)
    from this vr_loop_ok [OF this that(2)] a show ?thesis by (cases "rc = 0") (simp_all add: vr_resume_def)
  qed
  show "\<exists>r l' w'. vr_tryGrabImpl t (l, w) = Some (r, l', w') \<and> r \<noteq> Block
      \<and> (if r = Ret 0 then free_inv self l' w' \<and> count l' = 1 \<and> waiting_on w' t = None else vr_inv self l' w')"
    if "vr_inv self l w" "0 \<le> t" "waiting_on w t = None"
    using that by (auto simp: vr_tryGrabImpl_def vr_inv_def free_inv_def asl_inv_def)
  show "\<exists>r l' w'. vr_releaseImpl_x t (l, w) = Some (r, l', w')
      \<and> (if r = 0 then asl_inv self l' w' \<and> tid l' = t \<and> 0 \<le> t \<and> count l' = 0 else vr_inv self l' w')"
    if "vr_inv self l w" "0 \<le> t"
    using that by (auto simp: vr_releaseImpl_x_def vr_inv_def Let_def)
  show "vr_inv self (fst (grab_intern self t (l, w))) (snd (grab_intern self t (l, w)))"
    if "free_inv self l w \<and> count l = 1 \<and> waiting_on w t = None" "0 \<le> t"
    using that asl_inv_grab [of self l w t] by (auto simp: vr_inv_def grab_intern_def mark_and_push_def)
  show "\<exists>l' w'. release_intern (asl_signalImpl self) self t (l, w) = Some (l', w') \<and> vr_inv self l' w' \<and> tid l' < 0"
    if "asl_inv self l w \<and> tid l = t \<and> 0 \<le> t \<and> count l = 0"
  proof -
    have i: "asl_inv self l (snd (remove_thread_resource t self w))" using that by simp
    have tl: "0 \<le> tid l" using that by simp
    obtain l' w' where r: "release_and_signal (asl_signalImpl self) self (l, snd (remove_thread_resource t self w)) = Some (l', w')"
      "free_inv self l' w'" using asl_inv_release [OF i tl] by blast
    have "count l' = count l"
      using r(1) by (auto simp: release_and_signal_def Let_def split: bind_splits)
    then show ?thesis using r that by (auto simp: release_intern_def free_inv_def vr_inv_def)
  qed
qed

section \<open>Properties\<close>

text \<open>
  A recursive mutex counts its nesting: the holder can enter again at once, an exit undoes one
  enter, only the exit that undoes the first enter frees the lock, and then a waiting thread is
  signalled.
\<close>

theorem vrmutex_nesting:
  assumes "vr_inv self l w" "tid l = t" "0 \<le> t"
  shows "(\<exists>l' w'. vr_enter self t (l, w) = Some (Ret (count l), l', w') \<and> vr_inv self l' w'
      \<and> tid l' = t \<and> count l' = count l + 1)
    \<and> (\<exists>r l' w'. vr_exit self t (l, w) = Some (r, l', w') \<and> vr_inv self l' w' \<and> count l' = count l - 1
      \<and> (if count l = 1 then r = 0 \<and> tid l' = - 1 \<and> (waiting l > 0 \<longrightarrow> signals w' = signals w @ [Signal (AslCond self)])
         else r = - 1 \<and> tid l' = t))"
proof -
  have i: "asl_inv self l w" "0 < count l" "0 \<le> tid l" using assms by (simp_all add: vr_inv_def)
  have a: "\<exists>l' w'. vr_enter self t (l, w) = Some (Ret (count l), l', w') \<and> vr_inv self l' w' \<and> tid l' = t \<and> count l' = count l + 1"
    using assms i(2) by (simp add: vr_enter_def vr_grabImpl_def vr_inv_def)
  have b: "\<exists>r l' w'. vr_exit self t (l, w) = Some (r, l', w') \<and> vr_inv self l' w' \<and> count l' = count l - 1
      \<and> (if count l = 1 then r = 0 \<and> tid l' = - 1 \<and> (waiting l > 0 \<longrightarrow> signals w' = signals w @ [Signal (AslCond self)])
         else r = - 1 \<and> tid l' = t)"
  proof (cases "count l = 1")
    case True
    have i0: "asl_inv self (l\<lparr>count := 0\<rparr>) w" "0 \<le> tid (l\<lparr>count := 0\<rparr>)" using i by simp_all
    obtain l' w' where r: "release_and_signal (asl_signalImpl self) self (l\<lparr>count := 0\<rparr>, w) = Some (l', w')" "free_inv self l' w'"
      "0 < waiting l \<longrightarrow> signals w' = signals w @ [Signal (AslCond self)]"
      using asl_inv_release [OF i0] by auto
    have "count l' = 0" using r(1) by (auto simp: release_and_signal_def Let_def split: bind_splits)
    then show ?thesis using r True assms(2)
      by (simp add: vr_exit_def asl_release_def vr_releaseImpl_def Let_def vr_inv_def free_inv_def)
  next
    case False
    then show ?thesis using assms i
      by (simp add: vr_exit_def asl_release_def vr_releaseImpl_def Let_def vr_inv_def)
  qed
  from a b show ?thesis by blast
qed

lemma vrmutex_nesting_witness:
  "\<exists>l w. asl_grab (vr_grabImpl 1 4) 1 4 (vr_init, \<lparr>vlist = (\<lambda>_. []), waiting_on = (\<lambda>_. None), trset = (\<lambda>_. {}), signals = [], raised = []\<rparr>)
      = Some (Ret 0, l, w) \<and> vr_inv 1 l w \<and> (\<exists>r l' w'. vr_exit 1 4 (l, w) = Some (r, l', w') \<and> vr_inv 1 l' w')"
proof -
  let ?w = "\<lparr>vlist = (\<lambda>_. []), waiting_on = (\<lambda>_. None), trset = (\<lambda>_. {}), signals = [], raised = []\<rparr>"
  have i: "vr_inv 1 vr_init ?w" by (simp add: vr_inv_def vr_init_def asl_inv_def locked_def waiters_def)
  obtain r l w where g: "asl_grab (vr_grabImpl 1 4) 1 4 (vr_init, ?w) = Some (r, l, w)" "vr_inv 1 l w" "r = Ret 0 \<longrightarrow> tid l = 4"
    using vr.asl_grab_ok [OF i, of 4] by auto
  have r: "r = Ret 0" using g(1) by (auto simp: asl_grab_def vr_grabImpl_def vr_loop_def vr_init_def)
  then have tl: "tid l = 4" using g(3) by simp
  have "(0 :: int) \<le> 4" by simp
  from vrmutex_nesting [OF g(2) tl this] have "\<exists>r l' w'. vr_exit 1 4 (l, w) = Some (r, l', w') \<and> vr_inv 1 l' w'"
    by blast
  then show ?thesis using g(1,2) r by blast
qed

end
