(* ===== verification/Lock_System.thy ===== *)
theory Lock_System
  imports Lock_Mutex
begin

text \<open>
  Many threads working on many mutexes: a step relation over the operations of
  \<open>SmartMutex\<close>, its invariant, and what the deadlock detection of \<open>VLock::waitOn\<close> does and
  does not find.  A thread that is inside \<open>waitOn\<close> has its \<open>waiting_on\<close> set and can only be
  woken (spuriously, by a signal, or by a timeout); a thread that waits on a condition variable
  after releasing a mutex can only wake up and take the mutex again.
\<close>

section \<open>The system\<close>

record sys =
  locks :: "nat \<Rightarrow> asl"
  wld :: world
  cwait :: "int \<Rightarrow> (nat \<times> nat) option"

definition sys_init :: sys where
  "sys_init = \<lparr>locks = (\<lambda>_. asl_init),
     wld = \<lparr>vlist = (\<lambda>_. []), waiting_on = (\<lambda>_. None), trset = (\<lambda>_. {}), signals = [], raised = []\<rparr>,
     cwait = (\<lambda>_. None)\<rparr>"

datatype lock_op = Lock nat | TryLock nat | Unlock nat | CondWait nat nat | Wake int | CondWake
  | Delete nat "nat list" | Cleanup nat

definition put :: "sys \<Rightarrow> nat \<Rightarrow> asl \<times> world \<Rightarrow> sys" where
  "put s g = (\<lambda>(l, w). s\<lparr>locks := (locks s)(g := l), wld := w\<rparr>)"

text \<open>One step of thread \<open>t\<close>: \<open>None\<close> when the step is not enabled or its behaviour is undefined.\<close>

definition running :: "sys \<Rightarrow> int \<Rightarrow> bool" where
  "running s t \<longleftrightarrow> waiting_on (wld s) t = None \<and> cwait s t = None"

fun lock_enabled :: "sys \<Rightarrow> int \<Rightarrow> lock_op \<Rightarrow> bool" where
  "lock_enabled s t (Wake rc) \<longleftrightarrow> 0 \<le> t \<and> waiting_on (wld s) t \<noteq> None"
| "lock_enabled s t CondWake \<longleftrightarrow> 0 \<le> t \<and> cwait s t \<noteq> None \<and> waiting_on (wld s) t = None"
| "lock_enabled s t (Cleanup g) \<longleftrightarrow> 0 \<le> t \<and> running s t \<and> check_thread_resource t g (wld s)"
| "lock_enabled s t _ \<longleftrightarrow> 0 \<le> t \<and> running s t"

fun lock_step :: "sys \<Rightarrow> int \<Rightarrow> lock_op \<Rightarrow> sys option" where
  "lock_step s t (Lock g) =
     map_option (\<lambda>(_, p). put s g p) (asl_grab (sm_grabImpl g t) g t (locks s g, wld s))"
| "lock_step s t (TryLock g) =
     map_option (\<lambda>(_, p). put s g p) (asl_grab (sm_tryGrabImpl t) g t (locks s g, wld s))"
| "lock_step s t (Unlock g) =
     map_option (\<lambda>(_, p). put s g p) (asl_release_x (sm_releaseImpl_x t) (asl_signalImpl g) g t (locks s g, wld s))"
| "lock_step s t (CondWait g c) =
     map_option (\<lambda>(r, p). (put s g p)\<lparr>cwait := (if r = Block then (cwait s)(t \<mapsto> (g, c)) else cwait s)\<rparr>)
       (sm_externWait g t c (locks s g, wld s))"
| "lock_step s t (Wake rc) =
     (case waiting_on (wld s) t of None \<Rightarrow> None
      | Some g \<Rightarrow> map_option (\<lambda>(_, p). put s g p) (asl_grab (sm_resume g rc t) g t (locks s g, wld s)))"
| "lock_step s t CondWake =
     (case cwait s t of None \<Rightarrow> None
      | Some (g, c) \<Rightarrow> map_option (\<lambda>(_, p). (put s g p)\<lparr>cwait := (cwait s)(t := None)\<rparr>)
          (sm_externWait_wake g t c (locks s g, wld s)))"
| "lock_step s t (Delete g conds) =
     map_option (put s g) (asl_destructor (sm_destructorImpl conds) (asl_signalAllImpl g) g t (locks s g, wld s))"
| "lock_step s t (Cleanup g) =
     map_option (put s g) (asl_cleanup (asl_cleanupImpl (asl_signalImpl g) g t)
       (locks s g, snd (remove_thread_resource t g (wld s))))"

inductive reach :: "sys \<Rightarrow> bool" where
  init: "reach sys_init"
| step: "reach s \<Longrightarrow> lock_enabled s t op \<Longrightarrow> lock_step s t op = Some s' \<Longrightarrow> reach s'"

section \<open>What a step of one thread on one lock changes\<close>

definition effect :: "nat \<Rightarrow> int \<Rightarrow> asl \<times> world \<Rightarrow> asl \<times> world \<Rightarrow> bool" where
  "effect g t = (\<lambda>(l, w) (l', w').
     (\<forall>g' t'. g' \<noteq> g \<longrightarrow> locked w' g' t' = locked w g' t')
     \<and> (\<forall>t'. t' \<noteq> t \<longrightarrow> waiting_on w' t' = waiting_on w t')
     \<and> (waiting_on w' t = None \<or> waiting_on w' t = Some g \<and> \<not> deadlock_with t w' (tid l'))
     \<and> (tid l' = tid l \<or> tid l' = t \<or> tid l' < 0))"

lemma waitOn_cases:
  assumes "waitOn t g v w = Some (r, w')"
  obtains owner where "v = Some owner" "waiting_on w t = None" "r = Ret (- 1)"
      "w' = waitOn_end t (world_raise ''THREAD-DEADLOCK'' (w\<lparr>waiting_on := (waiting_on w)(t := Some g)\<rparr>))"
    | owner where "v = Some owner" "waiting_on w t = None" "r = Block"
      "w' = w\<lparr>waiting_on := (waiting_on w)(t := Some g)\<rparr>" "\<not> deadlock_with t w' owner"
  using assms by (auto simp: waitOn_def Let_def split: option.splits if_splits)

lemma sm_loop_effect:
  assumes "sm_loop g t (l, w) = Some (r, l', w')" "waiting_on w t = None" "0 \<le> tid l \<longrightarrow> vl l = Some (tid l)"
  shows "effect g t (l, w) (l', w')" "cmap l' = cmap l" "r = Ret 0 \<Longrightarrow> waiting_on w' t = None"
  using assms by (auto simp: sm_loop_def effect_def split: if_splits outcome.splits elim!: waitOn_cases dest!: bind_eq_Some_conv [THEN iffD1])

lemmas bind_someD = bind_eq_Some_conv [THEN iffD1]

lemma grab_effect:
  assumes "asl_grab f g t (l, w) = Some (r, l', w')"
    and f: "\<And>r l' w'. f (l, w) = Some (r, l', w') \<Longrightarrow>
      effect g t (l, w) (l', w') \<and> cmap l' = cmap l \<and> (r = Ret 0 \<longrightarrow> waiting_on w' t = None)"
  shows "effect g t (l, w) (l', w')" "cmap l' = cmap l"
proof -
  obtain r1 l1 w1 where f1: "f (l, w) = Some (r1, l1, w1)"
    and e: "(r, l', w') = (if r1 = Ret 0 then (r1, grab_intern g t (l1, w1)) else (r1, l1, w1))"
    using assms(1) by (auto simp: asl_grab_def dest!: bind_someD)
  note g = f [OF f1]
  show "effect g t (l, w) (l', w')" "cmap l' = cmap l"
    using g e by (auto simp: effect_def grab_intern_def mark_and_push_def split: if_splits)
qed

lemma release_and_signal_effect:
  assumes "release_and_signal (asl_signalImpl g) g (l, w) = Some (l', w')" "waiting_on w t = None"
  shows "effect g t (l, w) (l', w')" "cmap l' = cmap l" "waiting_on w' = waiting_on w"
  using assms by (auto simp: release_and_signal_def effect_def Let_def vl_pop_frame dest!: bind_someD)

lemma release_intern_effect:
  assumes "release_intern (asl_signalImpl g) g t (l, w) = Some (l', w')" "waiting_on w t = None"
  shows "effect g t (l, w) (l', w')" "cmap l' = cmap l" "waiting_on w' = waiting_on w"
  using release_and_signal_effect [of g l "snd (remove_thread_resource t g w)" l' w' t] assms
  by (simp_all add: release_intern_def effect_def)

lemma sm_grab_effect:
  assumes "asl_grab (sm_grabImpl g t) g t (l, w) = Some (r, l', w')" "waiting_on w t = None" "asl_inv g l w"
  shows "effect g t (l, w) (l', w')" "cmap l' = cmap l"
proof -
  have "effect g t (l, w) (l', w') \<and> cmap l' = cmap l \<and> (r = Ret 0 \<longrightarrow> waiting_on w' t = None)"
    if "sm_grabImpl g t (l, w) = Some (r, l', w')" for r l' w'
    using that sm_loop_effect [of g t l w r l' w'] assms(2,3)
    by (auto simp: sm_grabImpl_def effect_def asl_inv_def split: if_splits)
  then show "effect g t (l, w) (l', w')" "cmap l' = cmap l" using grab_effect [OF assms(1)] by blast+
qed

lemma sm_try_effect:
  assumes "asl_grab (sm_tryGrabImpl t) g t (l, w) = Some (r, l', w')" "waiting_on w t = None"
  shows "effect g t (l, w) (l', w')" "cmap l' = cmap l"
  using grab_effect [OF assms(1)] assms(2) by (auto simp: sm_tryGrabImpl_def effect_def)

lemma sm_resume_effect:
  assumes "asl_grab (sm_resume g rc t) g t (l, w) = Some (r, l', w')" "waiting_on w t = Some g" "asl_inv g l w"
  shows "effect g t (l, w) (l', w')" "cmap l' = cmap l"
proof -
  have "effect g t (l, w) (l', w') \<and> cmap l' = cmap l \<and> (r = Ret 0 \<longrightarrow> waiting_on w' t = None)"
    if "sm_resume g rc t (l, w) = Some (r, l', w')" for r l' w'
    using that sm_loop_effect [of g t "l\<lparr>waiting := waiting l - 1\<rparr>" "waitOn_end t w" r l' w'] assms(2,3)
    by (auto simp: sm_resume_def effect_def asl_inv_def Let_def split: if_splits)
  then show "effect g t (l, w) (l', w')" "cmap l' = cmap l" using grab_effect [OF assms(1)] by blast+
qed

lemma sm_release_effect:
  assumes "asl_release_x (sm_releaseImpl_x t) (asl_signalImpl g) g t (l, w) = Some (r, l', w')" "waiting_on w t = None"
  shows "effect g t (l, w) (l', w')" "cmap l' = cmap l"
proof -
  consider "release_intern (asl_signalImpl g) g t (l, w) = Some (l', w')" | "l' = l" "w' = world_raise ''LOCK-ERROR'' w"
    using assms(1) by (auto simp: asl_release_x_def sm_releaseImpl_x_def split: if_splits)
  then show "effect g t (l, w) (l', w')" "cmap l' = cmap l"
    by (cases; use release_intern_effect [OF _ assms(2), of g l l' w'] assms(2) in \<open>simp add: effect_def\<close>)+
qed

lemma asl_inv_cmap [simp]: "asl_inv g (l\<lparr>cmap := m\<rparr>) w = asl_inv g l w"
  by (simp add: asl_inv_def)

lemma cond_leave_cmap: "cond_leave c l = Some l' \<Longrightarrow> \<exists>m. l' = l\<lparr>cmap := m\<rparr>"
  by (auto simp: cond_leave_def split: option.splits)

lemma cond_map_inv [simp]: "asl_inv g (cond_enter c l) w = asl_inv g l w"
  by (simp add: cond_enter_def)

lemma effect_cmap [simp]:
  "effect g t (l\<lparr>cmap := m\<rparr>, w) p = effect g t (l, w) p" "effect g t (cond_enter c l, w) p = effect g t (l, w) p"
  by (simp_all add: effect_def cond_enter_def split: prod.splits)

lemma destructor_ok:
  assumes "asl_inv g l w" "waiting_on w t = None"
  shows "\<exists>l' w'. asl_destructor (sm_destructorImpl conds) (asl_signalAllImpl g) g t (l, w) = Some (l', w')
    \<and> asl_inv g l' w' \<and> effect g t (l, w) (l', w') \<and> cmap l' = cmap l"
proof -
  define cs where "cs = filter (\<lambda>c. cmap l c \<noteq> None) conds"
  define w1 where "w1 = (if cs = [] then w
    else fold (\<lambda>c. world_signal (Broadcast (UserCond c))) cs (world_raise ''LOCK-ERROR'' w))"
  have d0: "sm_destructorImpl conds (l, w) = Some (l, w1)"
    by (simp add: sm_destructorImpl_def Let_def w1_def cs_def)
  have fw: "locked (fold (\<lambda>c. world_signal (Broadcast (UserCond c))) cs v) = locked v
      \<and> waiting_on (fold (\<lambda>c. world_signal (Broadcast (UserCond c))) cs v) = waiting_on v" for cs v
  proof (induction cs arbitrary: v)
    case (Cons c cs)
    have "locked (world_signal (Broadcast (UserCond c)) v) = locked v" by (intro ext) simp
    then show ?case using Cons [of "world_signal (Broadcast (UserCond c)) v"] by simp
  qed simp
  have "locked (world_raise ''LOCK-ERROR'' w) = locked w" by (intro ext) simp
  then have w1: "locked w1 = locked w" "waiting_on w1 = waiting_on w" unfolding w1_def by (simp_all add: fw)
  have i: "asl_inv g l w1" using assms(1) by (simp add: asl_inv_def w1 waiters_def)
  show ?thesis
  proof (cases "0 \<le> tid l")
    case False
    then show ?thesis using i assms by (auto simp: asl_destructor_def d0 effect_def asl_inv_def w1 waiters_def)
  next
    case True
    then have v: "vl l = Some (tid l)" "0 < locked w1 g (tid l)" using i by (simp_all add: asl_inv_def)
    obtain w2 where p: "vl_pop (tid l) g w1 = Some w2" using vl_pop_ok [OF v(2)] by blast
    note q = vl_pop_frame [OF p]
    define w3 where "w3 = asl_signalAllImpl g l (if t = tid l then snd (remove_thread_resource t g (world_raise ''LOCK-ERROR'' w2))
        else world_raise ''LOCK-ERROR'' w2)"
    have w3: "locked w3 g' t' = locked w g' t' - (if g' = g \<and> t' = tid l then 1 else 0)" "waiting_on w3 = waiting_on w" for g' t'
      by (simp_all add: w3_def q w1)
    have d: "asl_destructor (sm_destructorImpl conds) (asl_signalAllImpl g) g t (l, w) = Some (l\<lparr>tid := - 2\<rparr>, w3)"
      using True v p by (simp add: asl_destructor_def d0 w3_def)
    have "asl_inv g (l\<lparr>tid := - 2\<rparr>) w3"
      using assms(1) True by (auto simp: asl_inv_def waiters_def w3)
    then show ?thesis using d assms by (auto simp: effect_def w3)
  qed
qed

lemma cleanup_ok:
  assumes "asl_inv g l w" "waiting_on w t = None" "0 \<le> t"
  shows "\<exists>l' w'. asl_cleanup (asl_cleanupImpl (asl_signalImpl g) g t) (l, snd (remove_thread_resource t g w)) = Some (l', w')
    \<and> asl_inv g l' w' \<and> effect g t (l, w) (l', w') \<and> cmap l' = cmap l"
proof (cases "tid l = t")
  case True
  let ?w = "snd (remove_thread_resource t g w)"
  have i: "asl_inv g l ?w" "waiting_on ?w t = None" using assms by simp_all
  have tl: "0 \<le> tid l" using True assms(3) by simp
  obtain l' w' where r: "release_and_signal (asl_signalImpl g) g (l, ?w) = Some (l', w')" "free_inv g l' w'"
    using asl_inv_release [OF i(1) tl] by blast
  show ?thesis using release_and_signal_effect [OF r(1) i(2)] r True assms(2)
    by (auto simp: asl_cleanup_def asl_cleanupImpl_def free_inv_def effect_def deadlock_with_def)
next
  case False
  then show ?thesis using assms by (auto simp: asl_cleanup_def asl_cleanupImpl_def effect_def)
qed

lemma externWait_ok:
  assumes "asl_inv g l w" "waiting_on w t = None" "0 \<le> t"
  shows "\<exists>r l' w'. sm_externWait g t c (l, w) = Some (r, l', w') \<and> asl_inv g l' w' \<and> effect g t (l, w) (l', w')
    \<and> (r = Block \<and> cmap l' = cmap (cond_enter c l) \<and> waiting_on w' t = None \<or> r = Ret (- 1) \<and> cmap l' = cmap l)"
proof (cases "tid l = t")
  case True
  let ?w = "snd (remove_thread_resource t g w)" and ?l = "cond_enter c l"
  have i: "asl_inv g ?l ?w" "waiting_on ?w t = None" using assms by simp_all
  have tl: "0 \<le> tid ?l" using True assms(3) by (simp add: cond_enter_def)
  obtain l' w' where r: "release_and_signal (asl_signalImpl g) g (?l, ?w) = Some (l', w')" "free_inv g l' w'"
    using asl_inv_release [OF i(1) tl] by blast
  then have ri: "release_intern (asl_signalImpl g) g t (?l, w) = Some (l', w')" by (simp add: release_intern_def)
  then have "sm_externWait g t c (l, w) = Some (Block, l', w')"
    using True by (simp add: sm_externWait_def verify_wait_unlocked_def)
  then show ?thesis using release_intern_effect [OF ri assms(2)] r(2) assms(2) by (auto simp: free_inv_def)
next
  case False
  then show ?thesis using assms by (auto simp: sm_externWait_def verify_wait_unlocked_def effect_def)
qed

lemma externWait_wake_ok:
  assumes "asl_inv g l w" "waiting_on w t = None" "0 \<le> t" "cmap l c \<noteq> None"
  shows "\<exists>r l' w' l1. sm_externWait_wake g t c (l, w) = Some (r, l', w') \<and> asl_inv g l' w' \<and> effect g t (l, w) (l', w')
    \<and> cond_leave c l = Some l1 \<and> cmap l' = cmap l1"
proof -
  obtain l1 where l1: "cond_leave c l = Some l1" using assms(4) by (auto simp: cond_leave_def)
  then obtain m where m: "l1 = l\<lparr>cmap := m\<rparr>" using cond_leave_cmap by blast
  then have i: "asl_inv g l1 w" using assms(1) by simp
  obtain r l' w' where r: "asl_grab (sm_grabImpl g t) g t (l1, w) = Some (r, l', w')" "asl_inv g l' w'"
    using sm.asl_grab_ok [OF i assms(3,2)] by blast
  show ?thesis
    using sm_grab_effect [OF r(1) assms(2) i] r l1 m by (simp add: sm_externWait_wake_def)
qed

section \<open>The invariant of the system\<close>

definition cond_waiters :: "sys \<Rightarrow> nat \<Rightarrow> nat \<Rightarrow> int set" where
  "cond_waiters s g c = {t. cwait s t = Some (g, c)}"

definition counts :: "nat \<Rightarrow> int option" where
  "counts n = (if n = 0 then None else Some (int n))"

text \<open>\<open>pair_deadlock\<close>: two threads that each wait for a lock the other one holds.\<close>

definition pair_deadlock :: "sys \<Rightarrow> int \<Rightarrow> int \<Rightarrow> bool" where
  "pair_deadlock s t1 t2 \<longleftrightarrow> (\<exists>g1 g2. waiting_on (wld s) t1 = Some g1 \<and> tid (locks s g1) = t2
     \<and> waiting_on (wld s) t2 = Some g2 \<and> tid (locks s g2) = t1)"

definition sys_inv :: "sys \<Rightarrow> bool" where
  "sys_inv s \<longleftrightarrow> (\<forall>g. asl_inv g (locks s g) (wld s))
     \<and> (\<forall>g c. finite (cond_waiters s g c) \<and> cmap (locks s g) c = counts (card (cond_waiters s g c)))
     \<and> (\<forall>t. waiting_on (wld s) t \<noteq> None \<longrightarrow> cwait s t = None)
     \<and> (\<forall>t1 t2. \<not> pair_deadlock s t1 t2)"

lemma effect_other:
  assumes "effect g t (l, w) (l', w')" "waiting_on w t = None \<or> waiting_on w t = Some g" "g' \<noteq> g" "asl_inv g' k w"
  shows "asl_inv g' k w'"
proof -
  have "waiting_on w' x = Some g' \<longleftrightarrow> waiting_on w x = Some g'" for x
    using assms(1-3) by (cases "x = t") (auto simp: effect_def)
  then have "waiters w' g' = waiters w g'" by (simp add: waiters_def)
  moreover have "locked w' g' = locked w g'" using assms(1,3) by (auto simp: effect_def)
  ultimately show ?thesis using assms(4) by (simp add: asl_inv_def)
qed

lemma effect_locks:
  assumes s: "\<forall>g. asl_inv g (locks s g) (wld s)" "\<forall>t1 t2. \<not> pair_deadlock s t1 t2"
    and e: "effect g t (locks s g, wld s) (l', w')" and i: "asl_inv g l' w'"
    and w: "waiting_on (wld s) t = None \<or> waiting_on (wld s) t = Some g" and t: "0 \<le> t"
  shows "\<forall>g'. asl_inv g' (locks (put s g (l', w')) g') (wld (put s g (l', w')))"
    and "\<not> pair_deadlock (put s g (l', w')) t1 t2"
proof -
  let ?s = "put s g (l', w')"
  have inv: "asl_inv g' (locks ?s g') (wld ?s)" for g'
    using effect_other [OF e w _ s(1) [rule_format], of g'] i by (cases "g' = g") (simp_all add: put_def)
  then show "\<forall>g'. asl_inv g' (locks ?s g') (wld ?s)" by blast
  have no: "\<not> pair_deadlock ?s t x" for x
  proof
    assume "pair_deadlock ?s t x"
    then obtain g1 g2 where c: "waiting_on (wld ?s) t = Some g1" "tid (locks ?s g1) = x" "waiting_on (wld ?s) x = Some g2"
      "tid (locks ?s g2) = t" by (auto simp: pair_deadlock_def)
    have "g1 = g" "\<not> deadlock_with t w' (tid l')" using c(1) e by (auto simp: effect_def put_def)
    moreover have "0 < locked w' g2 t" using inv [of g2] c(4) t by (auto simp: asl_inv_def put_def split: if_splits)
    ultimately show False using c(2,3) by (auto simp: deadlock_with_def vl_find_locked put_def)
  qed
  have sym: "pair_deadlock q a b \<longleftrightarrow> pair_deadlock q b a" for q a b by (auto simp: pair_deadlock_def)
  show "\<not> pair_deadlock ?s t1 t2"
  proof (cases "t1 = t \<or> t2 = t")
    case True
    then show ?thesis using no sym by metis
  next
    case False
    show ?thesis
    proof
      assume "pair_deadlock ?s t1 t2"
      then obtain g1 g2 where c: "waiting_on w' t1 = Some g1" "tid (locks ?s g1) = t2" "waiting_on w' t2 = Some g2"
        "tid (locks ?s g2) = t1" by (auto simp: pair_deadlock_def put_def)
      have nn: "0 \<le> t1" "0 \<le> t2"
        using inv [of g1] inv [of g2] c(1,3) by (auto simp: asl_inv_def waiters_def put_def)
      have "tid (locks ?s q) = x \<Longrightarrow> x \<noteq> t \<Longrightarrow> 0 \<le> x \<Longrightarrow> tid (locks s q) = x" for q x
        using e by (auto simp: effect_def put_def split: if_splits)
      then have "tid (locks s g1) = t2" "tid (locks s g2) = t1" using c(2,4) nn False by blast+
      moreover have "waiting_on (wld s) t1 = Some g1" "waiting_on (wld s) t2 = Some g2"
        using c(1,3) e False by (auto simp: effect_def)
      ultimately show False using s(2) by (auto simp: pair_deadlock_def)
    qed
  qed
qed

lemma sys_invD:
  assumes "sys_inv s"
  shows "\<forall>g. asl_inv g (locks s g) (wld s)" "asl_inv g (locks s g) (wld s)" "\<forall>t1 t2. \<not> pair_deadlock s t1 t2"
    "finite (cond_waiters s g c)" "cmap (locks s g) c = counts (card (cond_waiters s g c))"
    "waiting_on (wld s) t \<noteq> None \<longrightarrow> cwait s t = None"
  using assms by (auto simp: sys_inv_def)

lemma sys_inv_update:
  assumes s: "sys_inv s" and e: "effect g t (locks s g, wld s) (l', w')" and i: "asl_inv g l' w'"
    and w: "waiting_on (wld s) t = None \<or> waiting_on (wld s) t = Some g" and t: "0 \<le> t"
    and cw: "\<And>t'. t' \<noteq> t \<Longrightarrow> cw t' = cwait s t'" "waiting_on w' t \<noteq> None \<longrightarrow> cw t = None"
    and cm: "\<And>c. cmap l' c = counts (card {t. cw t = Some (g, c)})"
    and other: "\<And>g' c. g' \<noteq> g \<Longrightarrow> {t. cw t = Some (g', c)} = cond_waiters s g' c"
    and fin: "\<And>c. finite {t. cw t = Some (g, c)}"
  shows "sys_inv ((put s g (l', w'))\<lparr>cwait := cw\<rparr>)"
proof -
  note sd = sys_invD [OF s]
  let ?s = "put s g (l', w')"
  have l: "locks (?s\<lparr>cwait := cw\<rparr>) = locks ?s" "wld (?s\<lparr>cwait := cw\<rparr>) = wld ?s" by simp_all
  note el = effect_locks [OF sd(1) sd(3) e i w t]
  have p: "pair_deadlock (?s\<lparr>cwait := cw\<rparr>) t1 t2 = pair_deadlock ?s t1 t2" for t1 t2
    by (simp add: pair_deadlock_def)
  have c: "finite (cond_waiters (?s\<lparr>cwait := cw\<rparr>) g' c)
      \<and> cmap (locks ?s g') c = counts (card (cond_waiters (?s\<lparr>cwait := cw\<rparr>) g' c))" for g' c
  proof (cases "g' = g")
    case True
    then show ?thesis using fin cm by (simp add: cond_waiters_def put_def)
  next
    case False
    then show ?thesis using other [OF False] sd(4,5) by (simp add: cond_waiters_def put_def)
  qed
  have wt: "waiting_on (wld ?s) t' \<noteq> None \<longrightarrow> cw t' = None" for t'
    using cw e sd(6) by (cases "t' = t") (auto simp: effect_def put_def)
  show ?thesis unfolding sys_inv_def l p using el c wt by simp
qed

lemma sys_inv_put:
  assumes s: "sys_inv s" and e: "effect g t (locks s g, wld s) (l', w')" and i: "asl_inv g l' w'"
    and w: "waiting_on (wld s) t = None \<or> waiting_on (wld s) t = Some g" and t: "0 \<le> t"
    and cw: "cwait s t = None" and cm: "cmap l' = cmap (locks s g)"
  shows "sys_inv (put s g (l', w'))"
proof -
  have p: "put s g (l', w') = (put s g (l', w'))\<lparr>cwait := cwait s\<rparr>" by (simp add: put_def)
  show ?thesis
    by (subst p, rule sys_inv_update [OF s e i w t])
       (use cw cm sys_invD(4,5) [OF s] in \<open>simp_all add: cond_waiters_def\<close>)
qed

lemma counts_enter:
  assumes "cmap l c = counts (card W)" "finite W" "t \<notin> W"
  shows "cmap (cond_enter c l) c = counts (card (insert t W))" "c' \<noteq> c \<Longrightarrow> cmap (cond_enter c l) c' = cmap l c'"
  using assms by (auto simp: cond_enter_def counts_def)

lemma counts_leave:
  assumes "cmap l c = counts (card W)" "finite W" "t \<in> W" "cond_leave c l = Some l'"
  shows "cmap l' c = counts (card (W - {t}))" "c' \<noteq> c \<Longrightarrow> cmap l' c' = cmap l c'"
proof -
  have "0 < card W" using assms(2,3) card_gt_0_iff by auto
  moreover have "card (W - {t}) = card W - 1" using assms(2,3) by simp
  ultimately show "cmap l' c = counts (card (W - {t}))"
    using assms(1,4) by (auto simp: cond_leave_def counts_def split: if_splits)
  show "c' \<noteq> c \<Longrightarrow> cmap l' c' = cmap l c'"
    using assms(4) by (auto simp: cond_leave_def split: option.splits if_splits)
qed

lemma step_cond_wait:
  assumes s: "sys_inv s" and t: "0 \<le> t" "running s t"
  shows "\<exists>s'. lock_step s t (CondWait g c) = Some s' \<and> sys_inv s'"
proof -
  have r: "waiting_on (wld s) t = None" "cwait s t = None" using t(2) by (simp_all add: running_def)
  note sd = sys_invD [OF s]
  obtain rc l' w' where x: "sm_externWait g t c (locks s g, wld s) = Some (rc, l', w')" "asl_inv g l' w'"
    "effect g t (locks s g, wld s) (l', w')"
    "rc = Block \<and> cmap l' = cmap (cond_enter c (locks s g)) \<and> waiting_on w' t = None \<or> rc = Ret (- 1) \<and> cmap l' = cmap (locks s g)"
    using externWait_ok [OF sd(2) r(1) t(1)] by blast
  show ?thesis
  proof (cases "rc = Block")
    case True
    let ?cw = "(cwait s)(t \<mapsto> (g, c))"
    have W: "{t'. ?cw t' = Some (g', c')} = (if g' = g \<and> c' = c then insert t (cond_waiters s g c) else cond_waiters s g' c')" for g' c'
      using r(2) by (auto simp: cond_waiters_def)
    have tn: "t \<notin> cond_waiters s g c" using r(2) by (simp add: cond_waiters_def)
    have ent: "cmap (cond_enter c (locks s g)) c = counts (card (insert t (cond_waiters s g c)))"
      "c' \<noteq> c \<Longrightarrow> cmap (cond_enter c (locks s g)) c' = counts (card (cond_waiters s g c'))" for c'
      using counts_enter [of "locks s g" c, OF sd(5) sd(4) tn] sd(5) by simp_all
    have cm: "cmap l' c' = counts (card {t'. ?cw t' = Some (g, c')})" for c'
      unfolding W using ent x(4) True by auto
    have "sys_inv ((put s g (l', w'))\<lparr>cwait := ?cw\<rparr>)"
      by (rule sys_inv_update [OF s x(3,2) _ t(1) _ _ cm]) (use r x(4) True W sd(4) in auto)
    then show ?thesis using x(1) True by simp
  next
    case False
    then have cm: "cmap l' = cmap (locks s g)" using x(4) by simp
    have "put s g (l', w') \<lparr>cwait := cwait s\<rparr> = put s g (l', w')" by (simp add: put_def)
    then show ?thesis using sys_inv_put [OF s x(3,2) _ t(1) r(2) cm] x(1) False r(1) by simp
  qed
qed

lemma step_cond_wake:
  assumes s: "sys_inv s" and t: "0 \<le> t" "cwait s t = Some (g, c)" "waiting_on (wld s) t = None"
  shows "\<exists>s'. lock_step s t CondWake = Some s' \<and> sys_inv s'"
proof -
  note sd = sys_invD [OF s]
  have tin: "t \<in> cond_waiters s g c" using t(2) by (simp add: cond_waiters_def)
  then have "card (cond_waiters s g c) \<noteq> 0" using sd(4) by (auto simp: card_eq_0_iff)
  then have "cmap (locks s g) c \<noteq> None" using sd(5) [of g c] by (simp add: counts_def)
  then obtain rc l' w' l1 where x: "sm_externWait_wake g t c (locks s g, wld s) = Some (rc, l', w')" "asl_inv g l' w'"
    "effect g t (locks s g, wld s) (l', w')" "cond_leave c (locks s g) = Some l1" "cmap l' = cmap l1"
    using externWait_wake_ok [OF sd(2) t(3,1)] by blast
  let ?cw = "(cwait s)(t := None)"
  have W: "{t'. ?cw t' = Some (g', c')} = (if g' = g \<and> c' = c then cond_waiters s g c - {t} else cond_waiters s g' c')" for g' c'
    using t(2) by (auto simp: cond_waiters_def)
  have cm: "cmap l' c' = counts (card {t'. ?cw t' = Some (g, c')})" for c'
    unfolding W using counts_leave [of "locks s g" c, OF sd(5) sd(4) tin x(4)] x(5) sd(5) by auto
  have "sys_inv ((put s g (l', w'))\<lparr>cwait := ?cw\<rparr>)"
    by (rule sys_inv_update [OF s x(3,2) _ t(1) _ _ cm]) (use t W sd(4) in auto)
  then show ?thesis using x(1) t(2) by simp
qed

lemma lock_step_inv:
  assumes s: "sys_inv s" and en: "lock_enabled s t op"
  shows "\<exists>s'. lock_step s t op = Some s' \<and> sys_inv s'"
proof -
  note sd = sys_invD [OF s]
  show ?thesis
  proof (cases op)
    case (Lock g)
    have r: "0 \<le> t" "waiting_on (wld s) t = None" "cwait s t = None" using en Lock by (simp_all add: running_def)
    obtain rc l' w' where x: "asl_grab (sm_grabImpl g t) g t (locks s g, wld s) = Some (rc, l', w')" "asl_inv g l' w'"
      using sm.asl_grab_ok [OF sd(2) r(1,2)] by blast
    show ?thesis using sys_inv_put [OF s sm_grab_effect(1) [OF x(1) r(2) sd(2)] x(2) _ r(1,3) sm_grab_effect(2) [OF x(1) r(2) sd(2)]] x(1) r(2) Lock
      by simp
  next
    case (TryLock g)
    have r: "0 \<le> t" "waiting_on (wld s) t = None" "cwait s t = None" using en TryLock by (simp_all add: running_def)
    obtain rc l' w' where x: "asl_grab (sm_tryGrabImpl t) g t (locks s g, wld s) = Some (rc, l', w')" "asl_inv g l' w'"
      using sm.asl_tryGrab_ok [OF sd(2) r(1,2)] by blast
    show ?thesis using sys_inv_put [OF s sm_try_effect(1) [OF x(1) r(2)] x(2) _ r(1,3) sm_try_effect(2) [OF x(1) r(2)]] x(1) r(2) TryLock
      by simp
  next
    case (Unlock g)
    have r: "0 \<le> t" "waiting_on (wld s) t = None" "cwait s t = None" using en Unlock by (simp_all add: running_def)
    obtain rc l' w' where x: "asl_release_x (sm_releaseImpl_x t) (asl_signalImpl g) g t (locks s g, wld s) = Some (rc, l', w')"
      "asl_inv g l' w'" using sm.asl_release_ok [OF sd(2) r(1)] by blast
    show ?thesis using sys_inv_put [OF s sm_release_effect(1) [OF x(1) r(2)] x(2) _ r(1,3) sm_release_effect(2) [OF x(1) r(2)]] x(1) r(2) Unlock
      by simp
  next
    case (CondWait g c)
    then show ?thesis using step_cond_wait [OF s] en by simp
  next
    case (Wake rc)
    then obtain g where r: "0 \<le> t" "waiting_on (wld s) t = Some g" using en by auto
    obtain rc' l' w' where x: "asl_grab (sm_resume g rc t) g t (locks s g, wld s) = Some (rc', l', w')" "asl_inv g l' w'"
      using sm.asl_resume_ok [OF sd(2) r] by blast
    have "cwait s t = None" using sd(6) [of t] r(2) by simp
    then show ?thesis using sys_inv_put [OF s sm_resume_effect(1) [OF x(1) r(2) sd(2)] x(2) _ r(1) _ sm_resume_effect(2) [OF x(1) r(2) sd(2)]] x(1) r(2) Wake
      by simp
  next
    case CondWake
    then obtain g c where "0 \<le> t" "cwait s t = Some (g, c)" "waiting_on (wld s) t = None" using en by auto
    then show ?thesis using step_cond_wake [OF s] CondWake by simp
  next
    case (Delete g conds)
    have r: "0 \<le> t" "waiting_on (wld s) t = None" "cwait s t = None" using en Delete by (simp_all add: running_def)
    obtain l' w' where x: "asl_destructor (sm_destructorImpl conds) (asl_signalAllImpl g) g t (locks s g, wld s) = Some (l', w')"
      "asl_inv g l' w'" "effect g t (locks s g, wld s) (l', w')" "cmap l' = cmap (locks s g)"
      using destructor_ok [OF sd(2) r(2)] by blast
    then show ?thesis using sys_inv_put [OF s x(3,2) _ r(1,3) x(4)] r(2) Delete by simp
  next
    case (Cleanup g)
    have r: "0 \<le> t" "waiting_on (wld s) t = None" "cwait s t = None" using en Cleanup by (simp_all add: running_def)
    obtain l' w' where x: "asl_cleanup (asl_cleanupImpl (asl_signalImpl g) g t) (locks s g, snd (remove_thread_resource t g (wld s))) = Some (l', w')"
      "asl_inv g l' w'" "effect g t (locks s g, wld s) (l', w')" "cmap l' = cmap (locks s g)"
      using cleanup_ok [OF sd(2) r(2,1)] by blast
    then show ?thesis using sys_inv_put [OF s x(3,2) _ r(1,3) x(4)] r(2) Cleanup by simp
  qed
qed

lemma sys_init_inv: "sys_inv sys_init"
  by (auto simp: sys_inv_def sys_init_def asl_inv_def asl_init_def locked_def waiters_def cond_waiters_def counts_def pair_deadlock_def)

lemma reach_inv: "reach s \<Longrightarrow> sys_inv s"
proof (induction rule: reach.induct)
  case init
  show ?case by (rule sys_init_inv)
next
  case (step s t op s')
  then show ?case using lock_step_inv [OF step.IH step.hyps(2)] by simp
qed

section \<open>Properties\<close>

text \<open>
  C13: In every state that threads can reach by locking, trying, unlocking, waiting, deleting and
  exiting, each mutex is held by at most one thread, that thread has it exactly once on its lock
  list and nobody else has it there, and the waiting counter is the number of waiting threads,
  none of which is the holder.
\<close>

theorem mutex_exclusive:
  assumes "reach s"
  shows "(\<forall>t. locked (wld s) g t = (if 0 \<le> tid (locks s g) \<and> t = tid (locks s g) then 1 else 0))
    \<and> waiting (locks s g) = int (card (waiters (wld s) g)) \<and> tid (locks s g) \<notin> waiters (wld s) g"
  using sys_invD(2) [OF reach_inv [OF assms], of g] by (auto simp: asl_inv_def)

definition two_threads :: "(int \<times> lock_op) list" where
  "two_threads = [(1, Lock 5), (2, Lock 5), (1, Unlock 5), (2, Wake 0)]"

fun lock_run :: "sys \<Rightarrow> (int \<times> lock_op) list \<Rightarrow> sys option" where
  "lock_run s [] = Some s"
| "lock_run s ((t, op) # ops) =
     (if lock_enabled s t op then (case lock_step s t op of None \<Rightarrow> None | Some s' \<Rightarrow> lock_run s' ops) else None)"

lemma lock_run_reach: "reach s \<Longrightarrow> lock_run s ops = Some s' \<Longrightarrow> reach s'"
  by (induction s ops rule: lock_run.induct) (auto split: if_splits option.splits intro: reach.step)

lemma mutex_exclusive_witness:
  "\<exists>s. lock_run sys_init two_threads = Some s \<and> tid (locks s 5) = 2 \<and> locked (wld s) 5 2 = 1 \<and> locked (wld s) 5 1 = 0"
proof -
  have "map_option (\<lambda>s. tid (locks s 5)) (lock_run sys_init two_threads) = Some 2" by code_simp
  then obtain s where s: "lock_run sys_init two_threads = Some s" "tid (locks s 5) = 2" by auto
  have "reach s" by (rule lock_run_reach [OF reach.init s(1)])
  then show ?thesis using mutex_exclusive [of s 5] s by auto
qed

text \<open>
  No operation of a mutex ever fails an assertion or follows a null or missing entry: whatever
  an enabled thread does in a reachable state has a defined result.
\<close>

theorem mutex_operations_defined:
  assumes "reach s" "lock_enabled s t op"
  shows "\<exists>s'. lock_step s t op = Some s'"
  using lock_step_inv [OF reach_inv [OF assms(1)] assms(2)] by blast

lemma mutex_operations_defined_witness: "\<exists>s'. lock_step sys_init 7 (CondWait 3 0) = Some s'"
  by (rule mutex_operations_defined [OF reach.init]) (simp add: running_def sys_init_def)

text \<open>
  C14: The deadlock detection is complete for two threads: no reachable state has two threads that
  each wait for a mutex held by the other.
\<close>

theorem no_pair_deadlock:
  assumes "reach s" "waiting_on (wld s) t1 = Some g1" "tid (locks s g1) = t2" "waiting_on (wld s) t2 = Some g2"
  shows "tid (locks s g2) \<noteq> t1"
  using sys_invD(3) [OF reach_inv [OF assms(1)]] assms(2-4) by (auto simp: pair_deadlock_def)

definition two_locks :: "(int \<times> lock_op) list" where
  "two_locks = [(1, Lock 1), (2, Lock 2), (1, Lock 2), (2, Lock 1)]"

lemma no_pair_deadlock_witness:
  "\<exists>s. lock_run sys_init [(1, Lock 1), (2, Lock 2), (3, Lock 3), (1, Lock 2), (2, Lock 3)] = Some s
     \<and> waiting_on (wld s) 1 = Some 2 \<and> tid (locks s 2) = 2 \<and> waiting_on (wld s) 2 = Some 3 \<and> tid (locks s 3) \<noteq> 1"
proof -
  let ?r = "lock_run sys_init [(1, Lock 1), (2, Lock 2), (3, Lock 3), (1, Lock 2), (2, Lock 3)]"
  have "map_option (\<lambda>s. (waiting_on (wld s) 1, tid (locks s 2), waiting_on (wld s) 2)) ?r = Some (Some 2, 2, Some 3)"
    by code_simp
  then obtain s where s: "?r = Some s" "waiting_on (wld s) 1 = Some 2" "tid (locks s 2) = 2" "waiting_on (wld s) 2 = Some 3" by auto
  have "reach s" by (rule lock_run_reach [OF reach.init s(1)])
  then show ?thesis using no_pair_deadlock [of s 1 2 2 3] s by auto
qed

text \<open>
  When the second of two threads asks for the mutex of the first while the first waits for the
  second's, it gets the exception THREAD-DEADLOCK and keeps running.
\<close>

theorem pair_deadlock_raised:
  "map_option (\<lambda>s. (raised (wld s), waiting_on (wld s) 1, waiting_on (wld s) 2)) (lock_run sys_init two_locks)
     = Some ([''THREAD-DEADLOCK''], Some 2, None)"
  by code_simp

text \<open>
  The detection looks at one owner only, so a circle of three threads goes unnoticed: a
  reachable state has three threads each waiting for a mutex of the next, without any exception.
\<close>

definition three_locks :: "(int \<times> lock_op) list" where
  "three_locks = [(1, Lock 1), (2, Lock 2), (3, Lock 3), (1, Lock 2), (2, Lock 3), (3, Lock 1)]"

theorem three_thread_deadlock_unnoticed:
  "\<exists>s. reach s \<and> raised (wld s) = []
     \<and> waiting_on (wld s) 1 = Some 2 \<and> tid (locks s 2) = 2
     \<and> waiting_on (wld s) 2 = Some 3 \<and> tid (locks s 3) = 3
     \<and> waiting_on (wld s) 3 = Some 1 \<and> tid (locks s 1) = 1"
proof -
  have "map_option (\<lambda>s. (raised (wld s), waiting_on (wld s) 1, tid (locks s 2), waiting_on (wld s) 2, tid (locks s 3),
      waiting_on (wld s) 3, tid (locks s 1))) (lock_run sys_init three_locks)
     = Some ([], Some 2, 2, Some 3, 3, Some 1, 1)" by code_simp
  then obtain s where s: "lock_run sys_init three_locks = Some s" "raised (wld s) = []" "waiting_on (wld s) 1 = Some 2"
    "tid (locks s 2) = 2" "waiting_on (wld s) 2 = Some 3" "tid (locks s 3) = 3" "waiting_on (wld s) 3 = Some 1" "tid (locks s 1) = 1"
    by auto
  have "reach s" by (rule lock_run_reach [OF reach.init s(1)])
  with s show ?thesis by blast
qed

end
