(* ===== verification/Lock_RW.thy ===== *)
theory Lock_RW
  imports Lock_Mutex "HOL-Library.AList"
begin

text \<open>
  The read/write lock \<open>RWLock\<close> (\<open>src/lib/RWLock.cpp\<close>, \<open>src/include/qore/RWLock.h\<close>).  The
  write lock is the lock of the base class; the maps from TIDs to read counts and to
  \<open>VLock\<close>s are association lists.  Many threads working on one lock form a step relation, whose
  invariant says that a writer excludes all readers and that every counter is right.
\<close>

section \<open>The lock\<close>

record rwlock = asl +
  readRequests :: int
  prefer_writers :: bool
  tmap :: "(int \<times> int) list"
  vmap :: "(int \<times> int) list"
  num_readers :: int

definition rw_init :: "bool \<Rightarrow> rwlock" where
  "rw_init p = \<lparr>vl = None, tid = Lock_Unlocked, waiting = 0, cmap = Map.empty, readRequests = 0,
     prefer_writers = p, tmap = [], vmap = [], num_readers = 0\<rparr>"

definition rw_signalAllImpl :: "nat \<Rightarrow> rwlock \<Rightarrow> world \<Rightarrow> world" where
  "rw_signalAllImpl self l w =
     (let w = (if waiting l \<noteq> 0 then world_signal (Broadcast (AslCond self)) w else w)
      in if readRequests l \<noteq> 0 then world_signal (Broadcast (ReadCond self)) w else w)"

definition rw_signalImpl :: "nat \<Rightarrow> rwlock \<Rightarrow> world \<Rightarrow> world" where
  "rw_signalImpl self l w =
     (if prefer_writers l then
        if waiting l \<noteq> 0 then world_signal (Signal (AslCond self)) w
        else if readRequests l \<noteq> 0 then world_signal (Broadcast (ReadCond self)) w else w
      else
        if readRequests l \<noteq> 0 then world_signal (Broadcast (ReadCond self)) w
        else if waiting l \<noteq> 0 then world_signal (Signal (AslCond self)) w else w)"

definition rw_loop :: "nat \<Rightarrow> int \<Rightarrow> rwlock \<times> world \<Rightarrow> (outcome \<times> rwlock \<times> world) option" where
  "rw_loop self mtid = (\<lambda>(l, w).
     if tid l \<ge> 0 \<or> (tid l = Lock_Unlocked \<and> num_readers l \<noteq> 0) then do {
       (r, w) \<leftarrow> (if tid l \<ge> 0 then waitOn mtid self (vl l) w else waitOn_vmap mtid self (map snd (vmap l)) w);
       Some (case r of Block \<Rightarrow> (Block, l\<lparr>waiting := waiting l + 1\<rparr>, w) | Ret _ \<Rightarrow> (Ret (- 1), l, w)) }
     else if tid l = Lock_Deleted then Some (Ret (- 1), l, world_raise ''LOCK-ERROR'' w)
     else Some (Ret 0, l, w))"

definition rw_grabImpl :: "nat \<Rightarrow> int \<Rightarrow> rwlock \<times> world \<Rightarrow> (outcome \<times> rwlock \<times> world) option" where
  "rw_grabImpl self mtid = (\<lambda>(l, w).
     if tid l = mtid then Some (Ret (- 1), l, world_raise ''LOCK-ERROR'' w) else rw_loop self mtid (l, w))"

definition rw_resume :: "nat \<Rightarrow> int \<Rightarrow> int \<Rightarrow> rwlock \<times> world \<Rightarrow> (outcome \<times> rwlock \<times> world) option" where
  "rw_resume self rc mtid = (\<lambda>(l, w).
     let w = waitOn_end mtid w; l = l\<lparr>waiting := waiting l - 1\<rparr>
     in if rc \<noteq> 0 then Some (Ret (- 1), l, w) else rw_loop self mtid (l, w))"

definition rw_tryGrabImpl :: "int \<Rightarrow> rwlock \<times> world \<Rightarrow> (outcome \<times> rwlock \<times> world) option" where
  "rw_tryGrabImpl mtid = (\<lambda>(l, w).
     Some (if tid l \<noteq> Lock_Unlocked \<or> num_readers l \<noteq> 0 then Ret (- 1) else Ret 0, l, w))"

definition rw_releaseImpl_x :: "int \<Rightarrow> rwlock \<times> world \<Rightarrow> (int \<times> rwlock \<times> world) option" where
  "rw_releaseImpl_x mtid = (\<lambda>(l, w).
     Some (if tid l = Lock_Deleted then (- 1, l, world_raise ''LOCK-ERROR'' w)
           else if tid l = Lock_Unlocked then (- 1, l, world_raise ''LOCK-ERROR'' w)
           else if tid l \<noteq> mtid then (- 1, l, world_raise ''LOCK-ERROR'' w)
           else (0, l, w)))"

text \<open>The assertion that readers are counted exactly when there are any.\<close>

definition readers_ok :: "rwlock \<Rightarrow> bool" where
  "readers_ok l \<longleftrightarrow> (tmap l \<noteq> [] \<and> num_readers l \<noteq> 0) \<or> (tmap l = [] \<and> num_readers l = 0)"

definition cleanup_read_lock_intern :: "nat \<Rightarrow> int \<Rightarrow> rwlock \<times> world \<Rightarrow> (int \<times> rwlock \<times> world) option" where
  "cleanup_read_lock_intern self t = (\<lambda>(l, w). do {
     n \<leftarrow> map_of (tmap l) t;
     if n - 1 = 0 then do {
       v \<leftarrow> map_of (vmap l) t;
       w \<leftarrow> vl_pop v self w;
       let l = l\<lparr>tmap := AList.delete t (tmap l), vmap := AList.delete t (vmap l)\<rparr>;
       if readers_ok l then Some (0, l, w) else None }
     else Some (- 1, l\<lparr>tmap := AList.update t (n - 1) (tmap l)\<rparr>, w) })"

definition signal_writer :: "nat \<Rightarrow> rwlock \<Rightarrow> world \<Rightarrow> world" where
  "signal_writer self l w =
     (if num_readers l = 0 \<and> waiting l \<noteq> 0 then world_signal (Signal (AslCond self)) w else w)"

definition rw_releaseImpl :: "nat \<Rightarrow> int \<Rightarrow> rwlock \<times> world \<Rightarrow> (int \<times> rwlock \<times> world) option" where
  "rw_releaseImpl self me = (\<lambda>(l, w).
     if num_readers l \<noteq> 0 then do {
       let l = l\<lparr>num_readers := num_readers l - 1\<rparr>;
       (rc, l, w) \<leftarrow> cleanup_read_lock_intern self me (l, signal_writer self l w);
       Some (- 1, l, w) }
     else Some (if tid l \<ge> 0 then 0 else - 1, l, w))"

definition rw_cleanupImpl :: "nat \<Rightarrow> int \<Rightarrow> rwlock \<times> world \<Rightarrow> (int \<times> rwlock \<times> world) option" where
  "rw_cleanupImpl self me = (\<lambda>(l, w).
     if num_readers l \<noteq> 0 then do {
       v \<leftarrow> map_of (vmap l) me;
       w \<leftarrow> vl_pop v self w;
       n \<leftarrow> map_of (tmap l) me;
       let l = l\<lparr>vmap := AList.delete me (vmap l), num_readers := num_readers l - n\<rparr>;
       let w = signal_writer self l w;
       let l = l\<lparr>tmap := AList.delete me (tmap l)\<rparr>;
       if readers_ok l then Some (- 1, l, w) else None }
     else if tid l \<ge> 0 then
       if tid l \<noteq> me then None
       else do {
         v \<leftarrow> vl l;
         w \<leftarrow> vl_pop v self w;
         let l = l\<lparr>tid := - 1, vl := None\<rparr>;
         Some (- 1, l, rw_signalImpl self l w) }
     else Some (0, l, w))"

section \<open>The read lock\<close>

definition set_initial_read_lock_intern :: "nat \<Rightarrow> int \<Rightarrow> rwlock \<times> world \<Rightarrow> rwlock \<times> world" where
  "set_initial_read_lock_intern self mtid = (\<lambda>(l, w).
     (l\<lparr>tmap := AList.update mtid 1 (tmap l), vmap := AList.update mtid mtid (vmap l)\<rparr>,
      set_thread_resource mtid self (vl_push mtid self w)))"

definition mark_read_lock_intern :: "nat \<Rightarrow> int \<Rightarrow> rwlock \<times> world \<Rightarrow> rwlock \<times> world" where
  "mark_read_lock_intern self mtid = (\<lambda>(l, w).
     let l = l\<lparr>num_readers := num_readers l + 1\<rparr> in
     case map_of (tmap l) mtid of
       None \<Rightarrow> set_initial_read_lock_intern self mtid (l, w)
     | Some n \<Rightarrow> (l\<lparr>tmap := AList.update mtid (n + 1) (tmap l)\<rparr>, w))"

definition read_wait :: "nat \<Rightarrow> int \<Rightarrow> rwlock \<times> world \<Rightarrow> (outcome \<times> rwlock \<times> world) option" where
  "read_wait self mtid = (\<lambda>(l, w). do {
     (r, w) \<leftarrow> waitOn mtid self (vl l) w;
     Some (case r of Block \<Rightarrow> (Block, l\<lparr>readRequests := readRequests l + 1\<rparr>, w) | Ret _ \<Rightarrow> (Ret (- 1), l, w)) })"

definition grab_read_lock_intern :: "nat \<Rightarrow> int \<Rightarrow> rwlock \<times> world \<Rightarrow> (outcome \<times> rwlock \<times> world) option" where
  "grab_read_lock_intern self mtid = (\<lambda>(l, w).
     if tid l \<ge> 0 then read_wait self mtid (l, w)
     else if tid l = Lock_Deleted then Some (Ret (- 1), l, world_raise ''LOCK-ERROR'' w)
     else Some (Ret 0, mark_read_lock_intern self mtid (l, w)))"

definition grab_read_resume :: "nat \<Rightarrow> int \<Rightarrow> int \<Rightarrow> rwlock \<times> world \<Rightarrow> (outcome \<times> rwlock \<times> world) option" where
  "grab_read_resume self rc mtid = (\<lambda>(l, w).
     let w = waitOn_end mtid w; l = l\<lparr>readRequests := readRequests l - 1\<rparr> in
     if rc \<noteq> 0 then Some (Ret (- 1), l, w)
     else if tid l \<ge> 0 then read_wait self mtid (l, w)
     else if tid l = Lock_Deleted then Some (Ret (- 1), l, world_raise ''LOCK-ERROR'' w)
     else Some (Ret 0, set_initial_read_lock_intern self mtid (l\<lparr>num_readers := num_readers l + 1\<rparr>, w)))"

definition readLock :: "nat \<Rightarrow> int \<Rightarrow> rwlock \<times> world \<Rightarrow> (outcome \<times> rwlock \<times> world) option" where
  "readLock self mtid = (\<lambda>(l, w).
     if tid l = mtid then Some (Ret (- 1), l, world_raise ''LOCK-ERROR'' w)
     else grab_read_lock_intern self mtid (l, w))"

definition tryReadLock :: "nat \<Rightarrow> int \<Rightarrow> rwlock \<times> world \<Rightarrow> outcome \<times> rwlock \<times> world" where
  "tryReadLock self me = (\<lambda>(l, w).
     if tid l \<noteq> Lock_Unlocked then (Ret (- 1), l, w) else (Ret 0, mark_read_lock_intern self me (l, w)))"

definition release_read_lock_intern :: "nat \<Rightarrow> int \<Rightarrow> rwlock \<times> world \<Rightarrow> (rwlock \<times> world) option" where
  "release_read_lock_intern self t = (\<lambda>(l, w). do {
     let l = l\<lparr>num_readers := num_readers l - 1\<rparr>;
     (rc, l, w) \<leftarrow> cleanup_read_lock_intern self t (l, signal_writer self l w);
     Some (l, if rc = 0 then snd (remove_thread_resource t self w) else w) })"

definition readUnlock :: "nat \<Rightarrow> int \<Rightarrow> rwlock \<times> world \<Rightarrow> (int \<times> rwlock \<times> world) option" where
  "readUnlock self mtid = (\<lambda>(l, w).
     if tid l = mtid \<or> tid l = Lock_Deleted \<or> map_of (tmap l) mtid = None
     then Some (- 1, l, world_raise ''LOCK-ERROR'' w)
     else map_option (Pair 0) (release_read_lock_intern self mtid (l, w)))"

definition readLockOwner :: "int \<Rightarrow> rwlock \<Rightarrow> bool" where
  "readLockOwner me l \<longleftrightarrow>
     \<not> (tid l > - 1 \<or> tid l = Lock_Deleted \<or> num_readers l = 0) \<and> map_of (tmap l) me \<noteq> None"

definition lockOwner :: "int \<Rightarrow> rwlock \<Rightarrow> bool" where
  "lockOwner me l \<longleftrightarrow> tid l = me \<or> readLockOwner me l"

section \<open>Waiting on a condition variable\<close>

fun release_reads :: "nat \<Rightarrow> int \<Rightarrow> nat \<Rightarrow> rwlock \<times> world \<Rightarrow> (rwlock \<times> world) option" where
  "release_reads self t 0 s = Some s"
| "release_reads self t (Suc n) s = do { s \<leftarrow> release_read_lock_intern self t s; release_reads self t n s }"

text \<open>The answer carries the read count to take again, \<open>None\<close> for the write lock.\<close>

definition rw_externWait ::
    "nat \<Rightarrow> int \<Rightarrow> nat \<Rightarrow> rwlock \<times> world \<Rightarrow> (outcome \<times> nat option \<times> rwlock \<times> world) option" where
  "rw_externWait self mtid c = (\<lambda>(l, w).
     if mtid = tid l then do {
       (l, w) \<leftarrow> release_intern (rw_signalImpl self) self mtid (cond_enter c l, w);
       Some (Block, None, l, w) }
     else if tid l = Lock_Deleted then Some (Ret (- 1), None, l, world_raise ''LOCK-ERROR'' w)
     else (case map_of (tmap l) mtid of
         None \<Rightarrow> Some (Ret (- 1), None, l, world_raise ''LOCK-ERROR'' w)
       | Some n \<Rightarrow> do {
           (l, w) \<leftarrow> release_reads self mtid (nat n) (cond_enter c l, w);
           Some (Block, Some (nat n), l, w) }))"

fun regrab_reads :: "nat \<Rightarrow> int \<Rightarrow> nat \<Rightarrow> rwlock \<times> world \<Rightarrow> (outcome \<times> nat \<times> rwlock \<times> world) option" where
  "regrab_reads self t 0 s = Some (Ret 0, 0, s)"
| "regrab_reads self t (Suc n) s = do {
     (r, l, w) \<leftarrow> grab_read_lock_intern self t s;
     if r = Ret 0 then regrab_reads self t n (l, w) else Some (r, n, l, w) }"

definition rw_externWait_wake ::
    "nat \<Rightarrow> int \<Rightarrow> nat \<Rightarrow> nat option \<Rightarrow> rwlock \<times> world \<Rightarrow> (outcome \<times> nat \<times> rwlock \<times> world) option" where
  "rw_externWait_wake self mtid c reads = (\<lambda>(l, w). do {
     l \<leftarrow> cond_leave c l;
     (case reads of
        None \<Rightarrow> map_option (\<lambda>(r, s). (r, 0, s)) (asl_grab (rw_grabImpl self mtid) self mtid (l, w))
      | Some n \<Rightarrow> regrab_reads self mtid n (l, w)) })"

section \<open>Destruction\<close>

fun pop_all :: "nat \<Rightarrow> int list \<Rightarrow> world \<Rightarrow> world option" where
  "pop_all self [] w = Some w"
| "pop_all self (v # vs) w = do { w \<leftarrow> vl_pop v self w; pop_all self vs w }"

definition rw_destructorImpl :: "nat \<Rightarrow> nat list \<Rightarrow> rwlock \<times> world \<Rightarrow> (rwlock \<times> world) option" where
  "rw_destructorImpl self conds = (\<lambda>(l, w).
     let cs = filter (\<lambda>c. cmap l c \<noteq> None) conds;
         w = (if cs = [] then w
              else fold (\<lambda>c. world_signal (Broadcast (UserCond c))) cs (world_raise ''RWLOCK-ERROR'' w));
         w = (if num_readers l \<noteq> 0 then world_signal (Broadcast (AslCond self)) w else w)
     in do {
       w \<leftarrow> pop_all self (map snd (vmap l)) w;
       Some (l\<lparr>num_readers := 0, vmap := [], tmap := []\<rparr>, w) })"

end
