(* ===== verification/Lock_RW_System.thy ===== *)
theory Lock_RW_System
  imports Lock_RW
begin

text \<open>
  Many threads working on one read/write lock: the invariant of \<open>RWLock\<close>, the proof that its
  write lock meets the contract \<open>smart_lock\<close>, a step relation over all its operations (locking,
  trying, unlocking, waiting on condition variables, deletion, thread exit), and what holds in
  every reachable state.
\<close>

section \<open>The invariant of the lock\<close>

definition reads :: "rwlock \<Rightarrow> int \<Rightarrow> int option" where
  "reads l t = map_of (tmap l) t"

definition rw_core :: "nat \<Rightarrow> rwlock \<Rightarrow> world \<Rightarrow> bool" where
  "rw_core self l w \<longleftrightarrow> - 2 \<le> tid l
     \<and> (0 \<le> tid l \<longrightarrow> vl l = Some (tid l)) \<and> (tid l = - 1 \<longrightarrow> vl l = None) \<and> (tid l \<noteq> - 1 \<longrightarrow> tmap l = [])
     \<and> distinct (map fst (tmap l)) \<and> distinct (map fst (vmap l))
     \<and> (\<forall>t. map_of (vmap l) t = (if map_of (tmap l) t = None then None else Some t))
     \<and> (\<forall>(t, n) \<in> set (tmap l). 0 < n \<and> 0 \<le> t)
     \<and> num_readers l = sum_list (map snd (tmap l))
     \<and> (\<forall>t. locked w self t = (if 0 \<le> tid l \<and> t = tid l \<or> map_of (tmap l) t \<noteq> None then 1 else 0))"

lemma sum_update:
  "distinct (map fst al) \<Longrightarrow> sum_list (map snd (AList.update k v al)) =
     sum_list (map snd al) + v - (case map_of al k of None \<Rightarrow> 0 | Some n \<Rightarrow> (n :: int))"
  by (induction al) (auto simp: map_of_eq_None_iff split: option.splits)

lemma delete_none: "map_of al k = None \<Longrightarrow> AList.delete k al = al"
  by (induction al) (auto split: if_splits)

lemma sum_delete:
  "distinct (map fst al) \<Longrightarrow> map_of al k = Some (n :: int) \<Longrightarrow> sum_list (map snd (AList.delete k al)) = sum_list (map snd al) - n"
proof (induction al)
  case (Cons a al)
  show ?case
  proof (cases "fst a = k")
    case True
    then have "map_of al k = None" using Cons.prems(1) by (auto simp: map_of_eq_None_iff)
    then show ?thesis using Cons.prems(2) True by (cases a) (simp add: delete_none)
  qed (use Cons in \<open>cases a; auto\<close>)
qed simp

lemma update_set: "distinct (map fst al) \<Longrightarrow> (\<forall>(t, n) \<in> set al. P t n) \<Longrightarrow> P k v \<Longrightarrow> \<forall>(t, n) \<in> set (AList.update k v al). P t n"
  by (induction al) auto

lemma delete_set: "(\<forall>(t, n) \<in> set al. P t n) \<Longrightarrow> \<forall>(t, n) \<in> set (AList.delete k al). P t n"
  by (auto simp: AList.delete_eq)

lemma sum_pos: "(\<forall>(t, n) \<in> set al. 0 < (n :: int)) \<Longrightarrow> sum_list (map snd al) \<ge> 0 \<and> (sum_list (map snd al) = 0 \<longleftrightarrow> al = [])"
  by (induction al) auto

lemma readers_iff: "rw_core self l w \<Longrightarrow> num_readers l = 0 \<longleftrightarrow> tmap l = []"
  using sum_pos [of "tmap l"] by (fastforce simp: rw_core_def)

lemma core_nn: "rw_core self l w \<Longrightarrow> map_of (tmap l) t = Some n \<Longrightarrow> 0 < n \<and> 0 \<le> t \<and> tid l = - 1 \<and> num_readers l \<noteq> 0"
  using readers_iff [of self l w] by (auto simp: rw_core_def dest!: map_of_SomeD)

text \<open>\<open>quiet\<close>: nobody started or stopped waiting.\<close>

definition quiet :: "rwlock \<times> world \<Rightarrow> rwlock \<times> world \<Rightarrow> bool" where
  "quiet = (\<lambda>(l, w) (l', w'). waiting l' = waiting l \<and> readRequests l' = readRequests l \<and> cmap l' = cmap l
     \<and> waiting_on w' = waiting_on w)"

lemma core_mark:
  assumes "rw_core self l w" "tid l = - 1" "0 \<le> t" "mark_read_lock_intern self t (l, w) = (l', w')"
  shows "rw_core self l' w'" "map_of (tmap l') = (map_of (tmap l))(t \<mapsto> (case map_of (tmap l) t of None \<Rightarrow> 1 | Some n \<Rightarrow> n + 1))"
    "quiet (l, w) (l', w')" "tid l' = - 1"
proof -
  have c: "distinct (map fst (tmap l))" "distinct (map fst (vmap l))" "\<forall>(t, n) \<in> set (tmap l). 0 < n \<and> 0 \<le> t"
    using assms(1) by (simp_all add: rw_core_def)
  show "map_of (tmap l') = (map_of (tmap l))(t \<mapsto> (case map_of (tmap l) t of None \<Rightarrow> 1 | Some n \<Rightarrow> n + 1))"
    "quiet (l, w) (l', w')" "tid l' = - 1"
    using assms(2,4) by (auto simp: quiet_def mark_read_lock_intern_def set_initial_read_lock_intern_def Let_def AList.update_conv' split: option.splits)
  show "rw_core self l' w'"
  proof (cases "map_of (tmap l) t")
    case None
    have s: "\<forall>(t, n) \<in> set (AList.update t 1 (tmap l)). 0 < n \<and> 0 \<le> t" by (rule update_set [OF c(1,3)]) (simp add: assms(3))
    have "(l', w') = (l\<lparr>num_readers := num_readers l + 1, tmap := AList.update t 1 (tmap l), vmap := AList.update t t (vmap l)\<rparr>,
      set_thread_resource t self (vl_push t self w))"
      using assms(4) None by (simp add: mark_read_lock_intern_def set_initial_read_lock_intern_def)
    then show ?thesis
      using assms(1,2) s None by (auto simp: rw_core_def sum_update AList.distinct_update AList.update_conv')
  next
    case (Some n)
    then have "0 < n" using core_nn assms(1) by blast
    then have s: "\<forall>(t, n) \<in> set (AList.update t (n + 1) (tmap l)). 0 < n \<and> 0 \<le> t" by (intro update_set [OF c(1,3)]) (simp add: assms(3))
    have "(l', w') = (l\<lparr>num_readers := num_readers l + 1, tmap := AList.update t (n + 1) (tmap l)\<rparr>, w)"
      using assms(4) Some by (simp add: mark_read_lock_intern_def)
    then show ?thesis
      using assms(1,2) s Some by (auto simp: rw_core_def sum_update AList.distinct_update AList.update_conv' simp del: map_of_eq_Some_iff)
  qed
qed

lemma signal_same [simp]:
  "locked (signal_writer self l w) g t = locked w g t" "waiting_on (signal_writer self l w) = waiting_on w"
  "locked (rw_signalImpl self l w) g t = locked w g t" "waiting_on (rw_signalImpl self l w) = waiting_on w"
  "locked (rw_signalAllImpl self l w) g t = locked w g t" "waiting_on (rw_signalAllImpl self l w) = waiting_on w"
  by (simp_all add: signal_writer_def rw_signalImpl_def rw_signalAllImpl_def Let_def)

lemma core_world: "(\<And>t. locked w' self t = locked w self t) \<Longrightarrow> rw_core self l w' = rw_core self l w"
  by (simp add: rw_core_def)

lemma core_raise [simp]: "rw_core self l (world_raise e w) = rw_core self l w"
  "rw_core self l (snd (remove_thread_resource t g w)) = rw_core self l w"
  "rw_core self l (waitOn_end t w) = rw_core self l w"
  "rw_core self l (w\<lparr>waiting_on := f\<rparr>) = rw_core self l w"
  "rw_core self l (signal_writer self l' w) = rw_core self l w"
  by (simp_all add: rw_core_def)

lemma core_fields [simp]:
  "rw_core self (l\<lparr>waiting := a\<rparr>) w = rw_core self l w" "rw_core self (l\<lparr>readRequests := a\<rparr>) w = rw_core self l w"
  "rw_core self (l\<lparr>cmap := m\<rparr>) w = rw_core self l w"
  by (simp_all add: rw_core_def)

text \<open>Removing thread \<open>t\<close> from both maps.\<close>

lemma core_drop:
  assumes "rw_core self l w" "map_of (tmap l) t = Some n" "vl_pop t self w = Some w'"
    and "l' = l\<lparr>num_readers := num_readers l - n, tmap := AList.delete t (tmap l), vmap := AList.delete t (vmap l)\<rparr>"
  shows "rw_core self l' w'" "map_of (tmap l') = (map_of (tmap l))(t := None)" "readers_ok l'"
proof -
  have c: "distinct (map fst (tmap l))" "\<forall>(t, n) \<in> set (tmap l). 0 < n \<and> 0 \<le> t" "tid l = - 1"
    using assms(1) core_nn [OF assms(1,2)] by (simp_all add: rw_core_def)
  have s: "\<forall>(t, n) \<in> set (AList.delete t (tmap l)). 0 < n \<and> 0 \<le> t" by (rule delete_set [OF c(2)])
  show m: "map_of (tmap l') = (map_of (tmap l))(t := None)" using assms(4) by (simp add: AList.delete_conv')
  show core: "rw_core self l' w'"
    using assms(1,2,4) s c(3)
    by (auto simp: rw_core_def sum_delete AList.distinct_delete AList.delete_conv' vl_pop_frame [OF assms(3)] simp del: map_of_eq_Some_iff)
  show "readers_ok l'" using readers_iff [OF core] by (auto simp: readers_ok_def)
qed

lemma core_pop:
  assumes "rw_core self l w" "map_of (tmap l) t = Some n"
  obtains w' where "vl_pop t self w = Some w'" "map_of (vmap l) t = Some t"
proof -
  have "0 < locked w self t" "map_of (vmap l) t = Some t" using assms by (simp_all add: rw_core_def)
  with that show thesis using vl_pop_ok by metis
qed

lemma core_release_read:
  assumes "rw_core self l w" "map_of (tmap l) t = Some n"
  shows "\<exists>l' w'. release_read_lock_intern self t (l, w) = Some (l', w') \<and> rw_core self l' w' \<and> quiet (l, w) (l', w')
    \<and> map_of (tmap l') = (map_of (tmap l))(t := (if n = 1 then None else Some (n - 1))) \<and> tid l' = tid l"
proof -
  note nn = core_nn [OF assms]
  let ?l = "l\<lparr>num_readers := num_readers l - 1\<rparr>"
  let ?w = "signal_writer self ?l w"
  have cw: "rw_core self l ?w" using assms(1) by simp
  show ?thesis
  proof (cases "n = 1")
    case True
    obtain w' where p: "vl_pop t self ?w = Some w'" "map_of (vmap l) t = Some t" using core_pop [OF cw assms(2)] .
    define l' where "l' = l\<lparr>num_readers := num_readers l - n, tmap := AList.delete t (tmap l), vmap := AList.delete t (vmap l)\<rparr>"
    note d = core_drop [OF cw assms(2) p(1) l'_def]
    have "release_read_lock_intern self t (l, w) = Some (l', snd (remove_thread_resource t self w'))"
      using assms(2) p d(3) True by (simp add: release_read_lock_intern_def cleanup_read_lock_intern_def l'_def Let_def)
    then show ?thesis using d True vl_pop_frame(2) [OF p(1)] by (simp add: quiet_def l'_def)
  next
    case False
    define l' where "l' = ?l\<lparr>tmap := AList.update t (n - 1) (tmap l)\<rparr>"
    have c: "distinct (map fst (tmap l))" "\<forall>(t, n) \<in> set (tmap l). 0 < n \<and> 0 \<le> t" using assms(1) by (simp_all add: rw_core_def)
    have s: "\<forall>(t, n) \<in> set (AList.update t (n - 1) (tmap l)). 0 < n \<and> 0 \<le> t"
      by (rule update_set [OF c]) (use nn False in simp)
    have "release_read_lock_intern self t (l, w) = Some (l', ?w)"
      using assms(2) False by (simp add: release_read_lock_intern_def cleanup_read_lock_intern_def l'_def Let_def)
    moreover have "rw_core self l' ?w"
      using assms s nn by (auto simp: rw_core_def l'_def sum_update AList.distinct_update AList.update_conv' simp del: map_of_eq_Some_iff)
    ultimately show ?thesis using False by (simp add: quiet_def l'_def AList.update_conv')
  qed
qed

lemma core_grab:
  assumes "rw_core self l w" "tid l = - 1" "tmap l = []" "0 \<le> t" "grab_intern self t (l, w) = (l', w')"
  shows "rw_core self l' w'" "quiet (l, w) (l', w')" "tid l' = t" "tmap l' = []"
  using assms by (auto simp: rw_core_def grab_intern_def mark_and_push_def quiet_def)

lemma core_release:
  assumes "rw_core self l w" "0 \<le> tid l"
  shows "\<exists>l' w'. release_and_signal (rw_signalImpl self) self (l, w) = Some (l', w') \<and> rw_core self l' w'
    \<and> quiet (l, w) (l', w') \<and> tid l' = - 1 \<and> tmap l' = []"
proof -
  have v: "vl l = Some (tid l)" "0 < locked w self (tid l)" "tmap l = []" using assms by (simp_all add: rw_core_def)
  obtain w' where p: "vl_pop (tid l) self w = Some w'" using vl_pop_ok [OF v(2)] by blast
  let ?l = "l\<lparr>tid := - 1, vl := None\<rparr>"
  have "rw_core self ?l (rw_signalImpl self ?l w')"
    using assms v(3) by (auto simp: rw_core_def vl_pop_frame [OF p])
  then show ?thesis
    using assms(2) v p by (simp add: release_and_signal_def Let_def quiet_def vl_pop_frame [OF p])
qed

definition set_wait :: "int \<Rightarrow> nat \<Rightarrow> world \<Rightarrow> world" where
  "set_wait t self w = w\<lparr>waiting_on := (waiting_on w)(t := Some self)\<rparr>"

lemma set_wait_core [simp]:
  "rw_core self l (set_wait t g w) = rw_core self l w" "waiting_on (set_wait t g w) = (waiting_on w)(t := Some g)"
  by (simp_all add: set_wait_def)

lemma wait_end_raise: "waiting_on w t = None \<Longrightarrow> waitOn_end t (world_raise e (set_wait t g w)) = world_raise e w"
  by (simp add: waitOn_end_def world_raise_def set_wait_def fun_upd_idem)

lemma waitOn_result:
  assumes "v = Some owner" "waiting_on w t = None"
  shows "waitOn t self v w = Some (Ret (- 1), world_raise ''THREAD-DEADLOCK'' w) \<or> waitOn t self v w = Some (Block, set_wait t self w)"
  using assms by (auto simp: waitOn_def Let_def set_wait_def [symmetric] wait_end_raise)

lemma tid_cases: "rw_core self l w \<Longrightarrow> 0 \<le> tid l \<or> tid l = - 2 \<or> tid l = - 1"
  by (auto simp: rw_core_def)

lemma rw_loop_result:
  assumes "rw_core self l w" "0 \<le> t" "waiting_on w t = None"
  obtains "rw_loop self t (l, w) = Some (Block, l\<lparr>waiting := waiting l + 1\<rparr>, set_wait t self w)" "map_of (tmap l) t = None"
    | e where "rw_loop self t (l, w) = Some (Ret (- 1), l, world_raise e w)"
    | "rw_loop self t (l, w) = Some (Ret 0, l, w)" "tid l = - 1" "tmap l = []"
proof -
  consider "0 \<le> tid l" | "tid l = - 1" "tmap l \<noteq> []" | "tid l = - 2" | "tid l = - 1" "tmap l = []"
    using tid_cases [OF assms(1)] by blast
  then show thesis
  proof cases
    case 1
    then have v: "vl l = Some (tid l)" "tmap l = []" using assms(1) by (simp_all add: rw_core_def)
    from waitOn_result [OF v(1) assms(3), of self] show thesis
      using 1 v that(1,2) by (auto simp: rw_loop_def)
  next
    case 2
    then have nr: "num_readers l \<noteq> 0" using readers_iff [OF assms(1)] by simp
    have dl: "list_ex (deadlock_with t (set_wait t self w)) (map snd (vmap l))" if "map_of (tmap l) t \<noteq> None"
    proof -
      have "map_of (vmap l) t = Some t" "0 < locked w self t" using assms(1) that by (auto simp: rw_core_def)
      moreover have "t \<in> set (map snd (vmap l))" using calculation(1) by (force dest: map_of_SomeD)
      moreover have "deadlock_with t (set_wait t self w) t"
        using calculation(2) by (simp add: deadlock_with_def vl_find_locked) (simp add: set_wait_def)
      ultimately show ?thesis by (auto simp: list_ex_iff)
    qed
    show thesis
    proof (cases "list_ex (deadlock_with t (set_wait t self w)) (map snd (vmap l))")
      case True
      then have "waitOn_vmap t self (map snd (vmap l)) w = Some (Ret (- 1), world_raise ''THREAD-DEADLOCK'' w)"
        using assms(3) by (simp add: waitOn_vmap_def Let_def set_wait_def [symmetric] wait_end_raise)
      then show thesis using 2 nr that(2) by (simp add: rw_loop_def)
    next
      case False
      then have "waitOn_vmap t self (map snd (vmap l)) w = Some (Block, set_wait t self w)"
        using assms(3) by (simp add: waitOn_vmap_def Let_def set_wait_def [symmetric])
      moreover have "map_of (tmap l) t = None" using dl False by blast
      ultimately show thesis using 2 nr that(1) by (simp add: rw_loop_def)
    qed
  next
    case 3
    then show thesis using that(2) [of "''LOCK-ERROR''"] by (simp add: rw_loop_def)
  next
    case 4
    then show thesis using that(3) readers_iff [OF assms(1)] by (simp add: rw_loop_def)
  qed
qed

lemma read_wait_result:
  assumes "rw_core self l w" "0 \<le> t" "waiting_on w t = None" "0 \<le> tid l"
  obtains "read_wait self t (l, w) = Some (Block, l\<lparr>readRequests := readRequests l + 1\<rparr>, set_wait t self w)"
    | e where "read_wait self t (l, w) = Some (Ret (- 1), l, world_raise e w)"
proof -
  have v: "vl l = Some (tid l)" using assms by (simp add: rw_core_def)
  from waitOn_result [OF v assms(3), of self] show thesis using that by (auto simp: read_wait_def)
qed

lemma initial_is_mark:
  "map_of (tmap l) t = None \<Longrightarrow> set_initial_read_lock_intern self t (l\<lparr>num_readers := num_readers l + 1\<rparr>, w) = mark_read_lock_intern self t (l, w)"
  by (simp add: mark_read_lock_intern_def)

section \<open>The write lock meets the contract of a smart lock\<close>

interpretation rw: smart_lock self "rw_core self"
  "\<lambda>t l w. rw_core self l w \<and> tid l = - 1 \<and> tmap l = []" "\<lambda>t l w. rw_core self l w \<and> tid l = t \<and> 0 \<le> t"
  "rw_grabImpl self" "rw_resume self rc" rw_tryGrabImpl rw_releaseImpl_x "rw_signalImpl self" for self rc
proof unfold_locales
  fix l :: rwlock and w t
  let ?P = "\<lambda>r l' w'. if r = Ret 0 then rw_core self l' w' \<and> tid l' = - 1 \<and> tmap l' = [] else rw_core self l' w'"
  have loop: "\<exists>r l' w'. rw_loop self t (l, w) = Some (r, l', w') \<and> ?P r l' w'"
    if "rw_core self l w" "0 \<le> t" "waiting_on w t = None" for l w
    using rw_loop_result [OF that] that(1) by cases auto
  show "\<exists>r l' w'. rw_grabImpl self t (l, w) = Some (r, l', w') \<and> ?P r l' w'"
    if "rw_core self l w" "0 \<le> t" "waiting_on w t = None"
    using that loop [OF that] by (cases "tid l = t") (simp_all add: rw_grabImpl_def)
  show "\<exists>r l' w'. rw_resume self rc t (l, w) = Some (r, l', w') \<and> ?P r l' w'"
    if "rw_core self l w" "0 \<le> t" "waiting_on w t = Some self"
    using that loop [of "l\<lparr>waiting := waiting l - 1\<rparr>" "waitOn_end t w"] by (cases "rc = 0") (simp_all add: rw_resume_def Let_def)
  show "\<exists>r l' w'. rw_tryGrabImpl t (l, w) = Some (r, l', w') \<and> r \<noteq> Block \<and> ?P r l' w'"
    if "rw_core self l w" "0 \<le> t" "waiting_on w t = None"
    using that readers_iff [OF that(1)] by (simp add: rw_tryGrabImpl_def)
  show "\<exists>r l' w'. rw_releaseImpl_x t (l, w) = Some (r, l', w')
      \<and> (if r = 0 then rw_core self l' w' \<and> tid l' = t \<and> 0 \<le> t else rw_core self l' w')"
    if "rw_core self l w" "0 \<le> t"
    using that by (simp add: rw_releaseImpl_x_def)
  show "rw_core self (fst (grab_intern self t (l, w))) (snd (grab_intern self t (l, w)))"
    if "rw_core self l w \<and> tid l = - 1 \<and> tmap l = []" "0 \<le> t"
    using that core_grab(1) [of self l w t "fst (grab_intern self t (l, w))" "snd (grab_intern self t (l, w))"] by simp
  show "\<exists>l' w'. release_intern (rw_signalImpl self) self t (l, w) = Some (l', w') \<and> rw_core self l' w' \<and> tid l' < 0"
    if "rw_core self l w \<and> tid l = t \<and> 0 \<le> t"
  proof -
    have c: "rw_core self l (snd (remove_thread_resource t self w))" "0 \<le> tid l" using that by simp_all
    then show ?thesis using core_release [OF c] by (auto simp: release_intern_def)
  qed
qed

section \<open>Many threads on one lock\<close>

datatype rw_pc = Run | WaitWrite | WaitRead nat | CondWaiting nat "nat option"

record rws =
  rwl :: rwlock
  rww :: world
  pcs :: "int \<Rightarrow> rw_pc"

datatype rw_op = WriteLock | TryWriteLock | WriteUnlock | ReadLock | TryReadLock | ReadUnlock
  | CondWaitOp nat | WakeOp int | CondWakeOp | DeleteOp "nat list" | CleanupOp

definition rw_sys_init :: "bool \<Rightarrow> rws" where
  "rw_sys_init p = \<lparr>rwl = rw_init p,
     rww = \<lparr>vlist = (\<lambda>_. []), waiting_on = (\<lambda>_. None), trset = (\<lambda>_. {}), signals = [], raised = []\<rparr>,
     pcs = (\<lambda>_. Run)\<rparr>"

definition rw_put :: "rws \<Rightarrow> int \<Rightarrow> rw_pc \<Rightarrow> rwlock \<times> world \<Rightarrow> rws" where
  "rw_put s t pc = (\<lambda>(l, w). \<lparr>rwl = l, rww = w, pcs = (pcs s)(t := pc)\<rparr>)"

fun rw_enabled :: "nat \<Rightarrow> rws \<Rightarrow> int \<Rightarrow> rw_op \<Rightarrow> bool" where
  "rw_enabled self s t (WakeOp rc) \<longleftrightarrow> 0 \<le> t \<and> (case pcs s t of WaitWrite \<Rightarrow> True | WaitRead _ \<Rightarrow> True | _ \<Rightarrow> False)"
| "rw_enabled self s t CondWakeOp \<longleftrightarrow> 0 \<le> t \<and> (case pcs s t of CondWaiting _ _ \<Rightarrow> True | _ \<Rightarrow> False)"
| "rw_enabled self s t CleanupOp \<longleftrightarrow> 0 \<le> t \<and> pcs s t = Run \<and> check_thread_resource t self (rww s)"
| "rw_enabled self s t _ \<longleftrightarrow> 0 \<le> t \<and> pcs s t = Run"

definition block_pc :: "rw_pc \<Rightarrow> outcome \<Rightarrow> rw_pc" where
  "block_pc pc r = (if r = Block then pc else Run)"

fun rw_step :: "nat \<Rightarrow> rws \<Rightarrow> int \<Rightarrow> rw_op \<Rightarrow> rws option" where
  "rw_step self s t WriteLock =
     map_option (\<lambda>(r, p). rw_put s t (block_pc WaitWrite r) p) (asl_grab (rw_grabImpl self t) self t (rwl s, rww s))"
| "rw_step self s t TryWriteLock =
     map_option (\<lambda>(r, p). rw_put s t Run p) (asl_grab (rw_tryGrabImpl t) self t (rwl s, rww s))"
| "rw_step self s t WriteUnlock =
     map_option (\<lambda>(r, p). rw_put s t Run p)
       (asl_release_x (rw_releaseImpl_x t) (rw_signalImpl self) self t (rwl s, rww s))"
| "rw_step self s t ReadLock =
     map_option (\<lambda>(r, p). rw_put s t (block_pc (WaitRead 0) r) p) (readLock self t (rwl s, rww s))"
| "rw_step self s t TryReadLock = Some (case tryReadLock self t (rwl s, rww s) of (r, p) \<Rightarrow> rw_put s t Run p)"
| "rw_step self s t ReadUnlock =
     map_option (\<lambda>(r, p). rw_put s t Run p) (readUnlock self t (rwl s, rww s))"
| "rw_step self s t (CondWaitOp c) =
     map_option (\<lambda>(r, rd, p). rw_put s t (block_pc (CondWaiting c rd) r) p) (rw_externWait self t c (rwl s, rww s))"
| "rw_step self s t (WakeOp rc) =
     (case pcs s t of
        WaitWrite \<Rightarrow>
          map_option (\<lambda>(r, p). rw_put s t (block_pc WaitWrite r) p) (asl_grab (rw_resume self rc t) self t (rwl s, rww s))
      | WaitRead n \<Rightarrow> do {
          (r, p) \<leftarrow> grab_read_resume self rc t (rwl s, rww s);
          if r = Ret 0 then map_option (\<lambda>(r, m, p). rw_put s t (block_pc (WaitRead m) r) p) (regrab_reads self t n p)
          else Some (rw_put s t (block_pc (WaitRead n) r) p) }
      | _ \<Rightarrow> None)"
| "rw_step self s t CondWakeOp =
     (case pcs s t of
        CondWaiting c rd \<Rightarrow>
          map_option (\<lambda>(r, m, p). rw_put s t (block_pc (if rd = None then WaitWrite else WaitRead m) r) p)
            (rw_externWait_wake self t c rd (rwl s, rww s))
      | _ \<Rightarrow> None)"
| "rw_step self s t (DeleteOp conds) =
     map_option (rw_put s t Run) (asl_destructor (rw_destructorImpl self conds) (rw_signalAllImpl self) self t (rwl s, rww s))"
| "rw_step self s t CleanupOp =
     map_option (rw_put s t Run)
       (asl_cleanup (rw_cleanupImpl self t) (rwl s, snd (remove_thread_resource t self (rww s))))"

definition in_write :: "rws \<Rightarrow> int set" where "in_write s = {t. pcs s t = WaitWrite}"
definition in_read :: "rws \<Rightarrow> int set" where "in_read s = {t. \<exists>n. pcs s t = WaitRead n}"
definition in_cond :: "rws \<Rightarrow> nat \<Rightarrow> int set" where "in_cond s c = {t. \<exists>rd. pcs s t = CondWaiting c rd}"

definition holds :: "rwlock \<Rightarrow> int \<Rightarrow> bool" where
  "holds l t \<longleftrightarrow> 0 \<le> t \<and> tid l = t \<or> map_of (tmap l) t \<noteq> None"

text \<open>
  The invariant of the system: that of the lock; each counter counts its threads; threads that wait
  hold nothing; and a thread whose resource list has the lock holds it, unless the lock was deleted.
\<close>

definition rw_inv :: "nat \<Rightarrow> rws \<Rightarrow> bool" where
  "rw_inv self s \<longleftrightarrow> rw_core self (rwl s) (rww s)
     \<and> finite {t. pcs s t \<noteq> Run}
     \<and> waiting (rwl s) = int (card (in_write s)) \<and> readRequests (rwl s) = int (card (in_read s))
     \<and> (\<forall>c. cmap (rwl s) c = (if in_cond s c = {} then None else Some (int (card (in_cond s c)))))
     \<and> (\<forall>t. waiting_on (rww s) t = (if t \<in> in_write s \<union> in_read s then Some self else None))
     \<and> (\<forall>t. pcs s t \<noteq> Run \<longrightarrow> 0 \<le> t \<and> \<not> holds (rwl s) t)
     \<and> (\<forall>t. self \<in> trset (rww s) t \<longrightarrow> holds (rwl s) t \<or> tid (rwl s) = - 2)"

definition cond_counts :: "(nat \<rightharpoonup> int) \<Rightarrow> (nat \<Rightarrow> int set) \<Rightarrow> bool" where
  "cond_counts m W \<longleftrightarrow> (\<forall>c. finite (W c) \<and> m c = (if W c = {} then None else Some (int (card (W c)))))"

lemma cond_counts_enter:
  assumes "cond_counts (cmap l) W" "t \<notin> W c"
  shows "cond_counts (cmap (cond_enter c l)) (W(c := insert t (W c)))"
  using assms by (auto simp: cond_counts_def cond_enter_def)

lemma cond_counts_leave:
  assumes "cond_counts (cmap l) W" "t \<in> W c"
  shows "\<exists>m. cond_leave c l = Some (l\<lparr>cmap := m\<rparr>) \<and> cond_counts m (W(c := W c - {t}))"
proof -
  have W: "finite (W c)" "cmap l c = Some (int (card (W c)))" using assms by (auto simp: cond_counts_def)
  have n1: "0 < card (W c)" "card (W c - {t}) = card (W c) - 1"
    using W(1) assms(2) by (auto simp: card_gt_0_iff)
  moreover have "W c - {t} = {} \<longleftrightarrow> card (W c - {t}) = 0" using W(1) by simp
  ultimately have n: "0 < card (W c)" "W c - {t} = {} \<longleftrightarrow> card (W c) = 1" "card (W c - {t}) = card (W c) - 1"
    by linarith+
  define m where "m = (if card (W c) = 1 then (cmap l)(c := None) else (cmap l)(c \<mapsto> int (card (W c)) - 1))"
  have "cond_leave c l = Some (l\<lparr>cmap := m\<rparr>)" using W(2) n(1) by (auto simp: cond_leave_def m_def)
  moreover have "cond_counts m (W(c := W c - {t}))"
    using assms(1) n W(1) unfolding cond_counts_def m_def by auto
  ultimately show ?thesis by blast
qed

text \<open>What a step of thread \<open>t\<close> may change for the other threads.\<close>

definition frame_rw :: "nat \<Rightarrow> int \<Rightarrow> rwlock \<times> world \<Rightarrow> rwlock \<times> world \<Rightarrow> bool" where
  "frame_rw self t = (\<lambda>(l, w) (l', w').
     (\<forall>t'. t' \<noteq> t \<longrightarrow> trset w' t' = trset w t' \<and> (holds l' t' \<longrightarrow> holds l t') \<and> (holds l t' \<longrightarrow> holds l' t' \<or> tid l' = - 2))
     \<and> (tid l = - 2 \<longrightarrow> tid l' = - 2) \<and> (self \<in> trset w' t \<longrightarrow> holds l' t \<or> tid l' = - 2))"

definition waits :: "rw_pc \<Rightarrow> bool" where
  "waits pc = (case pc of WaitWrite \<Rightarrow> True | WaitRead _ \<Rightarrow> True | _ \<Rightarrow> False)"

definition one :: "bool \<Rightarrow> int" where "one b = (if b then 1 else 0)"

lemma card_toggle:
  assumes "finite {t'. P (f t')}"
  shows "int (card {t'. P ((f(t := x)) t')}) = int (card {t'. P (f t')}) + one (P x) - one (P (f t))"
proof -
  let ?A = "{t'. P (f t')}"
  have "{t'. P ((f(t := x)) t')} = (if P x then insert t (?A - {t}) else ?A - {t})" by auto
  moreover have "int (card (?A - {t})) = int (card ?A) - one (P (f t))"
  proof (cases "P (f t)")
    case True
    then have "0 < card ?A" using assms card_gt_0_iff by auto
    then show ?thesis using True assms by (simp add: one_def)
  qed (simp add: one_def)
  moreover have "int (card (insert t (?A - {t}))) = int (card (?A - {t})) + 1"
    using assms by (subst card_insert_disjoint) auto
  ultimately show ?thesis by (simp only: one_def split: if_split) simp
qed

lemma rw_invD:
  assumes "rw_inv self s"
  shows "rw_core self (rwl s) (rww s)" "finite {t. pcs s t \<noteq> Run}" "cond_counts (cmap (rwl s)) (in_cond s)"
    "waiting_on (rww s) t = (if waits (pcs s t) then Some self else None)"
    "pcs s t \<noteq> Run \<Longrightarrow> \<not> holds (rwl s) t" "self \<in> trset (rww s) t \<longrightarrow> holds (rwl s) t \<or> tid (rwl s) = - 2"
    "pcs s t \<noteq> Run \<Longrightarrow> 0 \<le> t"
proof -
  have f: "finite {t. pcs s t \<noteq> Run}" using assms by (simp add: rw_inv_def)
  then have "finite (in_cond s c)" for c by (rule finite_subset [rotated]) (auto simp: in_cond_def)
  then show "cond_counts (cmap (rwl s)) (in_cond s)" using assms by (auto simp: rw_inv_def cond_counts_def)
  show "waiting_on (rww s) t = (if waits (pcs s t) then Some self else None)"
    using assms by (auto simp: rw_inv_def in_write_def in_read_def waits_def split: rw_pc.splits)
qed (use assms in \<open>simp_all add: rw_inv_def\<close>)

lemma rw_inv_put:
  assumes inv: "rw_inv self s" and core: "rw_core self l' w'" and fr: "frame_rw self t (rwl s, rww s) (l', w')" and t: "0 \<le> t"
    and h: "pc \<noteq> Run \<Longrightarrow> \<not> holds l' t"
    and wa: "waiting l' = waiting (rwl s) + one (pc = WaitWrite) - one (pcs s t = WaitWrite)"
    and rr: "readRequests l' = readRequests (rwl s) + one (\<exists>n. pc = WaitRead n) - one (\<exists>n. pcs s t = WaitRead n)"
    and cm: "cond_counts (cmap l') (in_cond (rw_put s t pc (l', w')))"
    and wo: "waiting_on w' = (waiting_on (rww s))(t := (if waits pc then Some self else None))"
  shows "rw_inv self (rw_put s t pc (l', w'))"
proof -
  let ?s = "rw_put s t pc (l', w')"
  have c: "finite {t. pcs s t \<noteq> Run}" "waiting (rwl s) = int (card {t. pcs s t = WaitWrite})"
    "readRequests (rwl s) = int (card {t. \<exists>n. pcs s t = WaitRead n})"
    using inv by (simp_all add: rw_inv_def in_write_def in_read_def)
  have fin: "finite {t. pcs s t = WaitWrite}" "finite {t. \<exists>n. pcs s t = WaitRead n}"
    by (rule finite_subset [OF _ c(1)]; auto)+
  have p: "pcs ?s = (pcs s)(t := pc)" "rwl ?s = l'" "rww ?s = w'" by (simp_all add: rw_put_def)
  have "finite {t'. pcs ?s t' \<noteq> Run}" by (rule finite_subset [of _ "insert t {t. pcs s t \<noteq> Run}"]) (use c(1) in \<open>auto simp: p\<close>)
  moreover have "waiting l' = int (card (in_write ?s))"
    unfolding in_write_def p wa c(2) using card_toggle [where f = "pcs s" and P = "\<lambda>q. q = WaitWrite", OF fin(1)] by simp
  moreover have "readRequests l' = int (card (in_read ?s))"
    unfolding in_read_def p rr c(3) using card_toggle [where f = "pcs s" and P = "\<lambda>q. \<exists>n. q = WaitRead n", OF fin(2)] by simp
  moreover have "\<forall>x. waiting_on w' x = (if x \<in> in_write ?s \<union> in_read ?s then Some self else None)"
    using rw_invD(4) [OF inv] unfolding wo by (auto simp: in_write_def in_read_def p waits_def split: rw_pc.splits)
  moreover have "\<forall>x. pcs ?s x \<noteq> Run \<longrightarrow> 0 \<le> x \<and> \<not> holds l' x"
    using rw_invD(5,7) [OF inv] fr h t by (auto simp: p frame_rw_def)
  moreover have "self \<in> trset w' x \<Longrightarrow> holds l' x \<or> tid l' = - 2" for x
    using rw_invD(6) [OF inv, of x] fr by (cases "x = t") (auto simp: frame_rw_def)
  ultimately show ?thesis using core cm unfolding rw_inv_def p cond_counts_def by simp
qed

lemma in_cond_put_other:
  "(\<forall>c rd. pcs s t \<noteq> CondWaiting c rd) \<Longrightarrow> (\<forall>c rd. pc \<noteq> CondWaiting c rd) \<Longrightarrow> in_cond (rw_put s t pc p) = in_cond s"
  by (auto simp: in_cond_def rw_put_def fun_eq_iff split: prod.splits)

lemma in_cond_put_enter:
  "pcs s t = Run \<Longrightarrow> in_cond (rw_put s t (CondWaiting c rd) p) = (in_cond s)(c := insert t (in_cond s c))"
  by (auto simp: in_cond_def rw_put_def fun_eq_iff split: prod.splits)

lemma in_cond_put_leave:
  "pcs s t = CondWaiting c rd \<Longrightarrow> \<forall>c rd. pc \<noteq> CondWaiting c rd \<Longrightarrow> in_cond (rw_put s t pc p) = (in_cond s)(c := in_cond s c - {t})"
  by (auto simp: in_cond_def rw_put_def fun_eq_iff split: prod.splits)

text \<open>A step that leaves the thread running and nobody's waiting changed.\<close>

lemma rw_inv_quiet:
  assumes inv: "rw_inv self s" and t: "0 \<le> t" "pcs s t = Run"
    and "rw_core self l' w'" "frame_rw self t (rwl s, rww s) (l', w')" "quiet (rwl s, rww s) (l', w')"
  shows "rw_inv self (rw_put s t Run (l', w'))"
proof -
  have w: "waiting_on (rww s) t = None" using rw_invD(4) [OF inv, of t] t(2) by (simp add: waits_def)
  show ?thesis
    by (rule rw_inv_put [OF inv assms(4,5) t(1)])
       (use assms(6) t(2) w rw_invD(3) [OF inv] in \<open>simp_all add: quiet_def one_def waits_def in_cond_put_other fun_upd_idem\<close>)
qed

lemma frame_refl:
  assumes "self \<in> trset w t \<longrightarrow> holds l t \<or> tid l = - 2" "trset w' = trset w" "tid l' = tid l" "tmap l' = tmap l"
  shows "frame_rw self t (l, w) (l', w')"
  using assms by (simp add: frame_rw_def holds_def)

lemma trset_same [simp]:
  "trset (world_raise e w) = trset w" "trset (world_signal sg w) = trset w" "trset (waitOn_end t w) = trset w"
  "trset (set_wait t g w) = trset w" "trset (signal_writer self l w) = trset w" "trset (rw_signalImpl self l w) = trset w"
  "trset (rw_signalAllImpl self l w) = trset w" "trset (vl_push t g w) = trset w"
  "trset (set_thread_resource t g w) = (trset w)(t := insert g (trset w t))"
  "trset (snd (remove_thread_resource t g w)) = (trset w)(t := trset w t - {g})"
  by (auto simp: world_raise_def world_signal_def waitOn_end_def set_wait_def signal_writer_def rw_signalImpl_def
      rw_signalAllImpl_def vl_push_def set_thread_resource_def remove_thread_resource_def Let_def)

lemma vl_pop_trset: "vl_pop t g w = Some w' \<Longrightarrow> trset w' = trset w"
  by (auto simp: vl_pop_def split: option.splits)

lemma frame_grab:
  assumes "rw_core self l w" "tid l = - 1" "tmap l = []" "0 \<le> t" "grab_intern self t (l, w) = (l', w')"
  shows "frame_rw self t (l, w) (l', w')"
  using assms by (auto simp: frame_rw_def grab_intern_def mark_and_push_def holds_def)

lemma frame_mark:
  assumes "rw_core self l w" "tid l = - 1" "0 \<le> t" "mark_read_lock_intern self t (l, w) = (l', w')"
  shows "frame_rw self t (l, w) (l', w')"
proof -
  note m = core_mark [OF assms]
  have "trset w' t' = trset w t'" if "t' \<noteq> t" for t'
    using assms(4) that by (auto simp: mark_read_lock_intern_def set_initial_read_lock_intern_def Let_def split: option.splits)
  then show ?thesis using m(2,4) assms(2) by (auto simp: frame_rw_def holds_def)
qed

lemma frame_release_read:
  assumes "release_read_lock_intern self t (l, w) = Some (l', w')" "rw_core self l w" "map_of (tmap l) t = Some n"
    and "self \<in> trset w t \<longrightarrow> holds l t \<or> tid l = - 2"
  shows "frame_rw self t (l, w) (l', w')"
proof -
  have l': "map_of (tmap l') = (map_of (tmap l))(t := (if n = 1 then None else Some (n - 1)))" "tid l' = tid l"
    using core_release_read [OF assms(2,3)] assms(1) by auto
  have tr: "trset w' = (if n = 1 then (trset w)(t := trset w t - {self}) else trset w)"
    using assms(1,3) by (auto simp: release_read_lock_intern_def cleanup_read_lock_intern_def Let_def vl_pop_trset
        split: bind_splits if_splits)
  have "tid l = - 1" using core_nn [OF assms(2,3)] by simp
  then show ?thesis using l' tr by (auto simp: frame_rw_def holds_def)
qed

lemma frame_trans:
  assumes "frame_rw self t (l, w) (l1, w1)" "frame_rw self t (l1, w1) (l2, w2)"
  shows "frame_rw self t (l, w) (l2, w2)"
  using assms unfolding frame_rw_def by (auto; metis)

lemma quiet_trans: "quiet a b \<Longrightarrow> quiet b c \<Longrightarrow> quiet a c"
  by (auto simp: quiet_def split: prod.splits)

lemma grab_write_step:
  assumes inv: "rw_core self l w" and t: "0 \<le> t" "waiting_on w t = None"
    and tr: "self \<in> trset w t \<longrightarrow> holds l t \<or> tid l = - 2"
    and f: "f (l, w) = rw_loop self t (l, w)" "tid l \<noteq> t"
  obtains l' w' r where "asl_grab f self t (l, w) = Some (r, l', w')" "r \<noteq> Block"
      "rw_core self l' w'" "frame_rw self t (l, w) (l', w')" "quiet (l, w) (l', w')"
    | "asl_grab f self t (l, w) = Some (Block, l\<lparr>waiting := waiting l + 1\<rparr>, set_wait t self w)" "\<not> holds l t"
  using rw_loop_result [OF inv t]
proof cases
  case 1
  then show thesis using that(2) f by (simp add: asl_grab_def holds_def)
next
  case (2 e)
  then show thesis
    by (intro that(1) [of "Ret (- 1)" l "world_raise e w"]) (use inv tr f in \<open>simp_all add: asl_grab_def quiet_def frame_refl\<close>)
next
  case 3
  obtain l' w' where g: "grab_intern self t (l, w) = (l', w')" by fastforce
  show thesis
    by (rule that(1) [of "Ret 0" l' w'])
       (use 3 f g core_grab [OF inv 3(2,3) t(1) g] frame_grab [OF inv 3(2,3) t(1) g] in \<open>simp_all add: asl_grab_def\<close>)
qed

lemma block_step:
  assumes inv: "rw_inv self s" and t: "0 \<le> t" "pcs s t = Run" and pc: "pc = WaitWrite \<or> pc = WaitRead n"
    and nh: "\<not> holds (rwl s) t"
    and l': "l' = (if pc = WaitWrite then (rwl s)\<lparr>waiting := waiting (rwl s) + 1\<rparr> else (rwl s)\<lparr>readRequests := readRequests (rwl s) + 1\<rparr>)"
  shows "rw_inv self (rw_put s t pc (l', set_wait t self (rww s)))"
proof -
  have l: "rw_core self l' (set_wait t self (rww s))" using rw_invD(1) [OF inv] l' by simp
  have fr: "frame_rw self t (rwl s, rww s) (l', set_wait t self (rww s))"
    by (rule frame_refl) (use rw_invD(6) [OF inv] l' in simp_all)
  have "holds l' t = holds (rwl s) t" using l' by (simp add: holds_def)
  then show ?thesis
    by (intro rw_inv_put [OF inv l fr t(1)])
       (use pc t(2) l' nh rw_invD(3) [OF inv] in \<open>auto simp: one_def waits_def in_cond_put_other\<close>)
qed

lemma run_write:
  assumes inv: "rw_inv self s" and t: "0 \<le> t" "pcs s t = Run"
    and f: "f (rwl s, rww s) = rw_loop self t (rwl s, rww s)" "tid (rwl s) \<noteq> t"
  shows "\<exists>r p. asl_grab f self t (rwl s, rww s) = Some (r, p) \<and> rw_inv self (rw_put s t (block_pc WaitWrite r) p)"
proof -
  note d = rw_invD [OF inv]
  have wo: "waiting_on (rww s) t = None" using d(4) [of t] t(2) by (simp add: waits_def)
  show ?thesis
    using grab_write_step [where f = f, OF d(1) t(1) wo d(6) f]
  proof cases
    case (1 l' w' r)
    then show ?thesis using rw_inv_quiet [OF inv t 1(3-5)] by (simp add: block_pc_def)
  next
    case 2
    then show ?thesis using block_step [OF inv t, of WaitWrite] by (simp add: block_pc_def)
  qed
qed

lemma grab_read_result:
  assumes inv: "rw_core self l w" and t: "0 \<le> t" "waiting_on w t = None" "tid l \<noteq> t"
    and tr: "self \<in> trset w t \<longrightarrow> holds l t \<or> tid l = - 2"
  obtains l' w' r where "grab_read_lock_intern self t (l, w) = Some (r, l', w')" "r \<noteq> Block"
      "rw_core self l' w'" "frame_rw self t (l, w) (l', w')" "quiet (l, w) (l', w')" "r = Ret 0 \<longrightarrow> holds l' t \<and> tid l' = - 1"
    | "grab_read_lock_intern self t (l, w) = Some (Block, l\<lparr>readRequests := readRequests l + 1\<rparr>, set_wait t self w)" "\<not> holds l t"
proof -
  note ret = that(1)
  have err: thesis if "grab_read_lock_intern self t (l, w) = Some (Ret (- 1), l, world_raise e w)" for e
    by (rule ret [OF that]) (use inv tr in \<open>simp_all add: quiet_def frame_refl\<close>)
  show thesis
    using tid_cases [OF inv]
  proof (elim disjE)
    assume ge: "0 \<le> tid l"
    have nh: "\<not> holds l t" using inv ge t(3) by (auto simp: holds_def rw_core_def)
    show thesis
      using read_wait_result [OF inv t(1,2) ge]
    proof cases
      case 1
      then show thesis using that(2) nh ge by (simp add: grab_read_lock_intern_def)
    next
      case (2 e)
      then show thesis using err [of e] ge by (simp add: grab_read_lock_intern_def)
    qed
  next
    assume "tid l = - 2"
    then show thesis using err [of "''LOCK-ERROR''"] by (simp add: grab_read_lock_intern_def)
  next
    assume u: "tid l = - 1"
    obtain l' w' where m: "mark_read_lock_intern self t (l, w) = (l', w')" by fastforce
    note c = core_mark [OF inv u t(1) m]
    have "holds l' t" using c(2) by (simp add: holds_def)
    then show thesis
      using that(1) [of "Ret 0" l' w'] c frame_mark [OF inv u t(1) m] u m by (simp add: grab_read_lock_intern_def)
  qed
qed

lemma regrab_result:
  assumes "rw_core self l w" "0 \<le> t" "waiting_on w t = None" "tid l \<noteq> t"
    and "self \<in> trset w t \<longrightarrow> holds l t \<or> tid l = - 2"
  shows "\<exists>r m l' w'. regrab_reads self t n (l, w) = Some (r, m, l', w')
    \<and> (if r = Block then l' = l\<lparr>readRequests := readRequests l + 1\<rparr> \<and> w' = set_wait t self w \<and> \<not> holds l t
       else rw_core self l' w' \<and> frame_rw self t (l, w) (l', w') \<and> quiet (l, w) (l', w'))"
  using assms
proof (induction n arbitrary: l w)
  case 0
  then show ?case by (simp add: quiet_def frame_refl)
next
  case (Suc n)
  from grab_read_result [OF Suc.prems] show ?case
  proof cases
    case 2
    then show ?thesis by simp
  next
    case (1 l1 w1 r)
    show ?thesis
    proof (cases "r = Ret 0")
      case False
      then show ?thesis using 1 by simp
    next
      case True
      have h: "holds l1 t" "tid l1 = - 1" using 1(6) True by simp_all
      have wo: "waiting_on w1 t = None" using 1(5) Suc.prems(3) by (simp add: quiet_def)
      obtain r2 m l2 w2 where x: "regrab_reads self t n (l1, w1) = Some (r2, m, l2, w2)"
        "if r2 = Block then l2 = l1\<lparr>readRequests := readRequests l1 + 1\<rparr> \<and> w2 = set_wait t self w1 \<and> \<not> holds l1 t
         else rw_core self l2 w2 \<and> frame_rw self t (l1, w1) (l2, w2) \<and> quiet (l1, w1) (l2, w2)"
        using Suc.IH [OF 1(3) Suc.prems(2) wo] h Suc.prems(2) by auto
      have nb: "r2 \<noteq> Block" using x(2) h(1) by auto
      have "rw_core self l2 w2" "frame_rw self t (l, w) (l2, w2)" "quiet (l, w) (l2, w2)"
        using x(2) nb frame_trans [OF 1(4)] quiet_trans [OF 1(5)] by simp_all
      then show ?thesis using x(1) nb 1(1) True by simp
    qed
  qed
qed

lemma run_reads:
  assumes inv: "rw_inv self s" and t: "0 \<le> t" "pcs s t = Run" "tid (rwl s) \<noteq> t"
  shows "\<exists>r m p. regrab_reads self t n (rwl s, rww s) = Some (r, m, p) \<and> rw_inv self (rw_put s t (block_pc (WaitRead m) r) p)"
proof -
  note d = rw_invD [OF inv]
  have wo: "waiting_on (rww s) t = None" using d(4) [of t] t(2) by (simp add: waits_def)
  obtain r m l' w' where x: "regrab_reads self t n (rwl s, rww s) = Some (r, m, l', w')"
    "if r = Block then l' = (rwl s)\<lparr>readRequests := readRequests (rwl s) + 1\<rparr> \<and> w' = set_wait t self (rww s) \<and> \<not> holds (rwl s) t
       else rw_core self l' w' \<and> frame_rw self t (rwl s, rww s) (l', w') \<and> quiet (rwl s, rww s) (l', w')"
    using regrab_result [OF d(1) t(1) wo t(3) d(6)] by blast
  have "rw_inv self (rw_put s t (block_pc (WaitRead m) r) (l', w'))"
  proof (cases "r = Block")
    case True
    then show ?thesis using x(2) block_step [OF inv t(1,2), of "WaitRead m" m l'] by (simp add: block_pc_def)
  next
    case False
    then show ?thesis using x(2) rw_inv_quiet [OF inv t(1,2)] by (simp add: block_pc_def)
  qed
  then show ?thesis using x(1) by blast
qed

lemma put_put [simp]: "rw_put (rw_put s t pc p) t pc' p' = rw_put s t pc' p'"
  by (simp add: rw_put_def split: prod.splits)

lemma put_sel [simp]:
  "rwl (rw_put s t pc (l, w)) = l" "rww (rw_put s t pc (l, w)) = w" "pcs (rw_put s t pc (l, w)) = (pcs s)(t := pc)"
  by (simp_all add: rw_put_def)

text \<open>A thread stops waiting before it goes on.\<close>

lemma unwait:
  assumes inv: "rw_inv self s" and t: "0 \<le> t" "pcs s t = WaitWrite \<or> (\<exists>n. pcs s t = WaitRead n)"
    and l': "l' = (if pcs s t = WaitWrite then (rwl s)\<lparr>waiting := waiting (rwl s) - 1\<rparr> else (rwl s)\<lparr>readRequests := readRequests (rwl s) - 1\<rparr>)"
  shows "rw_inv self (rw_put s t Run (l', waitOn_end t (rww s)))" "tid l' \<noteq> t" "map_of (tmap l') t = None"
proof -
  note d = rw_invD [OF inv]
  have nr: "pcs s t \<noteq> Run" using t(2) by auto
  have nh: "\<not> holds (rwl s) t" using d(5) [OF nr] .
  have eq: "tid l' = tid (rwl s)" "tmap l' = tmap (rwl s)" using l' by simp_all
  then show "tid l' \<noteq> t" "map_of (tmap l') t = None" using nh t(1) by (auto simp: holds_def)
  have core: "rw_core self l' (waitOn_end t (rww s))" using d(1) l' by simp
  have fr: "frame_rw self t (rwl s, rww s) (l', waitOn_end t (rww s))" by (rule frame_refl) (use d(6) eq in simp_all)
  show "rw_inv self (rw_put s t Run (l', waitOn_end t (rww s)))"
    by (rule rw_inv_put [OF inv core fr t(1)])
       (use t(2) l' d(3) in \<open>auto simp: one_def waits_def in_cond_put_other\<close>)
qed

lemma resume_read_eq:
  assumes "map_of (tmap l) t = None"
  shows "grab_read_resume self 0 t (l, w) = grab_read_lock_intern self t (l\<lparr>readRequests := readRequests l - 1\<rparr>, waitOn_end t w)"
  using assms initial_is_mark [of "l\<lparr>readRequests := readRequests l - 1\<rparr>" t self "waitOn_end t w"]
  by (simp add: grab_read_resume_def grab_read_lock_intern_def Let_def)

lemma rw_step_wake:
  assumes inv: "rw_inv self s" and t: "0 \<le> t" "waits (pcs s t)"
  shows "\<exists>s'. rw_step self s t (WakeOp rc) = Some s' \<and> rw_inv self s'"
proof (cases "pcs s t = WaitWrite")
  case True
  define l' where "l' = (rwl s)\<lparr>waiting := waiting (rwl s) - 1\<rparr>"
  let ?w = "waitOn_end t (rww s)"
  let ?s = "rw_put s t Run (l', ?w)"
  have u: "rw_inv self ?s" "tid l' \<noteq> t" using unwait [OF inv t(1), of l'] True by (simp_all add: l'_def)
  show ?thesis
  proof (cases "rc = 0")
    case False
    then show ?thesis using u(1) True by (simp add: rw_resume_def asl_grab_def block_pc_def Let_def l'_def)
  next
    case rc: True
    have "rw_resume self rc t (rwl s, rww s) = rw_loop self t (l', ?w)" using rc by (simp add: rw_resume_def Let_def l'_def)
    then have "asl_grab (rw_resume self rc t) self t (rwl s, rww s) = asl_grab (rw_loop self t) self t (l', ?w)"
      by (simp add: asl_grab_def)
    moreover obtain r p where "asl_grab (rw_loop self t) self t (l', ?w) = Some (r, p)" "rw_inv self (rw_put s t (block_pc WaitWrite r) p)"
      using run_write [OF u(1) t(1), of "rw_loop self t"] u(2) by auto
    ultimately show ?thesis using True by simp
  qed
next
  case False
  then obtain n where n: "pcs s t = WaitRead n" using t(2) by (auto simp: waits_def split: rw_pc.splits)
  define l' where "l' = (rwl s)\<lparr>readRequests := readRequests (rwl s) - 1\<rparr>"
  let ?w = "waitOn_end t (rww s)"
  let ?s = "rw_put s t Run (l', ?w)"
  have u: "rw_inv self ?s" "tid l' \<noteq> t" "map_of (tmap (rwl s)) t = None"
    using unwait [OF inv t(1), of l'] n by (simp_all add: l'_def)
  show ?thesis
  proof (cases "rc = 0")
    case False
    then show ?thesis using u(1) n by (simp add: grab_read_resume_def block_pc_def Let_def l'_def)
  next
    case rc: True
    obtain r m p where x: "regrab_reads self t (Suc n) (l', ?w) = Some (r, m, p)" "rw_inv self (rw_put s t (block_pc (WaitRead m) r) p)"
      using run_reads [OF u(1) t(1), of "Suc n"] u(2) by auto
    have "rw_step self s t (WakeOp rc) = map_option (\<lambda>(r, m, p). rw_put s t (block_pc (WaitRead m) r) p) (regrab_reads self t (Suc n) (l', ?w))"
      using n rc resume_read_eq [OF u(3), of self "rww s"]
      by (cases "grab_read_lock_intern self t (l', ?w)") (auto simp: l'_def)
    then show ?thesis using x by simp
  qed
qed

lemma rw_step_read_lock:
  assumes inv: "rw_inv self s" and t: "0 \<le> t" "pcs s t = Run"
  shows "\<exists>s'. rw_step self s t ReadLock = Some s' \<and> rw_inv self s'"
proof (cases "tid (rwl s) = t")
  case True
  have "rw_inv self (rw_put s t Run (rwl s, world_raise ''LOCK-ERROR'' (rww s)))"
    by (rule rw_inv_quiet [OF inv t]) (use rw_invD(1,6) [OF inv] in \<open>simp_all add: quiet_def frame_refl\<close>)
  then show ?thesis using True by (simp add: readLock_def block_pc_def)
next
  case False
  obtain r m p where x: "regrab_reads self t (Suc 0) (rwl s, rww s) = Some (r, m, p)" "rw_inv self (rw_put s t (block_pc (WaitRead m) r) p)"
    using run_reads [OF inv t False, of "Suc 0"] by blast
  then have "grab_read_lock_intern self t (rwl s, rww s) = Some (r, p)" "m = 0"
    by (auto split: bind_splits if_splits)
  then show ?thesis using x False by (simp add: readLock_def)
qed

lemma rw_step_write_lock:
  assumes inv: "rw_inv self s" and t: "0 \<le> t" "pcs s t = Run"
  shows "\<exists>s'. rw_step self s t WriteLock = Some s' \<and> rw_inv self s'"
proof (cases "tid (rwl s) = t")
  case True
  have "rw_inv self (rw_put s t Run (rwl s, world_raise ''LOCK-ERROR'' (rww s)))"
    by (rule rw_inv_quiet [OF inv t]) (use rw_invD(1,6) [OF inv] in \<open>simp_all add: quiet_def frame_refl\<close>)
  then show ?thesis using True by (simp add: rw_grabImpl_def asl_grab_def block_pc_def)
next
  case False
  then show ?thesis using run_write [OF inv t, of "rw_grabImpl self t"] by (auto simp: rw_grabImpl_def)
qed

lemma rw_step_try:
  assumes inv: "rw_inv self s" and t: "0 \<le> t" "pcs s t = Run"
  shows "\<exists>s'. rw_step self s t TryWriteLock = Some s' \<and> rw_inv self s'"
    "\<exists>s'. rw_step self s t TryReadLock = Some s' \<and> rw_inv self s'"
proof -
  note d = rw_invD [OF inv]
  have same: "rw_inv self (rw_put s t Run (rwl s, rww s))"
    by (rule rw_inv_quiet [OF inv t]) (use d(1,6) in \<open>simp_all add: quiet_def frame_refl\<close>)
  show "\<exists>s'. rw_step self s t TryWriteLock = Some s' \<and> rw_inv self s'"
  proof (cases "tid (rwl s) = - 1 \<and> tmap (rwl s) = []")
    case True
    obtain l' w' where g: "grab_intern self t (rwl s, rww s) = (l', w')" by fastforce
    have "rw_inv self (rw_put s t Run (l', w'))"
      using rw_inv_quiet [OF inv t] core_grab [OF d(1) _ _ t(1) g] frame_grab [OF d(1) _ _ t(1) g] True by simp
    then show ?thesis using True readers_iff [OF d(1)] g by (simp add: rw_tryGrabImpl_def asl_grab_def)
  next
    case False
    then show ?thesis using same readers_iff [OF d(1)] by (auto simp: rw_tryGrabImpl_def asl_grab_def)
  qed
  show "\<exists>s'. rw_step self s t TryReadLock = Some s' \<and> rw_inv self s'"
  proof (cases "tid (rwl s) = - 1")
    case True
    obtain l' w' where m: "mark_read_lock_intern self t (rwl s, rww s) = (l', w')" by fastforce
    have "rw_inv self (rw_put s t Run (l', w'))"
      using rw_inv_quiet [OF inv t] core_mark [OF d(1) True t(1) m] frame_mark [OF d(1) True t(1) m] by simp
    then show ?thesis using True m by (simp add: tryReadLock_def)
  next
    case False
    then show ?thesis using same by (simp add: tryReadLock_def)
  qed
qed

lemma frame_release:
  assumes "release_intern (rw_signalImpl self) self t (l, w) = Some (l', w')" "rw_core self l w" "tid l = t" "0 \<le> t"
  shows "rw_core self l' w'" "quiet (l, w) (l', w')" "frame_rw self t (l, w) (l', w')" "\<not> holds l' t"
proof -
  let ?w = "snd (remove_thread_resource t self w)"
  have r: "release_and_signal (rw_signalImpl self) self (l, ?w) = Some (l', w')" using assms(1) by (simp add: release_intern_def)
  have c: "rw_core self l ?w" "0 \<le> tid l" using assms by simp_all
  have x: "rw_core self l' w'" "quiet (l, ?w) (l', w')" "tid l' = - 1" "tmap l' = []" using core_release [OF c] r by auto
  then show "rw_core self l' w'" "quiet (l, w) (l', w')" "\<not> holds l' t" using assms(4) by (auto simp: quiet_def holds_def)
  have tm: "tmap l = []" using c by (simp add: rw_core_def)
  have "trset w' = (trset w)(t := trset w t - {self})"
    using r by (auto simp: release_and_signal_def Let_def vl_pop_trset dest!: bind_eq_Some_conv [THEN iffD1])
  then show "frame_rw self t (l, w) (l', w')" using x(3,4) tm assms(3,4) by (auto simp: frame_rw_def holds_def)
qed

lemma release_exists:
  assumes "rw_core self l w" "tid l = t" "0 \<le> t"
  obtains l' w' where "release_intern (rw_signalImpl self) self t (l, w) = Some (l', w')"
proof -
  have c: "rw_core self l (snd (remove_thread_resource t self w))" "0 \<le> tid l" using assms by simp_all
  show thesis using core_release [OF c] that by (auto simp: release_intern_def)
qed

lemma rw_step_unlock:
  assumes inv: "rw_inv self s" and t: "0 \<le> t" "pcs s t = Run"
  shows "\<exists>s'. rw_step self s t WriteUnlock = Some s' \<and> rw_inv self s'"
    "\<exists>s'. rw_step self s t ReadUnlock = Some s' \<and> rw_inv self s'"
proof -
  note d = rw_invD [OF inv]
  have err: "rw_inv self (rw_put s t Run (rwl s, world_raise ''LOCK-ERROR'' (rww s)))"
    by (rule rw_inv_quiet [OF inv t]) (use d(1,6) in \<open>simp_all add: quiet_def frame_refl\<close>)
  show "\<exists>s'. rw_step self s t WriteUnlock = Some s' \<and> rw_inv self s'"
  proof (cases "tid (rwl s) = t")
    case True
    obtain l' w' where r: "release_intern (rw_signalImpl self) self t (rwl s, rww s) = Some (l', w')"
      using release_exists [OF d(1) True t(1)] .
    have "rw_inv self (rw_put s t Run (l', w'))"
      using rw_inv_quiet [OF inv t] frame_release [OF r d(1) True t(1)] by simp
    then show ?thesis using True r t(1) by (simp add: asl_release_x_def rw_releaseImpl_x_def)
  next
    case False
    then show ?thesis using err by (auto simp: asl_release_x_def rw_releaseImpl_x_def)
  qed
  show "\<exists>s'. rw_step self s t ReadUnlock = Some s' \<and> rw_inv self s'"
  proof (cases "map_of (tmap (rwl s)) t")
    case None
    then show ?thesis using err by (simp add: readUnlock_def)
  next
    case (Some n)
    have "tid (rwl s) = - 1" using core_nn [OF d(1) Some] by simp
    moreover obtain l' w' where r: "release_read_lock_intern self t (rwl s, rww s) = Some (l', w')" "rw_core self l' w'"
      "quiet (rwl s, rww s) (l', w')" using core_release_read [OF d(1) Some] by blast
    moreover have "rw_inv self (rw_put s t Run (l', w'))"
      by (rule rw_inv_quiet [OF inv t r(2) frame_release_read [OF r(1) d(1) Some d(6)] r(3)])
    ultimately show ?thesis using t(1) Some by (auto simp: readUnlock_def)
  qed
qed

lemma release_reads_ok:
  assumes "rw_core self l w" "map_of (tmap l) t = Some (int (Suc n))" "self \<in> trset w t \<longrightarrow> holds l t \<or> tid l = - 2"
  shows "\<exists>l' w'. release_reads self t (Suc n) (l, w) = Some (l', w') \<and> rw_core self l' w' \<and> quiet (l, w) (l', w')
    \<and> frame_rw self t (l, w) (l', w') \<and> \<not> holds l' t"
  using assms
proof (induction n arbitrary: l w)
  case 0
  obtain l' w' where r: "release_read_lock_intern self t (l, w) = Some (l', w')" "rw_core self l' w'" "quiet (l, w) (l', w')"
    "map_of (tmap l') = (map_of (tmap l))(t := None)" "tid l' = tid l"
    using core_release_read [OF 0(1,2)] by auto
  have "\<not> holds l' t" using core_nn [OF 0(1,2)] r(4,5) by (simp add: holds_def)
  then show ?case using r frame_release_read [OF r(1) 0] by simp
next
  case (Suc n)
  obtain l1 w1 where r: "release_read_lock_intern self t (l, w) = Some (l1, w1)" "rw_core self l1 w1" "quiet (l, w) (l1, w1)"
    "map_of (tmap l1) = (map_of (tmap l))(t := Some (int (Suc n)))"
    using core_release_read [OF Suc.prems(1,2)] by auto
  have f: "frame_rw self t (l, w) (l1, w1)" by (rule frame_release_read [OF r(1) Suc.prems])
  obtain l' w' where x: "release_reads self t (Suc n) (l1, w1) = Some (l', w')" "rw_core self l' w'" "quiet (l1, w1) (l', w')"
    "frame_rw self t (l1, w1) (l', w')" "\<not> holds l' t"
    using Suc.IH [OF r(2)] r(4) by (auto simp: holds_def)
  then show ?case using r(1) frame_trans [OF f x(4)] quiet_trans [OF r(3) x(3)] by simp
qed

lemma enter_step:
  assumes inv: "rw_inv self s" and t: "0 \<le> t" "pcs s t = Run"
    and x: "rw_core self l' w'" "quiet (cond_enter c (rwl s), rww s) (l', w')" "frame_rw self t (cond_enter c (rwl s), rww s) (l', w')"
      "\<not> holds l' t"
  shows "rw_inv self (rw_put s t (CondWaiting c rd) (l', w'))"
proof -
  note d = rw_invD [OF inv]
  have wo: "waiting_on (rww s) t = None" using d(4) [of t] t(2) by (simp add: waits_def)
  have fr: "frame_rw self t (rwl s, rww s) (l', w')" using x(3) by (simp add: frame_rw_def holds_def cond_enter_def)
  have "cond_counts (cmap l') ((in_cond s)(c := insert t (in_cond s c)))"
    using cond_counts_enter [OF d(3), of t c] x(2) t(2) by (simp add: quiet_def in_cond_def)
  then show ?thesis
    by (intro rw_inv_put [OF inv x(1) fr t(1)])
       (use x t(2) wo in \<open>auto simp: quiet_def one_def waits_def cond_enter_def in_cond_put_enter fun_upd_idem\<close>)
qed

lemma rw_step_cond_wait:
  assumes inv: "rw_inv self s" and t: "0 \<le> t" "pcs s t = Run"
  shows "\<exists>s'. rw_step self s t (CondWaitOp c) = Some s' \<and> rw_inv self s'"
proof -
  note d = rw_invD [OF inv]
  let ?l = "cond_enter c (rwl s)"
  have core: "rw_core self ?l (rww s)" "tid ?l = tid (rwl s)" "tmap ?l = tmap (rwl s)" using d(1) by (simp_all add: cond_enter_def)
  have err: "rw_inv self (rw_put s t Run (rwl s, world_raise ''LOCK-ERROR'' (rww s)))"
    by (rule rw_inv_quiet [OF inv t]) (use d(1,6) in \<open>simp_all add: quiet_def frame_refl\<close>)
  consider "tid (rwl s) = t" | n where "tid (rwl s) \<noteq> t" "map_of (tmap (rwl s)) t = Some n" | "tid (rwl s) \<noteq> t" "map_of (tmap (rwl s)) t = None"
    by (cases "map_of (tmap (rwl s)) t") auto
  then show ?thesis
  proof cases
    case 1
    have tl: "tid ?l = t" using 1 core(2) by simp
    obtain l' w' where r: "release_intern (rw_signalImpl self) self t (?l, rww s) = Some (l', w')"
      using release_exists [OF core(1) tl t(1)] .
    then show ?thesis using enter_step [OF inv t] frame_release [OF r core(1) tl t(1)] 1
      by (simp add: rw_externWait_def block_pc_def)
  next
    case (2 n)
    have nn: "0 < n" "tid (rwl s) = - 1" using core_nn [OF d(1) 2(2)] by simp_all
    then obtain k where k: "nat n = Suc k" by (cases "nat n") auto
    have mk: "map_of (tmap ?l) t = Some (int (Suc k))" using 2(2) core(3) k nn(1) by simp
    have h: "self \<in> trset (rww s) t \<longrightarrow> holds ?l t \<or> tid ?l = - 2" using mk by (simp add: holds_def)
    obtain l' w' where r: "release_reads self t (Suc k) (?l, rww s) = Some (l', w')" "rw_core self l' w'" "quiet (?l, rww s) (l', w')"
      "frame_rw self t (?l, rww s) (l', w')" "\<not> holds l' t"
      using release_reads_ok [OF core(1) mk h] by blast
    then show ?thesis using enter_step [OF inv t r(2-5)] 2 nn k by (simp add: rw_externWait_def block_pc_def del: release_reads.simps)
  next
    case 3
    then show ?thesis using err by (auto simp: rw_externWait_def block_pc_def)
  qed
qed

lemma rw_step_cond_wake:
  assumes inv: "rw_inv self s" and t: "0 \<le> t" "pcs s t = CondWaiting c rd"
  shows "\<exists>s'. rw_step self s t CondWakeOp = Some s' \<and> rw_inv self s'"
proof -
  note d = rw_invD [OF inv]
  have wo: "waiting_on (rww s) t = None" using d(4) [of t] t(2) by (simp add: waits_def)
  have nh: "\<not> holds (rwl s) t" using d(5) [of t] t(2) by simp
  have "t \<in> in_cond s c" using t(2) by (simp add: in_cond_def)
  then obtain m where m: "cond_leave c (rwl s) = Some ((rwl s)\<lparr>cmap := m\<rparr>)" "cond_counts m ((in_cond s)(c := in_cond s c - {t}))"
    using cond_counts_leave [OF d(3)] by blast
  let ?l = "(rwl s)\<lparr>cmap := m\<rparr>"
  let ?s = "rw_put s t Run (?l, rww s)"
  have core: "rw_core self ?l (rww s)" using d(1) by simp
  have fr: "frame_rw self t (rwl s, rww s) (?l, rww s)" by (rule frame_refl) (use d(6) in simp_all)
  have i: "rw_inv self ?s"
    by (rule rw_inv_put [OF inv core fr t(1)])
       (use t(2) m(2) wo in \<open>simp_all add: one_def waits_def in_cond_put_leave fun_upd_idem\<close>)
  have nt: "tid ?l \<noteq> t" using nh t(1) by (auto simp: holds_def)
  show ?thesis
  proof (cases rd)
    case None
    obtain r p where "asl_grab (rw_grabImpl self t) self t (?l, rww s) = Some (r, p)" "rw_inv self (rw_put s t (block_pc WaitWrite r) p)"
      using run_write [OF i t(1), of "rw_grabImpl self t"] nt by (auto simp: rw_grabImpl_def)
    then show ?thesis using t(2) m(1) None by (simp add: rw_externWait_wake_def)
  next
    case (Some n)
    obtain r k p where "regrab_reads self t n (?l, rww s) = Some (r, k, p)" "rw_inv self (rw_put s t (block_pc (WaitRead k) r) p)"
      using run_reads [OF i t(1), of n] nt by auto
    then show ?thesis using t(2) m(1) Some by (simp add: rw_externWait_wake_def)
  qed
qed

lemma fold_broadcast [simp]:
  "locked (fold (\<lambda>c. world_signal (Broadcast (f c))) cs w) g t = locked w g t"
  "waiting_on (fold (\<lambda>c. world_signal (Broadcast (f c))) cs w) = waiting_on w"
  "trset (fold (\<lambda>c. world_signal (Broadcast (f c))) cs w) = trset w"
  by (induction cs arbitrary: w) simp_all

lemma pop_all_ok:
  "distinct vs \<Longrightarrow> \<forall>v \<in> set vs. 0 < locked w self v \<Longrightarrow>
    \<exists>w'. pop_all self vs w = Some w' \<and> (\<forall>t. locked w' self t = locked w self t - (if t \<in> set vs then 1 else 0))
      \<and> waiting_on w' = waiting_on w \<and> trset w' = trset w"
proof (induction vs arbitrary: w)
  case (Cons v vs)
  obtain w1 where p: "vl_pop v self w = Some w1" using vl_pop_ok Cons.prems(2) by (metis list.set_intros(1))
  note f = vl_pop_frame [OF p] vl_pop_trset [OF p]
  have "\<forall>v \<in> set vs. 0 < locked w1 self v" using Cons.prems by (auto simp: f)
  then obtain w' where "pop_all self vs w1 = Some w'" "\<forall>t. locked w' self t = locked w1 self t - (if t \<in> set vs then 1 else 0)"
      "waiting_on w' = waiting_on w1" "trset w' = trset w1"
    using Cons.IH Cons.prems(1) by (metis distinct.simps(2))
  then show ?case using p f Cons.prems(1) by auto
qed simp

lemma vmap_vals:
  assumes "rw_core self l w"
  shows "map snd (vmap l) = map fst (vmap l)" "t \<in> set (map snd (vmap l)) \<longleftrightarrow> map_of (tmap l) t \<noteq> None"
proof -
  have c: "distinct (map fst (vmap l))" "\<And>t. map_of (vmap l) t = (if map_of (tmap l) t = None then None else Some t)"
    using assms by (simp_all add: rw_core_def)
  show e: "map snd (vmap l) = map fst (vmap l)"
  proof (rule map_cong [OF refl])
    fix p
    assume "p \<in> set (vmap l)"
    then have "map_of (vmap l) (fst p) = Some (snd p)" using c(1) by simp
    then show "snd p = fst p" using c(2) [of "fst p"] by (simp del: map_of_eq_Some_iff split: if_splits)
  qed
  have "t \<in> set (map fst (vmap l)) \<longleftrightarrow> map_of (vmap l) t \<noteq> None" by (simp add: map_of_eq_None_iff)
  then show "t \<in> set (map snd (vmap l)) \<longleftrightarrow> map_of (tmap l) t \<noteq> None" using c(2) [of t] unfolding e by auto
qed

lemma destructorImpl_ok:
  assumes "rw_core self l w"
  shows "\<exists>w'. rw_destructorImpl self conds (l, w) = Some (l\<lparr>num_readers := 0, vmap := [], tmap := []\<rparr>, w')
    \<and> (\<forall>t. locked w' self t = (if 0 \<le> tid l \<and> t = tid l then 1 else 0)) \<and> waiting_on w' = waiting_on w \<and> trset w' = trset w"
proof -
  define cs where "cs = filter (\<lambda>c. cmap l c \<noteq> None) conds"
  define w1 where "w1 = (if cs = [] then w else fold (\<lambda>c. world_signal (Broadcast (UserCond c))) cs (world_raise ''RWLOCK-ERROR'' w))"
  define w2 where "w2 = (if num_readers l \<noteq> 0 then world_signal (Broadcast (AslCond self)) w1 else w1)"
  have w2: "locked w2 self t = locked w self t" "waiting_on w2 = waiting_on w" "trset w2 = trset w" for t
    by (simp_all add: w2_def w1_def)
  note vv = vmap_vals [OF assms]
  have "distinct (map snd (vmap l))" unfolding vv(1) using assms by (simp add: rw_core_def)
  moreover have "\<forall>v \<in> set (map snd (vmap l)). 0 < locked w2 self v" using vv(2) assms by (auto simp: w2 rw_core_def)
  ultimately obtain w' where p: "pop_all self (map snd (vmap l)) w2 = Some w'"
    "\<forall>t. locked w' self t = locked w2 self t - (if t \<in> set (map snd (vmap l)) then 1 else 0)"
    "waiting_on w' = waiting_on w2" "trset w' = trset w2"
    using pop_all_ok by metis
  have "rw_destructorImpl self conds (l, w) = Some (l\<lparr>num_readers := 0, vmap := [], tmap := []\<rparr>, w')"
    unfolding rw_destructorImpl_def Let_def prod.case cs_def [symmetric] w1_def [symmetric] w2_def [symmetric]
    using p(1) by simp
  moreover have "locked w' self t = (if 0 \<le> tid l \<and> t = tid l then 1 else 0)" for t
  proof -
    have lk: "locked w self t = (if 0 \<le> tid l \<and> t = tid l \<or> map_of (tmap l) t \<noteq> None then 1 else 0)"
      using assms unfolding rw_core_def by blast
    have q: "locked w' self t = locked w self t - (if map_of (tmap l) t \<noteq> None then 1 else 0)" using p(2) vv(2) [of t] w2(1) by simp
    show ?thesis
    proof (cases "map_of (tmap l) t")
      case None
      then show ?thesis using lk q by simp
    next
      case (Some n)
      have "tid l = - 1" using core_nn [OF assms Some] by simp
      then show ?thesis using lk q Some by (simp del: map_of_eq_Some_iff)
    qed
  qed
  ultimately show ?thesis using p(3,4) w2 by auto
qed

lemma rw_step_delete:
  assumes inv: "rw_inv self s" and t: "0 \<le> t" "pcs s t = Run"
  shows "\<exists>s'. rw_step self s t (DeleteOp conds) = Some s' \<and> rw_inv self s'"
proof -
  note d = rw_invD [OF inv]
  define l1 where "l1 = (rwl s)\<lparr>num_readers := 0, vmap := [], tmap := []\<rparr>"
  obtain w1 where x: "rw_destructorImpl self conds (rwl s, rww s) = Some (l1, w1)"
    "\<forall>t. locked w1 self t = (if 0 \<le> tid (rwl s) \<and> t = tid (rwl s) then 1 else 0)" "waiting_on w1 = waiting_on (rww s)" "trset w1 = trset (rww s)"
    using destructorImpl_ok [OF d(1)] l1_def by blast
  have go: "rw_inv self (rw_put s t Run (l1\<lparr>tid := - 2\<rparr>, w2))"
    if "\<forall>t. locked w2 self t = 0" "waiting_on w2 = waiting_on (rww s)" "\<forall>t'. t' \<noteq> t \<longrightarrow> trset w2 t' = trset (rww s) t'" for w2
    by (rule rw_inv_quiet [OF inv t]) (use that in \<open>simp_all add: rw_core_def l1_def quiet_def frame_rw_def holds_def\<close>)
  show ?thesis
  proof (cases "0 \<le> tid (rwl s)")
    case False
    then show ?thesis using x go [of w1] by (simp add: asl_destructor_def l1_def)
  next
    case True
    then have v: "vl l1 = Some (tid l1)" "tid l1 = tid (rwl s)" using d(1) by (simp_all add: rw_core_def l1_def)
    have "0 < locked w1 self (tid (rwl s))" using x(2) True by simp
    then obtain w2 where p: "vl_pop (tid (rwl s)) self w1 = Some w2" using vl_pop_ok by blast
    define w3 where "w3 = rw_signalAllImpl self l1 (if t = tid l1 then snd (remove_thread_resource t self (world_raise ''LOCK-ERROR'' w2))
        else world_raise ''LOCK-ERROR'' w2)"
    have "asl_destructor (rw_destructorImpl self conds) (rw_signalAllImpl self) self t (rwl s, rww s) = Some (l1\<lparr>tid := - 2\<rparr>, w3)"
      using x(1) v p True by (simp add: asl_destructor_def w3_def)
    moreover have "\<forall>t. locked w3 self t = 0" "waiting_on w3 = waiting_on (rww s)" "\<forall>t'. t' \<noteq> t \<longrightarrow> trset w3 t' = trset (rww s) t'"
      using x(2-4) True by (simp_all add: w3_def vl_pop_frame [OF p] vl_pop_trset [OF p])
    ultimately show ?thesis using go by simp
  qed
qed

lemma rw_step_cleanup:
  assumes inv: "rw_inv self s" and t: "0 \<le> t" "pcs s t = Run" "self \<in> trset (rww s) t"
  shows "\<exists>s'. rw_step self s t CleanupOp = Some s' \<and> rw_inv self s'"
proof -
  note d = rw_invD [OF inv]
  let ?w = "snd (remove_thread_resource t self (rww s))"
  have core: "rw_core self (rwl s) ?w" using d(1) by simp
  have h: "holds (rwl s) t \<or> tid (rwl s) = - 2" using d(6) [of t] t(3) by simp
  consider "tid (rwl s) = - 2" | n where "map_of (tmap (rwl s)) t = Some n" | "tid (rwl s) = t" using h by (auto simp: holds_def)
  then show ?thesis
  proof cases
    case 1
    then have "num_readers (rwl s) = 0" using readers_iff [OF d(1)] d(1) by (simp add: rw_core_def)
    moreover have "rw_inv self (rw_put s t Run (rwl s, ?w))"
      by (rule rw_inv_quiet [OF inv t(1,2)]) (use d(1) 1 in \<open>simp_all add: quiet_def frame_rw_def\<close>)
    ultimately show ?thesis using 1 by (simp add: asl_cleanup_def rw_cleanupImpl_def)
  next
    case (2 n)
    note nn = core_nn [OF d(1) 2]
    obtain w' where p: "vl_pop t self ?w = Some w'" "map_of (vmap (rwl s)) t = Some t" using core_pop [OF core 2] .
    define l' where "l' = (rwl s)\<lparr>num_readers := num_readers (rwl s) - n, tmap := AList.delete t (tmap (rwl s)), vmap := AList.delete t (vmap (rwl s))\<rparr>"
    let ?w' = "world_raise ''LOCK-ERROR'' (signal_writer self l' w')"
    note c = core_drop [OF core 2 p(1) l'_def]
    have "asl_cleanup (rw_cleanupImpl self t) (rwl s, ?w) = Some (l', ?w')"
      using nn p 2 c(3) [unfolded readers_ok_def l'_def]
      by (simp add: asl_cleanup_def rw_cleanupImpl_def Let_def l'_def signal_writer_def readers_ok_def)
    moreover have "rw_inv self (rw_put s t Run (l', ?w'))"
      by (rule rw_inv_quiet [OF inv t(1,2)])
         (use c nn in \<open>auto simp: quiet_def frame_rw_def holds_def l'_def vl_pop_frame [OF p(1)] vl_pop_trset [OF p(1)] AList.delete_conv'\<close>)
    ultimately show ?thesis by simp
  next
    case 3
    then have nr: "num_readers (rwl s) = 0" "vl (rwl s) = Some t" "tmap (rwl s) = []" "0 < locked ?w self t" using d(1) t(1) by (simp_all add: rw_core_def)
    obtain w' where p: "vl_pop t self ?w = Some w'" using vl_pop_ok [OF nr(4)] by blast
    let ?l = "(rwl s)\<lparr>tid := - 1, vl := None\<rparr>"
    let ?w' = "world_raise ''LOCK-ERROR'' (rw_signalImpl self ?l w')"
    have "asl_cleanup (rw_cleanupImpl self t) (rwl s, ?w) = Some (?l, ?w')"
      using 3 nr p t(1) by (simp add: asl_cleanup_def rw_cleanupImpl_def Let_def)
    moreover have "rw_core self ?l ?w'" using core 3 nr t(1) by (auto simp: rw_core_def vl_pop_frame [OF p])
    then have "rw_inv self (rw_put s t Run (?l, ?w'))"
      by (rule rw_inv_quiet [OF inv t(1,2)])
         (use 3 nr t(1) in \<open>auto simp: quiet_def frame_rw_def holds_def vl_pop_frame [OF p] vl_pop_trset [OF p]\<close>)
    ultimately show ?thesis by simp
  qed
qed

lemma rw_step_inv:
  assumes "rw_inv self s" "rw_enabled self s t op"
  shows "\<exists>s'. rw_step self s t op = Some s' \<and> rw_inv self s'"
proof (cases op)
  case (WakeOp rc)
  then have "0 \<le> t" "waits (pcs s t)" using assms(2) by (simp_all add: waits_def)
  then show ?thesis using rw_step_wake [OF assms(1)] WakeOp by (simp del: rw_step.simps)
next
  case CondWakeOp
  then obtain c rd where "pcs s t = CondWaiting c rd" using assms(2) by (auto split: rw_pc.splits)
  then show ?thesis using assms CondWakeOp rw_step_cond_wake by auto
next
  case CleanupOp
  then show ?thesis using assms rw_step_cleanup by (simp add: check_thread_resource_def)
qed (use assms rw_step_write_lock rw_step_try rw_step_unlock rw_step_read_lock rw_step_cond_wait rw_step_delete in
     \<open>simp_all del: rw_step.simps\<close>)

inductive rw_reach :: "nat \<Rightarrow> bool \<Rightarrow> rws \<Rightarrow> bool" for self p where
  init: "rw_reach self p (rw_sys_init p)"
| step: "rw_reach self p s \<Longrightarrow> rw_enabled self s t op \<Longrightarrow> rw_step self s t op = Some s' \<Longrightarrow> rw_reach self p s'"

lemma rw_init_inv: "rw_inv self (rw_sys_init p)"
  by (simp add: rw_inv_def rw_sys_init_def rw_init_def rw_core_def in_write_def in_read_def in_cond_def holds_def locked_def)

lemma rw_reach_inv: "rw_reach self p s \<Longrightarrow> rw_inv self s"
proof (induction rule: rw_reach.induct)
  case init
  show ?case by (rule rw_init_inv)
next
  case (step s t op s')
  then show ?case using rw_step_inv [OF step.IH step.hyps(2)] by simp
qed

fun rw_run :: "nat \<Rightarrow> rws \<Rightarrow> (int \<times> rw_op) list \<Rightarrow> rws option" where
  "rw_run self s [] = Some s"
| "rw_run self s ((t, op) # ops) =
     (if rw_enabled self s t op then (case rw_step self s t op of None \<Rightarrow> None | Some s' \<Rightarrow> rw_run self s' ops) else None)"

lemma rw_run_reach: "rw_reach self p s \<Longrightarrow> rw_run self s ops = Some s' \<Longrightarrow> rw_reach self p s'"
  by (induction self s ops rule: rw_run.induct) (auto split: if_splits option.splits intro: rw_reach.step)

section \<open>Properties\<close>

text \<open>
  C15: In every reachable state of a read/write lock a writer excludes all readers, and the reader
  count is the sum of the read counts of the threads, which all are positive.
\<close>

theorem rwlock_writer_excludes_readers:
  assumes "rw_reach self p s"
  shows "(0 \<le> tid (rwl s) \<longrightarrow> num_readers (rwl s) = 0 \<and> tmap (rwl s) = [])
    \<and> num_readers (rwl s) = sum_list (map snd (tmap (rwl s)))
    \<and> (\<forall>t n. map_of (tmap (rwl s)) t = Some n \<longrightarrow> 0 < n \<and> readLockOwner t (rwl s))"
proof -
  have c: "rw_core self (rwl s) (rww s)" using rw_invD(1) [OF rw_reach_inv [OF assms]] .
  have a: "0 \<le> tid (rwl s) \<longrightarrow> num_readers (rwl s) = 0 \<and> tmap (rwl s) = []"
    "num_readers (rwl s) = sum_list (map snd (tmap (rwl s)))"
    using c by (simp_all add: rw_core_def)
  have "0 < n \<and> readLockOwner t (rwl s)" if "map_of (tmap (rwl s)) t = Some n" for t n
    using core_nn [OF c that] that by (simp add: readLockOwner_def del: map_of_eq_Some_iff)
  then show ?thesis using a by blast
qed

definition rw_example :: "(int \<times> rw_op) list" where
  "rw_example = [(1, ReadLock), (2, ReadLock), (2, ReadLock), (3, WriteLock), (1, ReadUnlock)]"

lemma rw_example_run:
  obtains s where "rw_run 5 (rw_sys_init False) rw_example = Some s" "rw_reach 5 False s" "tmap (rwl s) = [(2, 2)]"
    "pcs s 3 = WaitWrite" "waiting (rwl s) = 1"
proof -
  have "map_option (\<lambda>s. (tmap (rwl s), pcs s 3, waiting (rwl s))) (rw_run 5 (rw_sys_init False) rw_example) = Some ([(2, 2)], WaitWrite, 1)"
    by code_simp
  then obtain s where s: "rw_run 5 (rw_sys_init False) rw_example = Some s" "tmap (rwl s) = [(2, 2)]" "pcs s 3 = WaitWrite"
    "waiting (rwl s) = 1" by auto
  moreover have "rw_reach 5 False s" by (rule rw_run_reach [OF rw_reach.init s(1)])
  ultimately show thesis using that by blast
qed

lemma rwlock_writer_excludes_readers_witness:
  "\<exists>s. rw_run 5 (rw_sys_init False) rw_example = Some s \<and> num_readers (rwl s) = 2 \<and> readLockOwner 2 (rwl s)"
proof -
  obtain s where s: "rw_run 5 (rw_sys_init False) rw_example = Some s" "rw_reach 5 False s" "tmap (rwl s) = [(2, 2)]"
    by (rule rw_example_run)
  then show ?thesis using rwlock_writer_excludes_readers [OF s(2)] by auto
qed

text \<open>
  No operation on a read/write lock fails an assertion or loses track of its maps: every step of
  an enabled thread in a reachable state has a defined result.
\<close>

theorem rwlock_operations_defined:
  assumes "rw_reach self p s" "rw_enabled self s t op"
  shows "\<exists>s'. rw_step self s t op = Some s'"
  using rw_step_inv [OF rw_reach_inv [OF assms(1)] assms(2)] by blast

lemma rwlock_operations_defined_witness: "\<exists>s s'. rw_run 5 (rw_sys_init False) rw_example = Some s \<and> rw_step 5 s 3 (WakeOp 1) = Some s'"
proof -
  obtain s where s: "rw_run 5 (rw_sys_init False) rw_example = Some s" "rw_reach 5 False s" "pcs s 3 = WaitWrite"
    by (rule rw_example_run)
  then show ?thesis using rwlock_operations_defined [OF s(2), of 3 "WakeOp 1"] by auto
qed

text \<open>
  The two waiting counters of a read/write lock are the numbers of threads waiting for the write
  and for the read lock, and no thread waits for either while it holds the lock.
\<close>

theorem rwlock_waiting_counts:
  assumes "rw_reach self p s"
  shows "waiting (rwl s) = int (card (in_write s)) \<and> readRequests (rwl s) = int (card (in_read s))
    \<and> (\<forall>t. pcs s t \<noteq> Run \<longrightarrow> t \<noteq> tid (rwl s) \<and> map_of (tmap (rwl s)) t = None)"
  using rw_reach_inv [OF assms] by (auto simp: rw_inv_def holds_def)

lemma rwlock_waiting_counts_witness:
  "\<exists>s. rw_run 5 (rw_sys_init False) rw_example = Some s \<and> card (in_write s) = 1 \<and> map_of (tmap (rwl s)) 3 = None"
proof -
  obtain s where s: "rw_run 5 (rw_sys_init False) rw_example = Some s" "rw_reach 5 False s" "pcs s 3 = WaitWrite" "waiting (rwl s) = 1"
    by (rule rw_example_run)
  then show ?thesis using rwlock_waiting_counts [OF s(2)] by auto
qed

text \<open>
  A thread that holds a read lock and asks for the write lock is told so at once: it gets the
  exception THREAD-DEADLOCK instead of waiting for itself, and keeps its read lock.
\<close>

theorem rwlock_upgrade_raises:
  assumes "rw_reach self p s" "map_of (tmap (rwl s)) t = Some n" "0 \<le> t" "pcs s t = Run"
  shows "rw_step self s t WriteLock = Some (rw_put s t Run (rwl s, world_raise ''THREAD-DEADLOCK'' (rww s)))"
proof -
  have inv: "rw_inv self s" by (rule rw_reach_inv [OF assms(1)])
  note d = rw_invD [OF inv]
  have wo: "waiting_on (rww s) t = None" using d(4) [of t] assms(4) by (simp add: waits_def)
  note nn = core_nn [OF d(1) assms(2)]
  have lk: "map_of (vmap (rwl s)) t = Some t" "0 < locked (rww s) self t" using d(1) assms(2) by (simp_all add: rw_core_def)
  have "t \<in> set (map snd (vmap (rwl s)))" using vmap_vals(2) [OF d(1), of t] assms(2) by simp
  moreover have "deadlock_with t (set_wait t self (rww s)) t"
    using lk(2) by (simp add: deadlock_with_def vl_find_locked) (simp add: set_wait_def)
  ultimately have "list_ex (deadlock_with t (set_wait t self (rww s))) (map snd (vmap (rwl s)))"
    unfolding list_ex_iff by blast
  then have "waitOn_vmap t self (map snd (vmap (rwl s))) (rww s) = Some (Ret (- 1), world_raise ''THREAD-DEADLOCK'' (rww s))"
    using wo by (simp add: waitOn_vmap_def Let_def set_wait_def [symmetric] wait_end_raise)
  then show ?thesis
    using nn assms(3) by (auto simp: rw_grabImpl_def rw_loop_def asl_grab_def block_pc_def)
qed

lemma rwlock_upgrade_raises_witness:
  "map_option (\<lambda>s. raised (rww s)) (rw_run 5 (rw_sys_init False) (rw_example @ [(2, WriteLock)])) = Some [''THREAD-DEADLOCK'']
   \<and> (\<exists>s. rw_run 5 (rw_sys_init False) rw_example = Some s
        \<and> rw_step 5 s 2 WriteLock = Some (rw_put s 2 Run (rwl s, world_raise ''THREAD-DEADLOCK'' (rww s))))"
proof
  show "map_option (\<lambda>s. raised (rww s)) (rw_run 5 (rw_sys_init False) (rw_example @ [(2, WriteLock)])) = Some [''THREAD-DEADLOCK'']"
    by code_simp
  have "map_option (\<lambda>s. (tmap (rwl s), pcs s 2)) (rw_run 5 (rw_sys_init False) rw_example) = Some ([(2, 2)], Run)" by code_simp
  then obtain s where s: "rw_run 5 (rw_sys_init False) rw_example = Some s" "tmap (rwl s) = [(2, 2)]" "pcs s 2 = Run" by auto
  have "rw_reach 5 False s" by (rule rw_run_reach [OF rw_reach.init s(1)])
  then show "\<exists>s. rw_run 5 (rw_sys_init False) rw_example = Some s
        \<and> rw_step 5 s 2 WriteLock = Some (rw_put s 2 Run (rwl s, world_raise ''THREAD-DEADLOCK'' (rww s)))"
    using rwlock_upgrade_raises [of 5 False s 2 2] s by auto
qed

text \<open>
  Wake-ups can be lost.  When the write lock is released while a reader and a writer wait, only
  one kind of waiter is signalled; if the signalled one gives up because of its timeout, the other
  stays asleep although the lock is free: nobody has ever signalled its condition variable.  This
  happens for both preferences.
\<close>

definition lost_reader :: "(int \<times> rw_op) list" where
  "lost_reader = [(1, WriteLock), (2, ReadLock), (3, WriteLock), (1, WriteUnlock), (3, WakeOp 1)]"

definition lost_writer :: "(int \<times> rw_op) list" where
  "lost_writer = [(1, WriteLock), (2, ReadLock), (3, WriteLock), (1, WriteUnlock), (2, WakeOp 1)]"

theorem rwlock_lost_wakeup:
  "map_option (\<lambda>s. (tid (rwl s), num_readers (rwl s), map (pcs s) [1, 2, 3], signals (rww s))) (rw_run 5 (rw_sys_init True) lost_reader)
     = Some (- 1, 0, [Run, WaitRead 0, Run], [Signal (AslCond 5)])
   \<and> map_option (\<lambda>s. (tid (rwl s), num_readers (rwl s), map (pcs s) [1, 2, 3], signals (rww s))) (rw_run 5 (rw_sys_init False) lost_writer)
     = Some (- 1, 0, [Run, Run, WaitWrite], [Broadcast (ReadCond 5)])"
  by (rule conjI; code_simp)

end
