(* ===== verification/Lock_Counter.thy ===== *)
theory Lock_Counter
  imports Qore_Prelude
begin

text \<open>
  The thread counter \<open>qore_counter_private\<close> (\<open>src/lib/QoreCounter.cpp\<close>).  The condition variable is
  explicit: \<open>blocked\<close> are the threads asleep in \<open>cond.wait\<close>, \<open>woken\<close> those a broadcast
  has woken up but that have not run yet.  A thread asleep with a timeout may give up at any time.
\<close>

section \<open>The counter\<close>

abbreviation (input) Cond_Deleted :: int where "Cond_Deleted \<equiv> - 1"

record counter =
  cnt :: int
  cn_waiting :: int
  blocked :: "int set"
  woken :: "int set"
  cn_raised :: xsink

definition cn_init :: "int \<Rightarrow> counter" where
  "cn_init n = \<lparr>cnt = n, cn_waiting = 0, blocked = {}, woken = {}, cn_raised = []\<rparr>"

definition cn_raise :: "counter \<Rightarrow> counter" where
  "cn_raise c = c\<lparr>cn_raised := raiseException (cn_raised c) ''COUNTER-ERROR''\<rparr>"

definition cn_broadcast :: "counter \<Rightarrow> counter" where
  "cn_broadcast c = c\<lparr>woken := woken c \<union> blocked c, blocked := {}\<rparr>"

definition cn_destructor :: "counter \<Rightarrow> counter option" where
  "cn_destructor c =
     (if cnt c = Cond_Deleted then None
      else let c = c\<lparr>cnt := Cond_Deleted\<rparr>
           in Some (if cn_waiting c \<noteq> 0 then cn_broadcast (cn_raise c) else c))"

definition cn_inc :: "counter \<Rightarrow> int \<times> counter" where
  "cn_inc c = (if cnt c \<ge> 0 then (cnt c + 1, c\<lparr>cnt := cnt c + 1\<rparr>) else (0, c))"

definition cn_dec_intern :: "counter \<Rightarrow> counter" where
  "cn_dec_intern c =
     (let c = c\<lparr>cnt := cnt c - 1\<rparr>
      in if cnt c = 0 \<and> cn_waiting c \<noteq> 0 then cn_broadcast c else c)"

definition cn_dec :: "counter \<Rightarrow> int \<times> counter" where
  "cn_dec c =
     (if cnt c = Cond_Deleted then (- 1, cn_raise c)
      else if cnt c = 0 then (- 1, cn_raise c)
      else let c = cn_dec_intern c in (cnt c, c))"

text \<open>
  \<open>waitForZero\<close>: the head of the loop (the thread goes to sleep or leaves the loop) and what
  follows the loop.  The answer \<open>None\<close> means that the thread sleeps.
\<close>

definition cn_wait_end :: "int \<Rightarrow> counter \<Rightarrow> int \<times> counter" where
  "cn_wait_end rc c =
     (let c = c\<lparr>cn_waiting := cn_waiting c - 1\<rparr>
      in if cnt c = Cond_Deleted then (- 1, cn_raise c) else (rc, c))"

definition cn_wait_loop :: "int \<Rightarrow> counter \<Rightarrow> int option \<times> counter" where
  "cn_wait_loop t c =
     (if cnt c \<noteq> 0 \<and> cnt c \<noteq> Cond_Deleted then (None, c\<lparr>blocked := insert t (blocked c)\<rparr>)
      else let (r, c) = cn_wait_end 0 c in (Some r, c))"

definition cn_wait :: "int \<Rightarrow> counter \<Rightarrow> int option \<times> counter" where
  "cn_wait t c = cn_wait_loop t (c\<lparr>cn_waiting := cn_waiting c + 1\<rparr>)"

text \<open>The thread has been woken up, or its timeout has expired (\<open>rc\<close> is then not 0).\<close>

definition cn_wake :: "int \<Rightarrow> counter \<Rightarrow> int option \<times> counter" where
  "cn_wake t c = cn_wait_loop t (c\<lparr>woken := woken c - {t}\<rparr>)"

definition cn_timeout :: "int \<Rightarrow> int \<Rightarrow> counter \<Rightarrow> int option \<times> counter" where
  "cn_timeout rc t c =
     (let (r, c) = cn_wait_end rc (c\<lparr>blocked := blocked c - {t}, woken := woken c - {t}\<rparr>) in (Some r, c))"

section \<open>Steps\<close>

datatype cn_op = Inc | Dec | Wait | WakeUp | Timeout int | Destroy

fun cn_enabled :: "counter \<Rightarrow> int \<Rightarrow> cn_op \<Rightarrow> bool" where
  "cn_enabled c t WakeUp \<longleftrightarrow> t \<in> woken c"
| "cn_enabled c t (Timeout rc) \<longleftrightarrow> t \<in> blocked c \<union> woken c \<and> rc \<noteq> 0"
| "cn_enabled c t Destroy \<longleftrightarrow> t \<notin> blocked c \<union> woken c \<and> cnt c \<noteq> Cond_Deleted"
| "cn_enabled c t _ \<longleftrightarrow> t \<notin> blocked c \<union> woken c"

fun cn_step :: "counter \<Rightarrow> int \<Rightarrow> cn_op \<Rightarrow> counter option" where
  "cn_step c t Inc = Some (snd (cn_inc c))"
| "cn_step c t Dec = Some (snd (cn_dec c))"
| "cn_step c t Wait = Some (snd (cn_wait t c))"
| "cn_step c t WakeUp = Some (snd (cn_wake t c))"
| "cn_step c t (Timeout rc) = Some (snd (cn_timeout rc t c))"
| "cn_step c t Destroy = cn_destructor c"

inductive cn_reach :: "int \<Rightarrow> counter \<Rightarrow> bool" for n where
  init: "cn_reach n (cn_init n)"
| step: "cn_reach n c \<Longrightarrow> cn_enabled c t op \<Longrightarrow> cn_step c t op = Some c' \<Longrightarrow> cn_reach n c'"

definition cn_inv :: "counter \<Rightarrow> bool" where
  "cn_inv c \<longleftrightarrow> - 1 \<le> cnt c \<and> finite (blocked c) \<and> finite (woken c) \<and> blocked c \<inter> woken c = {}
     \<and> cn_waiting c = int (card (blocked c \<union> woken c)) \<and> (cnt c \<le> 0 \<longrightarrow> blocked c = {})"

lemmas cn_defs = cn_inc_def cn_dec_def cn_dec_intern_def cn_wait_def cn_wait_loop_def cn_wait_end_def cn_wake_def
  cn_timeout_def cn_destructor_def cn_broadcast_def cn_raise_def

lemma card_Un_disj: "finite A \<Longrightarrow> finite B \<Longrightarrow> A \<inter> B = {} \<Longrightarrow> card (A \<union> B) = card A + card B"
  by (rule card_Un_disjoint)

lemma cn_step_inv:
  assumes "cn_inv c" "cn_enabled c t op" "cn_step c t op = Some c'"
  shows "cn_inv c'"
proof -
  have i: "- 1 \<le> cnt c" "finite (blocked c)" "finite (woken c)" "blocked c \<inter> woken c = {}"
    "cn_waiting c = int (card (blocked c \<union> woken c))" "cnt c \<le> 0 \<longrightarrow> blocked c = {}"
    using assms(1) by (simp_all add: cn_inv_def)
  let ?A = "blocked c \<union> woken c"
  have fin: "finite ?A" using i(2,3) by simp
  have rem: "int (card (?A - {t})) = int (card ?A) - 1" if "t \<in> ?A"
    using that fin card_gt_0_iff [of ?A] by (auto simp: card_Diff_singleton of_nat_diff)
  have un: "woken c \<union> blocked c = ?A" by blast
  have z: "cn_waiting c = 0 \<longleftrightarrow> blocked c = {} \<and> woken c = {}" using i(5) fin by simp
  show ?thesis
  proof (cases op)
    case Inc
    then show ?thesis using assms(3) i by (auto simp: cn_inv_def cn_defs split: if_splits)
  next
    case Dec
    then show ?thesis using assms(3) i z by (auto simp: cn_inv_def cn_defs Let_def un split: if_splits)
  next
    case Wait
    have "t \<notin> ?A" using assms(2) Wait by simp
    then show ?thesis using assms(3) i Wait fin by (auto simp: cn_inv_def cn_defs Let_def split: if_splits)
  next
    case WakeUp
    then have t: "t \<in> woken c" "t \<notin> blocked c" using assms(2) i(4) by auto
    have e: "insert t (blocked c) \<union> (woken c - {t}) = ?A" "blocked c \<union> (woken c - {t}) = ?A - {t}" "insert t ?A = ?A"
      using t by auto
    show ?thesis using assms(3) i WakeUp t rem by (auto simp: cn_inv_def cn_defs Let_def e split: if_splits)
  next
    case (Timeout rc)
    then have t: "t \<in> ?A" using assms(2) by simp
    have e: "(blocked c - {t}) \<union> (woken c - {t}) = ?A - {t}" by auto
    show ?thesis using assms(3) i Timeout rem [OF t] by (auto simp: cn_inv_def cn_defs Let_def e split: if_splits)
  next
    case Destroy
    then show ?thesis using assms(3) i z by (auto simp: cn_inv_def cn_defs Let_def un split: if_splits)
  qed
qed

lemma cn_reach_inv: "cn_reach n c \<Longrightarrow> 0 \<le> n \<Longrightarrow> cn_inv c"
proof (induction rule: cn_reach.induct)
  case init
  then show ?case by (simp add: cn_inv_def cn_init_def)
next
  case (step c t op c')
  then show ?case using cn_step_inv by blast
qed

section \<open>Properties\<close>

text \<open>
  C16: A counter never loses a waiting thread: in every reachable state the waiting count is the number
  of threads inside \<open>waitForZero\<close>, and once the count is 0 or the counter is deleted none of them
  is asleep without having been woken up.
\<close>

theorem counter_no_lost_waiter:
  assumes "cn_reach n c" "0 \<le> n"
  shows "cn_waiting c = int (card (blocked c \<union> woken c)) \<and> (cnt c \<le> 0 \<longrightarrow> blocked c = {})"
  using cn_reach_inv [OF assms] by (simp add: cn_inv_def)

lemma counter_no_lost_waiter_witness:
  "\<exists>c. cn_reach 1 c \<and> cnt c = 0 \<and> woken c = {7} \<and> blocked c = {} \<and> cn_waiting c = 1"
proof -
  let ?c1 = "snd (cn_wait 7 (cn_init 1))"
  let ?c2 = "snd (cn_dec ?c1)"
  have "cn_reach 1 ?c1" by (rule cn_reach.step [OF cn_reach.init, of _ 7 Wait]) (simp_all add: cn_init_def)
  then have r: "cn_reach 1 ?c2" by (rule cn_reach.step [of _ _ 8 Dec]) (simp_all add: cn_init_def cn_defs)
  have "cnt ?c2 = 0" "woken ?c2 = {7}" by (simp_all add: cn_init_def cn_defs Let_def)
  then show ?thesis using counter_no_lost_waiter [OF r] r by auto
qed

text \<open>
  A waiting thread leaves \<open>waitForZero\<close> without an error or a timeout only at a moment when the
  count is 0, and it gets the exception when the counter has been deleted.
\<close>

theorem counter_wait_result:
  assumes "cn_wait t c = (Some r, c') \<or> cn_wake t c = (Some r, c')"
  shows "(r = 0 \<longleftrightarrow> cnt c = 0) \<and> (r \<noteq> 0 \<longrightarrow> r = - 1 \<and> cnt c = - 1 \<and> cn_raised c' = cn_raised c @ [''COUNTER-ERROR''])"
  using assms by (auto simp: cn_defs raiseException_def Let_def split: if_splits)

lemma counter_wait_result_witness:
  "cn_wait 3 (cn_init 0) = (Some 0, cn_init 0) \<and> cnt (cn_init 0) = 0"
  using counter_wait_result [of 3 "cn_init 0" 0 "cn_init 0"] by (simp add: cn_init_def cn_defs)

text \<open>
  The count reaching 0 is not remembered: a thread that has been woken up because the count hit 0
  goes back to sleep if the count has been incremented again before it runs.
\<close>

theorem counter_zero_missed:
  "cn_reach 1 (snd (cn_wait 7 (cn_init 1))) \<and>
   (let c = snd (cn_inc (snd (cn_dec (snd (cn_wait 7 (cn_init 1))))))
    in cnt (snd (cn_dec (snd (cn_wait 7 (cn_init 1))))) = 0 \<and> woken c = {7} \<and> fst (cn_wake 7 c) = None
       \<and> blocked (snd (cn_wake 7 c)) = {7})"
proof -
  have "cn_reach 1 (snd (cn_wait 7 (cn_init 1)))"
    by (rule cn_reach.step [OF cn_reach.init, of _ 7 Wait]) (simp_all add: cn_init_def)
  then show ?thesis by (simp add: cn_init_def cn_defs Let_def)
qed

section \<open>The counters of the library itself\<close>

text \<open>
  The library counts its own threads and programs with counters it never deletes, and uses the versions of \<open>dec\<close> and
  \<open>waitForZero\<close> without an exception sink: \<open>dec\<close> (\<open>cn_dec_intern\<close>) does not look at the count first, so every call must have its
  \<open>inc\<close> before it, and \<open>waitForZero\<close> loops until the count is 0.
\<close>

definition cn_wait0_loop :: "int \<Rightarrow> counter \<Rightarrow> bool \<times> counter" where
  "cn_wait0_loop t c =
     (if cnt c \<noteq> 0 then (False, c\<lparr>blocked := insert t (blocked c)\<rparr>) else (True, c\<lparr>cn_waiting := cn_waiting c - 1\<rparr>))"

definition cn_wait0 :: "int \<Rightarrow> counter \<Rightarrow> bool \<times> counter" where
  "cn_wait0 t c = cn_wait0_loop t (c\<lparr>cn_waiting := cn_waiting c + 1\<rparr>)"

definition cn_wake0 :: "int \<Rightarrow> counter \<Rightarrow> bool \<times> counter" where
  "cn_wake0 t c = cn_wait0_loop t (c\<lparr>woken := woken c - {t}\<rparr>)"

datatype cn_op0 = Inc0 | Dec0 | Wait0 | WakeUp0

fun cn_enabled0 :: "counter \<Rightarrow> int \<Rightarrow> cn_op0 \<Rightarrow> bool" where
  "cn_enabled0 c t WakeUp0 \<longleftrightarrow> t \<in> woken c"
| "cn_enabled0 c t Dec0 \<longleftrightarrow> t \<notin> blocked c \<union> woken c \<and> 0 < cnt c"
| "cn_enabled0 c t _ \<longleftrightarrow> t \<notin> blocked c \<union> woken c"

fun cn_step0 :: "counter \<Rightarrow> int \<Rightarrow> cn_op0 \<Rightarrow> counter" where
  "cn_step0 c t Inc0 = snd (cn_inc c)"
| "cn_step0 c t Dec0 = cn_dec_intern c"
| "cn_step0 c t Wait0 = snd (cn_wait0 t c)"
| "cn_step0 c t WakeUp0 = snd (cn_wake0 t c)"

inductive cn_reach0 :: "int \<Rightarrow> counter \<Rightarrow> bool" for n where
  init: "cn_reach0 n (cn_init n)"
| step: "cn_reach0 n c \<Longrightarrow> cn_enabled0 c t op \<Longrightarrow> cn_reach0 n (cn_step0 c t op)"

text \<open>While the count is not negative these operations act as the versions with a sink, so the invariant carries over.\<close>

lemma cn_step0_step:
  assumes "0 \<le> cnt c" "cn_enabled0 c t op"
  shows "\<exists>op'. cn_enabled c t op' \<and> cn_step c t op' = Some (cn_step0 c t op) \<and> 0 \<le> cnt (cn_step0 c t op)"
proof (cases op)
  case Inc0
  then show ?thesis using assms by (intro exI [of _ Inc]) (auto simp: cn_inc_def)
next
  case Dec0
  then show ?thesis using assms by (intro exI [of _ Dec]) (auto simp: cn_dec_def cn_dec_intern_def cn_broadcast_def Let_def)
next
  case Wait0
  then show ?thesis using assms
    by (intro exI [of _ Wait]) (auto simp: cn_wait0_def cn_wait0_loop_def cn_wait_def cn_wait_loop_def cn_wait_end_def Let_def)
next
  case WakeUp0
  then show ?thesis using assms
    by (intro exI [of _ WakeUp]) (auto simp: cn_wake0_def cn_wait0_loop_def cn_wake_def cn_wait_loop_def cn_wait_end_def Let_def)
qed

lemma cn_reach0_reach:
  assumes "cn_reach0 n c" "0 \<le> n"
  shows "cn_reach n c \<and> 0 \<le> cnt c"
  using assms
proof (induction rule: cn_reach0.induct)
  case init
  then show ?case using cn_reach.init [of n] by (simp add: cn_init_def)
next
  case (step c t op)
  then show ?case using cn_step0_step [of c t op] cn_reach.step [of n c t] by blast
qed

text \<open>A waiter inside the library is never asleep without having been woken up once the count is 0.\<close>

lemma internal_counter_no_lost_waiter: "cn_reach0 n c \<Longrightarrow> 0 \<le> n \<Longrightarrow> cnt c = 0 \<longrightarrow> blocked c = {}"
  using cn_reach_inv [of n c] cn_reach0_reach [of n c] by (simp add: cn_inv_def)

end
