(* ===== verification/Queue_Links.thy ===== *)
theory Queue_Links
  imports Qore_Prelude "HOL-Library.Monad_Syntax"
begin

text \<open>
  The storage of a Queue: the doubly linked list of \<open>QoreQueueNode\<close> objects between \<open>head\<close> and
  \<open>tail\<close> (\<open>src/include/qore/intern/QoreQueueIntern.h\<close>, \<open>src/lib/QoreQueue.cpp\<close>).  Nodes live in an
  explicit heap; a null pointer is \<open>None\<close>, and the use of a pointer that is null or has been freed
  makes the operation \<open>None\<close>.  The locale \<open>deque\<close> is the contract of a double-ended queue; its
  interpretation \<open>dq\<close> discharges it for the linked list.
\<close>

section \<open>Values\<close>

text \<open>
  A \<open>QoreValue\<close> as far as the queue looks at it: a value without a node, or a node together with the
  answer of \<open>needs_scan\<close> on it (objects, and containers and closures that hold one).
\<close>

datatype qvalue = Scalar int | Node int bool

fun needs_scan :: "qvalue \<Rightarrow> bool" where
  "needs_scan (Scalar _) = False"
| "needs_scan (Node _ s) = s"

fun hasNode :: "qvalue \<Rightarrow> bool" where
  "hasNode (Scalar _) = False"
| "hasNode (Node _ _) = True"

text \<open>A pointer that is no \<open>AbstractQoreNode*\<close> converts to a \<open>QoreValue\<close> through \<open>QoreValue(bool)\<close>.\<close>

definition value_of_pointer :: "nat option \<Rightarrow> qvalue" where
  "value_of_pointer p = Scalar (if p = None then 0 else 1)"

section \<open>Nodes and links\<close>

record QoreQueueNode =
  node :: qvalue
  prev :: "nat option"
  "next" :: "nat option"

record links =
  mem :: "nat \<Rightarrow> QoreQueueNode option"
  fresh :: nat
  head :: "nat option"
  tail :: "nat option"
  len :: int

definition links_empty :: links where
  "links_empty = \<lparr>mem = (\<lambda>_. None), fresh = 0, head = None, tail = None, len = 0\<rparr>"

definition new_node :: "qvalue \<Rightarrow> nat option \<Rightarrow> nat option \<Rightarrow> links \<Rightarrow> nat \<times> links" where
  "new_node v p nx q =
     (fresh q, q\<lparr>mem := (mem q)(fresh q := Some \<lparr>node = v, prev = p, next = nx\<rparr>), fresh := Suc (fresh q)\<rparr>)"

definition deref :: "links \<Rightarrow> nat option \<Rightarrow> (nat \<times> QoreQueueNode) option" where
  "deref q p = (case p of None \<Rightarrow> None | Some a \<Rightarrow> map_option (Pair a) (mem q a))"

definition upd_node :: "nat option \<Rightarrow> (QoreQueueNode \<Rightarrow> QoreQueueNode) \<Rightarrow> links \<Rightarrow> links option" where
  "upd_node p f q = do { (a, n) \<leftarrow> deref q p; Some (q\<lparr>mem := (mem q)(a := Some (f n))\<rparr>) }"

definition takeAndDel :: "nat \<Rightarrow> links \<Rightarrow> (qvalue \<times> links) option" where
  "takeAndDel a q = do { n \<leftarrow> mem q a; Some (node n, q\<lparr>mem := (mem q)(a := None)\<rparr>) }"

definition pushNode :: "qvalue \<Rightarrow> links \<Rightarrow> links option" where
  "pushNode v q = do {
     q \<leftarrow> (if head q = None then let (a, q) = new_node v None None q in Some (q\<lparr>head := Some a, tail := Some a\<rparr>)
          else let (a, q) = new_node v (tail q) None q
               in do { q \<leftarrow> upd_node (tail q) (\<lambda>n. n\<lparr>next := Some a\<rparr>) q; Some (q\<lparr>tail := Some a\<rparr>) });
     Some (q\<lparr>len := len q + 1\<rparr>) }"

definition insertNode :: "qvalue \<Rightarrow> links \<Rightarrow> links option" where
  "insertNode v q = do {
     q \<leftarrow> (if head q = None then let (a, q) = new_node v None None q in Some (q\<lparr>head := Some a, tail := Some a\<rparr>)
          else let (a, q) = new_node v None (head q) q
               in do { q \<leftarrow> upd_node (head q) (\<lambda>n. n\<lparr>prev := Some a\<rparr>) q; Some (q\<lparr>head := Some a\<rparr>) });
     Some (q\<lparr>len := len q + 1\<rparr>) }"

text \<open>The unlinking at the heart of \<open>shift\<close> and of \<open>pop\<close>; the answer is the node pointer and the value.\<close>

definition shiftNode :: "links \<Rightarrow> ((nat \<times> qvalue) \<times> links) option" where
  "shiftNode q = do {
     (a, n) \<leftarrow> deref q (head q);
     let q = q\<lparr>head := next n\<rparr>;
     q \<leftarrow> (if head q = None then Some (q\<lparr>tail := None\<rparr>) else upd_node (head q) (\<lambda>n. n\<lparr>prev := None\<rparr>) q);
     let q = q\<lparr>len := len q - 1\<rparr>;
     (v, q) \<leftarrow> takeAndDel a q;
     Some ((a, v), q) }"

definition popNode :: "links \<Rightarrow> ((nat \<times> qvalue) \<times> links) option" where
  "popNode q = do {
     (a, n) \<leftarrow> deref q (tail q);
     let q = q\<lparr>tail := prev n\<rparr>;
     q \<leftarrow> (if tail q = None then Some (q\<lparr>head := None\<rparr>) else upd_node (tail q) (\<lambda>n. n\<lparr>next := None\<rparr>) q);
     let q = q\<lparr>len := len q - 1\<rparr>;
     (v, q) \<leftarrow> takeAndDel a q;
     Some ((a, v), q) }"

text \<open>
  The loops over the list.  \<open>del_loop\<close> frees the nodes from a pointer on; \<open>scan_loop\<close> and
  \<open>copy_loop\<close> visit them.  Following a dangling pointer, and a cycle, is \<open>None\<close>.
\<close>

partial_function (option) del_loop :: "(nat \<Rightarrow> QoreQueueNode option) \<Rightarrow> nat option \<Rightarrow> (nat \<Rightarrow> QoreQueueNode option) option" where
  "del_loop h p = (case p of None \<Rightarrow> Some h
     | Some a \<Rightarrow> (case h a of None \<Rightarrow> None | Some n \<Rightarrow> del_loop (h(a := None)) (next n)))"

definition clear_links :: "links \<Rightarrow> links option" where
  "clear_links q = do { h \<leftarrow> del_loop (mem q) (head q); Some (q\<lparr>mem := h, head := None, tail := None\<rparr>) }"

partial_function (option) scan_loop :: "(qvalue \<Rightarrow> bool) \<Rightarrow> (nat \<Rightarrow> QoreQueueNode option) \<Rightarrow> nat option \<Rightarrow> bool option" where
  "scan_loop scanCheck h p = (case p of None \<Rightarrow> Some False
     | Some a \<Rightarrow> (case h a of None \<Rightarrow> None
         | Some n \<Rightarrow> if hasNode (node n) \<and> scanCheck (node n) then Some True else scan_loop scanCheck h (next n)))"

partial_function (option) copy_loop :: "(nat \<Rightarrow> QoreQueueNode option) \<Rightarrow> nat option \<Rightarrow> links \<Rightarrow> links option" where
  "copy_loop h p q = (case p of None \<Rightarrow> Some q
     | Some a \<Rightarrow> (case h a of None \<Rightarrow> None
         | Some n \<Rightarrow> (case pushNode (node n) q of None \<Rightarrow> None | Some q \<Rightarrow> copy_loop h (next n) q)))"

declare del_loop.simps [code] scan_loop.simps [code] copy_loop.simps [code]

section \<open>The abstract list\<close>

text \<open>
  \<open>dll h pv p as\<close>: from pointer \<open>p\<close> on, the nodes at the addresses \<open>as\<close> are linked in both
  directions, the first one back to \<open>pv\<close>.
\<close>

fun dll :: "(nat \<Rightarrow> QoreQueueNode option) \<Rightarrow> nat option \<Rightarrow> nat option \<Rightarrow> nat list \<Rightarrow> bool" where
  "dll h pv p [] \<longleftrightarrow> p = None"
| "dll h pv p (a # as) \<longleftrightarrow> p = Some a \<and> h a \<noteq> None \<and> prev (the (h a)) = pv \<and> dll h (Some a) (next (the (h a))) as"

definition values_at :: "(nat \<Rightarrow> QoreQueueNode option) \<Rightarrow> nat list \<Rightarrow> qvalue list" where
  "values_at h as = map (\<lambda>a. node (the (h a))) as"

definition linked :: "links \<Rightarrow> nat list \<Rightarrow> bool" where
  "linked q as \<longleftrightarrow> distinct as \<and> dom (mem q) = set as \<and> (\<forall>a\<in>set as. a < fresh q)
     \<and> dll (mem q) None (head q) as \<and> tail q = (if as = [] then None else Some (last as)) \<and> len q = int (length as)"

definition stores :: "links \<Rightarrow> qvalue list \<Rightarrow> bool" where
  "stores q vs \<longleftrightarrow> (\<exists>as. linked q as \<and> vs = values_at (mem q) as)"

lemma linkedI:
  assumes "distinct as" "dom (mem q) = set as" "\<forall>a\<in>set as. a < fresh q" "dll (mem q) None (head q) as"
    "tail q = (if as = [] then None else Some (last as))" "len q = int (length as)"
  shows "linked q as"
  using assms by (simp add: linked_def)

lemma dll_cong:
  assumes "\<And>a. a \<in> set as \<Longrightarrow> h a = h' a"
  shows "dll h pv p as = dll h' pv p as"
  using assms by (induction as arbitrary: pv p) auto

lemma values_at_cong:
  assumes "\<And>a. a \<in> set as \<Longrightarrow> node (the (h a)) = node (the (h' a))"
  shows "values_at h as = values_at h' as"
  using assms by (simp add: values_at_def)

lemma values_at_simps [simp]:
  "values_at h [] = []" "values_at h (a # as) = node (the (h a)) # values_at h as"
  "values_at h (as @ bs) = values_at h as @ values_at h bs" "length (values_at h as) = length as"
  "values_at h as = [] \<longleftrightarrow> as = []"
  by (simp_all add: values_at_def)

text \<open>Splitting a linked segment at its last node, the view from the tail.\<close>

lemma dll_snoc:
  "dll h pv p (as @ [a]) \<longleftrightarrow>
     (h a \<noteq> None \<and> next (the (h a)) = None \<and> prev (the (h a)) = (if as = [] then pv else Some (last as))
      \<and> (if as = [] then p = Some a
         else \<exists>n. h (last as) = Some n \<and> next n = Some a \<and> dll (h(last as \<mapsto> n\<lparr>next := None\<rparr>)) pv p as))"
  if "distinct (as @ [a])"
  using that
proof (induction as arbitrary: pv p)
  case Nil
  then show ?case by auto
next
  case (Cons b as)
  show ?case
  proof (cases as)
    case Nil
    then show ?thesis using Cons.prems by auto
  next
    case (Cons c cs)
    have nb: "last as \<noteq> b" using Cons.prems Cons by auto
    show ?thesis using Cons.IH [of "Some b" "next (the (h b))"] Cons.prems Cons nb by auto
  qed
qed

lemmas link_ops = pushNode_def insertNode_def shiftNode_def popNode_def new_node_def upd_node_def deref_def takeAndDel_def

lemma linkedD:
  assumes "linked q as"
  shows "distinct as" "dom (mem q) = set as" "\<forall>a\<in>set as. a < fresh q" "dll (mem q) None (head q) as"
    "tail q = (if as = [] then None else Some (last as))" "len q = int (length as)" "mem q (fresh q) = None" "fresh q \<notin> set as"
  using assms by (auto simp: linked_def)

lemma dom_singleton_del: "dom m = {a} \<Longrightarrow> m(a := None) = (\<lambda>_. None)"
  by (auto simp: fun_eq_iff dom_def set_eq_iff)

lemma linked_head_None: "linked q as \<Longrightarrow> head q = None \<longleftrightarrow> as = []"
  by (cases as) (auto simp: linked_def)

lemma push_linked:
  assumes l: "linked q as"
  shows "\<exists>q'. pushNode v q = Some q' \<and> linked q' (as @ [fresh q]) \<and> values_at (mem q') (as @ [fresh q]) = values_at (mem q) as @ [v]"
proof (cases "as = []")
  case True
  then show ?thesis using linkedD [OF l] by (auto simp: link_ops linked_def)
next
  case False
  let ?f = "fresh q" and ?t = "last as"
  note f = linkedD [OF l]
  have t0: "?t \<in> set as" using False by simp
  have t: "?t \<in> set as" "tail q = Some ?t" "?t \<noteq> ?f" using t0 False f(5) f(8) by (simp_all, metis)
  then obtain n where n: "mem q ?t = Some n" using f(2) by blast
  have h: "head q \<noteq> None" using linked_head_None [OF l] False by simp
  let ?m = "(mem q)(?f \<mapsto> \<lparr>node = v, prev = Some ?t, next = None\<rparr>, ?t \<mapsto> n\<lparr>next := Some ?f\<rparr>)"
  let ?q = "q\<lparr>mem := ?m, fresh := Suc ?f, tail := Some ?f, len := len q + 1\<rparr>"
  have p: "pushNode v q = Some ?q" using h t n by (auto simp: link_ops)
  obtain bs where bs: "as = bs @ [?t]" using False by (metis append_butlast_last_id)
  have nn: "next n = None" using dll_snoc [of bs ?t] f(1,4) n bs by auto
  have "n\<lparr>next := None\<rparr> = n" using nn by (cases n) simp
  then have "dll (?m(?t \<mapsto> n\<lparr>next := None\<rparr>)) None (head q) as" 
    using f(4,8) t n by (subst dll_cong [where h' = "mem q"]) auto
  then have "dll ?m None (head q) (as @ [?f])"
    using f(1,8) t False by (subst dll_snoc) auto
  then have "linked ?q (as @ [?f])" using f t n by (intro linkedI) auto
  moreover have "values_at ?m (as @ [?f]) = values_at (mem q) as @ [v]"
    using f(8) t n by (auto simp: values_at_def)
  ultimately show ?thesis using p by auto
qed

lemma insert_linked:
  assumes l: "linked q as"
  shows "\<exists>q'. insertNode v q = Some q' \<and> linked q' (fresh q # as) \<and> values_at (mem q') (fresh q # as) = v # values_at (mem q) as"
proof (cases as)
  case Nil
  then show ?thesis using linkedD [OF l] by (auto simp: link_ops linked_def)
next
  case (Cons b bs)
  let ?f = "fresh q"
  note f = linkedD [OF l]
  have b: "head q = Some b" "b \<noteq> ?f" using Cons f(4,8) by auto
  obtain n where n: "mem q b = Some n" using f(2) Cons by fastforce
  let ?m = "(mem q)(?f \<mapsto> \<lparr>node = v, prev = None, next = Some b\<rparr>, b \<mapsto> n\<lparr>prev := Some ?f\<rparr>)"
  let ?q = "q\<lparr>mem := ?m, fresh := Suc ?f, head := Some ?f, len := len q + 1\<rparr>"
  have p: "insertNode v q = Some ?q" using b n by (simp add: link_ops)
  have "dll ?m (Some b) (next n) bs"
    using f(1,4,8) Cons n by (subst dll_cong [where h' = "mem q"]) auto
  then have "linked ?q (?f # as)" using f b n Cons by (intro linkedI) auto
  moreover have "values_at ?m (?f # as) = v # values_at (mem q) as"
    using f(8) b n Cons by (auto simp: values_at_def)
  ultimately show ?thesis using p by auto
qed

lemma shift_linked:
  assumes l: "linked q (a # as)"
  shows "\<exists>q'. shiftNode q = Some ((a, node (the (mem q a))), q') \<and> linked q' as \<and> values_at (mem q') as = values_at (mem q) as"
proof -
  note f = linkedD [OF l]
  obtain n where n: "mem q a = Some n" using f(2) by fastforce
  have h: "head q = Some a" "prev n = None" and d: "dll (mem q) (Some a) (next n) as" using f(4) n by auto
  show ?thesis
  proof (cases as)
    case Nil
    have "(mem q)(a := None) = (\<lambda>_. None)" using f(2) Nil by (intro dom_singleton_del) simp
    then show ?thesis using Nil f h n d by (auto simp: link_ops linked_def)
  next
    case (Cons b bs)
    obtain k where k: "mem q b = Some k" using f(2) Cons by fastforce
    let ?m = "(mem q)(b \<mapsto> k\<lparr>prev := None\<rparr>, a := None)"
    have ab: "a \<noteq> b" "next n = Some b" using f(1) Cons d by auto
    have s: "shiftNode q = Some ((a, node n), q\<lparr>head := Some b, mem := ?m, len := len q - 1\<rparr>)"
      using h n k ab by (simp add: link_ops fun_upd_twist)
    have "dll ?m (Some b) (next k) bs" using f(1) Cons d k by (subst dll_cong [where h' = "mem q"]) auto
    then have "linked (q\<lparr>head := Some b, mem := ?m, len := len q - 1\<rparr>) as"
      using f ab k Cons by (intro linkedI) auto
    moreover have "values_at ?m as = values_at (mem q) as"
      using f(1) k Cons by (auto simp: values_at_def)
    ultimately show ?thesis using s n by auto
  qed
qed

lemma pop_linked:
  assumes l: "linked q (as @ [a])"
  shows "\<exists>q'. popNode q = Some ((a, node (the (mem q a))), q') \<and> linked q' as \<and> values_at (mem q') as = values_at (mem q) as"
proof -
  note f = linkedD [OF l]
  obtain n where n: "mem q a = Some n" using f(2) by fastforce
  have t: "tail q = Some a" using f(5) by simp
  have d: "next n = None" "prev n = (if as = [] then None else Some (last as))"
    and d2: "as \<noteq> [] \<Longrightarrow> \<exists>k. mem q (last as) = Some k \<and> dll ((mem q)(last as \<mapsto> k\<lparr>next := None\<rparr>)) None (head q) as"
    using dll_snoc [OF f(1), of "mem q" None "head q"] f(4) n by auto
  show ?thesis
  proof (cases "as = []")
    case True
    have "(mem q)(a := None) = (\<lambda>_. None)" using f(2) True by (intro dom_singleton_del) simp
    then show ?thesis using True f t n d by (auto simp: link_ops linked_def)
  next
    case False
    then obtain k where k: "mem q (last as) = Some k" "dll ((mem q)(last as \<mapsto> k\<lparr>next := None\<rparr>)) None (head q) as"
      using d2 by blast
    let ?m = "(mem q)(last as \<mapsto> k\<lparr>next := None\<rparr>, a := None)"
    have ab: "a \<noteq> last as" "last as \<in> set as" using f(1) False by auto
    have s: "popNode q = Some ((a, node n), q\<lparr>tail := Some (last as), mem := ?m, len := len q - 1\<rparr>)"
      using t n k ab d False by (simp add: link_ops fun_upd_twist)
    have "dll ?m None (head q) as" using k(2) f(1) by (subst dll_cong [where h' = "(mem q)(last as \<mapsto> k\<lparr>next := None\<rparr>)"]) auto
    then have "linked (q\<lparr>tail := Some (last as), mem := ?m, len := len q - 1\<rparr>) as"
      using f ab False by (intro linkedI) auto
    moreover have "values_at ?m as = values_at (mem q) as"
      using f(1) k by (auto simp: values_at_def)
    ultimately show ?thesis using s n by auto
  qed
qed

section \<open>The loops\<close>

lemma del_loop_all:
  assumes "dll h pv p as" "distinct as"
  shows "del_loop h p = Some (\<lambda>a. if a \<in> set as then None else h a)"
  using assms
proof (induction as arbitrary: h pv p)
  case Nil
  then show ?case by (subst del_loop.simps) simp
next
  case (Cons a as)
  then obtain n where n: "h a = Some n" "p = Some a" "dll h (Some a) (next n) as" by auto
  have "dll (h(a := None)) (Some a) (next n) as" using n(3) Cons.prems(2) by (subst dll_cong [where h' = h]) auto
  then have "del_loop (h(a := None)) (next n) = Some (\<lambda>b. if b \<in> set as then None else (h(a := None)) b)"
    using Cons.IH Cons.prems(2) by simp
  moreover have "(\<lambda>b. if b \<in> set as then None else (h(a := None)) b) = (\<lambda>b. if b \<in> set (a # as) then None else h b)"
    by (auto simp: fun_eq_iff)
  ultimately show ?case using n by (subst del_loop.simps) simp
qed

lemma scan_loop_values:
  assumes "dll h pv p as"
  shows "scan_loop chk h p = Some (\<exists>v\<in>set (values_at h as). hasNode v \<and> chk v)"
  using assms
proof (induction as arbitrary: pv p)
  case Nil
  then show ?case by (subst scan_loop.simps) simp
next
  case (Cons a as)
  then obtain n where n: "h a = Some n" "p = Some a" "dll h (Some a) (next n) as" by auto
  then show ?case using Cons.IH [OF n(3)] by (subst scan_loop.simps) auto
qed

lemma copy_loop_values:
  assumes "dll h pv p as" "linked q bs"
  shows "\<exists>q' cs. copy_loop h p q = Some q' \<and> linked q' cs \<and> values_at (mem q') cs = values_at (mem q) bs @ values_at h as"
  using assms
proof (induction as arbitrary: pv p q bs)
  case Nil
  then show ?case by (subst copy_loop.simps) auto
next
  case (Cons a as)
  then obtain n where n: "h a = Some n" "p = Some a" "dll h (Some a) (next n) as" by auto
  obtain q1 where q1: "pushNode (node n) q = Some q1" "linked q1 (bs @ [fresh q])"
      "values_at (mem q1) (bs @ [fresh q]) = values_at (mem q) bs @ [node n]"
    using push_linked [OF Cons.prems(2)] by blast
  obtain q' cs where "copy_loop h (next n) q1 = Some q'" "linked q' cs"
      "values_at (mem q') cs = values_at (mem q1) (bs @ [fresh q]) @ values_at h as"
    using Cons.IH [OF n(3) q1(2)] by blast
  then show ?case using n q1 by (subst copy_loop.simps) (auto simp del: values_at_simps(3))
qed

section \<open>A double-ended queue\<close>

text \<open>
  The contract of the storage: \<open>rep s vs\<close> says that \<open>s\<close> stores the values \<open>vs\<close>, front to back.  Taking
  from a non-empty queue and adding always succeed.
\<close>

locale deque =
  fixes rep :: "'s \<Rightarrow> 'v list \<Rightarrow> bool"
    and push_back :: "'v \<Rightarrow> 's \<Rightarrow> 's option" and push_front :: "'v \<Rightarrow> 's \<Rightarrow> 's option"
    and take_front :: "'s \<Rightarrow> (('a \<times> 'v) \<times> 's) option" and take_back :: "'s \<Rightarrow> (('a \<times> 'v) \<times> 's) option"
  assumes push_back: "rep s vs \<Longrightarrow> \<exists>s'. push_back v s = Some s' \<and> rep s' (vs @ [v])"
    and push_front: "rep s vs \<Longrightarrow> \<exists>s'. push_front v s = Some s' \<and> rep s' (v # vs)"
    and take_front: "rep s (v # vs) \<Longrightarrow> \<exists>a s'. take_front s = Some ((a, v), s') \<and> rep s' vs"
    and take_back: "rep s (vs @ [v]) \<Longrightarrow> \<exists>a s'. take_back s = Some ((a, v), s') \<and> rep s' vs"
begin

primrec push_all :: "'v list \<Rightarrow> 's \<Rightarrow> 's option" where
  "push_all [] s = Some s"
| "push_all (v # vs) s = Option.bind (push_back v s) (push_all vs)"

primrec drain_front :: "nat \<Rightarrow> 's \<Rightarrow> ('v list \<times> 's) option" where
  "drain_front 0 s = Some ([], s)"
| "drain_front (Suc n) s = Option.bind (take_front s) (\<lambda>((a, v), s). map_option (\<lambda>(vs, s). (v # vs, s)) (drain_front n s))"

primrec drain_back :: "nat \<Rightarrow> 's \<Rightarrow> ('v list \<times> 's) option" where
  "drain_back 0 s = Some ([], s)"
| "drain_back (Suc n) s = Option.bind (take_back s) (\<lambda>((a, v), s). map_option (\<lambda>(vs, s). (v # vs, s)) (drain_back n s))"

lemma push_all_rep: "rep s vs \<Longrightarrow> \<exists>s'. push_all ws s = Some s' \<and> rep s' (vs @ ws)"
proof (induction ws arbitrary: s vs)
  case (Cons w ws)
  obtain s1 where "push_back w s = Some s1" "rep s1 (vs @ [w])" using push_back [OF Cons.prems] by blast
  then show ?case using Cons.IH [of s1 "vs @ [w]"] by auto
qed simp

lemma drain_front_rep: "rep s (ws @ vs) \<Longrightarrow> \<exists>s'. drain_front (length ws) s = Some (ws, s') \<and> rep s' vs"
proof (induction ws arbitrary: s)
  case (Cons w ws)
  then obtain a s1 where "take_front s = Some ((a, w), s1)" "rep s1 (ws @ vs)" using take_front by fastforce
  then show ?case using Cons.IH [of s1] by auto
qed simp

lemma drain_back_rep: "rep s (vs @ ws) \<Longrightarrow> \<exists>s'. drain_back (length ws) s = Some (rev ws, s') \<and> rep s' vs"
proof (induction ws arbitrary: s rule: rev_induct)
  case (snoc w ws)
  then obtain a s1 where "take_back s = Some ((a, w), s1)" "rep s1 (vs @ ws)" using take_back [of s "vs @ ws" w] by auto
  then show ?case using snoc.IH [of s1] by auto
qed simp

lemma fifo:
  assumes "rep s vs"
  shows "\<exists>s1 s2. push_all ws s = Some s1 \<and> drain_front (length vs + length ws) s1 = Some (vs @ ws, s2) \<and> rep s2 []"
  using push_all_rep [OF assms, of ws] drain_front_rep [of _ "vs @ ws" "[]"] by auto

lemma lifo:
  assumes "rep s vs"
  shows "\<exists>s1 s2. push_all ws s = Some s1 \<and> drain_back (length ws) s1 = Some (rev ws, s2) \<and> rep s2 vs"
  using push_all_rep [OF assms, of ws] drain_back_rep [of _ vs ws] by auto

end

lemma stores_empty: "stores links_empty []"
  by (simp add: stores_def linked_def links_empty_def)

lemma stores_len: "stores q vs \<Longrightarrow> len q = int (length vs)"
  by (auto simp: stores_def linked_def)

lemma stores_head: "stores q vs \<Longrightarrow> head q = None \<longleftrightarrow> vs = []"
  using linked_head_None by (auto simp: stores_def)

lemma stores_unique: "stores q vs \<Longrightarrow> stores q ws \<Longrightarrow> vs = ws"
proof -
  have "dll h pv p as \<Longrightarrow> dll h pv p bs \<Longrightarrow> as = bs" for h pv p as bs
  proof (induction as arbitrary: bs pv p)
    case Nil
    then show ?case by (cases bs) auto
  next
    case (Cons a as)
    then show ?case by (cases bs) auto
  qed
  then show "stores q vs \<Longrightarrow> stores q ws \<Longrightarrow> vs = ws" unfolding stores_def linked_def by blast
qed

interpretation dq: deque stores pushNode insertNode shiftNode popNode
proof
  fix s vs v
  assume "stores s vs"
  then obtain as where as: "linked s as" "vs = values_at (mem s) as" by (auto simp: stores_def)
  show "\<exists>s'. pushNode v s = Some s' \<and> stores s' (vs @ [v])"
    using push_linked [OF as(1), of v] as(2) by (auto simp: stores_def simp del: values_at_simps) metis
  show "\<exists>s'. insertNode v s = Some s' \<and> stores s' (v # vs)"
    using insert_linked [OF as(1), of v] as(2) by (auto simp: stores_def simp del: values_at_simps) metis
next
  fix s vs v
  assume "stores s (v # vs)"
  then obtain bs where bs: "linked s bs" "v # vs = values_at (mem s) bs" by (auto simp: stores_def)
  then obtain a as where as: "linked s (a # as)" "v = node (the (mem s a))" "vs = values_at (mem s) as"
    by (cases bs) auto
  show "\<exists>a s'. shiftNode s = Some ((a, v), s') \<and> stores s' vs"
    using shift_linked [OF as(1)] as by (auto simp: stores_def) metis
next
  fix s vs v
  assume "stores s (vs @ [v])"
  then obtain bs where bs: "linked s bs" "vs @ [v] = values_at (mem s) bs" by (auto simp: stores_def)
  then obtain a as where as: "linked s (as @ [a])" "v = node (the (mem s a))" "vs = values_at (mem s) as"
    by (cases bs rule: rev_cases) auto
  show "\<exists>a s'. popNode s = Some ((a, v), s') \<and> stores s' vs"
    using pop_linked [OF as(1)] as by (auto simp: stores_def) metis
qed

lemma clear_stores:
  assumes "stores q vs"
  shows "clear_links q = Some (q\<lparr>mem := (\<lambda>_. None), head := None, tail := None\<rparr>)"
proof -
  obtain as where as: "linked q as" using assms by (auto simp: stores_def)
  have "(\<lambda>a. if a \<in> set as then None else mem q a) = (\<lambda>_. None)"
    using linkedD(2) [OF as] by (auto simp: fun_eq_iff domIff)
  then show ?thesis using del_loop_all [OF linkedD(4) [OF as] linkedD(1) [OF as]] by (simp add: clear_links_def)
qed

end
