(* ===== verification/Queue_System.thy ===== *)
theory Queue_System
  imports Queue_Links
begin

text \<open>
  The Queue (\<open>qore_queue_private\<close>, \<open>src/lib/QoreQueue.cpp\<close> and \<open>QoreQueueIntern.h\<close>): blocking reads and
  writes, error status, deletion, the count of scannable values, and the threads that use it.

  Each critical section of the lock \<open>l\<close> is one function on the state.  A thread that waits on a
  condition variable leaves the function with \<open>Sleeps\<close>, and the \<open>resume\<close> functions continue it
  after the wait.  A condition variable stores its sleepers and the number of signals that have not
  yet woken one of them up.  \<open>None\<close> is a failed assertion or the use of a null pointer.

  The calls of \<open>incScanPrivateData\<close> and \<open>decScanPrivateData\<close> come after the lock has been released: the
  critical section only decides on them (the local variables \<open>inc_obj\<close> and \<open>dec_obj\<close>), and each call is a
  step of its own that other threads can precede.
\<close>

section \<open>State\<close>

datatype request = PushReq qvalue | InsertReq qvalue | ShiftReq | PopReq

record sleeper =
  sl_tid :: int
  sl_self :: bool
  sl_req :: request
  sl_timeout :: int

record condvar =
  sleepers :: "sleeper list"
  pending :: nat

definition cv_init :: condvar where
  "cv_init = \<lparr>sleepers = [], pending = 0\<rparr>"

definition cv_signal :: "condvar \<Rightarrow> condvar" where
  "cv_signal c = (if pending c < length (sleepers c) then c\<lparr>pending := pending c + 1\<rparr> else c)"

definition cv_broadcast :: "condvar \<Rightarrow> condvar" where
  "cv_broadcast c = c\<lparr>pending := length (sleepers c)\<rparr>"

definition cv_sleep :: "sleeper \<Rightarrow> condvar \<Rightarrow> condvar" where
  "cv_sleep s c = c\<lparr>sleepers := sleepers c @ [s]\<rparr>"

definition cv_leave :: "sleeper \<Rightarrow> condvar \<Rightarrow> condvar" where
  "cv_leave s c = c\<lparr>sleepers := remove1 s (sleepers c)\<rparr>"

definition cv_take :: "condvar \<Rightarrow> condvar" where
  "cv_take c = c\<lparr>pending := pending c - 1\<rparr>"

text \<open>
  \<open>obj_scan\<close> and \<open>obj_deferred\<close> are the counter \<open>scan_private_data\<close> and the flag
  \<open>deferred_scan\<close> of the object that owns the queue.  \<open>inc_due\<close> are the threads that have left their
  critical section with \<open>inc_obj\<close> set and have not yet called \<open>incScanPrivateData\<close>, \<open>dec_due\<close> the number
  of those that have still to call \<open>decScanPrivateData\<close>.
\<close>

record queue =
  lnk :: links
  err :: string
  desc :: "string option"
  max_len :: int
  read_cond :: condvar
  write_cond :: condvar
  read_waiting :: int
  write_waiting :: int
  scan_count :: int
  obj_scan :: int
  obj_deferred :: bool
  inc_due :: "int list"
  dec_due :: nat

abbreviation (input) Queue_Deleted :: int where "Queue_Deleted \<equiv> - 1"
abbreviation (input) QW_DEL :: int where "QW_DEL \<equiv> - 1"
abbreviation (input) QW_TIMEOUT :: int where "QW_TIMEOUT \<equiv> - 2"
abbreviation (input) QW_ERROR :: int where "QW_ERROR \<equiv> - 3"

definition qlen :: "queue \<Rightarrow> int" where "qlen q = len (lnk q)"

definition set_len :: "int \<Rightarrow> queue \<Rightarrow> queue" where
  "set_len n q = q\<lparr>lnk := (lnk q)\<lparr>len := n\<rparr>\<rparr>"

definition queue_new :: "int \<Rightarrow> queue option" where
  "queue_new n_max = (if n_max = 0 then None else Some
     \<lparr>lnk = links_empty, err = '''', desc = None, max_len = n_max, read_cond = cv_init, write_cond = cv_init,
      read_waiting = 0, write_waiting = 0, scan_count = 0, obj_scan = 0, obj_deferred = False,
      inc_due = [], dec_due = 0\<rparr>)"

definition queue_empty :: "queue \<Rightarrow> bool" where "queue_empty q \<longleftrightarrow> qlen q = 0"
definition queue_size :: "queue \<Rightarrow> int" where "queue_size q = qlen q"
definition getMax :: "queue \<Rightarrow> int" where "getMax q = max_len q"
definition getReadWaiting :: "queue \<Rightarrow> int" where "getReadWaiting q = read_waiting q"
definition getWriteWaiting :: "queue \<Rightarrow> int" where "getWriteWaiting q = write_waiting q"

section \<open>Scannable private data of the owner\<close>

definition incScanPrivateData :: "bool \<Rightarrow> queue \<Rightarrow> queue option" where
  "incScanPrivateData self q = 
     (if self then let q = q\<lparr>obj_scan := obj_scan q + 1\<rparr>
        in Some (if obj_scan q \<noteq> 0 \<and> \<not> obj_deferred q then q\<lparr>obj_deferred := True\<rparr> else q)
      else None)"

definition decScanPrivateData :: "bool \<Rightarrow> queue \<Rightarrow> queue option" where
  "decScanPrivateData self q = (if self \<and> obj_scan q > 0 then Some (q\<lparr>obj_scan := obj_scan q - 1\<rparr>) else None)"

section \<open>Internal operations\<close>

definition clearIntern :: "queue \<Rightarrow> queue option" where
  "clearIntern q = do { l \<leftarrow> clear_links (lnk q); Some (q\<lparr>lnk := l, scan_count := 0\<rparr>) }"

definition wake_reader :: "queue \<Rightarrow> queue" where
  "wake_reader q = (if read_waiting q \<noteq> 0 then q\<lparr>read_cond := cv_signal (read_cond q)\<rparr> else q)"

definition wake_writer :: "queue \<Rightarrow> queue" where
  "wake_writer q = (if write_waiting q \<noteq> 0 then q\<lparr>write_cond := cv_signal (write_cond q)\<rparr> else q)"

definition pushIntern :: "qvalue \<Rightarrow> queue \<Rightarrow> queue option" where
  "pushIntern v q = do { l \<leftarrow> pushNode v (lnk q); Some (wake_reader (q\<lparr>lnk := l\<rparr>)) }"

definition insertIntern :: "qvalue \<Rightarrow> queue \<Rightarrow> queue option" where
  "insertIntern v q = do { l \<leftarrow> insertNode v (lnk q); Some (wake_reader (q\<lparr>lnk := l\<rparr>)) }"

text \<open>\<open>raiseException(err.c_str(), desc->stringRefSelf())\<close>\<close>

definition raise_err :: "xsink \<Rightarrow> queue \<Rightarrow> xsink option" where
  "raise_err xs q = (if desc q = None then None else Some (raiseException xs (err q)))"

definition checkWriteIntern :: "xsink \<Rightarrow> bool \<Rightarrow> queue \<Rightarrow> (int \<times> xsink) option" where
  "checkWriteIntern xs always_error q =
     (if qlen q = Queue_Deleted then Some (- 1, if always_error then raiseException xs ''QUEUE-ERROR'' else xs)
      else if err q \<noteq> '''' then map_option (Pair (- 1)) (raise_err xs q)
      else Some (0, xs))"

text \<open>The outcome of the head of a wait loop: the code \<open>rc\<close> it leaves the loop with, or the wait.\<close>

datatype wait_result = WaitRc int xsink | WaitSleep

definition waitReadIntern :: "xsink \<Rightarrow> int \<Rightarrow> queue \<Rightarrow> wait_result option" where
  "waitReadIntern xs timeout_ms q =
     (if head (lnk q) = None then
        (if err q \<noteq> '''' then map_option (WaitRc QW_ERROR) (raise_err xs q)
         else if timeout_ms \<ge> 0 then Some WaitSleep
         else Some (WaitRc QW_TIMEOUT xs))
      else if err q \<noteq> '''' then map_option (WaitRc QW_ERROR) (raise_err xs q)
      else Some (WaitRc 0 xs))"

definition waitWriteIntern :: "xsink \<Rightarrow> int \<Rightarrow> queue \<Rightarrow> wait_result option" where
  "waitWriteIntern xs timeout_ms q =
     (if max_len q > 0 \<and> qlen q \<ge> max_len q then
        (if err q \<noteq> '''' then map_option (WaitRc QW_ERROR) (raise_err xs q)
         else if timeout_ms \<ge> 0 then Some WaitSleep
         else Some (WaitRc QW_TIMEOUT xs))
      else if err q \<noteq> '''' then map_option (WaitRc QW_ERROR) (raise_err xs q)
      else Some (WaitRc 0 xs))"

text \<open>After the wait: a timeout, the deletion of the queue, or the head of the loop again.\<close>

definition waitRead_again :: "xsink \<Rightarrow> int \<Rightarrow> bool \<Rightarrow> queue \<Rightarrow> wait_result option" where
  "waitRead_again xs timeout_ms timed_out q =
     (if timed_out then (if timeout_ms = 0 then None else Some (WaitRc QW_TIMEOUT xs))
      else if qlen q = Queue_Deleted then Some (WaitRc QW_DEL (raiseException xs ''QUEUE-ERROR''))
      else waitReadIntern xs timeout_ms q)"

definition waitWrite_again :: "xsink \<Rightarrow> int \<Rightarrow> bool \<Rightarrow> queue \<Rightarrow> wait_result option" where
  "waitWrite_again xs timeout_ms timed_out q =
     (if timed_out then (if timeout_ms = 0 then None else Some (WaitRc QW_TIMEOUT xs))
      else if qlen q = Queue_Deleted then Some (WaitRc QW_DEL (raiseException xs ''QUEUE-ERROR''))
      else waitWriteIntern xs timeout_ms q)"

section \<open>Reading and writing\<close>

text \<open>
  What an operation answers: it sleeps, or it returns a value (\<open>None\<close> is no value) with the flag
  \<open>to\<close> and the exceptions it raised.
\<close>

datatype answer = Sleeps | Returns "qvalue option" bool xsink

definition count_scan :: "int \<Rightarrow> bool \<Rightarrow> qvalue \<Rightarrow> queue \<Rightarrow> queue" where
  "count_scan t self v q =
     (if self \<and> needs_scan v
      then let q = q\<lparr>scan_count := scan_count q + 1\<rparr>
           in if scan_count q = 1 then q\<lparr>inc_due := t # inc_due q\<rparr> else q
      else q)"

definition uncount_scan :: "bool \<Rightarrow> qvalue \<Rightarrow> queue \<Rightarrow> queue" where
  "uncount_scan self v q =
     (if self \<and> needs_scan v
      then let q = q\<lparr>scan_count := scan_count q - 1\<rparr>
           in if scan_count q = 0 then q\<lparr>dec_due := dec_due q + 1\<rparr> else q
      else q)"

text \<open>\<open>t\<close> is the calling thread.\<close>

fun run_request :: "xsink \<Rightarrow> int \<Rightarrow> bool \<Rightarrow> request \<Rightarrow> queue \<Rightarrow> (answer \<times> queue) option" where
  "run_request xs t self (PushReq v) q = do {
     q \<leftarrow> pushIntern v q;
     Some (Returns None False xs, count_scan t self v q) }"
| "run_request xs t self (InsertReq v) q = do {
     q \<leftarrow> insertIntern v q;
     Some (Returns None False xs, count_scan t self v q) }"
| "run_request xs t self ShiftReq q = do {
     ((n, rv), l) \<leftarrow> shiftNode (lnk q);
     let q = wake_writer (q\<lparr>lnk := l\<rparr>);
     Some (Returns (Some rv) False xs, uncount_scan self (value_of_pointer (Some n)) q) }"
| "run_request xs t self PopReq q = do {
     ((n, rv), l) \<leftarrow> popNode (lnk q);
     let q = wake_writer (q\<lparr>lnk := l\<rparr>);
     Some (Returns (Some rv) False xs, uncount_scan self (value_of_pointer (Some n)) q) }"

definition sleep_read :: "sleeper \<Rightarrow> queue \<Rightarrow> queue" where
  "sleep_read s q = q\<lparr>read_waiting := read_waiting q + 1, read_cond := cv_sleep s (read_cond q)\<rparr>"

definition sleep_write :: "sleeper \<Rightarrow> queue \<Rightarrow> queue" where
  "sleep_write s q = q\<lparr>write_waiting := write_waiting q + 1, write_cond := cv_sleep s (write_cond q)\<rparr>"

text \<open>The rest of an operation once the outcome of its wait loop is known.\<close>

fun after_wait :: "(sleeper \<Rightarrow> queue \<Rightarrow> queue) \<Rightarrow> sleeper \<Rightarrow> queue \<Rightarrow> wait_result \<Rightarrow> (answer \<times> queue) option" where
  "after_wait sleep s q WaitSleep = Some (Sleeps, sleep s q)"
| "after_wait sleep s q (WaitRc rc xs) =
     (if rc \<noteq> 0 then Some (Returns None (rc = QW_TIMEOUT) xs, q) else run_request xs (sl_tid s) (sl_self s) (sl_req s) q)"

definition write_op :: "sleeper \<Rightarrow> queue \<Rightarrow> (answer \<times> queue) option" where
  "write_op s q = do {
     (rc, xs) \<leftarrow> checkWriteIntern [] False q;
     if rc \<noteq> 0 then Some (Returns None False xs, q)
     else do { r \<leftarrow> waitWriteIntern xs (sl_timeout s) q; after_wait sleep_write s q r } }"

definition read_op :: "sleeper \<Rightarrow> queue \<Rightarrow> (answer \<times> queue) option" where
  "read_op s q = do {
     (rc, xs) \<leftarrow> checkWriteIntern [] True q;
     if rc \<noteq> 0 then Some (Returns None False xs, q)
     else do { r \<leftarrow> waitReadIntern xs (sl_timeout s) q; after_wait sleep_read s q r } }"

definition queue_push :: "int \<Rightarrow> bool \<Rightarrow> qvalue \<Rightarrow> int \<Rightarrow> queue \<Rightarrow> (answer \<times> queue) option" where
  "queue_push t self v timeout_ms = write_op \<lparr>sl_tid = t, sl_self = self, sl_req = PushReq v, sl_timeout = timeout_ms\<rparr>"

definition queue_insert :: "int \<Rightarrow> bool \<Rightarrow> qvalue \<Rightarrow> int \<Rightarrow> queue \<Rightarrow> (answer \<times> queue) option" where
  "queue_insert t self v timeout_ms = write_op \<lparr>sl_tid = t, sl_self = self, sl_req = InsertReq v, sl_timeout = timeout_ms\<rparr>"

definition queue_shift :: "int \<Rightarrow> bool \<Rightarrow> int \<Rightarrow> queue \<Rightarrow> (answer \<times> queue) option" where
  "queue_shift t self timeout_ms = read_op \<lparr>sl_tid = t, sl_self = self, sl_req = ShiftReq, sl_timeout = timeout_ms\<rparr>"

definition queue_pop :: "int \<Rightarrow> bool \<Rightarrow> int \<Rightarrow> queue \<Rightarrow> (answer \<times> queue) option" where
  "queue_pop t self timeout_ms = read_op \<lparr>sl_tid = t, sl_self = self, sl_req = PopReq, sl_timeout = timeout_ms\<rparr>"

text \<open>A sleeper continues: \<open>--read_waiting\<close>, \<open>--write_waiting\<close>, then the tests after the wait.\<close>

definition resume_read :: "bool \<Rightarrow> sleeper \<Rightarrow> queue \<Rightarrow> (answer \<times> queue) option" where
  "resume_read timed_out s q = (let q = q\<lparr>read_cond := cv_leave s (read_cond q), read_waiting := read_waiting q - 1\<rparr>
     in do { r \<leftarrow> waitRead_again [] (sl_timeout s) timed_out q; after_wait sleep_read s q r })"

definition resume_write :: "bool \<Rightarrow> sleeper \<Rightarrow> queue \<Rightarrow> (answer \<times> queue) option" where
  "resume_write timed_out s q = (let q = q\<lparr>write_cond := cv_leave s (write_cond q), write_waiting := write_waiting q - 1\<rparr>
     in do { r \<leftarrow> waitWrite_again [] (sl_timeout s) timed_out q; after_wait sleep_write s q r })"

section \<open>The other operations\<close>

definition pushAndTakeRef :: "qvalue \<Rightarrow> queue \<Rightarrow> queue option" where
  "pushAndTakeRef v q =
     (if qlen q = Queue_Deleted \<or> err q \<noteq> '''' then Some q
      else if max_len q \<noteq> - 1 then None
      else pushIntern v q)"

definition queue_clear :: "queue \<Rightarrow> (xsink \<times> queue) option" where
  "queue_clear q = do {
     (rc, xs) \<leftarrow> checkWriteIntern [] False q;
     if rc \<noteq> 0 then Some (xs, q)
     else if read_waiting q \<noteq> 0 then (if head (lnk q) = None then Some (xs, q) else None)
     else do {
       let dec_obj = (scan_count q \<noteq> 0);
       q \<leftarrow> clearIntern q;
       let q = wake_writer (set_len 0 q);
       Some (xs, if dec_obj then q\<lparr>dec_due := dec_due q + 1\<rparr> else q) } }"

definition broadcast_waiting :: "queue \<Rightarrow> queue" where
  "broadcast_waiting q =
     (let q = (if read_waiting q \<noteq> 0 then q\<lparr>read_cond := cv_broadcast (read_cond q)\<rparr> else q)
      in if write_waiting q \<noteq> 0 then q\<lparr>write_cond := cv_broadcast (write_cond q)\<rparr> else q)"

definition setError :: "string \<Rightarrow> string \<Rightarrow> queue \<Rightarrow> queue option" where
  "setError n_err n_desc q =
     (if qlen q = Queue_Deleted then Some q
      else do {
        let q = q\<lparr>err := n_err, desc := Some n_desc\<rparr>;
        let dec_obj = (scan_count q \<noteq> 0);
        q \<leftarrow> clearIntern q;
        let q = broadcast_waiting (set_len 0 q);
        Some (if dec_obj then q\<lparr>dec_due := dec_due q + 1\<rparr> else q) })"

definition clearError :: "queue \<Rightarrow> queue" where
  "clearError q = (if qlen q = Queue_Deleted then q else q\<lparr>err := '''', desc := None\<rparr>)"

definition queue_destructor :: "queue \<Rightarrow> (xsink \<times> queue) option" where
  "queue_destructor q = do {
     let xs = (if read_waiting q \<noteq> 0 then raiseException [] ''QUEUE-ERROR'' else []);
     let xs = (if write_waiting q \<noteq> 0 then raiseException xs ''QUEUE-ERROR'' else xs);
     q \<leftarrow> clearIntern (broadcast_waiting q);
     Some (xs, (set_len Queue_Deleted q)\<lparr>desc := None\<rparr>) }"

definition queue_copy :: "queue \<Rightarrow> queue option" where
  "queue_copy orig = do {
     let q = \<lparr>lnk = links_empty, err = err orig, desc = desc orig, max_len = max_len orig, read_cond = cv_init,
       write_cond = cv_init, read_waiting = 0, write_waiting = 0, scan_count = 0, obj_scan = 0, obj_deferred = False,
       inc_due = [], dec_due = 0\<rparr>;
     if qlen orig = Queue_Deleted then Some q
     else do { l \<leftarrow> copy_loop (mem (lnk orig)) (head (lnk orig)) (lnk q); Some (q\<lparr>lnk := l\<rparr>) } }"

text \<open>\<open>trylock_failed\<close> is the outcome of \<open>l.trylock()\<close>; \<open>scanCheck\<close> is \<open>RObject::scanCheck\<close> of the scanning object.\<close>

definition scanMembers :: "(qvalue \<Rightarrow> bool) \<Rightarrow> bool \<Rightarrow> queue \<Rightarrow> bool option" where
  "scanMembers scanCheck trylock_failed q =
     (if trylock_failed then Some False else scan_loop scanCheck (mem (lnk q)) (head (lnk q)))"

section \<open>Steps\<close>

text \<open>
  The operations of the threads on one queue.  \<open>Call\<close> starts one of the four blocking operations.
  A sleeper runs again after a signal (\<open>ReadWake\<close>, \<open>WriteWake\<close>) or when its timeout has expired.
  \<open>late\<close> says whether a wait that reports a timeout may have consumed a signal, as POSIX allows for
  \<open>pthread_cond_timedwait\<close> (the flag of \<open>ReadTimeout\<close> and \<open>WriteTimeout\<close>).  \<open>own\<close> says whether the callers pass the owning object.
  \<open>IncScan t\<close> and \<open>DecScan\<close> are the calls that the operations make for the owning object after they have
  released the lock; a thread starts no other operation before it has made its call.
\<close>

datatype q_op = Call sleeper | PushRefOp qvalue | ClearOp | SetErrorOp string string | ClearErrorOp | DestroyOp
  | ReadWake sleeper | WriteWake sleeper | ReadTimeout sleeper bool | WriteTimeout sleeper bool
  | IncScan int | DecScan

fun is_read :: "request \<Rightarrow> bool" where
  "is_read ShiftReq = True"
| "is_read PopReq = True"
| "is_read _ = False"

definition asleep :: "queue \<Rightarrow> sleeper list" where
  "asleep q = sleepers (read_cond q) @ sleepers (write_cond q)"

fun q_enabled :: "bool \<Rightarrow> bool \<Rightarrow> queue \<Rightarrow> q_op \<Rightarrow> bool" where
  "q_enabled own late q (Call s) \<longleftrightarrow> sl_self s = own \<and> sl_tid s \<notin> sl_tid ` set (asleep q)
     \<and> sl_tid s \<notin> set (inc_due q)"
| "q_enabled own late q (ReadWake s) \<longleftrightarrow> s \<in> set (sleepers (read_cond q)) \<and> 0 < pending (read_cond q)"
| "q_enabled own late q (WriteWake s) \<longleftrightarrow> s \<in> set (sleepers (write_cond q)) \<and> 0 < pending (write_cond q)"
| "q_enabled own late q (ReadTimeout s consumed) \<longleftrightarrow> s \<in> set (sleepers (read_cond q)) \<and> 0 < sl_timeout s
     \<and> (if consumed then late \<and> 0 < pending (read_cond q) else pending (read_cond q) < length (sleepers (read_cond q)))"
| "q_enabled own late q (WriteTimeout s consumed) \<longleftrightarrow> s \<in> set (sleepers (write_cond q)) \<and> 0 < sl_timeout s
     \<and> (if consumed then late \<and> 0 < pending (write_cond q) else pending (write_cond q) < length (sleepers (write_cond q)))"
| "q_enabled own late q (IncScan t) \<longleftrightarrow> t \<in> set (inc_due q)"
| "q_enabled own late q DecScan \<longleftrightarrow> 0 < dec_due q"
| "q_enabled own late q _ \<longleftrightarrow> True"

fun q_step :: "bool \<Rightarrow> q_op \<Rightarrow> queue \<Rightarrow> queue option" where
  "q_step own (Call s) q = map_option snd (if is_read (sl_req s) then read_op s q else write_op s q)"
| "q_step own (PushRefOp v) q = pushAndTakeRef v q"
| "q_step own ClearOp q = map_option snd (queue_clear q)"
| "q_step own (SetErrorOp e d) q = setError e d q"
| "q_step own ClearErrorOp q = Some (clearError q)"
| "q_step own DestroyOp q = map_option snd (queue_destructor q)"
| "q_step own (ReadWake s) q = map_option snd (resume_read False s (q\<lparr>read_cond := cv_take (read_cond q)\<rparr>))"
| "q_step own (WriteWake s) q = map_option snd (resume_write False s (q\<lparr>write_cond := cv_take (write_cond q)\<rparr>))"
| "q_step own (ReadTimeout s consumed) q =
     map_option snd (resume_read True s (if consumed then q\<lparr>read_cond := cv_take (read_cond q)\<rparr> else q))"
| "q_step own (WriteTimeout s consumed) q =
     map_option snd (resume_write True s (if consumed then q\<lparr>write_cond := cv_take (write_cond q)\<rparr> else q))"
| "q_step own (IncScan t) q = incScanPrivateData own (q\<lparr>inc_due := remove1 t (inc_due q)\<rparr>)"
| "q_step own DecScan q = decScanPrivateData own (q\<lparr>dec_due := dec_due q - 1\<rparr>)"

inductive q_reach :: "bool \<Rightarrow> bool \<Rightarrow> int \<Rightarrow> queue \<Rightarrow> bool" for own late m where
  new: "queue_new m = Some q \<Longrightarrow> q_reach own late m q"
| step: "q_reach own late m q \<Longrightarrow> q_enabled own late q op \<Longrightarrow> q_step own op q = Some q' \<Longrightarrow> q_reach own late m q'"

section \<open>The invariant\<close>

definition store_ok :: "queue \<Rightarrow> bool" where
  "store_ok q \<longleftrightarrow> (if qlen q = Queue_Deleted then mem (lnk q) = (\<lambda>_. None) \<and> head (lnk q) = None \<and> tail (lnk q) = None
     else (\<exists>vs. stores (lnk q) vs)) \<and> (max_len q > 0 \<longrightarrow> qlen q \<le> max_len q)"

definition cv_ok :: "bool \<Rightarrow> (request \<Rightarrow> bool) \<Rightarrow> int \<Rightarrow> condvar \<Rightarrow> bool" where
  "cv_ok own P n c \<longleftrightarrow> n = int (length (sleepers c)) \<and> pending c \<le> length (sleepers c) \<and> distinct (sleepers c)
     \<and> (\<forall>s\<in>set (sleepers c). sl_self s = own \<and> P (sl_req s) \<and> 0 \<le> sl_timeout s)"

definition conds_ok :: "bool \<Rightarrow> queue \<Rightarrow> bool" where
  "conds_ok own q \<longleftrightarrow> cv_ok own is_read (read_waiting q) (read_cond q)
     \<and> cv_ok own (\<lambda>r. \<not> is_read r) (write_waiting q) (write_cond q) \<and> distinct (map sl_tid (asleep q))"

definition all_signalled :: "queue \<Rightarrow> bool" where
  "all_signalled q \<longleftrightarrow> pending (read_cond q) = length (sleepers (read_cond q))
     \<and> pending (write_cond q) = length (sleepers (write_cond q))"

definition error_ok :: "queue \<Rightarrow> bool" where
  "error_ok q \<longleftrightarrow> (qlen q = Queue_Deleted \<longrightarrow> all_signalled q)
     \<and> (qlen q \<noteq> Queue_Deleted \<and> err q \<noteq> '''' \<longrightarrow> desc q \<noteq> None \<and> qlen q = 0 \<and> all_signalled q)"

text \<open>
  The count of the owner, with the calls still due, says whether the queue counts a scannable value;
  after a deletion it can be left at one.
\<close>

definition scan_balance :: "queue \<Rightarrow> int" where
  "scan_balance q = obj_scan q + int (length (inc_due q)) - int (dec_due q)"

definition scan_ok :: "bool \<Rightarrow> queue \<Rightarrow> bool" where
  "scan_ok own q \<longleftrightarrow> 0 \<le> scan_count q \<and> 0 \<le> obj_scan q \<and> scan_balance q \<in> {0, 1}
     \<and> (\<not> own \<longrightarrow> scan_count q = 0 \<and> inc_due q = [] \<and> dec_due q = 0)
     \<and> (qlen q \<noteq> Queue_Deleted \<longrightarrow> scan_balance q = (if scan_count q > 0 then 1 else 0))"

text \<open>
  The signals under way are enough: a reader that sleeps without a signal faces a queue with no more
  values than there are readers already signalled (up to \<open>k\<close>), and writers that sleep with no signal
  under way face a queue that is not empty.
\<close>

definition reads_ok :: "int \<Rightarrow> queue \<Rightarrow> bool" where
  "reads_ok k q \<longleftrightarrow> (pending (read_cond q) < length (sleepers (read_cond q)) \<longrightarrow> qlen q \<le> int (pending (read_cond q)) + k)"

definition writes_ok :: "queue \<Rightarrow> bool" where
  "writes_ok q \<longleftrightarrow> (pending (write_cond q) = 0 \<and> sleepers (write_cond q) \<noteq> [] \<longrightarrow> 0 < qlen q)"

definition base_inv :: "bool \<Rightarrow> queue \<Rightarrow> bool" where
  "base_inv own q \<longleftrightarrow> store_ok q \<and> conds_ok own q \<and> error_ok q \<and> scan_ok own q"

definition q_inv :: "bool \<Rightarrow> bool \<Rightarrow> queue \<Rightarrow> bool" where
  "q_inv own late q \<longleftrightarrow> base_inv own q \<and> (\<not> late \<longrightarrow> reads_ok 0 q \<and> writes_ok q)"

lemmas inv_defs = base_inv_def store_ok_def conds_ok_def error_ok_def scan_ok_def scan_balance_def reads_ok_def writes_ok_def
  all_signalled_def qlen_def asleep_def
lemmas cv_defs = cv_signal_def cv_broadcast_def cv_sleep_def cv_leave_def cv_take_def

text \<open>The frame of the four internal updates: what they do to each field.\<close>

lemma wake_reader_fields [simp]:
  "lnk (wake_reader q) = lnk q" "err (wake_reader q) = err q" "desc (wake_reader q) = desc q" "max_len (wake_reader q) = max_len q"
  "write_cond (wake_reader q) = write_cond q" "read_waiting (wake_reader q) = read_waiting q"
  "write_waiting (wake_reader q) = write_waiting q" "scan_count (wake_reader q) = scan_count q" "obj_scan (wake_reader q) = obj_scan q"
  "inc_due (wake_reader q) = inc_due q" "dec_due (wake_reader q) = dec_due q"
  "sleepers (read_cond (wake_reader q)) = sleepers (read_cond q)"
  by (simp_all add: wake_reader_def cv_signal_def)

lemma wake_writer_fields [simp]:
  "lnk (wake_writer q) = lnk q" "err (wake_writer q) = err q" "desc (wake_writer q) = desc q" "max_len (wake_writer q) = max_len q"
  "read_cond (wake_writer q) = read_cond q" "read_waiting (wake_writer q) = read_waiting q"
  "write_waiting (wake_writer q) = write_waiting q" "scan_count (wake_writer q) = scan_count q" "obj_scan (wake_writer q) = obj_scan q"
  "inc_due (wake_writer q) = inc_due q" "dec_due (wake_writer q) = dec_due q"
  "sleepers (write_cond (wake_writer q)) = sleepers (write_cond q)"
  by (simp_all add: wake_writer_def cv_signal_def)

lemma count_scan_ok:
  assumes "scan_ok own q" "qlen q \<noteq> Queue_Deleted"
  shows "\<exists>n ts. count_scan t own v q = q\<lparr>scan_count := n, inc_due := ts\<rparr> \<and> scan_ok own (q\<lparr>scan_count := n, inc_due := ts\<rparr>)"
proof (cases "own \<and> needs_scan v")
  case True
  let ?n = "scan_count q + 1" and ?ts = "if scan_count q = 0 then t # inc_due q else inc_due q"
  have "count_scan t own v q = q\<lparr>scan_count := ?n, inc_due := ?ts\<rparr>" using True by (simp add: count_scan_def Let_def)
  moreover have "scan_ok own (q\<lparr>scan_count := ?n, inc_due := ?ts\<rparr>)"
    using True assms by (auto simp: scan_ok_def scan_balance_def qlen_def split: if_splits)
  ultimately show ?thesis by blast
next
  case False
  then have "count_scan t own v q = q\<lparr>scan_count := scan_count q, inc_due := inc_due q\<rparr>" by (auto simp: count_scan_def)
  then show ?thesis using assms(1) by (intro exI [of _ "scan_count q"] exI [of _ "inc_due q"]) simp
qed

lemma uncount_scan_pointer [simp]: "uncount_scan self (value_of_pointer p) q = q"
  by (simp add: uncount_scan_def value_of_pointer_def)

lemma store_stores: "base_inv own q \<Longrightarrow> qlen q \<noteq> Queue_Deleted \<Longrightarrow> \<exists>vs. stores (lnk q) vs"
  by (simp add: base_inv_def store_ok_def)

lemma wake_reader_reads_ok:
  assumes "reads_ok k q" "conds_ok own q" "len l \<le> qlen q + 1"
  shows "reads_ok k (wake_reader (q\<lparr>lnk := l\<rparr>))"
  using assms by (auto simp: inv_defs wake_reader_def cv_signal_def cv_ok_def)

lemma wake_writer_writes_ok: "conds_ok own q \<Longrightarrow> writes_ok (wake_writer (q\<lparr>lnk := l\<rparr>))"
  by (auto simp: inv_defs wake_writer_def cv_signal_def cv_ok_def)

lemma wake_conds_ok [simp]: "conds_ok own q \<Longrightarrow> conds_ok own (wake_reader q)" "conds_ok own q \<Longrightarrow> conds_ok own (wake_writer q)"
  by (auto simp: inv_defs wake_reader_def wake_writer_def cv_signal_def cv_ok_def)

lemma inv_fields [simp]:
  "conds_ok own (q\<lparr>lnk := l\<rparr>) = conds_ok own q"
  "qlen (q\<lparr>lnk := l\<rparr>) = len l" "qlen (wake_reader q) = qlen q" "qlen (wake_writer q) = qlen q"
  by (simp_all add: inv_defs)

lemma inv_scan_fields [simp]:
  "conds_ok own (q\<lparr>scan_count := n\<rparr>) = conds_ok own q" "conds_ok own (q\<lparr>obj_scan := n\<rparr>) = conds_ok own q"
  "conds_ok own (q\<lparr>obj_deferred := d\<rparr>) = conds_ok own q" "conds_ok own (q\<lparr>inc_due := ts\<rparr>) = conds_ok own q"
  "conds_ok own (q\<lparr>dec_due := k\<rparr>) = conds_ok own q"
  "reads_ok j (q\<lparr>scan_count := n\<rparr>) = reads_ok j q" "reads_ok j (q\<lparr>obj_scan := n\<rparr>) = reads_ok j q"
  "reads_ok j (q\<lparr>obj_deferred := d\<rparr>) = reads_ok j q" "reads_ok j (q\<lparr>inc_due := ts\<rparr>) = reads_ok j q"
  "reads_ok j (q\<lparr>dec_due := k\<rparr>) = reads_ok j q"
  "writes_ok (q\<lparr>scan_count := n\<rparr>) = writes_ok q" "writes_ok (q\<lparr>obj_scan := n\<rparr>) = writes_ok q"
  "writes_ok (q\<lparr>obj_deferred := d\<rparr>) = writes_ok q" "writes_ok (q\<lparr>inc_due := ts\<rparr>) = writes_ok q"
  "writes_ok (q\<lparr>dec_due := k\<rparr>) = writes_ok q"
  "store_ok (q\<lparr>scan_count := n\<rparr>) = store_ok q" "store_ok (q\<lparr>obj_scan := n\<rparr>) = store_ok q"
  "store_ok (q\<lparr>obj_deferred := d\<rparr>) = store_ok q" "store_ok (q\<lparr>inc_due := ts\<rparr>) = store_ok q"
  "store_ok (q\<lparr>dec_due := k\<rparr>) = store_ok q"
  "error_ok (q\<lparr>scan_count := n\<rparr>) = error_ok q" "error_ok (q\<lparr>obj_scan := n\<rparr>) = error_ok q"
  "error_ok (q\<lparr>obj_deferred := d\<rparr>) = error_ok q" "error_ok (q\<lparr>inc_due := ts\<rparr>) = error_ok q"
  "error_ok (q\<lparr>dec_due := k\<rparr>) = error_ok q"
  "qlen (q\<lparr>scan_count := n\<rparr>) = qlen q" "qlen (q\<lparr>obj_scan := n\<rparr>) = qlen q"
  "qlen (q\<lparr>obj_deferred := d\<rparr>) = qlen q" "qlen (q\<lparr>inc_due := ts\<rparr>) = qlen q" "qlen (q\<lparr>dec_due := k\<rparr>) = qlen q"
  by (simp_all add: inv_defs)

text \<open>The part of a write after the wait: the value is stored, one reader is signalled.\<close>

lemma write_body:
  assumes b: "base_inv own q" and e: "err q = ''''" and h: "stores (lnk q) vs" and m: "max_len q > 0 \<longrightarrow> qlen q < max_len q"
    and st: "stores l ws" "length ws = Suc (length vs)"
  shows "\<exists>q'. count_scan t own v (wake_reader (q\<lparr>lnk := l\<rparr>)) = q' \<and> lnk q' = l \<and> base_inv own q' \<and> 0 < qlen q'
    \<and> (reads_ok 0 q \<longrightarrow> reads_ok 0 q') \<and> err q' = err q \<and> max_len q' = max_len q"
proof -
  let ?q = "wake_reader (q\<lparr>lnk := l\<rparr>)"
  have ln: "qlen q = int (length vs)" "len l = int (length vs) + 1" using stores_len [OF h] stores_len [OF st(1)] st(2) by (auto simp: qlen_def)
  have "scan_ok own ?q" using b ln by (simp add: base_inv_def scan_ok_def scan_balance_def)
  then obtain n ts where nk: "count_scan t own v ?q = ?q\<lparr>scan_count := n, inc_due := ts\<rparr>"
      "scan_ok own (?q\<lparr>scan_count := n, inc_due := ts\<rparr>)"
    using count_scan_ok [of own ?q t v] ln by auto
  have "store_ok ?q" using st(1) ln m by (auto simp: store_ok_def)
  moreover have "error_ok ?q" using e ln by (simp add: error_ok_def)
  moreover have "reads_ok 0 q \<longrightarrow> reads_ok 0 ?q" using b ln by (auto simp: base_inv_def intro: wake_reader_reads_ok)
  ultimately show ?thesis using nk b ln by (auto simp: base_inv_def)
qed

lemma run_write_req:
  assumes b: "base_inv own q" and e: "err q = ''''" and h: "stores (lnk q) vs" and m: "max_len q > 0 \<longrightarrow> qlen q < max_len q"
    and r: "r = PushReq v \<or> r = InsertReq v"
  shows "\<exists>q'. run_request xs t own r q = Some (Returns None False xs, q') \<and> base_inv own q' \<and> 0 < qlen q'
    \<and> (reads_ok 0 q \<longrightarrow> reads_ok 0 q') \<and> stores (lnk q') (if r = PushReq v then vs @ [v] else v # vs) \<and> err q' = err q \<and> max_len q' = max_len q"
proof (cases "r = PushReq v")
  case True
  obtain l where l: "pushNode v (lnk q) = Some l" "stores l (vs @ [v])" using dq.push_back [OF h] by blast
  obtain q' where "count_scan t own v (wake_reader (q\<lparr>lnk := l\<rparr>)) = q'" "lnk q' = l" "base_inv own q'" "0 < qlen q'"
      "reads_ok 0 q \<longrightarrow> reads_ok 0 q'" "err q' = err q" "max_len q' = max_len q"
    using write_body [OF b e h m, of l "vs @ [v]" t v] l by auto
  then show ?thesis using l True by (simp add: pushIntern_def)
next
  case False
  then have r: "r = InsertReq v" using r by simp
  obtain l where l: "insertNode v (lnk q) = Some l" "stores l (v # vs)" using dq.push_front [OF h] by blast
  obtain q' where "count_scan t own v (wake_reader (q\<lparr>lnk := l\<rparr>)) = q'" "lnk q' = l" "base_inv own q'" "0 < qlen q'"
      "reads_ok 0 q \<longrightarrow> reads_ok 0 q'" "err q' = err q" "max_len q' = max_len q"
    using write_body [OF b e h m, of l "v # vs" t v] l by auto
  then show ?thesis using l r by (simp add: insertIntern_def)
qed

lemma read_body:
  assumes b: "base_inv own q" and e: "err q = ''''" and h: "stores (lnk q) vs" and st: "stores l ws" "length vs = Suc (length ws)"
  shows "base_inv own (wake_writer (q\<lparr>lnk := l\<rparr>)) \<and> writes_ok (wake_writer (q\<lparr>lnk := l\<rparr>))
    \<and> (reads_ok 1 q \<longrightarrow> reads_ok 0 (wake_writer (q\<lparr>lnk := l\<rparr>)))"
proof -
  let ?q = "wake_writer (q\<lparr>lnk := l\<rparr>)"
  have ln: "qlen q = int (length ws) + 1" "len l = int (length ws)" using stores_len [OF h] stores_len [OF st(1)] st(2) by (auto simp: qlen_def)
  have "scan_ok own ?q" using b ln by (simp add: base_inv_def scan_ok_def scan_balance_def)
  moreover have "store_ok ?q" using b st(1) ln by (auto simp: store_ok_def base_inv_def)
  moreover have "error_ok ?q" using e ln by (simp add: error_ok_def)
  moreover have "reads_ok 1 q \<longrightarrow> reads_ok 0 ?q" using ln by (auto simp: inv_defs)
  ultimately show ?thesis using b by (auto simp: base_inv_def wake_writer_writes_ok)
qed

lemma run_read_req:
  assumes b: "base_inv own q" and e: "err q = ''''" and h: "stores (lnk q) vs" and m: "vs \<noteq> []" and r: "is_read r"
  shows "\<exists>q'. run_request xs t own r q = Some (Returns (Some (if r = ShiftReq then hd vs else last vs)) False xs, q') \<and> base_inv own q'
    \<and> writes_ok q' \<and> (reads_ok 1 q \<longrightarrow> reads_ok 0 q') \<and> stores (lnk q') (if r = ShiftReq then tl vs else butlast vs)
    \<and> err q' = err q \<and> max_len q' = max_len q"
proof (cases "r = ShiftReq")
  case True
  have "stores (lnk q) (hd vs # tl vs)" using h m by simp
  then obtain a l where l: "shiftNode (lnk q) = Some ((a, hd vs), l)" "stores l (tl vs)" using dq.take_front by blast
  then show ?thesis using read_body [OF b e h, of l "tl vs"] m True by auto
next
  case False
  then have r: "r = PopReq" using r by (cases r) auto
  have "stores (lnk q) (butlast vs @ [last vs])" using h m by simp
  then obtain a l where l: "popNode (lnk q) = Some ((a, last vs), l)" "stores l (butlast vs)" using dq.take_back by blast
  then show ?thesis using read_body [OF b e h, of l "butlast vs"] m r by auto
qed

lemma sleep_write_ok:
  assumes "base_inv own q" "qlen q \<noteq> Queue_Deleted" "err q = ''''" "sl_self s = own" "\<not> is_read (sl_req s)" "0 \<le> sl_timeout s"
    "sl_tid s \<notin> sl_tid ` set (asleep q)"
  shows "base_inv own (sleep_write s q) \<and> reads_ok k (sleep_write s q) = reads_ok k q \<and> (0 < qlen q \<longrightarrow> writes_ok (sleep_write s q))"
  using assms by (auto simp: inv_defs sleep_write_def cv_sleep_def cv_ok_def)

lemma sleep_read_ok:
  assumes "base_inv own q" "qlen q \<noteq> Queue_Deleted" "err q = ''''" "sl_self s = own" "is_read (sl_req s)" "0 \<le> sl_timeout s"
    "sl_tid s \<notin> sl_tid ` set (asleep q)"
  shows "base_inv own (sleep_read s q) \<and> writes_ok (sleep_read s q) = writes_ok q \<and> (qlen q \<le> 0 \<longrightarrow> reads_ok 0 (sleep_read s q))"
  using assms by (auto simp: inv_defs sleep_read_def cv_sleep_def cv_ok_def)

lemma error_signalled: "error_ok q \<Longrightarrow> qlen q = Queue_Deleted \<or> err q \<noteq> '''' \<Longrightarrow> reads_ok k q \<and> writes_ok q"
  by (auto simp: inv_defs)

text \<open>A write from the head of its wait loop on, and a read.\<close>

lemma write_from_loop:
  assumes b: "base_inv own q" and nd: "qlen q \<noteq> Queue_Deleted" and s: "sl_self s = own" "\<not> is_read (sl_req s)"
    and t: "sl_tid s \<notin> sl_tid ` set (asleep q)"
  shows "\<exists>ans q'. Option.bind (waitWriteIntern xs (sl_timeout s) q) (after_wait sleep_write s q) = Some (ans, q') \<and> base_inv own q'
    \<and> (reads_ok 0 q \<longrightarrow> reads_ok 0 q') \<and> (writes_ok q \<or> 0 \<le> sl_timeout s \<longrightarrow> writes_ok q')"
proof -
  have eo: "error_ok q" using b by (simp add: base_inv_def)
  obtain v where v: "sl_req s = PushReq v \<or> sl_req s = InsertReq v" using s(2) by (cases "sl_req s") auto
  obtain vs where h: "stores (lnk q) vs" using store_stores [OF b nd] ..
  consider "err q \<noteq> ''''" | "err q = ''''" "max_len q > 0" "qlen q \<ge> max_len q" | "err q = ''''" "max_len q > 0 \<longrightarrow> qlen q < max_len q"
    by force
  then show ?thesis
  proof cases
    case 1
    then show ?thesis using b nd eo error_signalled [OF eo] by (auto simp: waitWriteIntern_def raise_err_def error_ok_def)
  next
    case 2
    then show ?thesis using b nd s t sleep_write_ok [of own q s] by (auto simp: waitWriteIntern_def)
  next
    case 3
    then show ?thesis using run_write_req [OF b 3(1) h 3(2) v, of xs "sl_tid s"] s by (auto simp: waitWriteIntern_def writes_ok_def)
  qed
qed

lemma read_from_loop:
  assumes b: "base_inv own q" and nd: "qlen q \<noteq> Queue_Deleted" and s: "sl_self s = own" "is_read (sl_req s)"
    and t: "sl_tid s \<notin> sl_tid ` set (asleep q)"
  shows "\<exists>ans q'. Option.bind (waitReadIntern xs (sl_timeout s) q) (after_wait sleep_read s q) = Some (ans, q') \<and> base_inv own q'
    \<and> (reads_ok 1 q \<longrightarrow> reads_ok 0 q') \<and> (writes_ok q \<longrightarrow> writes_ok q')"
proof -
  have eo: "error_ok q" using b by (simp add: base_inv_def)
  obtain vs where h: "stores (lnk q) vs" using store_stores [OF b nd] ..
  have hd: "head (lnk q) = None \<longleftrightarrow> vs = []" "qlen q = int (length vs)" using stores_head [OF h] stores_len [OF h] by (simp_all add: qlen_def)
  consider "err q \<noteq> ''''" | "err q = ''''" "vs = []" | "err q = ''''" "vs \<noteq> []" by blast
  then show ?thesis
  proof cases
    case 1
    then show ?thesis using b nd eo error_signalled [OF eo] by (auto simp: waitReadIntern_def raise_err_def error_ok_def)
  next
    case 2
    then show ?thesis using b nd s t hd sleep_read_ok [of own q s] by (auto simp: waitReadIntern_def reads_ok_def)
  next
    case 3
    then show ?thesis using run_read_req [OF b 3(1) h 3(2) s(2), of xs "sl_tid s"] s hd by (auto simp: waitReadIntern_def)
  qed
qed

lemma reads_ok_mono: "reads_ok 0 q \<Longrightarrow> reads_ok 1 q"
  by (auto simp: reads_ok_def)

lemma checkWrite_cases:
  assumes "base_inv own q"
  shows "(qlen q = Queue_Deleted \<or> err q \<noteq> '''') \<and> (\<exists>ys. checkWriteIntern xs ae q = Some (- 1, ys))
    \<or> qlen q \<noteq> Queue_Deleted \<and> err q = '''' \<and> checkWriteIntern xs ae q = Some (0, xs)"
  using assms by (auto simp: checkWriteIntern_def raise_err_def base_inv_def error_ok_def)

lemma write_op_ok:
  assumes "q_inv own late q" "sl_self s = own" "\<not> is_read (sl_req s)" "sl_tid s \<notin> sl_tid ` set (asleep q)"
  shows "\<exists>ans q'. write_op s q = Some (ans, q') \<and> q_inv own late q'"
proof -
  have b: "base_inv own q" using assms(1) by (simp add: q_inv_def)
  show ?thesis using checkWrite_cases [OF b, of "[]" False] write_from_loop [OF b _ assms(2-4), of "[]"] assms(1)
    by (auto simp: write_op_def q_inv_def)
qed

lemma read_op_ok:
  assumes "q_inv own late q" "sl_self s = own" "is_read (sl_req s)" "sl_tid s \<notin> sl_tid ` set (asleep q)"
  shows "\<exists>ans q'. read_op s q = Some (ans, q') \<and> q_inv own late q'"
proof -
  have b: "base_inv own q" using assms(1) by (simp add: q_inv_def)
  show ?thesis using checkWrite_cases [OF b, of "[]" True] read_from_loop [OF b _ assms(2-4), of "[]"] assms(1) reads_ok_mono [of q]
    by (auto simp: read_op_def q_inv_def)
qed

text \<open>A sleeper leaves its condition variable.\<close>

lemma cv_leave_ok:
  assumes "cv_ok own P n c" "s \<in> set (sleepers c)"
  shows "pending c < length (sleepers c) \<Longrightarrow> cv_ok own P (n - 1) (cv_leave s c)"
    "cv_ok own P (n - 1) (cv_leave s (cv_take c))" "length (sleepers (cv_leave s c)) = length (sleepers c) - 1"
    "sleepers (cv_leave s (cv_take c)) = sleepers (cv_leave s c)"
    "pending (cv_leave s c) = pending c" "pending (cv_leave s (cv_take c)) = pending c - 1"
proof -
  have d: "distinct (sleepers c)" "n = int (length (sleepers c))" "pending c \<le> length (sleepers c)" using assms(1) by (auto simp: cv_ok_def)
  have l: "length (remove1 s (sleepers c)) = length (sleepers c) - 1" "set (remove1 s (sleepers c)) = set (sleepers c) - {s}"
    using assms(2) d by (simp_all add: length_remove1)
  have "length (sleepers c) > 0" using assms(2) by (cases "sleepers c") auto
  then have n: "int (length (sleepers c) - Suc 0) = int (length (sleepers c)) - 1" by linarith
  show "length (sleepers (cv_leave s c)) = length (sleepers c) - 1" "sleepers (cv_leave s (cv_take c)) = sleepers (cv_leave s c)"
    "pending (cv_leave s c) = pending c" "pending (cv_leave s (cv_take c)) = pending c - 1"
    using l d by (simp_all add: cv_leave_def cv_take_def)
  show "cv_ok own P (n - 1) (cv_leave s (cv_take c))"
    using assms(1) l d n by (auto simp: cv_ok_def cv_leave_def cv_take_def)
  show "cv_ok own P (n - 1) (cv_leave s c)" if "pending c < length (sleepers c)"
    using assms(1) l d n that by (auto simp: cv_ok_def cv_leave_def)
qed

lemma distinct_map_remove1:
  assumes "distinct (map f xs)" "x \<in> set xs"
  shows "distinct (map f (remove1 x xs))" "f x \<notin> f ` set (remove1 x xs)"
proof -
  have "distinct xs" using assms(1) by (simp add: distinct_map)
  then have s: "set (remove1 x xs) = set xs - {x}" by simp
  show "distinct (map f (remove1 x xs))"
    using assms(1) s by (auto simp: distinct_map inj_on_def)
  show "f x \<notin> f ` set (remove1 x xs)"
    using assms s by (auto simp: distinct_map inj_on_def)
qed

definition leave_read :: "condvar \<Rightarrow> queue \<Rightarrow> queue" where
  "leave_read c q = q\<lparr>read_cond := c, read_waiting := read_waiting q - 1\<rparr>"

definition leave_write :: "condvar \<Rightarrow> queue \<Rightarrow> queue" where
  "leave_write c q = q\<lparr>write_cond := c, write_waiting := write_waiting q - 1\<rparr>"

lemma leave_read_ok:
  assumes b: "base_inv own q" and s: "s \<in> set (sleepers (read_cond q))"
    and c: "c = cv_leave s (read_cond q) \<and> pending (read_cond q) < length (sleepers (read_cond q)) \<or> c = cv_leave s (cv_take (read_cond q)) \<and> 0 < pending (read_cond q)"
  shows "base_inv own (leave_read c q)" "sl_tid s \<notin> sl_tid ` set (asleep (leave_read c q))"
    "sl_self s = own" "is_read (sl_req s)" "0 \<le> sl_timeout s" "writes_ok (leave_read c q) = writes_ok q" "qlen (leave_read c q) = qlen q"
proof -
  have ok: "cv_ok own is_read (read_waiting q) (read_cond q)" "distinct (map sl_tid (asleep q))" using b by (simp_all add: base_inv_def conds_ok_def)
  note l = cv_leave_ok [OF ok(1) s]
  show "sl_self s = own" "is_read (sl_req s)" "0 \<le> sl_timeout s" using ok(1) s by (auto simp: cv_ok_def)
  show "writes_ok (leave_read c q) = writes_ok q" "qlen (leave_read c q) = qlen q" by (simp_all add: leave_read_def writes_ok_def qlen_def)
  have sl: "sleepers c = remove1 s (sleepers (read_cond q))" using c by (auto simp: cv_leave_def cv_take_def)
  have a: "asleep (leave_read c q) = remove1 s (asleep q)" using s sl by (simp add: asleep_def leave_read_def remove1_append)
  have d: "distinct (map sl_tid (asleep (leave_read c q)))" "sl_tid s \<notin> sl_tid ` set (asleep (leave_read c q))"
    using distinct_map_remove1 [OF ok(2), of s] s unfolding a by (simp_all add: asleep_def)
  then show "sl_tid s \<notin> sl_tid ` set (asleep (leave_read c q))" by simp
  have "cv_ok own is_read (read_waiting q - 1) c" using c l by auto
  then have "conds_ok own (leave_read c q)" using b d by (simp add: base_inv_def conds_ok_def leave_read_def)
  moreover have "pending (read_cond q) = length (sleepers (read_cond q)) \<Longrightarrow> pending c = length (sleepers c)" using c l(3-6) by (elim disjE conjE) simp_all
  then have "error_ok (leave_read c q)" using b by (auto simp: base_inv_def error_ok_def all_signalled_def leave_read_def qlen_def)
  ultimately show "base_inv own (leave_read c q)" using b by (simp add: base_inv_def leave_read_def store_ok_def scan_ok_def scan_balance_def qlen_def)
qed

lemma leave_write_ok:
  assumes b: "base_inv own q" and s: "s \<in> set (sleepers (write_cond q))"
    and c: "c = cv_leave s (write_cond q) \<and> pending (write_cond q) < length (sleepers (write_cond q)) \<or> c = cv_leave s (cv_take (write_cond q)) \<and> 0 < pending (write_cond q)"
  shows "base_inv own (leave_write c q)" "sl_tid s \<notin> sl_tid ` set (asleep (leave_write c q))"
    "sl_self s = own" "\<not> is_read (sl_req s)" "0 \<le> sl_timeout s" "reads_ok k (leave_write c q) = reads_ok k q" "qlen (leave_write c q) = qlen q"
proof -
  have ok: "cv_ok own (\<lambda>r. \<not> is_read r) (write_waiting q) (write_cond q)" "distinct (map sl_tid (asleep q))" using b by (simp_all add: base_inv_def conds_ok_def)
  note l = cv_leave_ok [OF ok(1) s]
  show "sl_self s = own" "\<not> is_read (sl_req s)" "0 \<le> sl_timeout s" using ok(1) s by (auto simp: cv_ok_def)
  show "reads_ok k (leave_write c q) = reads_ok k q" "qlen (leave_write c q) = qlen q" by (simp_all add: leave_write_def reads_ok_def qlen_def)
  have sl: "sleepers c = remove1 s (sleepers (write_cond q))" using c by (auto simp: cv_leave_def cv_take_def)
  have "s \<notin> set (sleepers (read_cond q))" using ok(2) s by (auto simp: asleep_def)
  then have a: "asleep (leave_write c q) = remove1 s (asleep q)" using sl by (simp add: asleep_def leave_write_def remove1_append)
  have d: "distinct (map sl_tid (asleep (leave_write c q)))" "sl_tid s \<notin> sl_tid ` set (asleep (leave_write c q))"
    using distinct_map_remove1 [OF ok(2), of s] s unfolding a by (simp_all add: asleep_def)
  then show "sl_tid s \<notin> sl_tid ` set (asleep (leave_write c q))" by simp
  have "cv_ok own (\<lambda>r. \<not> is_read r) (write_waiting q - 1) c" using c l by auto
  then have "conds_ok own (leave_write c q)" using b d by (simp add: base_inv_def conds_ok_def leave_write_def)
  moreover have "pending (write_cond q) = length (sleepers (write_cond q)) \<Longrightarrow> pending c = length (sleepers c)" using c l(3-6) by (elim disjE conjE) simp_all
  then have "error_ok (leave_write c q)" using b by (auto simp: base_inv_def error_ok_def all_signalled_def leave_write_def qlen_def)
  ultimately show "base_inv own (leave_write c q)" using b by (simp add: base_inv_def leave_write_def store_ok_def scan_ok_def scan_balance_def qlen_def)
qed

lemma resume_read_wake_ok:
  assumes i: "q_inv own late q" and s: "s \<in> set (sleepers (read_cond q))" and p: "0 < pending (read_cond q)"
  shows "\<exists>ans q'. resume_read False s (q\<lparr>read_cond := cv_take (read_cond q)\<rparr>) = Some (ans, q') \<and> q_inv own late q'"
proof -
  have b: "base_inv own q" using i by (simp add: q_inv_def)
  let ?c = "cv_leave s (cv_take (read_cond q))"
  let ?q = "leave_read ?c q"
  have c: "?c = cv_leave s (read_cond q) \<and> pending (read_cond q) < length (sleepers (read_cond q)) \<or> ?c = cv_leave s (cv_take (read_cond q)) \<and> 0 < pending (read_cond q)" using p by simp
  note l = leave_read_ok [OF b s c]
  have res: "resume_read False s (q\<lparr>read_cond := cv_take (read_cond q)\<rparr>)
      = Option.bind (waitRead_again [] (sl_timeout s) False ?q) (after_wait sleep_read s ?q)"
    by (simp add: resume_read_def leave_read_def Let_def)
  have ok: "cv_ok own is_read (read_waiting q) (read_cond q)" using b by (simp_all add: base_inv_def conds_ok_def)
  have "reads_ok 0 q \<longrightarrow> reads_ok 1 ?q"
    using cv_leave_ok(3,4,6) [OF ok s] p by (auto simp: reads_ok_def leave_read_def qlen_def)
  then show ?thesis
    using i l(1,6) error_signalled [of ?q 0] read_from_loop [OF l(1) _ l(3,4,2), of "[]"]
    by (auto simp: res waitRead_again_def q_inv_def base_inv_def)
qed

lemma resume_write_wake_ok:
  assumes i: "q_inv own late q" and s: "s \<in> set (sleepers (write_cond q))" and p: "0 < pending (write_cond q)"
  shows "\<exists>ans q'. resume_write False s (q\<lparr>write_cond := cv_take (write_cond q)\<rparr>) = Some (ans, q') \<and> q_inv own late q'"
proof -
  have b: "base_inv own q" using i by (simp add: q_inv_def)
  let ?c = "cv_leave s (cv_take (write_cond q))"
  let ?q = "leave_write ?c q"
  have c: "?c = cv_leave s (write_cond q) \<and> pending (write_cond q) < length (sleepers (write_cond q)) \<or> ?c = cv_leave s (cv_take (write_cond q)) \<and> 0 < pending (write_cond q)" using p by simp
  note l = leave_write_ok [OF b s c]
  have res: "resume_write False s (q\<lparr>write_cond := cv_take (write_cond q)\<rparr>)
      = Option.bind (waitWrite_again [] (sl_timeout s) False ?q) (after_wait sleep_write s ?q)"
    by (simp add: resume_write_def leave_write_def Let_def)
  show ?thesis
    using i l(1,5) l(6) [of 0] error_signalled [of ?q 0] write_from_loop [OF l(1) _ l(3,4,2), of "[]"]
    by (auto simp: res waitWrite_again_def q_inv_def base_inv_def)
qed

lemma resume_read_timeout_ok:
  assumes i: "q_inv own late q" and s: "s \<in> set (sleepers (read_cond q))" and t: "0 < sl_timeout s"
    and p: "if consumed then late \<and> 0 < pending (read_cond q) else pending (read_cond q) < length (sleepers (read_cond q))"
  shows "\<exists>ans q'. resume_read True s (if consumed then q\<lparr>read_cond := cv_take (read_cond q)\<rparr> else q) = Some (ans, q') \<and> q_inv own late q'"
proof -
  have b: "base_inv own q" using i by (simp add: q_inv_def)
  let ?c = "cv_leave s (if consumed then cv_take (read_cond q) else read_cond q)"
  let ?q = "leave_read ?c q"
  have l: "base_inv own ?q" "\<not> late \<longrightarrow> writes_ok q \<longrightarrow> writes_ok ?q"
    using leave_read_ok [OF b s, of ?c] p by (auto split: if_splits)
  have res: "resume_read True s (if consumed then q\<lparr>read_cond := cv_take (read_cond q)\<rparr> else q) = Some (Returns None True [], ?q)"
    using t by (auto simp: resume_read_def leave_read_def Let_def waitRead_again_def)
  have ok: "cv_ok own is_read (read_waiting q) (read_cond q)" using b by (simp_all add: base_inv_def conds_ok_def)
  have "sleepers (read_cond q) \<noteq> []" using s by auto
  then have "\<not> late \<longrightarrow> reads_ok 0 q \<longrightarrow> reads_ok 0 ?q"
    using cv_leave_ok(3,5) [OF ok s] p by (auto simp: reads_ok_def leave_read_def qlen_def)
  then show ?thesis using i l res by (simp add: q_inv_def)
qed

lemma resume_write_timeout_ok:
  assumes i: "q_inv own late q" and s: "s \<in> set (sleepers (write_cond q))" and t: "0 < sl_timeout s"
    and p: "if consumed then late \<and> 0 < pending (write_cond q) else pending (write_cond q) < length (sleepers (write_cond q))"
  shows "\<exists>ans q'. resume_write True s (if consumed then q\<lparr>write_cond := cv_take (write_cond q)\<rparr> else q) = Some (ans, q') \<and> q_inv own late q'"
proof -
  have b: "base_inv own q" using i by (simp add: q_inv_def)
  let ?c = "cv_leave s (if consumed then cv_take (write_cond q) else write_cond q)"
  let ?q = "leave_write ?c q"
  have l: "base_inv own ?q" "\<not> late \<longrightarrow> reads_ok 0 q \<longrightarrow> reads_ok 0 ?q"
    using leave_write_ok [OF b s, of ?c] p by (auto split: if_splits)
  have res: "resume_write True s (if consumed then q\<lparr>write_cond := cv_take (write_cond q)\<rparr> else q) = Some (Returns None True [], ?q)"
    using t by (auto simp: resume_write_def leave_write_def Let_def waitWrite_again_def)
  have ok: "cv_ok own (\<lambda>r. \<not> is_read r) (write_waiting q) (write_cond q)" using b by (simp_all add: base_inv_def conds_ok_def)
  have "sleepers (write_cond q) \<noteq> []" using s by auto
  then have "\<not> late \<longrightarrow> writes_ok q \<longrightarrow> writes_ok ?q"
    using cv_leave_ok(3,5) [OF ok s] p by (auto simp: writes_ok_def leave_write_def qlen_def)
  then show ?thesis using i l res by (simp add: q_inv_def)
qed

lemma clearIntern_ok:
  assumes "store_ok q"
  shows "clearIntern q = Some (q\<lparr>lnk := (lnk q)\<lparr>mem := (\<lambda>_. None), head := None, tail := None\<rparr>, scan_count := 0\<rparr>)"
proof (cases "qlen q = Queue_Deleted")
  case True
  then have "mem (lnk q) = (\<lambda>_. None)" "head (lnk q) = None" "tail (lnk q) = None" using assms by (simp_all add: store_ok_def)
  then show ?thesis by (simp add: clearIntern_def clear_links_def del_loop.simps)
next
  case False
  then obtain vs where "stores (lnk q) vs" using assms by (auto simp: store_ok_def)
  from clear_stores [OF this] show ?thesis by (simp add: clearIntern_def)
qed

definition emptied :: "int \<Rightarrow> queue \<Rightarrow> queue" where
  "emptied n q = q\<lparr>lnk := (lnk q)\<lparr>mem := (\<lambda>_. None), head := None, tail := None, len := n\<rparr>, scan_count := 0\<rparr>"

lemma emptied_stores: "stores (lnk (emptied 0 q)) []"
  by (simp add: emptied_def stores_def linked_def)

lemma emptied_fields [simp]:
  "qlen (emptied n q) = n" "err (emptied n q) = err q" "desc (emptied n q) = desc q" "max_len (emptied n q) = max_len q"
  "read_cond (emptied n q) = read_cond q" "write_cond (emptied n q) = write_cond q" "read_waiting (emptied n q) = read_waiting q"
  "write_waiting (emptied n q) = write_waiting q" "scan_count (emptied n q) = 0" "obj_scan (emptied n q) = obj_scan q"
  "inc_due (emptied n q) = inc_due q" "dec_due (emptied n q) = dec_due q" "scan_balance (emptied n q) = scan_balance q"
  "asleep (emptied n q) = asleep q"
  by (simp_all add: emptied_def qlen_def asleep_def scan_balance_def)

lemma set_len_clear:
  "store_ok q \<Longrightarrow> \<exists>q1. clearIntern q = Some q1 \<and> set_len n q1 = emptied n q"
  by (simp add: clearIntern_ok set_len_def emptied_def)

lemma emptied_0_store_ok: "store_ok (emptied 0 q)"
  using emptied_stores [of q] by (auto simp: store_ok_def)

lemma pushAndTakeRef_ok:
  assumes i: "q_inv own late q" and m: "qlen q = Queue_Deleted \<or> err q \<noteq> '''' \<or> max_len q = - 1"
  shows "\<exists>q'. pushAndTakeRef v q = Some q' \<and> q_inv own late q'"
proof (cases "qlen q = Queue_Deleted \<or> err q \<noteq> ''''")
  case True
  then show ?thesis using i by (auto simp: pushAndTakeRef_def)
next
  case False
  have b: "base_inv own q" using i by (simp add: q_inv_def)
  obtain vs where h: "stores (lnk q) vs" using store_stores [OF b] False by blast
  obtain l where l: "pushNode v (lnk q) = Some l" "stores l (vs @ [v])" using dq.push_back [OF h] by blast
  let ?q = "wake_reader (q\<lparr>lnk := l\<rparr>)"
  have ln: "qlen q = int (length vs)" "len l = int (length vs) + 1" using stores_len [OF h] stores_len [OF l(2)] by (auto simp: qlen_def)
  have "scan_ok own ?q" using b ln by (simp add: base_inv_def scan_ok_def scan_balance_def)
  moreover have "store_ok ?q" using l(2) ln m False by (auto simp: store_ok_def)
  moreover have "error_ok ?q" using False ln by (simp add: error_ok_def)
  moreover have "reads_ok 0 q \<longrightarrow> reads_ok 0 ?q" using b ln by (auto simp: base_inv_def intro: wake_reader_reads_ok)
  ultimately have "q_inv own late ?q" using i ln by (auto simp: q_inv_def base_inv_def writes_ok_def)
  then show ?thesis using False m l by (simp add: pushAndTakeRef_def pushIntern_def)
qed

lemma queue_clear_ok:
  assumes i: "q_inv own late q" and r: "read_waiting q = 0 \<or> head (lnk q) = None \<or> qlen q = Queue_Deleted \<or> err q \<noteq> ''''"
  shows "\<exists>xs q'. queue_clear q = Some (xs, q') \<and> q_inv own late q'
    \<and> (qlen q \<noteq> Queue_Deleted \<and> err q = '''' \<longrightarrow> stores (lnk q') [])"
proof -
  have b: "base_inv own q" using i by (simp add: q_inv_def)
  consider "qlen q = Queue_Deleted \<or> err q \<noteq> ''''" | "qlen q \<noteq> Queue_Deleted" "err q = ''''" "read_waiting q \<noteq> 0" "head (lnk q) = None"
    | "qlen q \<noteq> Queue_Deleted" "err q = ''''" "read_waiting q = 0" using r by metis
  then show ?thesis
  proof cases
    case 1
    then show ?thesis using checkWrite_cases [OF b, of "[]" False] i by (auto simp: queue_clear_def)
  next
    case 2
    then have "stores (lnk q) []" using store_stores [OF b 2(1)] stores_head by metis
    then show ?thesis using checkWrite_cases [OF b, of "[]" False] i 2 by (auto simp: queue_clear_def)
  next
    case 3
    let ?q = "wake_writer (emptied 0 q)"
    have so: "store_ok q" and sc: "scan_ok own q" using b by (simp_all add: base_inv_def)
    obtain q1 where q1: "clearIntern q = Some q1" "set_len 0 q1 = emptied 0 q" using set_len_clear [OF so] by blast
    have co: "conds_ok own (emptied 0 q)" using b by (simp add: base_inv_def conds_ok_def)
    let ?q' = "if scan_count q \<noteq> 0 then ?q\<lparr>dec_due := dec_due q + 1\<rparr> else ?q"
    have st: "queue_clear q = Some ([], ?q')"
      using checkWrite_cases [OF b, of "[]" False] 3 q1 by (auto simp: queue_clear_def wake_writer_def emptied_def Let_def)
    have "store_ok ?q'" using emptied_0_store_ok [of q] by (simp add: store_ok_def)
    moreover have "reads_ok 0 ?q'" by (simp add: reads_ok_def)
    moreover have "writes_ok ?q'" using co by (auto simp: writes_ok_def wake_writer_def cv_signal_def conds_ok_def cv_ok_def)
    moreover have "scan_ok own ?q'" using sc 3 by (auto simp: scan_ok_def scan_balance_def)
    ultimately have "q_inv own late ?q'" using co 3 by (simp add: q_inv_def base_inv_def error_ok_def)
    then show ?thesis using st emptied_stores [of q] by simp
  qed
qed

lemma broadcast_fields [simp]:
  "lnk (broadcast_waiting q) = lnk q" "err (broadcast_waiting q) = err q" "desc (broadcast_waiting q) = desc q"
  "max_len (broadcast_waiting q) = max_len q" "scan_count (broadcast_waiting q) = scan_count q" "obj_scan (broadcast_waiting q) = obj_scan q"
  "inc_due (broadcast_waiting q) = inc_due q" "dec_due (broadcast_waiting q) = dec_due q" "scan_balance (broadcast_waiting q) = scan_balance q"
  "qlen (broadcast_waiting q) = qlen q" "store_ok (broadcast_waiting q) = store_ok q" "scan_ok own (broadcast_waiting q) = scan_ok own q"
  by (simp_all add: broadcast_waiting_def Let_def qlen_def store_ok_def scan_ok_def scan_balance_def)

lemma broadcast_ok: "conds_ok own q \<Longrightarrow> conds_ok own (broadcast_waiting q) \<and> all_signalled (broadcast_waiting q)"
  by (auto simp: broadcast_waiting_def Let_def conds_ok_def cv_ok_def all_signalled_def cv_broadcast_def asleep_def)

lemma all_signalled_ok: "all_signalled q \<Longrightarrow> reads_ok k q \<and> writes_ok q"
  by (auto simp: all_signalled_def reads_ok_def writes_ok_def)

lemma setError_ok:
  assumes i: "q_inv own late q"
  shows "\<exists>q'. setError e d q = Some q' \<and> q_inv own late q'"
proof (cases "qlen q = Queue_Deleted")
  case True
  then show ?thesis using i by (simp add: setError_def)
next
  case False
  have b: "base_inv own q" using i by (simp add: q_inv_def)
  let ?e = "q\<lparr>err := e, desc := Some d\<rparr>"
  let ?q = "broadcast_waiting (emptied 0 ?e)"
  have "store_ok ?e" using b by (simp add: base_inv_def store_ok_def qlen_def)
  then obtain q1 where q1: "clearIntern ?e = Some q1" "set_len 0 q1 = emptied 0 ?e" using set_len_clear by blast
  have "conds_ok own (emptied 0 ?e)" using b by (simp add: base_inv_def conds_ok_def asleep_def)
  note bc = broadcast_ok [OF this]
  let ?q' = "if scan_count q \<noteq> 0 then ?q\<lparr>dec_due := dec_due q + 1\<rparr> else ?q"
  have st: "setError e d q = Some ?q'" using q1 False by (simp add: setError_def Let_def)
  have "scan_ok own q" using b by (simp add: base_inv_def)
  then have "scan_ok own ?q'" using False by (auto simp: scan_ok_def scan_balance_def)
  moreover have "store_ok ?q'" using emptied_0_store_ok [of ?e] by simp
  moreover have "all_signalled ?q'" using bc by (simp add: all_signalled_def)
  ultimately have "q_inv own late ?q'" using bc all_signalled_ok [of ?q']
    by (simp add: q_inv_def base_inv_def error_ok_def)
  then show ?thesis using st by blast
qed

lemma queue_destructor_ok:
  assumes i: "q_inv own late q"
  shows "\<exists>xs q'. queue_destructor q = Some (xs, q') \<and> q_inv own late q' \<and> qlen q' = Queue_Deleted \<and> all_signalled q'"
proof -
  have b: "base_inv own q" using i by (simp add: q_inv_def)
  let ?b = "broadcast_waiting q"
  have "store_ok ?b" using b by (simp add: base_inv_def)
  then obtain q1 where q1: "clearIntern ?b = Some q1" "set_len (- 1) q1 = emptied (- 1) ?b" using set_len_clear by blast
  let ?q = "(emptied (- 1) ?b)\<lparr>desc := None\<rparr>"
  have bc: "conds_ok own ?b" "all_signalled ?b" using b broadcast_ok by (auto simp: base_inv_def)
  then have a: "conds_ok own ?q" "all_signalled ?q" by (simp_all add: conds_ok_def all_signalled_def asleep_def)
  have "store_ok ?q" by (simp add: store_ok_def emptied_def qlen_def)
  moreover have "scan_ok own ?q" using b by (auto simp: base_inv_def scan_ok_def scan_balance_def emptied_def qlen_def)
  ultimately have "q_inv own late ?q" using a all_signalled_ok [of ?q] by (simp add: q_inv_def base_inv_def error_ok_def qlen_def emptied_def)
  moreover have "qlen ?q = - 1" by (simp add: qlen_def emptied_def)
  ultimately show ?thesis using q1 a by (simp add: queue_destructor_def Let_def)
qed

lemma clearError_ok: "q_inv own late q \<Longrightarrow> q_inv own late (clearError q)"
  by (auto simp: clearError_def q_inv_def inv_defs)

text \<open>The calls for the owning object.\<close>

lemma incScan_ok:
  assumes i: "q_inv own late q" and t: "t \<in> set (inc_due q)"
  shows "\<exists>q'. incScanPrivateData own (q\<lparr>inc_due := remove1 t (inc_due q)\<rparr>) = Some q' \<and> q_inv own late q'"
proof -
  have sc: "scan_ok own q" using i by (simp add: q_inv_def base_inv_def)
  have own using sc t by (auto simp: scan_ok_def)
  let ?q = "q\<lparr>inc_due := remove1 t (inc_due q), obj_scan := obj_scan q + 1, obj_deferred := obj_scan q + 1 \<noteq> 0 \<or> obj_deferred q\<rparr>"
  have "length (inc_due q) > 0" using t by (cases "inc_due q") auto
  moreover have "length (remove1 t (inc_due q)) = length (inc_due q) - 1" using t by (simp add: length_remove1)
  ultimately have "int (length (remove1 t (inc_due q))) = int (length (inc_due q)) - 1" by linarith
  then have "scan_ok own ?q" using sc \<open>own\<close> by (auto simp: scan_ok_def scan_balance_def)
  then have "q_inv own late ?q" using i by (simp add: q_inv_def base_inv_def)
  moreover have "incScanPrivateData own (q\<lparr>inc_due := remove1 t (inc_due q)\<rparr>) = Some ?q"
    using \<open>own\<close> by (auto simp: incScanPrivateData_def Let_def)
  ultimately show ?thesis by blast
qed

lemma decScan_ok:
  assumes i: "q_inv own late q" and k: "0 < dec_due q" and o: "0 < obj_scan q"
  shows "\<exists>q'. decScanPrivateData own (q\<lparr>dec_due := dec_due q - 1\<rparr>) = Some q' \<and> q_inv own late q'"
proof -
  have sc: "scan_ok own q" using i by (simp add: q_inv_def base_inv_def)
  have own using sc k by (auto simp: scan_ok_def)
  let ?q = "q\<lparr>dec_due := dec_due q - 1, obj_scan := obj_scan q - 1\<rparr>"
  have "scan_ok own ?q" using sc \<open>own\<close> k o by (auto simp: scan_ok_def scan_balance_def of_nat_diff)
  then have "q_inv own late ?q" using i by (simp add: q_inv_def base_inv_def)
  then show ?thesis using \<open>own\<close> o by (simp add: decScanPrivateData_def)
qed

text \<open>A call of \<open>decScanPrivateData\<close> that finds the count at zero has overtaken a call of \<open>incScanPrivateData\<close>.\<close>

lemma decScan_overtakes: "q_inv own late q \<Longrightarrow> 0 < dec_due q \<Longrightarrow> obj_scan q = 0 \<Longrightarrow> inc_due q \<noteq> []"
  by (auto simp: q_inv_def base_inv_def scan_ok_def scan_balance_def)

section \<open>Reachable states\<close>

text \<open>The assertions of the operations that depend on what the threads have done before.\<close>

fun asserts_hold :: "q_op \<Rightarrow> queue \<Rightarrow> bool" where
  "asserts_hold ClearOp q \<longleftrightarrow> read_waiting q = 0 \<or> head (lnk q) = None \<or> qlen q = Queue_Deleted \<or> err q \<noteq> ''''"
| "asserts_hold (PushRefOp v) q \<longleftrightarrow> qlen q = Queue_Deleted \<or> err q \<noteq> '''' \<or> max_len q = - 1"
| "asserts_hold DecScan q \<longleftrightarrow> 0 < obj_scan q"
| "asserts_hold _ q \<longleftrightarrow> True"

lemma q_step_ok:
  assumes i: "q_inv own late q" and e: "q_enabled own late q op" and c: "asserts_hold op q"
  shows "\<exists>q'. q_step own op q = Some q' \<and> q_inv own late q'"
proof (cases op)
  case (Call s)
  then show ?thesis using e read_op_ok [OF i, of s] write_op_ok [OF i, of s] by (cases "is_read (sl_req s)") auto
next
  case (PushRefOp v)
  then show ?thesis using c pushAndTakeRef_ok [OF i, of v] by simp
next
  case ClearOp
  then show ?thesis using c queue_clear_ok [OF i] by auto
next
  case (SetErrorOp x d)
  then show ?thesis using setError_ok [OF i] by simp
next
  case ClearErrorOp
  then show ?thesis using clearError_ok [OF i] by simp
next
  case DestroyOp
  then show ?thesis using queue_destructor_ok [OF i] by auto
next
  case (ReadWake s)
  then show ?thesis using e resume_read_wake_ok [OF i, of s] by auto
next
  case (WriteWake s)
  then show ?thesis using e resume_write_wake_ok [OF i, of s] by auto
next
  case (ReadTimeout s k)
  then show ?thesis using e resume_read_timeout_ok [OF i, of s k] by auto
next
  case (WriteTimeout s k)
  then show ?thesis using e resume_write_timeout_ok [OF i, of s k] by auto
next
  case (IncScan t)
  then show ?thesis using e incScan_ok [OF i, of t] by simp
next
  case DecScan
  then show ?thesis using e c decScan_ok [OF i] by simp
qed

lemma q_step_asserts: "\<not> asserts_hold op q \<Longrightarrow> q_step own op q = None"
  by (cases op) (auto simp: queue_clear_def checkWriteIntern_def pushAndTakeRef_def decScanPrivateData_def)

lemma q_reach_inv:
  assumes "q_reach own late m q"
  shows "q_inv own late q"
  using assms
proof (induction rule: q_reach.induct)
  case (new q)
  then show ?case using stores_empty
    by (auto simp: queue_new_def q_inv_def inv_defs cv_init_def cv_ok_def links_empty_def split: if_splits)
next
  case (step q op q')
  then have "asserts_hold op q" using q_step_asserts [of op q own] by auto
  then show ?case using q_step_ok [OF step.IH step.hyps(2)] step.hyps(3) by auto
qed

lemma run_request_max: "run_request xs t self r q = Some (a, q') \<Longrightarrow> max_len q' = max_len q"
  by (cases r) (auto simp: pushIntern_def insertIntern_def count_scan_def uncount_scan_def Let_def
      split: if_splits dest!: bind_eq_Some_conv [THEN iffD1])

lemma after_wait_max:
  "after_wait sl s q r = Some (a, q') \<Longrightarrow> max_len (sl s q) = max_len q \<Longrightarrow> max_len q' = max_len q"
  by (cases r) (auto split: if_splits dest: run_request_max)

lemma clearIntern_max: "clearIntern q = Some q' \<Longrightarrow> max_len q' = max_len q"
  by (auto simp: clearIntern_def dest!: bind_eq_Some_conv [THEN iffD1])

lemma q_step_max: "q_step own op q = Some q' \<Longrightarrow> max_len q' = max_len q"
  by (cases op)
    (auto simp: read_op_def write_op_def resume_read_def resume_write_def Let_def sleep_read_def sleep_write_def pushAndTakeRef_def
      pushIntern_def queue_clear_def decScanPrivateData_def incScanPrivateData_def set_len_def setError_def clearError_def queue_destructor_def
      split: if_splits dest!: bind_eq_Some_conv [THEN iffD1] after_wait_max clearIntern_max)

lemma q_reach_max: "q_reach own late m q \<Longrightarrow> max_len q = m"
  by (induction rule: q_reach.induct) (auto simp: queue_new_def q_step_max split: if_splits)

section \<open>The blocking operations when they need not wait\<close>

definition usable :: "bool \<Rightarrow> queue \<Rightarrow> qvalue list \<Rightarrow> bool" where
  "usable own q vs \<longleftrightarrow> base_inv own q \<and> err q = '''' \<and> stores (lnk q) vs"

lemma usable_not_deleted: "usable own q vs \<Longrightarrow> qlen q \<noteq> Queue_Deleted"
  using stores_len by (fastforce simp: usable_def qlen_def)

lemma usable_check: "usable own q vs \<Longrightarrow> checkWriteIntern xs ae q = Some (0, xs)"
  using usable_not_deleted by (simp add: checkWriteIntern_def usable_def)

lemma usable_write:
  assumes u: "usable own q vs" and m: "max_len q > 0 \<longrightarrow> int (length vs) < max_len q"
    and s: "sl_self s = own" "sl_req s = PushReq v \<or> sl_req s = InsertReq v"
  shows "\<exists>q'. write_op s q = Some (Returns None False [], q') \<and> usable own q' (if sl_req s = PushReq v then vs @ [v] else v # vs)
    \<and> max_len q' = max_len q"
proof -
  have h: "base_inv own q" "err q = ''''" "stores (lnk q) vs" using u by (simp_all add: usable_def)
  have "max_len q > 0 \<longrightarrow> qlen q < max_len q" using m stores_len [OF h(3)] by (simp add: qlen_def)
  from run_write_req [OF h this s(2), of "[]" "sl_tid s"] this show ?thesis using usable_check [OF u] h(2) s(1)
    by (auto simp: write_op_def waitWriteIntern_def usable_def)
qed

lemma usable_read:
  assumes u: "usable own q vs" and m: "vs \<noteq> []" and s: "sl_self s = own" "is_read (sl_req s)"
  shows "\<exists>q'. read_op s q = Some (Returns (Some (if sl_req s = ShiftReq then hd vs else last vs)) False [], q')
    \<and> usable own q' (if sl_req s = ShiftReq then tl vs else butlast vs) \<and> max_len q' = max_len q"
proof -
  have h: "base_inv own q" "err q = ''''" "stores (lnk q) vs" using u by (simp_all add: usable_def)
  have "head (lnk q) \<noteq> None" using m stores_head [OF h(3)] by simp
  with run_read_req [OF h m s(2), of "[]" "sl_tid s"] show ?thesis using usable_check [OF u] h(2) s(1)
    by (auto simp: read_op_def waitReadIntern_def usable_def)
qed

text \<open>
  The queue as its users see it: one call each, by a thread that does not have to wait.  An unlimited
  queue satisfies the contract of a double-ended queue.
\<close>

fun answer_value :: "answer \<times> queue \<Rightarrow> ((unit \<times> qvalue) \<times> queue) option" where
  "answer_value (Returns (Some v) False [], q) = Some (((), v), q)"
| "answer_value _ = None"

fun answer_done :: "answer \<times> queue \<Rightarrow> queue option" where
  "answer_done (Returns None False [], q) = Some q"
| "answer_done _ = None"

definition api_push :: "bool \<Rightarrow> int \<Rightarrow> qvalue \<Rightarrow> queue \<Rightarrow> queue option" where
  "api_push own t v q = Option.bind (queue_push t own v 0 q) answer_done"

definition api_insert :: "bool \<Rightarrow> int \<Rightarrow> qvalue \<Rightarrow> queue \<Rightarrow> queue option" where
  "api_insert own t v q = Option.bind (queue_insert t own v 0 q) answer_done"

definition api_shift :: "bool \<Rightarrow> int \<Rightarrow> queue \<Rightarrow> ((unit \<times> qvalue) \<times> queue) option" where
  "api_shift own t q = Option.bind (queue_shift t own 0 q) answer_value"

definition api_pop :: "bool \<Rightarrow> int \<Rightarrow> queue \<Rightarrow> ((unit \<times> qvalue) \<times> queue) option" where
  "api_pop own t q = Option.bind (queue_pop t own 0 q) answer_value"

definition unlimited :: "bool \<Rightarrow> queue \<Rightarrow> qvalue list \<Rightarrow> bool" where
  "unlimited own q vs \<longleftrightarrow> usable own q vs \<and> max_len q \<le> 0"

interpretation qd: deque "unlimited own" "api_push own t" "api_insert own t" "api_shift own t" "api_pop own t" for own t
proof
  fix q vs v
  assume u: "unlimited own q vs"
  show "\<exists>q'. api_push own t v q = Some q' \<and> unlimited own q' (vs @ [v])"
    using u usable_write [of own q vs "\<lparr>sl_tid = t, sl_self = own, sl_req = PushReq v, sl_timeout = 0\<rparr>" v]
    by (auto simp: unlimited_def api_push_def queue_push_def)
  show "\<exists>q'. api_insert own t v q = Some q' \<and> unlimited own q' (v # vs)"
    using u usable_write [of own q vs "\<lparr>sl_tid = t, sl_self = own, sl_req = InsertReq v, sl_timeout = 0\<rparr>" v]
    by (auto simp: unlimited_def api_insert_def queue_insert_def)
next
  fix q vs v
  assume u: "unlimited own q (v # vs)"
  show "\<exists>a q'. api_shift own t q = Some ((a, v), q') \<and> unlimited own q' vs"
    using u usable_read [of own q "v # vs" "\<lparr>sl_tid = t, sl_self = own, sl_req = ShiftReq, sl_timeout = 0\<rparr>"]
    by (auto simp: unlimited_def api_shift_def queue_shift_def)
next
  fix q vs v
  assume u: "unlimited own q (vs @ [v])"
  show "\<exists>a q'. api_pop own t q = Some ((a, v), q') \<and> unlimited own q' vs"
    using u usable_read [of own q "vs @ [v]" "\<lparr>sl_tid = t, sl_self = own, sl_req = PopReq, sl_timeout = 0\<rparr>"]
    by (auto simp: unlimited_def api_pop_def queue_pop_def)
qed

lemma queue_new_unlimited: "queue_new (- 1) = Some q \<Longrightarrow> unlimited own q []"
  using stores_empty by (auto simp: queue_new_def unlimited_def usable_def inv_defs cv_init_def cv_ok_def links_empty_def)

lemma reach_usable:
  assumes "q_reach own late m q" "qlen q \<noteq> Queue_Deleted" "err q = ''''"
  shows "\<exists>vs. usable own q vs \<and> max_len q = m"
  using q_reach_inv [OF assms(1)] q_reach_max [OF assms(1)] store_stores [of own q] assms by (auto simp: q_inv_def usable_def)

end
