(* ===== verification/Queue_Properties.thy ===== *)
theory Queue_Properties
  imports Queue_System
begin

text \<open>
  The properties of the Queue: bounded storage, the list the operations work on, first-in first-out
  and last-in first-out order, absence of undefined behaviour, wake-ups, deletion, copying.
\<close>

section \<open>Runs\<close>

fun q_run :: "bool \<Rightarrow> bool \<Rightarrow> q_op list \<Rightarrow> queue \<Rightarrow> queue option" where
  "q_run own late [] q = Some q"
| "q_run own late (op # ops) q = (if q_enabled own late q op then Option.bind (q_step own op q) (q_run own late ops) else None)"

lemma q_run_reach: "q_reach own late m q \<Longrightarrow> q_run own late ops q = Some q' \<Longrightarrow> q_reach own late m q'"
  by (induction ops arbitrary: q) (auto split: if_splits intro: q_reach.step dest!: bind_eq_Some_conv [THEN iffD1])

definition runs :: "int \<Rightarrow> bool \<Rightarrow> bool \<Rightarrow> q_op list \<Rightarrow> queue option" where
  "runs m own late ops = Option.bind (queue_new m) (q_run own late ops)"

lemma runs_reach: "runs m own late ops = Some q \<Longrightarrow> q_reach own late m q"
  by (auto simp: runs_def intro: q_run_reach q_reach.new dest!: bind_eq_Some_conv [THEN iffD1])

lemma runs_obtain:
  assumes "map_option f (runs m own late ops) = Some x"
  obtains q where "runs m own late ops = Some q" "q_reach own late m q" "f q = x"
  using assms runs_reach by auto

abbreviation call :: "int \<Rightarrow> request \<Rightarrow> int \<Rightarrow> sleeper" where
  "call t r tmo \<equiv> \<lparr>sl_tid = t, sl_self = True, sl_req = r, sl_timeout = tmo\<rparr>"

section \<open>Storage and order\<close>

text \<open>
  C2: In every reachable state of a queue, whatever the threads do, the nodes form one well linked
  list from head to tail with no other node allocated, the size is the number of values in it (or -1
  after deletion, when no node is left), and a limited queue never exceeds its maximum size.
\<close>

theorem queue_storage:
  assumes "q_reach own late m q"
  shows "(queue_size q = - 1 \<and> mem (lnk q) = (\<lambda>_. None) \<or> (\<exists>vs. stores (lnk q) vs \<and> queue_size q = int (length vs)))
    \<and> (m > 0 \<longrightarrow> queue_size q \<le> m)"
  using q_reach_inv [OF assms] q_reach_max [OF assms] stores_len [of "lnk q"]
  by (auto simp: q_inv_def base_inv_def store_ok_def queue_size_def qlen_def split: if_splits)

lemma queue_storage_witness:
  "\<exists>q. q_reach True False 2 q \<and> (\<exists>vs. stores (lnk q) vs \<and> length vs = 2) \<and> queue_size q \<le> 2"
proof -
  let ?ops = "[Call (call 1 (PushReq (Scalar 5)) 0), Call (call 2 (InsertReq (Scalar 6)) 0), Call (call 3 (PushReq (Scalar 7)) 0)]"
  have "map_option queue_size (runs 2 True False ?ops) = Some 2" by code_simp
  then obtain q where q: "q_reach True False 2 q" "queue_size q = 2" by (rule runs_obtain)
  then show ?thesis using queue_storage [OF q(1)] by auto
qed

text \<open>
  C1: The operations that need not wait act on the queue as on a list, from any reachable state that is
  neither deleted nor in error: \<open>push\<close> appends and \<open>insert\<close> prepends when there is room, \<open>shift\<close>
  returns and removes the first value and \<open>pop\<close> the last one when there is one, without an exception
  and without the timeout flag.
\<close>

theorem queue_list_semantics:
  assumes "q_reach own late m q" "stores (lnk q) vs" "err q = ''''"
  shows "((m > 0 \<longrightarrow> int (length vs) < m) \<longrightarrow>
        (\<exists>q'. queue_push t own v tmo q = Some (Returns None False [], q') \<and> stores (lnk q') (vs @ [v]))
      \<and> (\<exists>q'. queue_insert t own v tmo q = Some (Returns None False [], q') \<and> stores (lnk q') (v # vs)))
    \<and> (vs \<noteq> [] \<longrightarrow>
        (\<exists>q'. queue_shift t own tmo q = Some (Returns (Some (hd vs)) False [], q') \<and> stores (lnk q') (tl vs))
      \<and> (\<exists>q'. queue_pop t own tmo q = Some (Returns (Some (last vs)) False [], q') \<and> stores (lnk q') (butlast vs)))"
proof -
  have u: "usable own q vs" "max_len q = m"
    using q_reach_inv [OF assms(1)] q_reach_max [OF assms(1)] assms by (auto simp: usable_def q_inv_def)
  let ?s = "\<lambda>r. \<lparr>sl_tid = t, sl_self = own, sl_req = r, sl_timeout = tmo\<rparr>"
  show ?thesis
    using usable_write [OF u(1), of "?s (PushReq v)" v] usable_write [OF u(1), of "?s (InsertReq v)" v]
      usable_read [OF u(1), of "?s ShiftReq"] usable_read [OF u(1), of "?s PopReq"] u(2)
    by (auto simp: queue_push_def queue_insert_def queue_shift_def queue_pop_def usable_def)
qed

lemma queue_list_semantics_witness:
  "\<exists>q vs. q_reach True False 3 q \<and> stores (lnk q) vs \<and> length vs = 2
     \<and> (\<exists>q'. queue_push 9 True (Scalar 8) 0 q = Some (Returns None False [], q') \<and> stores (lnk q') (vs @ [Scalar 8]))
     \<and> (\<exists>q'. queue_shift 9 True 0 q = Some (Returns (Some (hd vs)) False [], q') \<and> stores (lnk q') (tl vs))"
proof -
  let ?ops = "[Call (call 1 (PushReq (Scalar 5)) 0), Call (call 2 (InsertReq (Scalar 6)) 0)]"
  have "map_option (\<lambda>q. (qlen q, err q)) (runs 3 True False ?ops) = Some (2, '''')" by code_simp
  then obtain q where q: "q_reach True False 3 q" "qlen q = 2" "err q = ''''" by (rule runs_obtain) auto
  obtain vs where vs: "stores (lnk q) vs" using reach_usable [OF q(1)] q by (auto simp: usable_def)
  have "length vs = 2" using stores_len [OF vs] q(2) by (simp add: qlen_def)
  then show ?thesis using queue_list_semantics [OF q(1) vs q(3), of 9 "Scalar 8" 0] q(1) vs
    by (intro exI [of _ q] exI [of _ vs]) auto
qed

text \<open>
  On an unlimited queue that stores \<open>vs\<close>, calls of \<open>push\<close> for the values \<open>ws\<close> followed by as many
  calls of \<open>shift\<close> as there are values deliver \<open>vs @ ws\<close> in order and leave the queue empty, and
  \<open>length ws\<close> calls of \<open>pop\<close> instead deliver \<open>ws\<close> in reverse order and leave \<open>vs\<close>.
\<close>

theorem queue_fifo_lifo:
  assumes "unlimited own q vs"
  shows "(\<exists>q1 q2. qd.push_all own t ws q = Some q1 \<and> qd.drain_front own t (length vs + length ws) q1 = Some (vs @ ws, q2)
      \<and> unlimited own q2 [])
    \<and> (\<exists>q1 q2. qd.push_all own t ws q = Some q1 \<and> qd.drain_back own t (length ws) q1 = Some (rev ws, q2) \<and> unlimited own q2 vs)"
  using qd.fifo [OF assms] qd.lifo [OF assms] by blast

lemma queue_fifo_lifo_witness:
  "\<exists>q q1 q2. queue_new (- 1) = Some q \<and> qd.push_all True 7 [Scalar 1, Node 2 True, Scalar 3] q = Some q1
     \<and> qd.drain_front True 7 3 q1 = Some ([Scalar 1, Node 2 True, Scalar 3], q2)"
proof -
  obtain q where q: "queue_new (- 1) = Some q" by (simp add: queue_new_def)
  show ?thesis using queue_fifo_lifo [OF queue_new_unlimited [OF q, of True], of 7 "[Scalar 1, Node 2 True, Scalar 3]"] q
    by (auto simp: numeral_eq_Suc)
qed

section \<open>Safety of the operations\<close>

text \<open>
  C3: No operation ever uses a null or freed node or misses the description of the error status, in any
  interleaving.  Exactly three assertions can fail: the one in \<open>clear\<close> that the queue is empty while a
  reader waits, which fails when a reader still counts as waiting while the queue stores a value; the one
  in \<open>pushAndTakeRef\<close> that the queue has no maximum, which its callers have to ensure; and the one in
  \<open>decScanPrivateData\<close> that the count of the owner is positive, which fails only while another thread
  has left the lock of the queue and has not yet made its call of \<open>incScanPrivateData\<close>.
\<close>

theorem queue_operations_defined:
  assumes "q_reach own late m q" "q_enabled own late q op"
  shows "(q_step own op q = None \<longleftrightarrow>
      op = ClearOp \<and> queue_size q \<noteq> - 1 \<and> err q = '''' \<and> read_waiting q \<noteq> 0 \<and> head (lnk q) \<noteq> None
      \<or> (\<exists>v. op = PushRefOp v) \<and> queue_size q \<noteq> - 1 \<and> err q = '''' \<and> getMax q \<noteq> - 1
      \<or> op = DecScan \<and> obj_scan q = 0)
    \<and> (op = DecScan \<and> obj_scan q = 0 \<longrightarrow> inc_due q \<noteq> [])"
proof -
  have i: "q_inv own late q" using q_reach_inv [OF assms(1)] .
  have "q_step own op q = None \<longleftrightarrow> \<not> asserts_hold op q" using q_step_ok [OF i assms(2)] q_step_asserts [of op q own] by auto
  moreover have "0 \<le> obj_scan q" using i by (simp add: q_inv_def base_inv_def scan_ok_def)
  ultimately show ?thesis using decScan_overtakes [OF i] assms(2) by (cases op) (auto simp: queue_size_def getMax_def)
qed

lemma queue_operations_defined_witness:
  "(\<exists>q. q_reach True False (- 1) q \<and> q_step True ClearOp q = None \<and> q_step True DestroyOp q \<noteq> None)
   \<and> (\<exists>q. q_reach True False (- 1) q \<and> q_step True DecScan q = None \<and> inc_due q \<noteq> [])"
proof
  let ?ops = "[Call (call 1 ShiftReq 0), Call (call 2 (PushReq (Scalar 5)) 0)]"
  have "map_option (\<lambda>q. (qlen q, err q, read_waiting q, head (lnk q))) (runs (- 1) True False ?ops) = Some (1, '''', 1, Some 0)"
    by code_simp
  then obtain q where q: "q_reach True False (- 1) q" "qlen q = 1" "err q = ''''" "read_waiting q = 1" "head (lnk q) = Some 0"
    by (rule runs_obtain) auto
  have "q_step True ClearOp q = None" using queue_operations_defined [OF q(1), of ClearOp] q by (simp add: queue_size_def)
  moreover have "q_step True DestroyOp q \<noteq> None" using queue_operations_defined [OF q(1), of DestroyOp] by simp
  ultimately show "\<exists>q. q_reach True False (- 1) q \<and> q_step True ClearOp q = None \<and> q_step True DestroyOp q \<noteq> None" using q(1) by blast
next
  let ?ops = "[Call (call 1 (PushReq (Node 5 True)) 0), ClearOp]"
  have "map_option (\<lambda>q. (dec_due q, obj_scan q)) (runs (- 1) True False ?ops) = Some (1, 0)" by code_simp
  then obtain q where q: "q_reach True False (- 1) q" "dec_due q = 1" "obj_scan q = 0" by (rule runs_obtain) auto
  then show "\<exists>q. q_reach True False (- 1) q \<and> q_step True DecScan q = None \<and> inc_due q \<noteq> []"
    using queue_operations_defined [OF q(1), of DecScan] by auto
qed

text \<open>
  C4: Readers and writers never end up waiting for each other, under the condition that a wait that
  times out never swallows a signal (\<open>late = False\<close>): then readers asleep with no signal under way mean
  that the queue is empty (or deleted), writers asleep with no signal under way mean that it stores a
  value, so the two never happen together.  POSIX does not promise the condition for
  \<open>pthread_cond_timedwait\<close>; without it the statement is false (\<open>queue_timeout_swallows_signal\<close> below).
\<close>

theorem queue_no_stuck_threads:
  assumes "q_reach own False m q"
  shows "(sleepers (read_cond q) \<noteq> [] \<and> pending (read_cond q) = 0 \<longrightarrow> queue_size q \<le> 0)
    \<and> (sleepers (write_cond q) \<noteq> [] \<and> pending (write_cond q) = 0 \<longrightarrow> 0 < queue_size q)
    \<and> \<not> (sleepers (read_cond q) \<noteq> [] \<and> pending (read_cond q) = 0 \<and> sleepers (write_cond q) \<noteq> [] \<and> pending (write_cond q) = 0)"
  using q_reach_inv [OF assms] by (auto simp: q_inv_def reads_ok_def writes_ok_def queue_size_def)

lemma queue_no_stuck_threads_witness:
  "\<exists>q. q_reach True False 1 q \<and> sleepers (write_cond q) = [call 2 (PushReq (Scalar 6)) 0] \<and> pending (write_cond q) = 0 \<and> 0 < queue_size q"
proof -
  let ?ops = "[Call (call 1 (PushReq (Scalar 5)) 0), Call (call 2 (PushReq (Scalar 6)) 0)]"
  have "map_option (\<lambda>q. (sleepers (write_cond q), pending (write_cond q))) (runs 1 True False ?ops)
    = Some ([call 2 (PushReq (Scalar 6)) 0], 0)" by code_simp
  then obtain q where q: "q_reach True False 1 q" "sleepers (write_cond q) = [call 2 (PushReq (Scalar 6)) 0]" "pending (write_cond q) = 0"
    by (rule runs_obtain) auto
  then show ?thesis using queue_no_stuck_threads [OF q(1)] by auto
qed

text \<open>
  \<open>clear\<close> frees every slot of a full queue but wakes up a single writer: there is a reachable state
  in which a writer sleeps with no signal under way although the queue has room for its value.
\<close>

theorem queue_clear_wakes_one_writer:
  "\<exists>q. q_reach True False 2 q \<and> queue_size q = 1 \<and> getMax q = 2 \<and> sleepers (write_cond q) = [call 4 (PushReq (Scalar 4)) 0]
     \<and> pending (write_cond q) = 0 \<and> asleep q = [call 4 (PushReq (Scalar 4)) 0]"
proof -
  let ?ops = "[Call (call 1 (PushReq (Scalar 1)) 0), Call (call 2 (PushReq (Scalar 2)) 0), Call (call 3 (PushReq (Scalar 3)) 0),
    Call (call 4 (PushReq (Scalar 4)) 0), ClearOp, WriteWake (call 3 (PushReq (Scalar 3)) 0)]"
  have "map_option (\<lambda>q. (qlen q, max_len q, sleepers (write_cond q), pending (write_cond q), asleep q)) (runs 2 True False ?ops)
    = Some (1, 2, [call 4 (PushReq (Scalar 4)) 0], 0, [call 4 (PushReq (Scalar 4)) 0])" by code_simp
  then show ?thesis by (rule runs_obtain) (auto simp: queue_size_def getMax_def)
qed

text \<open>
  C5: Deleting a queue with waiting threads raises one exception for the readers and one for the writers
  in the deleting thread, signals every one of them, and each of them that was not timed out leaves its
  operation with \<open>QUEUE-ERROR\<close>.
\<close>

theorem queue_delete_wakes_all:
  assumes "q_reach own late m q"
  shows "\<exists>xs q'. queue_destructor q = Some (xs, q') \<and> queue_size q' = - 1
    \<and> length xs = (if sleepers (read_cond q) = [] then 0 else 1) + (if sleepers (write_cond q) = [] then 0 else 1)
    \<and> pending (read_cond q') = length (sleepers (read_cond q)) \<and> pending (write_cond q') = length (sleepers (write_cond q))
    \<and> (\<exists>q''. resume_read False s q' = Some (Returns None False [''QUEUE-ERROR''], q''))
    \<and> (\<exists>q''. resume_write False s q' = Some (Returns None False [''QUEUE-ERROR''], q''))"
proof -
  have i: "q_inv own late q" using q_reach_inv [OF assms] .
  have w: "read_waiting q = int (length (sleepers (read_cond q)))" "write_waiting q = int (length (sleepers (write_cond q)))"
    and so: "store_ok (broadcast_waiting q)"
    using i by (auto simp: q_inv_def base_inv_def conds_ok_def cv_ok_def)
  obtain q1 where q1: "clearIntern (broadcast_waiting q) = Some q1" "set_len (- 1) q1 = emptied (- 1) (broadcast_waiting q)"
    using set_len_clear [OF so] by blast
  let ?q = "(emptied (- 1) (broadcast_waiting q))\<lparr>desc := None\<rparr>"
  have q: "qlen ?q = - 1" "pending (read_cond ?q) = length (sleepers (read_cond q))" "pending (write_cond ?q) = length (sleepers (write_cond q))"
    using i w by (auto simp: emptied_def qlen_def broadcast_waiting_def Let_def cv_broadcast_def q_inv_def base_inv_def conds_ok_def cv_ok_def)
  have r: "\<exists>q''. resume_read False s ?q = Some (Returns None False [''QUEUE-ERROR''], q'')"
    "\<exists>q''. resume_write False s ?q = Some (Returns None False [''QUEUE-ERROR''], q'')"
    by (simp_all add: resume_read_def resume_write_def Let_def waitRead_again_def waitWrite_again_def emptied_def qlen_def raiseException_def)
  have "\<exists>xs. queue_destructor q = Some (xs, ?q) \<and>
    length xs = (if sleepers (read_cond q) = [] then 0 else 1) + (if sleepers (write_cond q) = [] then 0 else 1)"
    using q1 w by (auto simp: queue_destructor_def Let_def raiseException_def)
  then show ?thesis using q r by (auto simp: queue_size_def)
qed

lemma queue_delete_wakes_all_witness:
  "\<exists>q xs q'. q_reach True True (- 1) q \<and> queue_destructor q = Some (xs, q') \<and> length xs = 1 \<and> pending (read_cond q') = 2"
proof -
  let ?ops = "[Call (call 1 ShiftReq 0), Call (call 2 PopReq 50)]"
  have "map_option (\<lambda>q. (length (sleepers (read_cond q)), sleepers (write_cond q))) (runs (- 1) True True ?ops) = Some (2, [])"
    by code_simp
  then obtain q where q: "q_reach True True (- 1) q" "length (sleepers (read_cond q)) = 2" "sleepers (write_cond q) = []"
    by (rule runs_obtain) auto
  then have "sleepers (read_cond q) \<noteq> []" by auto
  then show ?thesis using queue_delete_wakes_all [OF q(1), of "call 1 ShiftReq 0"] q by auto
qed

text \<open>
  A copy of a queue that has not been deleted stores the same values in the same order in nodes of
  its own, with the same limit and error status and no waiting threads.
\<close>

theorem queue_copy_same_values:
  assumes "q_reach own late m q" "stores (lnk q) vs"
  shows "\<exists>q'. queue_copy q = Some q' \<and> stores (lnk q') vs \<and> getMax q' = m \<and> err q' = err q \<and> desc q' = desc q
    \<and> getReadWaiting q' = 0 \<and> getWriteWaiting q' = 0"
proof -
  obtain as where as: "linked (lnk q) as" "vs = values_at (mem (lnk q)) as" using assms(2) by (auto simp: stores_def)
  have e: "linked links_empty []" by (simp add: linked_def links_empty_def)
  have n: "qlen q \<noteq> - 1" using stores_len [OF assms(2)] by (simp add: qlen_def)
  obtain l cs where "copy_loop (mem (lnk q)) (head (lnk q)) links_empty = Some l" "linked l cs" "values_at (mem l) cs = vs"
    using copy_loop_values [OF linkedD(4) [OF as(1)] e] as(2) by auto
  then show ?thesis using n q_reach_max [OF assms(1)]
    by (auto simp: queue_copy_def Let_def getMax_def getReadWaiting_def getWriteWaiting_def stores_def)
qed

lemma queue_copy_same_values_witness:
  "\<exists>q q' vs. q_reach True False 5 q \<and> stores (lnk q) vs \<and> length vs = 2 \<and> queue_copy q = Some q' \<and> stores (lnk q') vs"
proof -
  let ?ops = "[Call (call 1 (PushReq (Scalar 5)) 0), Call (call 2 (InsertReq (Node 6 True)) 0)]"
  have "map_option (\<lambda>q. (qlen q, err q)) (runs 5 True False ?ops) = Some (2, '''')" by code_simp
  then obtain q where q: "q_reach True False 5 q" "qlen q = 2" "err q = ''''" by (rule runs_obtain) auto
  obtain vs where vs: "stores (lnk q) vs" using reach_usable [OF q(1)] q by (auto simp: usable_def)
  then show ?thesis using queue_copy_same_values [OF q(1) vs] stores_len [OF vs] q by (fastforce simp: qlen_def)
qed

section \<open>Further behaviour\<close>

text \<open>The scan for recursive references visits exactly the values in the queue.\<close>

lemma scanMembers_values:
  assumes "stores (lnk q) vs"
  shows "scanMembers chk False q = Some (\<exists>v\<in>set vs. hasNode v \<and> chk v)"
  using assms scan_loop_values [of "mem (lnk q)" None "head (lnk q)" _ chk] by (auto simp: scanMembers_def stores_def linked_def)

text \<open>
  A wait that reports a timeout returns without looking at the queue again, so when it has consumed a
  signal another reader stays asleep although the queue stores a value.
\<close>

lemma queue_timeout_swallows_signal:
  "\<exists>q. q_reach True True (- 1) q \<and> queue_size q = 1 \<and> sleepers (read_cond q) = [call 2 ShiftReq 0] \<and> pending (read_cond q) = 0"
proof -
  let ?ops = "[Call (call 1 ShiftReq 10), Call (call 2 ShiftReq 0), Call (call 3 (PushReq (Scalar 5)) 0), ReadTimeout (call 1 ShiftReq 10) True]"
  have "map_option (\<lambda>q. (qlen q, sleepers (read_cond q), pending (read_cond q))) (runs (- 1) True True ?ops) = Some (1, [call 2 ShiftReq 0], 0)"
    by code_simp
  then show ?thesis by (rule runs_obtain) (auto simp: queue_size_def)
qed

text \<open>
  The calls for the owner are not ordered by the lock of the queue: when a push of an object is overtaken
  by \<open>clear\<close> between its critical section and its call of \<open>incScanPrivateData\<close>, the assertion of
  \<open>decScanPrivateData\<close> fails.
\<close>

lemma clear_overtakes_push:
  "\<exists>q. q_reach True False (- 1) q \<and> q_enabled True False q DecScan \<and> q_step True DecScan q = None \<and> inc_due q = [1]"
proof -
  have "map_option (\<lambda>q. (dec_due q, obj_scan q, inc_due q)) (runs (- 1) True False [Call (call 1 (PushReq (Node 5 True)) 0), ClearOp])
    = Some (1, 0, [1])" by code_simp
  then obtain q where "q_reach True False (- 1) q" "dec_due q = 1" "obj_scan q = 0" "inc_due q = [1]" by (rule runs_obtain) auto
  then show ?thesis by (intro exI [of _ q]) (simp add: decScanPrivateData_def)
qed

text \<open>\<open>shift\<close> and \<open>pop\<close> test the node pointer instead of the value, so the count of scannable values never goes down.\<close>

lemma scan_count_not_decremented:
  "\<exists>q. q_reach True False (- 1) q \<and> queue_size q = 0 \<and> scan_count q = 1 \<and> obj_scan q = 1"
proof -
  have "map_option (\<lambda>q. (qlen q, scan_count q, obj_scan q)) (runs (- 1) True False [Call (call 1 (PushReq (Node 1 True)) 0), IncScan 1, Call (call 1 ShiftReq 0)])
    = Some (0, 1, 1)" by code_simp
  then show ?thesis by (rule runs_obtain) (auto simp: queue_size_def)
qed

end
