(* ===== verification/Text_Bytes.thy ===== *)
theory Text_Bytes
  imports Qore_Prelude "HOL-Library.Word"
begin

text \<open>
  Byte buffers: the bytes of strings and binary objects as \<open>8 word\<close> lists, a C string literal as
  bytes, the null terminator behind the last byte of a string buffer, and the bit-level facts the
  encoders share.
\<close>

unbundle bit_operations_syntax

type_synonym byte = "8 word"
type_synonym bytes = "8 word list"

named_theorems byte_bits "masks and bits of bytes"

section \<open>Buffers\<close>

text \<open>A character and a string literal of the source.\<close>

definition asc :: "char \<Rightarrow> byte" where
  "asc c = of_char c"

definition lit :: "string \<Rightarrow> bytes" where
  "lit s = map asc s"

text \<open>The byte a pointer into a null-terminated buffer points to; the argument is what remains of the buffer.\<close>

fun peek :: "bytes \<Rightarrow> byte" where
  "peek [] = 0"
| "peek (b # bs) = b"

definition peek_at :: "nat \<Rightarrow> bytes \<Rightarrow> byte" where
  "peek_at n bs = peek (drop n bs)"

lemma peek_at_Cons [simp]: "peek_at 0 (b # bs) = b" "peek_at (Suc n) (b # bs) = peek_at n bs" "peek_at n [] = 0"
  by (simp_all add: peek_at_def)

lemma lit_simps [simp]: "lit [] = []" "lit (c # s) = asc c # lit s" "length (lit s) = length s" "lit (s @ t) = lit s @ lit t"
  by (simp_all add: lit_def)

section \<open>Bits of bytes\<close>

lemma byte_eq_iff:
  "(x :: byte) = y \<longleftrightarrow> bit x 0 = bit y 0 \<and> bit x 1 = bit y 1 \<and> bit x 2 = bit y 2 \<and> bit x 3 = bit y 3
     \<and> bit x 4 = bit y 4 \<and> bit x 5 = bit y 5 \<and> bit x 6 = bit y 6 \<and> bit x 7 = bit y 7"
proof
  assume r: "bit x 0 = bit y 0 \<and> bit x 1 = bit y 1 \<and> bit x 2 = bit y 2 \<and> bit x 3 = bit y 3
     \<and> bit x 4 = bit y 4 \<and> bit x 5 = bit y 5 \<and> bit x 6 = bit y 6 \<and> bit x 7 = bit y 7"
  show "x = y"
  proof (rule bit_word_eqI)
    fix n assume "n < LENGTH(8)"
    then have "n = 0 \<or> n = 1 \<or> n = 2 \<or> n = 3 \<or> n = 4 \<or> n = 5 \<or> n = 6 \<or> n = 7" by auto
    then show "bit x n = bit y n" using r by (elim disjE) simp_all
  qed
qed simp

lemma byte_high [simp]: "8 \<le> n \<Longrightarrow> \<not> bit (x :: byte) n"
  by (auto dest: bit_imp_le_length)

lemma byte_masks [byte_bits]:
  "(3 :: byte) = mask 2" "(7 :: byte) = mask 3" "(15 :: byte) = mask 4" "(31 :: byte) = mask 5" "(63 :: byte) = mask 6"
  by (simp_all add: mask_eq_exp_minus_1)

lemma byte_lt_64: "(x :: byte) < 64 \<longleftrightarrow> x AND 63 = x"
proof -
  have "x AND 63 = x \<longleftrightarrow> take_bit 6 x = x" by (simp add: byte_masks take_bit_eq_mask [symmetric])
  also have "\<dots> \<longleftrightarrow> unat x mod 64 = unat x" by (simp add: take_bit_eq_mod word_unat_eq_iff unat_mod)
  also have "\<dots> \<longleftrightarrow> x < 64" by (simp add: word_less_nat_alt) (metis mod_less mod_less_divisor zero_less_numeral)
  finally show ?thesis by simp
qed

lemma drop_bit_lt_64 [simp]: "drop_bit 2 (x :: byte) < 64"
  by (simp add: byte_lt_64 byte_eq_iff byte_masks bit_simps)

end
