(* ===== verification/Text_Encoding.thy ===== *)
theory Text_Encoding
  imports Text_Bytes
begin

text \<open>
  Character encodings (\<open>src/lib/charset.cpp\<close>, and the Unicode helpers of \<open>src/lib/QoreString.cpp\<close>).
  A pointer pair \<open>p\<close>, \<open>end\<close> is the list of bytes between them.  The three functions \<open>getLength\<close>,
  \<open>getByteLen\<close> and \<open>getCharPos\<close> have the same loop in every multi-byte encoding; the loops take the
  encoding's character length function as their argument.  The locale \<open>charset\<close> is what a character
  length function promises; in it a valid buffer is the concatenation of its characters.
\<close>

section \<open>Character lengths\<close>

definition q_UTF8_get_char_len :: "bytes \<Rightarrow> int" where
  "q_UTF8_get_char_len p =
     (if peek p AND 0xc0 = 0xc0 then
        if peek p AND 0x20 \<noteq> 0 then
          if peek p AND 0x10 \<noteq> 0 then
            if length p \<ge> 4 then
              (if peek_at 1 p AND 0x80 \<noteq> 0 \<and> peek_at 2 p AND 0x80 \<noteq> 0 \<and> peek_at 3 p AND 0x80 \<noteq> 0 then 4 else 0)
            else - 4
          else if length p \<ge> 3 then
            (if peek_at 1 p AND 0x80 \<noteq> 0 \<and> peek_at 2 p AND 0x80 \<noteq> 0 then 3 else 0)
          else - 3
        else if length p \<ge> 2 then (if peek_at 1 p AND 0x80 \<noteq> 0 then 2 else 0)
        else - 2
      else 1)"

definition q_UTF16LE_get_char_len :: "bytes \<Rightarrow> int" where
  "q_UTF16LE_get_char_len p =
     (if length p = 1 then - 2
      else let c = peek_at 1 p; l = (if 0xd8 \<le> c \<and> c < 0xdc then 4 else 2)
           in if int (length p) \<ge> l then l else - l)"

definition q_UTF16BE_get_char_len :: "bytes \<Rightarrow> int" where
  "q_UTF16BE_get_char_len p =
     (let c = peek p; l = (if 0xd8 \<le> c \<and> c < 0xdc then 4 else 2)
      in if int (length p) \<ge> l then l else - l)"

section \<open>Loops over the characters of a buffer\<close>

text \<open>The answer is the count and the flag \<open>invalid\<close>.\<close>

function length_loop :: "(bytes \<Rightarrow> int) \<Rightarrow> bytes \<Rightarrow> nat \<times> bool" where
  "length_loop charlen p =
     (if p = [] then (0, False)
      else let l = charlen p
           in if l \<le> 0 then (0, True)
              else let (i, invalid) = length_loop charlen (drop (nat l) p) in (i + 1, invalid))"
  by pat_completeness auto
termination by (relation "measure (\<lambda>(f, p). length p)") auto

function byte_len_loop :: "(bytes \<Rightarrow> int) \<Rightarrow> bytes \<Rightarrow> nat \<Rightarrow> nat \<times> bool" where
  "byte_len_loop charlen p l =
     (if p = [] \<or> l = 0 then (0, False)
      else let bl = charlen p
           in if bl \<le> 0 then (0, True)
              else let (b, invalid) = byte_len_loop charlen (drop (nat bl) p) (l - 1) in (b + nat bl, invalid))"
  by pat_completeness auto
termination by (relation "measure (\<lambda>(f, p, l). length p)") auto

declare length_loop.simps [simp del] byte_len_loop.simps [simp del]

definition UTF8_getLength :: "bytes \<Rightarrow> nat \<times> bool" where "UTF8_getLength = length_loop q_UTF8_get_char_len"
definition UTF8_getByteLen :: "bytes \<Rightarrow> nat \<Rightarrow> nat \<times> bool" where "UTF8_getByteLen = byte_len_loop q_UTF8_get_char_len"
definition UTF8_getCharPos :: "bytes \<Rightarrow> nat \<times> bool" where "UTF8_getCharPos = length_loop q_UTF8_get_char_len"
definition UTF16LE_getLength :: "bytes \<Rightarrow> nat \<times> bool" where "UTF16LE_getLength = length_loop q_UTF16LE_get_char_len"
definition UTF16LE_getByteLen :: "bytes \<Rightarrow> nat \<Rightarrow> nat \<times> bool" where "UTF16LE_getByteLen = byte_len_loop q_UTF16LE_get_char_len"
definition UTF16LE_getCharPos :: "bytes \<Rightarrow> nat \<times> bool" where "UTF16LE_getCharPos = length_loop q_UTF16LE_get_char_len"
definition UTF16BE_getLength :: "bytes \<Rightarrow> nat \<times> bool" where "UTF16BE_getLength = length_loop q_UTF16BE_get_char_len"
definition UTF16BE_getByteLen :: "bytes \<Rightarrow> nat \<Rightarrow> nat \<times> bool" where "UTF16BE_getByteLen = byte_len_loop q_UTF16BE_get_char_len"
definition UTF16BE_getCharPos :: "bytes \<Rightarrow> nat \<times> bool" where "UTF16BE_getCharPos = length_loop q_UTF16BE_get_char_len"

section \<open>Code points\<close>

text \<open>A \<open>char\<close> is signed: as an \<open>unsigned\<close> it is sign-extended, and masking it removes the extension.\<close>

definition UTF8_getUnicode :: "bytes \<Rightarrow> 32 word" where
  "UTF8_getUnicode p =
     (if peek p AND 0xc0 = 0xc0 then
        if peek p AND 0x20 \<noteq> 0 then
          if peek p AND 0x10 \<noteq> 0 then
            push_bit 18 (scast (peek p) AND 0x07) OR push_bit 12 (scast (peek_at 1 p) AND 0x3f)
              OR push_bit 6 (scast (peek_at 2 p) AND 0x3f) OR (scast (peek_at 3 p) AND 0x3f)
          else push_bit 12 (scast (peek p) AND 0x0f) OR push_bit 6 (scast (peek_at 1 p) AND 0x3f) OR (scast (peek_at 2 p) AND 0x3f)
        else push_bit 6 (scast (peek p) AND 0x1f) OR (scast (peek_at 1 p) AND 0x3f)
      else scast (peek p))"

definition get_unicode_from_utf8 :: "bytes \<Rightarrow> nat \<Rightarrow> 32 word" where
  "get_unicode_from_utf8 buf bl =
     (if bl = 1 then scast (peek buf)
      else if bl = 2 then push_bit 6 (scast (peek buf) AND 0x1f) OR (scast (peek_at 1 buf) AND 0x3f)
      else if bl = 3 then push_bit 12 (scast (peek buf) AND 0x0f) OR push_bit 6 (scast (peek_at 1 buf) AND 0x3f) OR (scast (peek_at 2 buf) AND 0x3f)
      else push_bit 18 (scast (peek buf) AND 0x07) OR push_bit 12 (scast (peek_at 1 buf) AND 0x3f)
              OR push_bit 6 (scast (peek_at 2 buf) AND 0x3f) OR (scast (peek_at 3 buf) AND 0x3f))"

definition code_unit_pair :: "32 word \<Rightarrow> 32 word \<Rightarrow> 32 word" where
  "code_unit_pair code_unit code_unit_2 =
     (if 0xd800 \<le> code_unit \<and> code_unit \<le> 0xdbff \<and> 0xdc00 \<le> code_unit_2 \<and> code_unit_2 \<le> 0xdfff
      then push_bit 10 code_unit + code_unit_2 - 0x35fdc00 else code_unit)"

definition UTF16LE_getUnicode :: "bytes \<Rightarrow> 32 word" where
  "UTF16LE_getUnicode p = code_unit_pair (push_bit 8 (ucast (peek_at 1 p)) + ucast (peek p)) (push_bit 8 (ucast (peek_at 3 p)) + ucast (peek_at 2 p))"

definition UTF16BE_getUnicode :: "bytes \<Rightarrow> 32 word" where
  "UTF16BE_getUnicode p = code_unit_pair (push_bit 8 (ucast (peek p)) + ucast (peek_at 1 p)) (push_bit 8 (ucast (peek_at 2 p)) + ucast (peek_at 3 p))"

definition concatUTF8FromUnicode :: "32 word \<Rightarrow> bytes" where
  "concatUTF8FromUnicode code =
     (if code > 0xffff then
        [ucast (0xf0 OR drop_bit 18 (code AND push_bit 18 0x7)), ucast (0x80 OR drop_bit 12 (code AND push_bit 12 0x3f)),
         ucast (0x80 OR drop_bit 6 (code AND push_bit 6 0x3f)), ucast (0x80 OR (code AND 0x3f))]
      else if code > 0x7ff then
        [ucast (0xe0 OR drop_bit 12 (code AND push_bit 12 0xf)), ucast (0x80 OR drop_bit 6 (code AND push_bit 6 0x3f)),
         ucast (0x80 OR (code AND 0x3f))]
      else if code > 0x7f then
        [ucast (0xc0 OR drop_bit 6 (code AND push_bit 6 0x2f)), ucast (0x80 OR (code AND 0x3f))]
      else [ucast code])"

section \<open>Encodings\<close>

datatype QoreEncoding = SingleByte string | QCS_UTF8 | QCS_UTF16 | QCS_UTF16LE | QCS_UTF16BE

text \<open>
  Conversion of a buffer between two encodings is done by the external \<open>iconv\<close>: a value of this type gives the
  converted bytes, or \<open>None\<close> when the conversion fails.
\<close>

type_synonym iconv = "QoreEncoding \<Rightarrow> QoreEncoding \<Rightarrow> bytes \<Rightarrow> bytes option"

fun isMultiByte :: "QoreEncoding \<Rightarrow> bool" where
  "isMultiByte (SingleByte _) = False"
| "isMultiByte _ = True"

fun isAsciiCompat :: "QoreEncoding \<Rightarrow> bool" where
  "isAsciiCompat QCS_UTF16 = False"
| "isAsciiCompat QCS_UTF16LE = False"
| "isAsciiCompat QCS_UTF16BE = False"
| "isAsciiCompat _ = True"

fun fcharlen :: "QoreEncoding \<Rightarrow> bytes \<Rightarrow> int" where
  "fcharlen (SingleByte _) p = 1"
| "fcharlen QCS_UTF8 p = q_UTF8_get_char_len p"
| "fcharlen QCS_UTF16 p = q_UTF16BE_get_char_len p"
| "fcharlen QCS_UTF16LE p = q_UTF16LE_get_char_len p"
| "fcharlen QCS_UTF16BE p = q_UTF16BE_get_char_len p"

definition getCharLen :: "QoreEncoding \<Rightarrow> bytes \<Rightarrow> int" where
  "getCharLen enc p = fcharlen enc p"

definition strlen :: "bytes \<Rightarrow> nat" where
  "strlen p = length (takeWhile (\<lambda>b. b \<noteq> 0) p)"

definition enc_result :: "nat \<times> bool \<Rightarrow> xsink \<Rightarrow> nat \<times> xsink" where
  "enc_result r xs = (if snd r then (0, raiseException xs ''INVALID-ENCODING'') else (fst r, xs))"

fun getLength :: "QoreEncoding \<Rightarrow> bytes \<Rightarrow> xsink \<Rightarrow> nat \<times> xsink" where
  "getLength (SingleByte _) p xs = (strlen p, xs)"
| "getLength QCS_UTF8 p xs = enc_result (UTF8_getLength p) xs"
| "getLength QCS_UTF16 p xs = enc_result (UTF16BE_getLength p) xs"
| "getLength QCS_UTF16LE p xs = enc_result (UTF16LE_getLength p) xs"
| "getLength QCS_UTF16BE p xs = enc_result (UTF16BE_getLength p) xs"

fun getByteLen :: "QoreEncoding \<Rightarrow> bytes \<Rightarrow> nat \<Rightarrow> xsink \<Rightarrow> nat \<times> xsink" where
  "getByteLen (SingleByte _) p c xs = (min c (length p), xs)"
| "getByteLen QCS_UTF8 p c xs = enc_result (UTF8_getByteLen p c) xs"
| "getByteLen QCS_UTF16 p c xs = enc_result (UTF16BE_getByteLen p c) xs"
| "getByteLen QCS_UTF16LE p c xs = enc_result (UTF16LE_getByteLen p c) xs"
| "getByteLen QCS_UTF16BE p c xs = enc_result (UTF16BE_getByteLen p c) xs"

fun getCharPos :: "QoreEncoding \<Rightarrow> bytes \<Rightarrow> xsink \<Rightarrow> nat \<times> xsink" where
  "getCharPos (SingleByte _) p xs = (length p, xs)"
| "getCharPos QCS_UTF8 p xs = enc_result (UTF8_getCharPos p) xs"
| "getCharPos QCS_UTF16 p xs = enc_result (UTF16BE_getCharPos p) xs"
| "getCharPos QCS_UTF16LE p xs = enc_result (UTF16LE_getCharPos p) xs"
| "getCharPos QCS_UTF16BE p xs = enc_result (UTF16BE_getCharPos p) xs"

text \<open>The code point of the first character and its length in bytes; a failed conversion is a failed assertion.\<close>

definition getUnicode :: "iconv \<Rightarrow> QoreEncoding \<Rightarrow> bytes \<Rightarrow> xsink \<Rightarrow> 32 word \<times> nat \<times> xsink" where
  "getUnicode conv enc p xs =
     (let (clen, xs) = getByteLen enc p 1 xs
      in if xs \<noteq> [] then (- 1, clen, xs)
         else (case enc of
                 SingleByte code \<Rightarrow>
                   (if peek p < 128 then ucast (peek p)
                    else case conv enc QCS_UTF8 [peek p] of Some tmp \<Rightarrow> UTF8_getUnicode tmp | None \<Rightarrow> - 1)
               | QCS_UTF8 \<Rightarrow> UTF8_getUnicode p
               | QCS_UTF16 \<Rightarrow> UTF16BE_getUnicode p
               | QCS_UTF16LE \<Rightarrow> UTF16LE_getUnicode p
               | QCS_UTF16BE \<Rightarrow> UTF16BE_getUnicode p, clen, xs))"

definition q_get_char_len :: "QoreEncoding \<Rightarrow> bytes \<Rightarrow> xsink \<Rightarrow> int \<times> xsink" where
  "q_get_char_len enc p xs =
     (let rc = getCharLen enc p in if rc \<le> 0 then (- 1, raiseException xs ''INVALID-ENCODING'') else (rc, xs))"

section \<open>What a character length function promises\<close>

text \<open>
  The length it reports lies within the buffer and depends on the bytes of that character only.
\<close>

locale charset =
  fixes charlen :: "bytes \<Rightarrow> int"
  assumes charlen_le: "p \<noteq> [] \<Longrightarrow> charlen p \<le> int (length p)"
    and charlen_local: "p \<noteq> [] \<Longrightarrow> 0 < charlen p \<Longrightarrow> charlen (take (nat (charlen p)) p @ q) = charlen p"
begin

definition is_char :: "bytes \<Rightarrow> bool" where
  "is_char c \<longleftrightarrow> c \<noteq> [] \<and> charlen c = int (length c)"

lemma is_char_append: "is_char c \<Longrightarrow> charlen (c @ q) = int (length c)"
  using charlen_local [of c q] by (simp add: is_char_def)

lemma length_loop_chars: "list_all is_char cs \<Longrightarrow> length_loop charlen (concat cs) = (length cs, False)"
proof (induction cs)
  case (Cons c cs)
  then have "c \<noteq> []" "charlen (c @ concat cs) = int (length c)" using is_char_append by (simp_all add: is_char_def)
  then show ?case using Cons by (subst length_loop.simps) (simp add: Let_def)
qed (simp add: length_loop.simps)

lemma byte_len_loop_chars:
  "list_all is_char cs \<Longrightarrow> byte_len_loop charlen (concat cs) l = (length (concat (take l cs)), False)"
proof (induction cs arbitrary: l)
  case (Cons c cs)
  then have "c \<noteq> []" "charlen (c @ concat cs) = int (length c)" using is_char_append by (simp_all add: is_char_def)
  then show ?case using Cons by (cases l) (subst byte_len_loop.simps, simp add: Let_def)+
qed (simp add: byte_len_loop.simps)

lemma valid_split: "\<not> snd (length_loop charlen p) \<Longrightarrow> \<exists>cs. list_all is_char cs \<and> p = concat cs"
proof (induction p rule: measure_induct_rule [of length])
  case (less p)
  show ?case
  proof (cases "p = []")
    case True
    then show ?thesis by (intro exI [of _ "[]"]) simp
  next
    case False
    let ?n = "nat (charlen p)"
    have "0 < charlen p \<and> \<not> snd (length_loop charlen (drop ?n p))"
      using less.prems False length_loop.simps [of charlen p] by (auto simp: Let_def split: if_splits prod.splits)
    then have v: "0 < charlen p" "\<not> snd (length_loop charlen (drop ?n p))" by simp_all
    have n: "?n \<le> length p" "take ?n p \<noteq> []" using v(1) False charlen_le [OF False] by simp_all
    have "is_char (take ?n p)" using charlen_local [OF False v(1), of "[]"] n v(1) by (simp add: is_char_def)
    moreover obtain cs where "list_all is_char cs" "drop ?n p = concat cs" using less.IH [of "drop ?n p"] v False by auto
    moreover from this have "p = concat (take ?n p # cs)" by (metis append_take_drop_id concat.simps(2))
    ultimately have "list_all is_char (take ?n p # cs) \<and> p = concat (take ?n p # cs)" by (simp only: list_all_iff list.set) blast
    then show ?thesis ..
  qed
qed

lemma chars_unique: "list_all is_char cs \<Longrightarrow> list_all is_char ds \<Longrightarrow> concat cs = concat ds \<Longrightarrow> cs = ds"
proof (induction cs arbitrary: ds)
  case Nil
  then show ?case by (cases ds) (auto simp: is_char_def)
next
  case (Cons c cs)
  obtain d ds' where ds: "ds = d # ds'" using Cons.prems by (cases ds) (auto simp: is_char_def)
  have "charlen (c @ concat cs) = int (length c)" "charlen (d @ concat ds') = int (length d)"
    using Cons.prems(1,2) ds is_char_append [of c "concat cs"] is_char_append [of d "concat ds'"] by simp_all
  then have "length c = length d" using Cons.prems(3) ds by simp
  then have "c = d" "concat cs = concat ds'" using Cons.prems(3) ds by (simp_all add: append_eq_append_conv)
  then show ?case using Cons.IH [of ds'] Cons.prems(1,2) ds by simp
qed

end

lemma take_peek [simp]: "0 < n \<Longrightarrow> peek (take n p @ q) = (if p = [] then peek q else peek p)"
  by (cases p; cases n) simp_all

lemma peek_at_nth: "peek_at k p = (if k < length p then p ! k else 0)"
proof (induction k arbitrary: p)
  case 0
  then show ?case by (cases p) simp_all
next
  case (Suc k)
  then show ?case by (cases p) simp_all
qed

lemma take_peek_at: "k < n \<Longrightarrow> n \<le> length p \<Longrightarrow> peek_at k (take n p @ q) = peek_at k p"
  by (simp add: peek_at_nth nth_append)

interpretation utf8: charset q_UTF8_get_char_len
proof
  fix p :: bytes
  show "q_UTF8_get_char_len p \<le> int (length p)" if "p \<noteq> []"
    using that by (cases p) (auto simp: q_UTF8_get_char_len_def)
next
  fix p q :: bytes
  assume p: "p \<noteq> []" "0 < q_UTF8_get_char_len p"
  have "q_UTF8_get_char_len p = 1 \<and> peek p AND 0xc0 \<noteq> 0xc0
    \<or> q_UTF8_get_char_len p = 2 \<and> peek p AND 0xc0 = 0xc0 \<and> peek p AND 0x20 = 0 \<and> 2 \<le> length p \<and> peek_at 1 p AND 0x80 \<noteq> 0
    \<or> q_UTF8_get_char_len p = 3 \<and> peek p AND 0xc0 = 0xc0 \<and> peek p AND 0x20 \<noteq> 0 \<and> peek p AND 0x10 = 0 \<and> 3 \<le> length p
        \<and> peek_at 1 p AND 0x80 \<noteq> 0 \<and> peek_at 2 p AND 0x80 \<noteq> 0
    \<or> q_UTF8_get_char_len p = 4 \<and> peek p AND 0xc0 = 0xc0 \<and> peek p AND 0x20 \<noteq> 0 \<and> peek p AND 0x10 \<noteq> 0 \<and> 4 \<le> length p
        \<and> peek_at 1 p AND 0x80 \<noteq> 0 \<and> peek_at 2 p AND 0x80 \<noteq> 0 \<and> peek_at 3 p AND 0x80 \<noteq> 0"
    using p(2) unfolding q_UTF8_get_char_len_def by (simp split: if_splits)
  then show "q_UTF8_get_char_len (take (nat (q_UTF8_get_char_len p)) p @ q) = q_UTF8_get_char_len p"
  proof (elim disjE conjE, goal_cases)
    case 1
    then show ?case using p(1) by (simp add: q_UTF8_get_char_len_def [of "take _ p @ q"])
  next
    case 2
    then show ?case using p(1) by (simp add: q_UTF8_get_char_len_def [of "take _ p @ q"] take_peek_at)
  next
    case 3
    then show ?case using p(1) by (simp add: q_UTF8_get_char_len_def [of "take _ p @ q"] take_peek_at)
  next
    case 4
    then show ?case using p(1) by (simp add: q_UTF8_get_char_len_def [of "take _ p @ q"] take_peek_at)
  qed
qed

interpretation utf16le: charset q_UTF16LE_get_char_len
proof
  fix p :: bytes
  show "q_UTF16LE_get_char_len p \<le> int (length p)" if "p \<noteq> []"
    using that by (auto simp: q_UTF16LE_get_char_len_def Let_def)
next
  fix p q :: bytes
  assume p: "p \<noteq> []" "0 < q_UTF16LE_get_char_len p"
  then show "q_UTF16LE_get_char_len (take (nat (q_UTF16LE_get_char_len p)) p @ q) = q_UTF16LE_get_char_len p"
    by (auto simp: q_UTF16LE_get_char_len_def Let_def take_peek_at split: if_splits)
qed

interpretation utf16be: charset q_UTF16BE_get_char_len
proof
  fix p :: bytes
  show "q_UTF16BE_get_char_len p \<le> int (length p)" if "p \<noteq> []"
    using that by (auto simp: q_UTF16BE_get_char_len_def Let_def)
next
  fix p q :: bytes
  assume p: "p \<noteq> []" "0 < q_UTF16BE_get_char_len p"
  then show "q_UTF16BE_get_char_len (take (nat (q_UTF16BE_get_char_len p)) p @ q) = q_UTF16BE_get_char_len p"
    by (auto simp: q_UTF16BE_get_char_len_def Let_def split: if_splits)
qed

interpretation single: charset "fcharlen (SingleByte e)" for e
proof
  fix p q :: bytes
  show "fcharlen (SingleByte e) p \<le> int (length p)" if "p \<noteq> []" using that by (cases p) simp_all
  show "fcharlen (SingleByte e) (take (nat (fcharlen (SingleByte e) p)) p @ q) = fcharlen (SingleByte e) p" by simp
qed

text \<open>All encodings at once.\<close>

lemma fcharlen_eta [simp]:
  "fcharlen QCS_UTF8 = q_UTF8_get_char_len" "fcharlen QCS_UTF16 = q_UTF16BE_get_char_len"
  "fcharlen QCS_UTF16LE = q_UTF16LE_get_char_len" "fcharlen QCS_UTF16BE = q_UTF16BE_get_char_len"
  by (simp_all add: fun_eq_iff)

interpretation enc: charset "fcharlen e" for e
proof
  fix p q :: bytes
  show "fcharlen e p \<le> int (length p)" if "p \<noteq> []"
    using that utf8.charlen_le utf16le.charlen_le utf16be.charlen_le single.charlen_le by (cases e) simp_all
  show "fcharlen e (take (nat (fcharlen e p)) p @ q) = fcharlen e p" if "p \<noteq> []" "0 < fcharlen e p"
    using that utf8.charlen_local utf16le.charlen_local utf16be.charlen_local by (cases e) simp_all
qed

lemma getLength_chars:
  assumes "list_all (enc.is_char e) cs" "\<not> isMultiByte e \<longrightarrow> 0 \<notin> set (concat cs)"
  shows "getLength e (concat cs) xs = (length cs, xs)"
proof (cases e)
  case (SingleByte c)
  have l: "\<forall>c\<in>set cs. length c = 1" using assms(1) SingleByte by (auto simp: list_all_iff enc.is_char_def)
  have "length (concat cs) = length cs" using l by (induction cs) auto
  moreover have "takeWhile (\<lambda>b. b \<noteq> 0) (concat cs) = concat cs" using assms(2) SingleByte by (subst takeWhile_eq_all_conv) auto
  then have "strlen (concat cs) = length (concat cs)" unfolding strlen_def by (rule arg_cong)
  ultimately show ?thesis using SingleByte by simp
next
  case QCS_UTF8
  then show ?thesis using enc.length_loop_chars [OF assms(1)] by (simp add: enc_result_def UTF8_getLength_def)
next
  case QCS_UTF16
  then show ?thesis using enc.length_loop_chars [OF assms(1)] by (simp add: enc_result_def UTF16BE_getLength_def)
next
  case QCS_UTF16LE
  then show ?thesis using enc.length_loop_chars [OF assms(1)] by (simp add: enc_result_def UTF16LE_getLength_def)
next
  case QCS_UTF16BE
  then show ?thesis using enc.length_loop_chars [OF assms(1)] by (simp add: enc_result_def UTF16BE_getLength_def)
qed

lemma getByteLen_chars:
  assumes "list_all (enc.is_char e) cs"
  shows "getByteLen e (concat cs) n xs = (length (concat (take n cs)), xs)"
proof (cases e)
  case (SingleByte c)
  have l: "\<forall>c\<in>set cs. length c = 1" using assms(1) SingleByte by (auto simp: list_all_iff enc.is_char_def)
  then have "length (concat (take n cs)) = min n (length (concat cs))"
  proof (induction cs arbitrary: n)
    case (Cons c cs)
    then show ?case by (cases n) auto
  qed simp
  then show ?thesis using SingleByte by simp
next
  case QCS_UTF8
  then show ?thesis using enc.byte_len_loop_chars [OF assms(1)] by (simp add: enc_result_def UTF8_getByteLen_def)
next
  case QCS_UTF16
  then show ?thesis using enc.byte_len_loop_chars [OF assms(1)] by (simp add: enc_result_def UTF16BE_getByteLen_def)
next
  case QCS_UTF16LE
  then show ?thesis using enc.byte_len_loop_chars [OF assms(1)] by (simp add: enc_result_def UTF16LE_getByteLen_def)
next
  case QCS_UTF16BE
  then show ?thesis using enc.byte_len_loop_chars [OF assms(1)] by (simp add: enc_result_def UTF16BE_getByteLen_def)
qed

end
