(* ===== verification/Text_UTF8.thy ===== *)
theory Text_UTF8
  imports Text_Encoding
begin

text \<open>
  UTF-8 as the code writes and reads it: the characters of a buffer, and code points there and back.
\<close>

section \<open>Bits of code points\<close>

lemma word32_eq_list: "(x :: 32 word) = y \<longleftrightarrow> list_all (\<lambda>n. bit x n = bit y n) [0..<32]"
  by (auto simp: list_all_iff intro: bit_word_eqI)

lemma upt_32:
  "[0..<32] = [0,1,2,3,4,5,6,7,8,9,10,11,12,13,14,15,16,17,18,19,20,21,22,23,24,25,26,27,28,29,30,31]"
  by (simp add: upt_rec)

lemma word32_eq_iff:
  "(x :: 32 word) = y \<longleftrightarrow> bit x 0 = bit y 0 \<and> bit x 1 = bit y 1 \<and> bit x 2 = bit y 2 \<and> bit x 3 = bit y 3 \<and> bit x 4 = bit y 4
     \<and> bit x 5 = bit y 5 \<and> bit x 6 = bit y 6 \<and> bit x 7 = bit y 7 \<and> bit x 8 = bit y 8 \<and> bit x 9 = bit
     y 9 \<and> bit x 10 = bit y 10 \<and> bit x 11 = bit y 11 \<and> bit x 12 = bit y 12 \<and> bit x 13 = bit y 13 \<and>
     bit x 14 = bit y 14 \<and> bit x 15 = bit y 15 \<and> bit x 16 = bit y 16 \<and> bit x 17 = bit y 17 \<and> bit x 18 =
     bit y 18 \<and> bit x 19 = bit y 19 \<and> bit x 20 = bit y 20 \<and> bit x 21 = bit y 21 \<and> bit x 22 = bit y 22
     \<and> bit x 23 = bit y 23 \<and> bit x 24 = bit y 24 \<and> bit x 25 = bit y 25 \<and> bit x 26 = bit y 26 \<and> bit x
     27 = bit y 27 \<and> bit x 28 = bit y 28 \<and> bit x 29 = bit y 29 \<and> bit x 30 = bit y 30 \<and> bit x 31 = bit y
     31"
  unfolding word32_eq_list upt_32 by (simp only: list_all_iff list.set ball_simps simp_thms)

lemma small_bits: "unat (c :: 32 word) < 2 ^ k \<Longrightarrow> k \<le> n \<Longrightarrow> \<not> bit c n"
proof -
  assume a: "unat c < 2 ^ k" "k \<le> n"
  have "unat c < 2 ^ k" using a by simp
  then have "take_bit k (unat c) = unat c" by (rule take_bit_nat_eq_self)
  then have "bit (unat c) n \<longleftrightarrow> n < k \<and> bit (unat c) n" by (metis bit_take_bit_iff)
  then show "\<not> bit c n" using a(2) by (simp add: bit_unsigned_iff)
qed

lemma utf8_bits4:
  assumes "c < 0x200000"
  shows "push_bit 18 (scast (ucast (0xf0 OR drop_bit 18 (c AND 0x1c0000)) :: byte) AND 0x07)
    OR push_bit 12 (scast (ucast (0x80 OR drop_bit 12 (c AND 0x3f000)) :: byte) AND 0x3f)
    OR push_bit 6 (scast (ucast (0x80 OR drop_bit 6 (c AND 0xfc0)) :: byte) AND 0x3f)
    OR (scast (ucast (0x80 OR (c AND 0x3f)) :: byte) AND 0x3f) = (c :: 32 word)" (is "?l = c")
proof -
  have "\<not> bit c n" if "21 \<le> n" for n using small_bits [of c 21 n] assms that by (simp add: word_less_nat_alt)
  then show ?thesis by (simp add: word32_eq_iff bit_simps)
qed

lemma utf8_bits3:
  assumes "c \<le> 0xffff"
  shows "push_bit 12 (scast (ucast (0xe0 OR drop_bit 12 (c AND 0xf000)) :: byte) AND 0x0f)
    OR push_bit 6 (scast (ucast (0x80 OR drop_bit 6 (c AND 0xfc0)) :: byte) AND 0x3f)
    OR (scast (ucast (0x80 OR (c AND 0x3f)) :: byte) AND 0x3f) = (c :: 32 word)" (is "?l = c")
proof -
  have "\<not> bit c n" if "16 \<le> n" for n using small_bits [of c 16 n] assms that by (simp add: word_le_nat_alt)
  then show ?thesis by (simp add: word32_eq_iff bit_simps)
qed

text \<open>The two-byte branch masks the high part with \<open>0x2f\<close>: the bit of weight \<open>0x400\<close> is lost.\<close>

lemma utf8_bits2:
  assumes "c \<le> 0x7ff"
  shows "push_bit 6 (scast (ucast (0xc0 OR drop_bit 6 (c AND 0xbc0)) :: byte) AND 0x1f)
    OR (scast (ucast (0x80 OR (c AND 0x3f)) :: byte) AND 0x3f) = (c AND NOT 0x400 :: 32 word)" (is "?l = _")
proof -
  have "\<not> bit c n" if "11 \<le> n" for n using small_bits [of c 11 n] assms that by (simp add: word_le_nat_alt)
  then show ?thesis by (simp add: word32_eq_iff bit_simps)
qed

lemma utf8_bits1:
  assumes "c \<le> 0x7f"
  shows "scast (ucast c :: byte) = (c :: 32 word)"
proof -
  have "\<not> bit c n" if "7 \<le> n" for n using small_bits [of c 7 n] assms that by (simp add: word_le_nat_alt)
  then show ?thesis by (simp add: word32_eq_iff bit_simps)
qed

lemma utf8_lead1:
  assumes "c \<le> 0x7f"
  shows "(ucast (c :: 32 word) :: byte) AND 0xc0 \<noteq> 0xc0"
proof -
  have "\<not> bit c n" if "7 \<le> n" for n using small_bits [of c 7 n] assms that by (simp add: word_le_nat_alt)
  then show ?thesis by (simp add: byte_eq_iff bit_simps)
qed

lemma utf8_leads:
  fixes c :: "32 word"
  shows "(ucast (0xf0 OR drop_bit 18 (c AND 0x1c0000)) :: byte) AND 0xc0 = 0xc0"
    "(ucast (0xf0 OR drop_bit 18 (c AND 0x1c0000)) :: byte) AND 0x20 \<noteq> 0"
    "(ucast (0xf0 OR drop_bit 18 (c AND 0x1c0000)) :: byte) AND 0x10 \<noteq> 0"
    "(ucast (0xe0 OR drop_bit 12 (c AND 0xf000)) :: byte) AND 0xc0 = 0xc0"
    "(ucast (0xe0 OR drop_bit 12 (c AND 0xf000)) :: byte) AND 0x20 \<noteq> 0"
    "(ucast (0xe0 OR drop_bit 12 (c AND 0xf000)) :: byte) AND 0x10 = 0"
    "(ucast (0x80 OR c) :: byte) AND 0x80 \<noteq> 0"
  by (simp_all add: byte_eq_iff bit_simps)

lemma utf8_lead2:
  fixes c :: "32 word"
  assumes "c \<le> 0x7ff"
  shows "(ucast (0xc0 OR drop_bit 6 (c AND 0xbc0)) :: byte) AND 0xc0 = 0xc0"
    "(ucast (0xc0 OR drop_bit 6 (c AND 0xbc0)) :: byte) AND 0x20 = 0"
proof -
  have "\<not> bit c n" if "11 \<le> n" for n using small_bits [of c 11 n] assms that by (simp add: word_le_nat_alt)
  then show "(ucast (0xc0 OR drop_bit 6 (c AND 0xbc0)) :: byte) AND 0xc0 = 0xc0"
    "(ucast (0xc0 OR drop_bit 6 (c AND 0xbc0)) :: byte) AND 0x20 = 0"
    by (simp_all add: byte_eq_iff bit_simps)
qed

section \<open>Code points there and back\<close>

lemma peek_at_num: "peek_at (numeral n) (b # p) = peek_at (pred_numeral n) p"
  by (simp add: numeral_eq_Suc)

definition utf8_width :: "32 word \<Rightarrow> nat" where
  "utf8_width c = (if c > 0xffff then 4 else if c > 0x7ff then 3 else if c > 0x7f then 2 else 1)"

lemma length_concatUTF8 [simp]: "length (concatUTF8FromUnicode c) = utf8_width c"
  by (simp add: concatUTF8FromUnicode_def utf8_width_def)

lemma concatUTF8_char: "q_UTF8_get_char_len (concatUTF8FromUnicode c @ q) = int (utf8_width c)"
proof -
  consider "c > 0xffff" | "0x7ff < c" "c \<le> 0xffff" | "0x7f < c" "c \<le> 0x7ff" | "c \<le> 0x7f" by (metis not_le)
  then show ?thesis
  proof cases
    case 1
    then show ?thesis by (simp del: push_bit_and drop_bit_and add: concatUTF8FromUnicode_def peek_at_num utf8_width_def q_UTF8_get_char_len_def utf8_leads)
  next
    case 2
    then have "\<not> c > 0xffff" by simp
    with 2 show ?thesis by (simp del: push_bit_and drop_bit_and add: concatUTF8FromUnicode_def peek_at_num utf8_width_def q_UTF8_get_char_len_def utf8_leads)
  next
    case 3
    then have "\<not> c > 0xffff" "\<not> c > 0x7ff" by (simp_all add: word_le_nat_alt word_less_nat_alt)
    with 3 show ?thesis
      by (simp del: push_bit_and drop_bit_and add: concatUTF8FromUnicode_def peek_at_num utf8_width_def q_UTF8_get_char_len_def utf8_leads utf8_lead2)
  next
    case 4
    then have "\<not> c > 0xffff" "\<not> c > 0x7ff" "\<not> c > 0x7f" by (simp_all add: word_le_nat_alt word_less_nat_alt)
    with 4 show ?thesis
      by (simp del: push_bit_and drop_bit_and add: concatUTF8FromUnicode_def peek_at_num utf8_width_def q_UTF8_get_char_len_def utf8_lead1)
  qed
qed

lemma concatUTF8_unicode:
  assumes "c < 0x200000"
  shows "UTF8_getUnicode (concatUTF8FromUnicode c @ q) = (if c \<le> 0x7ff then c AND NOT 0x400 else c)"
proof -
  consider "c > 0xffff" | "0x7ff < c" "c \<le> 0xffff" | "0x7f < c" "c \<le> 0x7ff" | "c \<le> 0x7f" by (metis not_le)
  then show ?thesis
  proof cases
    case 1
    then have "\<not> c \<le> 0x7ff" by (simp add: word_le_nat_alt word_less_nat_alt)
    with 1 show ?thesis using utf8_bits4 [OF assms]
      by (simp del: push_bit_and drop_bit_and add: concatUTF8FromUnicode_def peek_at_num UTF8_getUnicode_def utf8_leads)
  next
    case 2
    then have "\<not> c > 0xffff" "\<not> c \<le> 0x7ff" by simp_all
    with 2 show ?thesis using utf8_bits3 [OF 2(2)]
      by (simp del: push_bit_and drop_bit_and add: concatUTF8FromUnicode_def peek_at_num UTF8_getUnicode_def utf8_leads)
  next
    case 3
    then have "\<not> c > 0xffff" "\<not> c > 0x7ff" by (simp_all add: word_le_nat_alt word_less_nat_alt)
    with 3 show ?thesis using utf8_bits2 [OF 3(2)]
      by (simp del: push_bit_and drop_bit_and add: concatUTF8FromUnicode_def peek_at_num UTF8_getUnicode_def utf8_leads utf8_lead2)
  next
    case 4
    then have n: "\<not> c > 0xffff" "\<not> c > 0x7ff" "\<not> c > 0x7f" "c \<le> 0x7ff" by (simp_all add: word_le_nat_alt word_less_nat_alt)
    have "\<not> bit c n" if "7 \<le> n" for n using small_bits [of c 7 n] 4 that by (simp add: word_le_nat_alt)
    then have "c AND NOT 0x400 = c" by (simp add: word32_eq_iff bit_simps)
    with n 4 show ?thesis using utf8_bits1 [OF 4]
      by (simp del: push_bit_and drop_bit_and add: concatUTF8FromUnicode_def peek_at_num UTF8_getUnicode_def utf8_lead1)
  qed
qed

lemma peek_at_0: "peek_at 0 r = peek r"
  by (simp add: peek_at_def)

text \<open>A UTF-8 character has one of four shapes.\<close>

lemma utf8_char_cases:
  assumes "utf8.is_char c"
  obtains (one) a where "c = [a]" "a AND 0xc0 \<noteq> 0xc0"
  | (two) a b where "c = [a, b]" "a AND 0xc0 = 0xc0" "a AND 0x20 = 0" "b AND 0x80 \<noteq> 0"
  | (three) a b d where "c = [a, b, d]" "a AND 0xc0 = 0xc0" "a AND 0x20 \<noteq> 0" "a AND 0x10 = 0" "b AND 0x80 \<noteq> 0" "d AND 0x80 \<noteq> 0"
  | (four) a b d e where "c = [a, b, d, e]" "a AND 0xc0 = 0xc0" "a AND 0x20 \<noteq> 0" "a AND 0x10 \<noteq> 0"
      "b AND 0x80 \<noteq> 0" "d AND 0x80 \<noteq> 0" "e AND 0x80 \<noteq> 0"
proof -
  obtain a r where c: "c = a # r" using assms by (cases c) (simp_all add: utf8.is_char_def)
  have l: "q_UTF8_get_char_len (a # r) = int (length r) + 1" using assms c by (simp add: utf8.is_char_def)
  consider "a AND 0xc0 \<noteq> 0xc0" | "a AND 0xc0 = 0xc0" "a AND 0x20 = 0"
    | "a AND 0xc0 = 0xc0" "a AND 0x20 \<noteq> 0" "a AND 0x10 = 0" | "a AND 0xc0 = 0xc0" "a AND 0x20 \<noteq> 0" "a AND 0x10 \<noteq> 0" by blast
  then show ?thesis
  proof cases
    case 1
    then show ?thesis using l c one by (simp add: q_UTF8_get_char_len_def)
  next
    case 2
    then have "length r = 1 \<and> peek r AND 0x80 \<noteq> 0" using l by (simp add: q_UTF8_get_char_len_def peek_at_def split: if_splits)
    then show ?thesis using 2 c two by (auto simp: length_Suc_conv)
  next
    case 3
    then have "length r = 2 \<and> peek r AND 0x80 \<noteq> 0 \<and> peek_at 1 r AND 0x80 \<noteq> 0"
      using l by (simp add: q_UTF8_get_char_len_def peek_at_num peek_at_0 split: if_splits)
    then show ?thesis using 3 c three by (auto simp: length_Suc_conv numeral_eq_Suc)
  next
    case 4
    then have "length r = 3 \<and> peek r AND 0x80 \<noteq> 0 \<and> peek_at 1 r AND 0x80 \<noteq> 0 \<and> peek_at 2 r AND 0x80 \<noteq> 0"
      using l by (simp add: q_UTF8_get_char_len_def peek_at_num peek_at_0 split: if_splits)
    then show ?thesis using 4 c four by (auto simp: length_Suc_conv numeral_eq_Suc)
  qed
qed

text \<open>Characters of a buffer, for the three multi-byte encodings at once.\<close>

lemma getCharPos_chars:
  assumes "list_all (enc.is_char e) cs"
  shows "getCharPos e (concat cs) xs = (length cs, xs)"
proof (cases e)
  case (SingleByte c)
  have l: "\<forall>c\<in>set cs. length c = 1" using assms(1) SingleByte by (auto simp: list_all_iff enc.is_char_def)
  then have "length (concat cs) = length cs" by (induction cs) auto
  then show ?thesis using SingleByte by simp
next
  case QCS_UTF8
  then show ?thesis using enc.length_loop_chars [OF assms(1)] by (simp add: enc_result_def UTF8_getCharPos_def)
next
  case QCS_UTF16
  then show ?thesis using enc.length_loop_chars [OF assms(1)] by (simp add: enc_result_def UTF16BE_getCharPos_def)
next
  case QCS_UTF16LE
  then show ?thesis using enc.length_loop_chars [OF assms(1)] by (simp add: enc_result_def UTF16LE_getCharPos_def)
next
  case QCS_UTF16BE
  then show ?thesis using enc.length_loop_chars [OF assms(1)] by (simp add: enc_result_def UTF16BE_getCharPos_def)
qed

lemma getLength_multibyte: "isMultiByte e \<Longrightarrow> getLength e p xs = enc_result (length_loop (fcharlen e) p) xs"
  by (cases e) (simp_all add: UTF8_getLength_def UTF16LE_getLength_def UTF16BE_getLength_def)

lemma encoding_chars:
  assumes "isMultiByte e"
  shows "snd (getLength e p []) = [] \<longleftrightarrow> (\<exists>!cs. list_all (enc.is_char e) cs \<and> concat cs = p)"
    and "\<And>cs. list_all (enc.is_char e) cs \<Longrightarrow> concat cs = p \<Longrightarrow> n \<le> length cs \<Longrightarrow>
           getLength e p [] = (length cs, []) \<and> getByteLen e p n [] = (length (concat (take n cs)), [])
           \<and> getCharPos e (take (fst (getByteLen e p n [])) p) [] = (n, [])"
proof -
  show "snd (getLength e p []) = [] \<longleftrightarrow> (\<exists>!cs. list_all (enc.is_char e) cs \<and> concat cs = p)" (is "?l = ?r")
  proof
    assume ?l
    then have "\<not> snd (length_loop (fcharlen e) p)"
      using assms by (simp add: getLength_multibyte enc_result_def raiseException_def split: if_splits)
    then show ?r using enc.valid_split [of e p] enc.chars_unique [of e] by blast
  next
    assume ?r
    then show ?l using getLength_chars [of e _ "[]"] assms by auto
  qed
next
  fix cs assume a: "list_all (enc.is_char e) cs" "concat cs = p" "n \<le> length cs"
  have t: "concat (take n cs) = take (length (concat (take n cs))) p"
    using a(2) by (metis append_eq_conv_conj append_take_drop_id concat_append)
  have "list_all (enc.is_char e) (take n cs)" using a(1) by (auto simp: list_all_iff dest: in_set_takeD)
  from getCharPos_chars [OF this, of "[]"] t a(3)
  show "getLength e p [] = (length cs, []) \<and> getByteLen e p n [] = (length (concat (take n cs)), [])
           \<and> getCharPos e (take (fst (getByteLen e p n [])) p) [] = (n, [])"
    using getLength_chars [OF a(1), of "[]"] getByteLen_chars [OF a(1), of n "[]"] a(2) assms by (simp flip: t)
qed

text \<open>
  C18: In a multi-byte encoding \<open>getLength\<close> raises no exception exactly when the buffer is the concatenation
  of characters of the encoding, in one way only; the length is then the number of those characters,
  \<open>getByteLen\<close> is the number of bytes of the first \<open>n\<close> of them, and \<open>getCharPos\<close> at the byte offset that
  \<open>getByteLen\<close> gives returns the character offset again.
\<close>

theorem encoding_characters:
  assumes "isMultiByte e"
  shows "(snd (getLength e p []) = [] \<longleftrightarrow> (\<exists>!cs. list_all (enc.is_char e) cs \<and> concat cs = p))
    \<and> (\<forall>cs n. list_all (enc.is_char e) cs \<and> concat cs = p \<and> n \<le> length cs \<longrightarrow>
           getLength e p [] = (length cs, []) \<and> getByteLen e p n [] = (length (concat (take n cs)), [])
           \<and> getCharPos e (take (fst (getByteLen e p n [])) p) [] = (n, []))"
  using encoding_chars [OF assms] by blast

theorem encoding_characters_witness:
  "getLength QCS_UTF8 [0x61, 0xc3, 0xa9] [] = (2, []) \<and> getByteLen QCS_UTF8 [0x61, 0xc3, 0xa9] 2 [] = (3, [])"
proof -
  let ?cs = "[[0x61], [0xc3, 0xa9]] :: bytes list"
  have "list_all (enc.is_char QCS_UTF8) ?cs \<and> concat ?cs = [0x61, 0xc3, 0xa9] \<and> 2 \<le> length ?cs"
    by (simp add: utf8.is_char_def q_UTF8_get_char_len_def)
  then have "getLength QCS_UTF8 [0x61, 0xc3, 0xa9] [] = (length ?cs, [])
      \<and> getByteLen QCS_UTF8 [0x61, 0xc3, 0xa9] 2 [] = (length (concat (take 2 ?cs)), [])"
    using encoding_characters [of QCS_UTF8 "[0x61, 0xc3, 0xa9]"] isMultiByte.simps(2) by blast
  then show ?thesis by simp
qed

text \<open>
  Every code point below \<open>0x200000\<close> outside \<open>0x400\<close> to \<open>0x7ff\<close> survives the way through UTF-8: the bytes that
  \<open>concatUTF8FromUnicode\<close> appends are one character, whatever follows them, and \<open>getUnicode\<close> gives the code point back
  together with the number of its bytes.
\<close>

theorem utf8_code_point_round_trip:
  assumes "c < 0x200000" "c < 0x400 \<or> 0x7ff < c"
  shows "getUnicode conv QCS_UTF8 (concatUTF8FromUnicode c @ q) [] = (c, length (concatUTF8FromUnicode c), [])"
proof -
  have "c AND NOT 0x400 = c" if "c < 0x400"
  proof -
    have "\<not> bit c n" if "10 \<le> n" for n using small_bits [of c 10 n] \<open>c < 0x400\<close> that by (simp add: word_less_nat_alt)
    then show ?thesis by (simp add: word32_eq_iff bit_simps)
  qed
  moreover have "c < 0x400 \<or> \<not> c \<le> 0x7ff" using assms(2) by (simp add: not_le)
  ultimately have u: "UTF8_getUnicode (concatUTF8FromUnicode c @ q) = c" using concatUTF8_unicode [OF assms(1), of q] by auto
  have "concatUTF8FromUnicode c \<noteq> []" by (simp add: concatUTF8FromUnicode_def)
  then have "getByteLen QCS_UTF8 (concatUTF8FromUnicode c @ q) 1 [] = (utf8_width c, [])"
    using concatUTF8_char [of c q]
    by (simp add: UTF8_getByteLen_def enc_result_def byte_len_loop.simps utf8_width_def split: if_splits)
  then show ?thesis using u by (simp add: getUnicode_def)
qed

theorem utf8_code_point_round_trip_witness:
  "getUnicode (\<lambda>_ _ _. None) QCS_UTF8 (concatUTF8FromUnicode 0x20ac @ [0x21]) [] = (0x20ac, 3, [])"
  using utf8_code_point_round_trip [of "0x20ac" "\<lambda>_ _ _. None" "[0x21]"] by (simp add: utf8_width_def)

text \<open>
  C40: Code points from \<open>0x400\<close> to \<open>0x7ff\<close> (Cyrillic, Hebrew, Arabic) do not: the two-byte branch drops the bit of
  weight \<open>0x400\<close>, so that the character that is read back is another one.
\<close>

theorem utf8_two_byte_mask:
  assumes "0x400 \<le> c" "c \<le> 0x7ff"
  shows "UTF8_getUnicode (concatUTF8FromUnicode c @ q) = c - 0x400"
proof -
  have s: "c < 0x200000" using assms(2) by (simp add: word_le_nat_alt word_less_nat_alt)
  have h: "\<not> bit c n" if "11 \<le> n" for n using small_bits [of c 11 n] assms(2) that by (simp add: word_le_nat_alt)
  have "bit c 10"
  proof (rule ccontr)
    assume "\<not> bit c 10"
    then have "c AND mask 10 = c" using h by (simp add: word32_eq_iff bit_simps)
    then have "c < 0x400" using and_mask_less' [of 10 c] by simp
    then show False using assms(1) by simp
  qed
  then have d: "c = (c AND NOT 0x400) OR 0x400" "(c AND NOT 0x400) AND 0x400 = 0" by (simp_all add: word32_eq_iff bit_simps)
  have "c = (c AND NOT 0x400) + 0x400" using d by (metis word_plus_and_or add.commute add_0)
  then show ?thesis using concatUTF8_unicode [OF s, of q] assms(2) by (simp add: algebra_simps)
qed

theorem utf8_two_byte_mask_witness:
  "UTF8_getUnicode (concatUTF8FromUnicode 0x410 @ []) = 0x10"
  using utf8_two_byte_mask [of "0x410" "[]"] by simp

end
