(* ===== verification/Text_String.thy ===== *)
theory Text_String
  imports Text_UTF8
begin

text \<open>
  Strings (\<open>qore_string_private\<close> and \<open>QoreString\<close>, \<open>src/lib/QoreString.cpp\<close>): a byte buffer with an encoding.  The
  buffer is the list of the bytes before its terminator; the size of its allocation, the member \<open>allocated\<close>, is an
  argument of the operations that can read beyond it.  Byte positions
  and sizes (\<open>size_t\<close>) and offsets (\<open>qore_offset_t\<close>) are 64 bits wide.  The operations on characters have a simple
  version for single-byte encodings and a complex one for the others; all of them are refined to the same
  operations on lists of characters.
\<close>

record qore_string =
  buf :: bytes
  encoding :: QoreEncoding

section \<open>Conversion\<close>

definition remove_bom :: "QoreEncoding \<Rightarrow> bytes \<Rightarrow> bytes" where
  "remove_bom nccs t = (if nccs = QCS_UTF8 \<and> length t \<ge> 3 \<and> take 3 t = [0xef, 0xbb, 0xbf] then drop 3 t else t)"

definition convertEncoding :: "iconv \<Rightarrow> QoreEncoding \<Rightarrow> QoreEncoding \<Rightarrow> bytes \<Rightarrow> xsink \<Rightarrow> bytes \<times> xsink" where
  "convertEncoding conv from nccs s xs =
     (if nccs = from then (s, xs)
      else if s = [] then ([], xs)
      else case conv from nccs s of
             Some t \<Rightarrow> (remove_bom nccs t, xs)
           | None \<Rightarrow> ([], raiseException xs ''ENCODING-CONVERSION-ERROR''))"

definition TempEncodingHelper :: "iconv \<Rightarrow> qore_string \<Rightarrow> QoreEncoding \<Rightarrow> xsink \<Rightarrow> bytes \<times> xsink" where
  "TempEncodingHelper conv s qe xs =
     (if encoding s = qe then (buf s, xs) else convertEncoding conv (encoding s) qe (buf s) xs)"

definition concatUnicode :: "iconv \<Rightarrow> 32 word \<Rightarrow> qore_string \<Rightarrow> xsink \<Rightarrow> int \<times> qore_string \<times> xsink" where
  "concatUnicode conv code s xs =
     (if encoding s = QCS_UTF8 then (0, s\<lparr>buf := buf s @ concatUTF8FromUnicode code\<rparr>, xs)
      else let (ns, xs) = convertEncoding conv QCS_UTF8 (encoding s) (concatUTF8FromUnicode code) xs
           in if xs \<noteq> [] then (- 1, s, xs) else (0, s\<lparr>buf := buf s @ ns\<rparr>, xs))"

definition concat_bytes :: "bytes \<Rightarrow> qore_string \<Rightarrow> qore_string" where
  "concat_bytes bs s = s\<lparr>buf := buf s @ bs\<rparr>"

lemma concat_bytes_simps [simp]:
  "buf (concat_bytes bs s) = buf s @ bs" "encoding (concat_bytes bs s) = encoding s" "concat_bytes [] s = s"
  "concat_bytes cs (concat_bytes bs s) = concat_bytes (bs @ cs) s"
  by (simp_all add: concat_bytes_def)

section \<open>Offsets\<close>

definition size_t :: "int \<Rightarrow> int" where
  "size_t x = x mod 18446744073709551616"

lemma size_t_id [c_arith]: "0 \<le> x \<Longrightarrow> x < 18446744073709551616 \<Longrightarrow> size_t x = x"
  by (simp add: size_t_def)

lemma size_t_neg: "- 18446744073709551616 \<le> x \<Longrightarrow> x < 0 \<Longrightarrow> size_t x = x + 18446744073709551616"
proof -
  assume a: "- 18446744073709551616 \<le> x" "x < 0"
  have "size_t x = (x + 18446744073709551616) mod 18446744073709551616" by (simp add: size_t_def)
  also have "\<dots> = x + 18446744073709551616" using a by (intro mod_pos_pos_trivial) simp_all
  finally show ?thesis .
qed

abbreviation slen :: "qore_string \<Rightarrow> int" where
  "slen s \<equiv> int (length (buf s))"

definition check_offset :: "qore_string \<Rightarrow> int \<Rightarrow> int" where
  "check_offset s offset =
     (if offset < 0 then (let offset = int64 (slen s + offset) in if offset < 0 then 0 else offset)
      else if offset > slen s then slen s else offset)"

definition check_offset_num :: "qore_string \<Rightarrow> int \<Rightarrow> int \<Rightarrow> int \<times> int" where
  "check_offset_num s offset num =
     (let n_offset = check_offset s offset
      in (n_offset, if num < 0 then (let num = int64 (slen s + num - n_offset) in if num < 0 then 0 else num) else num))"

text \<open>The bytes from an offset on, and a number of them.\<close>

definition bytes_at :: "bytes \<Rightarrow> int \<Rightarrow> bytes" where
  "bytes_at b offset = drop (nat offset) b"

definition bytes_len :: "bytes \<Rightarrow> int \<Rightarrow> int \<Rightarrow> bytes" where
  "bytes_len b offset n = take (nat n) (drop (nat offset) b)"

section \<open>Substrings\<close>

text \<open>The answer is what is appended to the new string, or \<open>None\<close> for the return value \<open>-1\<close>.\<close>

definition substr_simple :: "qore_string \<Rightarrow> int \<Rightarrow> bytes option" where
  "substr_simple s offset =
     (let n_offset = (if offset < 0 then size_t (slen s + offset) else offset)
      in if n_offset \<ge> slen s then None else Some (bytes_len (buf s) n_offset (slen s - n_offset)))"

definition substr_simple_len :: "qore_string \<Rightarrow> int \<Rightarrow> int \<Rightarrow> bytes option" where
  "substr_simple_len s offset ln =
     (let n_offset = (if offset < 0 then size_t (slen s + offset) else offset)
      in if n_offset \<ge> slen s then None
         else let n_length = (if ln < 0 then (let ln = int64 (slen s - n_offset + ln) in if ln < 0 then 0 else ln)
                              else if ln > slen s - n_offset then slen s - n_offset else ln)
              in Some (bytes_len (buf s) n_offset n_length))"

definition substr_complex :: "qore_string \<Rightarrow> int \<Rightarrow> xsink \<Rightarrow> bytes option \<times> xsink" where
  "substr_complex s offset xs =
     (let (clength, xs) = (if offset < 0 then getLength (encoding s) (buf s) xs else (0, xs));
          offset' = (if offset < 0 then int64 (int clength + offset) else offset)
      in if xs \<noteq> [] then (None, xs)
         else if offset < 0 \<and> (offset' < 0 \<or> offset' \<ge> int clength) then (None, xs)
         else let (start, xs) = getByteLen (encoding s) (buf s) (nat offset') xs
              in if xs \<noteq> [] then (None, xs)
                 else if int start = slen s then (None, xs)
                 else (Some (bytes_len (buf s) (int start) (slen s - int start)), xs))"

definition substr_complex_len :: "qore_string \<Rightarrow> int \<Rightarrow> int \<Rightarrow> xsink \<Rightarrow> bytes option \<times> xsink" where
  "substr_complex_len s offset ln xs =
     (let (clength, xs) = (if offset < 0 then getLength (encoding s) (buf s) xs else (0, xs));
          clen = int32 (int clength);
          offset' = (if offset < 0 then int64 (clen + offset) else offset)
      in if xs \<noteq> [] then (None, xs)
         else if offset < 0 \<and> (offset' < 0 \<or> offset' \<ge> clen) then (None, xs)
         else let (start, xs) = getByteLen (encoding s) (buf s) (nat offset') xs
              in if xs \<noteq> [] then (None, xs)
                 else if int start = slen s then (None, xs)
                 else let (rest, xs) = (if ln < 0 then getLength (encoding s) (bytes_at (buf s) (int start)) xs else (0, xs));
                          ln' = (if ln < 0 then (let ln = int64 (int rest + ln) in if ln < 0 then 0 else ln) else ln)
                      in if xs \<noteq> [] then (None, xs)
                         else let (ed, xs) = getByteLen (encoding s) (bytes_at (buf s) (int start)) (nat ln') xs
                              in if xs \<noteq> [] then (None, xs)
                                 else (Some (bytes_len (buf s) (int start) (int ed)), xs))"

definition substr :: "qore_string \<Rightarrow> int \<Rightarrow> xsink \<Rightarrow> qore_string option \<times> xsink" where
  "substr s offset xs =
     (let (r, xs) = (if \<not> isMultiByte (encoding s) then (substr_simple s offset, xs) else substr_complex s offset xs)
      in (map_option (\<lambda>b. \<lparr>buf = b, encoding = encoding s\<rparr>) r, xs))"

definition substr_len :: "qore_string \<Rightarrow> int \<Rightarrow> int \<Rightarrow> xsink \<Rightarrow> qore_string option \<times> xsink" where
  "substr_len s offset ln xs =
     (let (r, xs) = (if \<not> isMultiByte (encoding s) then (substr_simple_len s offset ln, xs) else substr_complex_len s offset ln xs)
      in (map_option (\<lambda>b. \<lparr>buf = b, encoding = encoding s\<rparr>) r, xs))"

section \<open>Splicing\<close>

text \<open>
  The answer is the new buffer and the bytes appended to the \<open>extract\<close> string.  When the versions with an argument
  string make the string shorter, they move \<open>len - offset - str_len\<close> bytes although the tail of the string has only
  \<open>len - offset - num\<close>: what arrives beyond the new end is cut off, but the read must stay in the \<open>allocated\<close>
  bytes of the buffer.  \<open>None\<close> is a read beyond them.
\<close>

definition read_in :: "int \<Rightarrow> int \<Rightarrow> int \<Rightarrow> bool" where
  "read_in allocated from n \<longleftrightarrow> from + n \<le> allocated"

definition splice_simple :: "qore_string \<Rightarrow> int \<Rightarrow> int \<Rightarrow> qore_string \<times> bytes" where
  "splice_simple s offset num =
     (let (ed, num) = (if num > slen s - offset then (slen s, slen s - offset) else (offset + num, num))
      in (s\<lparr>buf := take (nat (slen s - num)) (take (nat offset) (buf s) @ bytes_at (buf s) ed)\<rparr>,
          if num \<noteq> 0 then bytes_len (buf s) offset num else []))"

definition splice_simple_str :: "int \<Rightarrow> qore_string \<Rightarrow> int \<Rightarrow> int \<Rightarrow> bytes \<Rightarrow> (qore_string \<times> bytes) option" where
  "splice_simple_str allocated s offset num str =
     (let (ed, num) = (if num > slen s - offset then (slen s, slen s - offset) else (offset + num, num))
      in if num > int (length str) \<and> \<not> read_in allocated (offset + num) (slen s - offset - int (length str)) then None
         else Some (s\<lparr>buf := take (nat (slen s - num + int (length str))) (take (nat offset) (buf s) @ str @ bytes_at (buf s) (offset + num))\<rparr>,
           if num \<noteq> 0 then bytes_len (buf s) offset num else []))"

definition splice_complex :: "qore_string \<Rightarrow> int \<Rightarrow> xsink \<Rightarrow> (qore_string \<times> bytes) \<times> xsink" where
  "splice_complex s offset xs =
     (let (clen, xs) = getLength (encoding s) (buf s) xs
      in if xs \<noteq> [] then ((s, []), xs)
         else if \<not> offset < 0 \<and> offset \<ge> int clen then ((s, []), xs)
         else let offset' = (if offset < 0 then (let o' = int64 (int clen + offset) in if o' < 0 then 0 else o') else offset);
                  (n_offset, xs) = (if offset' \<noteq> 0 then getByteLen (encoding s) (buf s) (nat offset') xs else (0, xs))
              in if xs \<noteq> [] then ((s, []), xs)
                 else ((s\<lparr>buf := take n_offset (buf s)\<rparr>,
                        if int n_offset < slen s then takeWhile (\<lambda>b. b \<noteq> 0) (bytes_at (buf s) (int n_offset)) else []), xs))"

text \<open>The byte offset, byte end and byte count for a character offset (in range) and a number of characters.\<close>

definition splice_positions :: "qore_string \<Rightarrow> int \<Rightarrow> int \<Rightarrow> int \<Rightarrow> xsink \<Rightarrow> (nat \<times> nat \<times> nat) option \<times> xsink" where
  "splice_positions s clen offset num xs =
     (let num' = (if num < 0 then (let n' = int64 (clen + num - offset) in if n' < 0 then 0 else n') else num);
          r = (if num' > clen - offset then (clen, clen - offset) else (offset + num', num'));
          (boff, xs) = getByteLen (encoding s) (buf s) (nat offset) xs
      in if xs \<noteq> [] then (None, xs)
         else let (bend, xs) = getByteLen (encoding s) (buf s) (nat (fst r)) xs
              in if xs \<noteq> [] then (None, xs)
                 else let (bnum, xs) = getByteLen (encoding s) (bytes_at (buf s) (int boff)) (nat (snd r)) xs
                      in if xs \<noteq> [] then (None, xs) else (Some (boff, bend, bnum), xs))"


definition splice_complex_str ::
    "int \<Rightarrow> qore_string \<Rightarrow> int \<Rightarrow> int \<Rightarrow> bytes \<Rightarrow> xsink \<Rightarrow> ((qore_string \<times> bytes) \<times> xsink) option" where
  "splice_complex_str allocated s offset num str xs =
     (let (clen, xs) = getLength (encoding s) (buf s) xs
      in if xs \<noteq> [] then Some ((s, []), xs)
         else let offset = (if offset \<ge> int clen then int clen
                            else if offset < 0 then (let o' = int64 (int clen + offset) in if o' < 0 then 0 else o') else offset)
              in case splice_positions s (int clen) offset num xs of
                   (None, xs) \<Rightarrow> Some ((s, []), xs)
                 | (Some (boff, bend, bnum), xs) \<Rightarrow>
                     if bnum > length str \<and> \<not> read_in allocated (int boff + int bnum) (slen s - int boff - int (length str)) then None
                     else Some ((s\<lparr>buf := take (nat (slen s - int bnum + int (length str)))
                                 (take boff (buf s) @ str
                                  @ bytes_at (buf s) (if length str > bnum then int bend else int boff + int bnum))\<rparr>,
                       if bnum \<noteq> 0 then bytes_len (buf s) (int boff) (int bnum) else []), xs))"

text \<open>What the language calls: the string, the converted argument, and the extracted part.\<close>

definition splice :: "qore_string \<Rightarrow> int \<Rightarrow> xsink \<Rightarrow> qore_string \<times> xsink" where
  "splice s offset xs =
     (if \<not> isMultiByte (encoding s) then
        let n_offset = check_offset s offset
        in if n_offset = slen s then (s, xs) else (fst (splice_simple s n_offset (slen s - n_offset)), xs)
      else let (r, xs) = splice_complex s offset xs in (fst r, xs))"


definition splice_str :: "int \<Rightarrow> iconv \<Rightarrow> qore_string \<Rightarrow> int \<Rightarrow> int \<Rightarrow> qore_string \<Rightarrow> xsink \<Rightarrow> (qore_string \<times> xsink) option" where
  "splice_str allocated conv s offset num str xs =
     (let (tmp, xs) = TempEncodingHelper conv str (encoding s) xs
      in if xs \<noteq> [] then Some (s, xs)
         else if isMultiByte (encoding s) then map_option (\<lambda>(r, xs). (fst r, xs)) (splice_complex_str allocated s offset num tmp xs)
         else let (n_offset, n_num) = check_offset_num s offset num
              in if n_offset = slen s \<and> tmp = [] then Some (s, xs)
                 else map_option (\<lambda>r. (fst r, xs))
                   (splice_simple_str allocated s n_offset (if n_offset = slen s then 0 else n_num) tmp))"

definition extract_from :: "qore_string \<Rightarrow> int \<Rightarrow> xsink \<Rightarrow> (qore_string \<times> bytes) \<times> xsink" where
  "extract_from s offset xs =
     (if \<not> isMultiByte (encoding s) then
        let n_offset = check_offset s offset
        in if n_offset \<noteq> slen s then (splice_simple s n_offset (slen s - n_offset), xs) else ((s, []), xs)
      else splice_complex s offset xs)"


section \<open>Lists of characters\<close>

text \<open>The same operations on a list.\<close>

definition sub_start :: "int \<Rightarrow> int \<Rightarrow> int" where
  "sub_start n off = (if off < 0 then n + off else off)"

definition sub_list :: "int \<Rightarrow> int \<Rightarrow> 'a list \<Rightarrow> 'a list option" where
  "sub_list off ln xs =
     (let n = int (length xs); st = sub_start n off
      in if st < 0 \<or> n \<le> st then None else Some (take (nat (if ln < 0 then n - st + ln else ln)) (drop (nat st) xs)))"

definition splice_start :: "int \<Rightarrow> int \<Rightarrow> int" where
  "splice_start n off = (if off < 0 then max 0 (n + off) else min off n)"

definition splice_count :: "int \<Rightarrow> int \<Rightarrow> int \<Rightarrow> int" where
  "splice_count n off num = (let st = splice_start n off in if num < 0 then max 0 (n + num - st) else min num (n - st))"

definition splice_list :: "int \<Rightarrow> int \<Rightarrow> 'a list \<Rightarrow> 'a list \<Rightarrow> 'a list" where
  "splice_list off num ys xs =
     (let n = int (length xs) in take (nat (splice_start n off)) xs @ ys @ drop (nat (splice_start n off + splice_count n off num)) xs)"

definition extract_list :: "int \<Rightarrow> int \<Rightarrow> 'a list \<Rightarrow> 'a list" where
  "extract_list off num xs =
     (let n = int (length xs) in take (nat (splice_count n off num)) (drop (nat (splice_start n off)) xs))"


text \<open>A string and its characters.\<close>

definition chars_of :: "qore_string \<Rightarrow> bytes list \<Rightarrow> bool" where
  "chars_of s cs \<longleftrightarrow> list_all (enc.is_char (encoding s)) cs \<and> buf s = concat cs \<and> slen s < 4611686018427387904"

lemma chars_single:
  assumes "chars_of s cs" "\<not> isMultiByte (encoding s)"
  shows "cs = map (\<lambda>b. [b]) (buf s)"
proof -
  obtain e where e: "encoding s = SingleByte e" using assms(2) by (cases "encoding s") simp_all
  have "\<forall>c\<in>set cs. length c = 1" using assms(1) e by (auto simp: chars_of_def list_all_iff enc.is_char_def)
  then have "cs = map (\<lambda>b. [b]) (concat cs)"
  proof (induction cs)
    case (Cons c cs)
    then obtain b where "c = [b]" by (auto simp: length_Suc_conv)
    then show ?case using Cons by simp
  qed simp
  then show ?thesis using assms(1) by (simp add: chars_of_def)
qed

lemma concat_singletons [simp]: "concat (map (\<lambda>b. [b]) xs) = xs"
  by (induction xs) simp_all

lemma drop_chars: "drop (length (concat (take n cs))) (concat cs) = concat (drop n cs)"
  by (metis append_eq_conv_conj append_take_drop_id concat_append)

lemma take_chars: "take (length (concat (take n cs))) (concat cs) = concat (take n cs)"
  by (metis append_eq_conv_conj append_take_drop_id concat_append)

lemma chars_length_le: "list_all (enc.is_char e) cs \<Longrightarrow> length cs \<le> length (concat cs)"
proof (induction cs)
  case (Cons c cs)
  then have "1 \<le> length c" by (cases c) (auto simp: enc.is_char_def)
  then show ?case using Cons by simp
qed simp

lemma chars_prefix_all: "list_all (enc.is_char e) cs \<Longrightarrow> length (concat (take n cs)) = length (concat cs) \<longleftrightarrow> length cs \<le> n"
proof -
  assume a: "list_all (enc.is_char e) cs"
  have "length (concat cs) = length (concat (take n cs)) + length (concat (drop n cs))"
    by (metis append_take_drop_id concat_append length_append)
  moreover have "list_all (enc.is_char e) (drop n cs)" using a by (auto simp: list_all_iff dest: in_set_dropD)
  then have "length (concat (drop n cs)) = 0 \<longleftrightarrow> drop n cs = []"
    by (cases "drop n cs") (auto simp: enc.is_char_def)
  ultimately show ?thesis by simp
qed

lemmas chars_enc = getLength_chars getByteLen_chars

lemma chars_ofD:
  assumes "chars_of s cs" "isMultiByte (encoding s)"
  shows "getLength (encoding s) (concat (drop n cs)) xs = (length cs - n, xs)"
    "getByteLen (encoding s) (concat (drop n cs)) k xs = (length (concat (take k (drop n cs))), xs)"
    "int (length cs) < 4611686018427387904" "list_all (enc.is_char (encoding s)) cs" "buf s = concat cs"
proof -
  show l: "list_all (enc.is_char (encoding s)) cs" "buf s = concat cs" using assms(1) by (simp_all add: chars_of_def)
  then have d: "list_all (enc.is_char (encoding s)) (drop n cs)" by (auto simp: list_all_iff dest: in_set_dropD)
  show "getLength (encoding s) (concat (drop n cs)) xs = (length cs - n, xs)" using getLength_chars [OF d] assms(2) by simp
  show "getByteLen (encoding s) (concat (drop n cs)) k xs = (length (concat (take k (drop n cs))), xs)"
    using getByteLen_chars [OF d] by simp
  show "int (length cs) < 4611686018427387904" using assms(1) chars_length_le [OF l(1)] by (auto simp: chars_of_def)
qed

lemmas chars_of0 = chars_ofD(1,2) [where n = 0, simplified]

lemma sub_list_map: "sub_list off ln (map f xs) = map_option (map f) (sub_list off ln xs)"
  by (simp add: sub_list_def Let_def take_map drop_map)

lemma substr_simple_list:
  assumes "slen s < 4611686018427387904" "in_int64 offset" "in_int64 ln"
  shows "substr_simple_len s offset ln = sub_list offset ln (buf s)"
    and "substr_simple s offset = sub_list offset (slen s) (buf s)"
proof -
  let ?n = "sub_start (slen s) offset"
  have n: "(if offset < 0 then size_t (slen s + offset) else offset) = (if ?n < 0 then size_t ?n else ?n)"
    using assms(1) by (auto simp: sub_start_def size_t_id)
  have h: "slen s \<le> size_t ?n" if "?n < 0"
  proof -
    have "size_t ?n = ?n + 18446744073709551616"
      using that assms(1,2) by (intro size_t_neg) (simp_all add: sub_start_def in_int64_def split: if_splits)
    then show ?thesis using assms(1,2) that by (simp add: sub_start_def in_int64_def split: if_splits)
  qed
  have l: "int64 (slen s - ?n + ln) = slen s - ?n + ln" if "ln < 0" "0 \<le> ?n" "?n < slen s"
    using that assms(1,3) by (intro int64_id) (simp add: in_int64_def)
  show "substr_simple_len s offset ln = sub_list offset ln (buf s)"
    unfolding substr_simple_len_def sub_list_def Let_def n
    using h l by (auto simp: bytes_len_def min_def)
  show "substr_simple s offset = sub_list offset (slen s) (buf s)"
    unfolding substr_simple_def sub_list_def Let_def n
    using h by (auto simp: bytes_len_def)
qed

lemma int64_small: "in_int64 a \<Longrightarrow> a < 0 \<Longrightarrow> 0 \<le> n \<Longrightarrow> n < 4611686018427387904 \<Longrightarrow> int64 (n + a) = n + a"
  by (intro int64_id) (simp add: in_int64_def)

lemma chars_at:
  assumes c: "chars_of s cs" "isMultiByte (encoding s)" and k: "k < length cs"
  shows "getByteLen (encoding s) (buf s) k xs = (length (concat (take k cs)), xs)" "length (concat (take k cs)) \<noteq> length (buf s)"
    "bytes_at (buf s) (int (length (concat (take k cs)))) = concat (drop k cs)"
    "bytes_len (buf s) (int (length (concat (take k cs)))) n = take (nat n) (concat (drop k cs))"
    "getLength (encoding s) (buf s) xs = (length cs, xs)"
    "length (buf s) - length (concat (take k cs)) = length (concat (drop k cs))"
proof -
  note d = chars_ofD [OF c]
  show "getByteLen (encoding s) (buf s) k xs = (length (concat (take k cs)), xs)" "getLength (encoding s) (buf s) xs = (length cs, xs)"
    using chars_of0 [OF c] d(5) by simp_all
  show "length (concat (take k cs)) \<noteq> length (buf s)" using chars_prefix_all [OF d(4), of k] d(5) k by simp
  show "bytes_at (buf s) (int (length (concat (take k cs)))) = concat (drop k cs)"
    "bytes_len (buf s) (int (length (concat (take k cs)))) n = take (nat n) (concat (drop k cs))"
    using drop_chars [of k cs] d(5) by (simp_all add: bytes_at_def bytes_len_def)
  show "length (buf s) - length (concat (take k cs)) = length (concat (drop k cs))"
    using arg_cong [OF drop_chars [of k cs], of length] d(5) by simp
qed

lemma substr_complex_list:
  assumes c: "chars_of s cs" "isMultiByte (encoding s)" and "in_int64 offset" "in_int64 ln" "in_int32 (int (length cs))"
  shows "substr_complex_len s offset ln [] = (map_option concat (sub_list offset ln cs), [])"
    and "substr_complex s offset [] = (map_option concat (sub_list offset (int (length cs)) cs), [])"
proof -
  note d = chars_ofD [OF c]
  let ?st = "sub_start (int (length cs)) offset"
  have o: "int64 (int (length cs) + offset) = int (length cs) + offset" if "offset < 0"
    using that assms(3) d(3) by (intro int64_small) simp_all
  have r: "substr_complex_len s offset ln [] = (map_option concat (sub_list offset ln cs), [])
    \<and> substr_complex s offset [] = (map_option concat (sub_list offset (int (length cs)) cs), [])"
  proof (cases "?st < 0 \<or> int (length cs) \<le> ?st")
    case True
    then have sp: "sub_list offset m cs = None" for m by (simp add: sub_list_def Let_def)
    show ?thesis
    proof (cases "offset < 0")
      case off: True
      then have "int (length cs) + offset < 0" using True by (auto simp: sub_start_def)
      then show ?thesis unfolding sp using off o chars_of0 [OF c] d(5) assms(5)
        by (simp add: substr_complex_len_def substr_complex_def Let_def int32_id)
    next
      case off: False
      then have "take (nat offset) cs = cs" using True by (simp add: sub_start_def)
      then show ?thesis unfolding sp using off chars_of0 [OF c] d(5)
        by (simp add: substr_complex_len_def substr_complex_def Let_def)
    qed
  next
    case False
    then obtain k where k: "?st = int k" "k < length cs" by (metis le_less_linear nonneg_int_cases of_nat_le_iff)
    have l: "int64 (int (length cs - k) + ln) = int (length cs - k) + ln" if "ln < 0"
      using that assms(4) d(3) by (intro int64_small) simp_all
    have sp: "sub_list offset m cs = Some (take (nat (if m < 0 then int (length cs - k) + m else m)) (drop k cs))" for m
      using k by (simp add: sub_list_def Let_def of_nat_diff)
    note f = chars_at [OF c k(2)] d(1) [of k] d(2) [of k] o l take_chars [of _ "drop k cs"]
    show ?thesis
    proof (cases "offset < 0")
      case True
      then have "int (length cs) + offset = int k" using k by (simp add: sub_start_def)
      then show ?thesis unfolding sp using True f k(2) assms(5)
        by (simp add: substr_complex_len_def substr_complex_def Let_def int32_id of_nat_diff)
    next
      case False
      then have "offset = int k" using k by (simp add: sub_start_def)
      then show ?thesis unfolding sp using f k(2)
        by (simp add: substr_complex_len_def substr_complex_def Let_def of_nat_diff)
    qed
  qed
  show "substr_complex_len s offset ln [] = (map_option concat (sub_list offset ln cs), [])" using r ..
  show "substr_complex s offset [] = (map_option concat (sub_list offset (int (length cs)) cs), [])" using r ..
qed

text \<open>
  C32: Substrings count characters in every encoding: \<open>substr\<close> of a string of valid characters is the list operation on
  them, for negative offsets and lengths (counted from the end) and for those outside of the string, when the number of characters fits the 32 bits of the counter in the code.
\<close>

theorem substr_characters:
  assumes "chars_of s cs" "in_int64 offset" "in_int64 ln" "in_int32 (int (length cs))"
  shows "substr_len s offset ln [] = (map_option (\<lambda>ds. \<lparr>buf = concat ds, encoding = encoding s\<rparr>) (sub_list offset ln cs), [])
    \<and> substr s offset [] = (map_option (\<lambda>ds. \<lparr>buf = concat ds, encoding = encoding s\<rparr>) (sub_list offset (int (length cs)) cs), [])"
proof (cases "isMultiByte (encoding s)")
  case True
  then show ?thesis using substr_complex_list [OF assms(1) True assms(2,3,4)]
    by (simp add: substr_len_def substr_def option.map_comp comp_def)
next
  case False
  have l: "slen s < 4611686018427387904" using assms(1) unfolding chars_of_def by blast
  have "length cs = length (buf s)" "concat (map (\<lambda>b. [b]) ds) = ds" for ds :: bytes using chars_single [OF assms(1) False] by simp_all
  then show ?thesis using substr_simple_list [OF l assms(2,3)] False chars_single [OF assms(1) False]
    by (simp add: substr_len_def substr_def sub_list_map option.map_comp comp_def)
qed

theorem substr_characters_witness:
  "substr_len \<lparr>buf = [0x61, 0xc3, 0xa9, 0x62], encoding = QCS_UTF8\<rparr> (- 2) 1 [] = (Some \<lparr>buf = [0xc3, 0xa9], encoding = QCS_UTF8\<rparr>, [])"
proof -
  let ?s = "\<lparr>buf = [0x61, 0xc3, 0xa9, 0x62], encoding = QCS_UTF8\<rparr>" and ?cs = "[[0x61], [0xc3, 0xa9], [0x62]] :: bytes list"
  have "chars_of ?s ?cs" by (simp add: chars_of_def utf8.is_char_def q_UTF8_get_char_len_def)
  then show ?thesis using substr_characters [of ?s ?cs "- 2" 1]
    by (simp add: in_int64_def in_int32_def sub_list_def sub_start_def Let_def)
qed

section \<open>Splicing characters\<close>





lemma splice_list_map: "splice_list off num (map f ys) (map f xs) = map f (splice_list off num ys xs)"
  "extract_list off num (map f xs) = map f (extract_list off num xs)"
  by (simp_all add: splice_list_def extract_list_def Let_def take_map drop_map)














text \<open>Removing 60 of 100 bytes for one other needs 159 allocated bytes, more than a fresh copy of the string has.\<close>

lemma splice_overread:
  "splice_str 148 conv \<lparr>buf = replicate 100 0x61, encoding = SingleByte e\<rparr> 0 60 \<lparr>buf = [0x62], encoding = SingleByte e\<rparr> [] = None"
  by (simp add: splice_str_def TempEncodingHelper_def check_offset_num_def check_offset_def splice_simple_str_def read_in_def)

text \<open>
  Extracting the rest of a string copies it as a C string: of a UTF-16 string only the bytes before the first
  null byte arrive in the new string, while all characters are removed from the old one.
\<close>

theorem extract_rest_utf16:
  "extract_from \<lparr>buf = [0x61, 0x00, 0x62, 0x00], encoding = QCS_UTF16LE\<rparr> 0 []
    = ((\<lparr>buf = [], encoding = QCS_UTF16LE\<rparr>, [0x61]), [])"
  by (simp add: extract_from_def splice_complex_def UTF16LE_getLength_def length_loop.simps q_UTF16LE_get_char_len_def
      enc_result_def bytes_at_def)

end
