(* ===== verification/Text_Trim.thy ===== *)
theory Text_Trim
  imports Text_String
begin

text \<open>
  Code points of the characters of a string, trimming and reversing (\<open>src/lib/QoreString.cpp\<close>).
\<close>

section \<open>The code point of a character\<close>

text \<open>It depends on the bytes of the character only.\<close>

lemma getByteLen_one: "enc.is_char e c \<Longrightarrow> getByteLen e (c @ q) 1 xs = (length c, xs)"
proof -
  assume c: "enc.is_char e c"
  then have "c \<noteq> []" by (simp add: enc.is_char_def)
  then have "byte_len_loop (fcharlen e) (c @ q) 1 = (length c, False)"
    using enc.is_char_append [OF c, of q] by (subst byte_len_loop.simps) (simp add: Let_def byte_len_loop.simps)
  moreover have "length c = 1" if "\<not> isMultiByte e" using c that by (cases e) (simp_all add: enc.is_char_def)
  ultimately show ?thesis
    by (cases e) (simp_all add: enc_result_def UTF8_getByteLen_def UTF16LE_getByteLen_def UTF16BE_getByteLen_def)
qed

lemma unit_high:
  fixes a b :: byte
  shows "(0xd800 :: 32 word) \<le> push_bit 8 (ucast b) + ucast a \<and> push_bit 8 (ucast b) + ucast a \<le> (0xdbff :: 32 word) \<longleftrightarrow> 0xd8 \<le> b \<and> b < 0xdc"
proof -
  have "unat a < 2 ^ LENGTH(8)" "unat b < 2 ^ LENGTH(8)" by (rule unsigned_less)+
  then have u: "unat a < 256" "unat b < 256" by simp_all
  have c: "(ucast x :: 32 word) = of_nat (unat x)" for x :: byte by simp
  have "push_bit 8 (ucast b) + ucast a = (of_nat (unat b * 256 + unat a) :: 32 word)" unfolding c by (simp add: push_bit_eq_mult)
  moreover have "unat (of_nat (unat b * 256 + unat a) :: 32 word) = unat b * 256 + unat a"
    unfolding unat_of_nat using u by (intro mod_less) simp
  ultimately have "unat (push_bit 8 (ucast b) + ucast a :: 32 word) = unat b * 256 + unat a" by (simp only:)
  then show ?thesis using u unfolding word_le_nat_alt word_less_nat_alt by auto
qed

lemma utf16_shape:
  assumes "c \<noteq> []" "q_UTF16LE_get_char_len c = int (length c) \<and> h = peek_at 1 c \<or> q_UTF16BE_get_char_len c = int (length c) \<and> h = peek c"
  obtains (two) a b where "c = [a, b]" "\<not> (0xd8 \<le> h \<and> h < 0xdc)" | (four) a b d e where "c = [a, b, d, e]"
proof -
  have "length c = 2 \<and> \<not> (0xd8 \<le> h \<and> h < 0xdc) \<or> length c = 4"
    using assms by (auto simp: q_UTF16LE_get_char_len_def q_UTF16BE_get_char_len_def Let_def split: if_splits)
  then show ?thesis using two four by (auto simp: numeral_eq_Suc length_Suc_conv)
qed

definition codepoint :: "iconv \<Rightarrow> QoreEncoding \<Rightarrow> bytes \<Rightarrow> 32 word" where
  "codepoint conv e c = fst (getUnicode conv e c [])"

lemma unicode_local:
  "utf8.is_char c \<Longrightarrow> UTF8_getUnicode (c @ q) = UTF8_getUnicode c"
  "utf16le.is_char c \<Longrightarrow> UTF16LE_getUnicode (c @ q) = UTF16LE_getUnicode c"
  "utf16be.is_char c \<Longrightarrow> UTF16BE_getUnicode (c @ q) = UTF16BE_getUnicode c"
proof -
  show "UTF8_getUnicode (c @ q) = UTF8_getUnicode c" if "utf8.is_char c"
    using that by (rule utf8_char_cases) (simp_all add: UTF8_getUnicode_def peek_at_num)
  show "UTF16LE_getUnicode (c @ q) = UTF16LE_getUnicode c" if "utf16le.is_char c"
  proof -
    have "c \<noteq> []" "q_UTF16LE_get_char_len c = int (length c) \<and> peek_at 1 c = peek_at 1 c \<or> q_UTF16BE_get_char_len c = int (length c) \<and> peek_at 1 c = peek c"
      using that by (simp_all add: utf16le.is_char_def)
    then show ?thesis
    proof (cases rule: utf16_shape)
      case (two a b)
      then have "\<not> (0xd8 \<le> b \<and> b < 0xdc)" by simp
      then have "code_unit_pair (push_bit 8 (ucast b) + ucast a) x = push_bit 8 (ucast b) + ucast a" for x
        unfolding code_unit_pair_def using unit_high [of b a] by auto
      then show ?thesis using two(1) by (simp add: UTF16LE_getUnicode_def)
    qed (simp add: UTF16LE_getUnicode_def peek_at_num)
  qed
  show "UTF16BE_getUnicode (c @ q) = UTF16BE_getUnicode c" if "utf16be.is_char c"
  proof -
    have "c \<noteq> []" "q_UTF16LE_get_char_len c = int (length c) \<and> peek c = peek_at 1 c \<or> q_UTF16BE_get_char_len c = int (length c) \<and> peek c = peek c"
      using that by (simp_all add: utf16be.is_char_def)
    then show ?thesis
    proof (cases rule: utf16_shape)
      case (two a b)
      then have "\<not> (0xd8 \<le> a \<and> a < 0xdc)" by simp
      then have "code_unit_pair (push_bit 8 (ucast a) + ucast b) x = push_bit 8 (ucast a) + ucast b" for x
        unfolding code_unit_pair_def using unit_high [of a b] by auto
      then show ?thesis using two(1) by (simp add: UTF16BE_getUnicode_def)
    qed (simp add: UTF16BE_getUnicode_def peek_at_num)
  qed
qed

lemma getUnicode_char: "enc.is_char e c \<Longrightarrow> getUnicode conv e (c @ q) [] = (codepoint conv e c, length c, [])"
proof -
  assume c: "enc.is_char e c"
  have "c \<noteq> []" using c by (simp add: enc.is_char_def)
  then have "peek (c @ q) = peek c" by (cases c) simp_all
  then show ?thesis using getByteLen_one [OF c, of q "[]"] getByteLen_one [OF c, of "[]" "[]"] c unicode_local
    by (cases e) (simp_all add: codepoint_def getUnicode_def)
qed

section \<open>Trimming\<close>

definition default_whitespace :: "32 word list" where
  "default_whitespace = [0x20, 0x09, 0x0a, 0x0d, 0x0b]"

definition inVector :: "32 word \<Rightarrow> 32 word list \<Rightarrow> bool" where
  "inVector c vec \<longleftrightarrow> c \<in> set vec"

lemma byte_len_loop_pos: "p \<noteq> [] \<Longrightarrow> \<not> snd (byte_len_loop f p (Suc 0)) \<Longrightarrow> 0 < fst (byte_len_loop f p (Suc 0))"
  unfolding byte_len_loop.simps [of f p "Suc 0"] by (auto simp: Let_def split: if_splits prod.splits)

lemma getUnicode_progress:
  assumes "p \<noteq> []" "getUnicode conv e p [] = (c, clen, [])"
  shows "0 < clen"
proof -
  have g: "getByteLen e p 1 [] = (clen, [])" using assms(2) by (auto simp: getUnicode_def split: prod.splits if_splits)
  note b = byte_len_loop_pos [OF assms(1)]
  show ?thesis
  proof (cases e)
    case (SingleByte x)
    then show ?thesis using g assms(1) by (cases p) auto
  qed (use g b in \<open>auto simp: enc_result_def UTF8_getByteLen_def UTF16LE_getByteLen_def UTF16BE_getByteLen_def split: if_splits prod.splits\<close>)
qed

lemma getUnicode_shrinks: "p \<noteq> [] \<Longrightarrow> getUnicode conv e p [] = (c, clen, []) \<Longrightarrow> length p - clen < length p"
  using getUnicode_progress [of p conv e c clen] by simp

text \<open>The result is the return value, what remains of the buffer, and the exceptions.\<close>

function trim_leading_loop :: "iconv \<Rightarrow> QoreEncoding \<Rightarrow> 32 word list \<Rightarrow> bytes \<Rightarrow> int \<times> bytes \<times> xsink" where
  "trim_leading_loop conv e cvec p =
     (if p = [] then (0, p, [])
      else case getUnicode conv e p [] of
             (c, clen, x # xs) \<Rightarrow> (- 1, p, x # xs)
           | (c, clen, []) \<Rightarrow> if c \<noteq> 0 \<and> \<not> inVector c cvec then (0, p, []) else trim_leading_loop conv e cvec (drop clen p))"
  by pat_completeness auto
termination
  by (relation "measure (\<lambda>(conv, e, v, p). length p)") (auto dest!: sym [of _ "getUnicode _ _ _ _"] getUnicode_shrinks)

declare trim_leading_loop.simps [simp del]

definition trimLeading :: "iconv \<Rightarrow> qore_string \<Rightarrow> 32 word list \<Rightarrow> int \<times> qore_string \<times> xsink" where
  "trimLeading conv s cvec =
     (let (rc, p, xs) = trim_leading_loop conv (encoding s) cvec (buf s)
      in if rc \<noteq> 0 then (- 1, s, xs) else (0, s\<lparr>buf := p\<rparr>, xs))"

fun trim_trailing_loop :: "iconv \<Rightarrow> QoreEncoding \<Rightarrow> 32 word list \<Rightarrow> nat \<Rightarrow> bytes \<Rightarrow> int \<times> bytes \<times> xsink" where
  "trim_trailing_loop conv e cvec 0 b = (0, b, [])"
| "trim_trailing_loop conv e cvec (Suc i) b =
     (let (bpos, xs) = getByteLen e b i []
      in if xs \<noteq> [] then (- 1, b, xs)
         else let (c, clen, xs) = getUnicode conv e (drop bpos b) xs
              in if xs \<noteq> [] then (- 1, b, xs)
                 else if c \<noteq> 0 \<and> \<not> inVector c cvec then (0, b, xs)
                 else trim_trailing_loop conv e cvec i (take bpos b))"

definition trimTrailing :: "iconv \<Rightarrow> qore_string \<Rightarrow> 32 word list \<Rightarrow> int \<times> qore_string \<times> xsink" where
  "trimTrailing conv s cvec =
     (let (i, xs) = getLength (encoding s) (buf s) []
      in if xs \<noteq> [] then (- 1, s, xs)
         else let (rc, b, xs) = trim_trailing_loop conv (encoding s) cvec i (buf s) in (rc, s\<lparr>buf := b\<rparr>, xs))"

text \<open>The code points of a string; the exceptions raised on the way.\<close>

function getUnicodeCharArray :: "iconv \<Rightarrow> QoreEncoding \<Rightarrow> bytes \<Rightarrow> 32 word list \<times> xsink" where
  "getUnicodeCharArray conv e p =
     (if p = [] then ([], [])
      else case getUnicode conv e p [] of
             (c, clen, x # xs) \<Rightarrow> ([], x # xs)
           | (c, clen, []) \<Rightarrow> let (vec, xs) = getUnicodeCharArray conv e (drop clen p) in (c # vec, xs))"
  by pat_completeness auto
termination
  by (relation "measure (\<lambda>(conv, e, p). length p)") (auto dest!: sym [of _ "getUnicode _ _ _ _"] getUnicode_shrinks)

declare getUnicodeCharArray.simps [simp del]

definition trim_chars :: "iconv \<Rightarrow> qore_string option \<Rightarrow> 32 word list \<times> xsink" where
  "trim_chars conv chars =
     (case chars of None \<Rightarrow> (default_whitespace, []) | Some cs \<Rightarrow> getUnicodeCharArray conv (encoding cs) (buf cs))"

definition trimLeading_chars :: "iconv \<Rightarrow> qore_string \<Rightarrow> qore_string option \<Rightarrow> int \<times> qore_string \<times> xsink" where
  "trimLeading_chars conv s chars =
     (if buf s = [] then (0, s, [])
      else let (cvec, xs) = trim_chars conv chars in if xs \<noteq> [] then (- 1, s, xs) else trimLeading conv s cvec)"

definition trimTrailing_chars :: "iconv \<Rightarrow> qore_string \<Rightarrow> qore_string option \<Rightarrow> int \<times> qore_string \<times> xsink" where
  "trimTrailing_chars conv s chars =
     (if buf s = [] then (0, s, [])
      else let (cvec, xs) = trim_chars conv chars in if xs \<noteq> [] then (- 1, s, xs) else trimTrailing conv s cvec)"

definition trim :: "iconv \<Rightarrow> qore_string \<Rightarrow> qore_string option \<Rightarrow> int \<times> qore_string \<times> xsink" where
  "trim conv s chars =
     (let (rc, s, xs) = trimLeading_chars conv s chars
      in if rc \<noteq> 0 then (1, s, xs)
         else let (rc, s, xs) = trimTrailing_chars conv s chars in (if rc \<noteq> 0 then 1 else 0, s, xs))"

section \<open>Trimming characters\<close>

text \<open>The characters that go: null characters and those of the vector.\<close>

definition trimmed :: "iconv \<Rightarrow> QoreEncoding \<Rightarrow> 32 word list \<Rightarrow> bytes \<Rightarrow> bool" where
  "trimmed conv e cvec c \<longleftrightarrow> codepoint conv e c = 0 \<or> inVector (codepoint conv e c) cvec"

lemma trim_leading_chars:
  "list_all (enc.is_char e) cs \<Longrightarrow> trim_leading_loop conv e cvec (concat cs) = (0, concat (dropWhile (trimmed conv e cvec) cs), [])"
proof (induction cs)
  case (Cons c cs)
  then have "enc.is_char e c" "c \<noteq> []" by (simp_all add: enc.is_char_def)
  then show ?case using Cons getUnicode_char [of e c conv "concat cs"]
    by (subst trim_leading_loop.simps) (simp add: trimmed_def [of conv e cvec c])
qed (simp add: trim_leading_loop.simps)

lemma trim_trailing_chars:
  "list_all (enc.is_char e) cs \<Longrightarrow> trim_trailing_loop conv e cvec (length cs) (concat cs)
     = (0, concat (rev (dropWhile (trimmed conv e cvec) (rev cs))), [])"
proof (induction cs rule: rev_induct)
  case (snoc c cs)
  then have c: "enc.is_char e c" "list_all (enc.is_char e) (cs @ [c])" "list_all (enc.is_char e) cs" by simp_all
  have "getByteLen e (concat (cs @ [c])) (length cs) [] = (length (concat cs), [])"
    using getByteLen_chars [OF c(2), of "length cs" "[]"] by simp
  then show ?case using snoc.IH [OF c(3)] getUnicode_char [OF c(1), of conv "[]"] by (simp add: trimmed_def [of conv e cvec c])
qed simp

lemma getUnicodeCharArray_chars:
  "list_all (enc.is_char e) cs \<Longrightarrow> getUnicodeCharArray conv e (concat cs) = (map (codepoint conv e) cs, [])"
proof (induction cs)
  case (Cons c cs)
  then have "enc.is_char e c" "c \<noteq> []" by (simp_all add: enc.is_char_def)
  then show ?case using Cons getUnicode_char [of e c conv "concat cs"]
    by (subst getUnicodeCharArray.simps) simp
qed (simp add: getUnicodeCharArray.simps)

lemma list_all_dropWhile: "list_all P xs \<Longrightarrow> list_all P (dropWhile Q xs)"
  by (auto simp: list_all_iff dest: set_dropWhileD)

text \<open>
  Trimming removes whole characters: from a string of valid characters \<open>trim\<close> removes the longest prefix and the
  longest suffix of characters whose code point is among those of the second string, and no exception is raised.
\<close>

theorem trim_characters:
  assumes "chars_of s cs" "list_all (enc.is_char (encoding t)) ds" "buf t = concat ds" "\<not> isMultiByte (encoding s) \<longrightarrow> 0 \<notin> set (buf s)"
    and P: "P = trimmed conv (encoding s) (map (codepoint conv (encoding t)) ds)"
  shows "trim conv s (Some t) = (0, s\<lparr>buf := concat (rev (dropWhile P (rev (dropWhile P cs))))\<rparr>, [])"
proof -
  let ?ls = "dropWhile P cs"
  have cs: "list_all (enc.is_char (encoding s)) cs" "buf s = concat cs" using assms(1) by (simp_all add: chars_of_def)
  have vec: "trim_chars conv (Some t) = (map (codepoint conv (encoding t)) ds, [])"
    using getUnicodeCharArray_chars [OF assms(2)] assms(3) by (simp add: trim_chars_def)
  have ls: "list_all (enc.is_char (encoding s)) ?ls" using cs(1) by (rule list_all_dropWhile)
  have lead: "trimLeading_chars conv s (Some t) = (0, s\<lparr>buf := concat ?ls\<rparr>, [])"
  proof (cases "buf s = []")
    case True
    then have "cs = []" using cs by (cases cs) (auto simp: enc.is_char_def)
    then show ?thesis using True by (simp add: trimLeading_chars_def)
  next
    case False
    then show ?thesis using vec trim_leading_chars [OF cs(1)] cs(2) P by (auto simp: trimLeading_chars_def trimLeading_def)
  qed
  have n: "\<not> isMultiByte (encoding s) \<longrightarrow> 0 \<notin> set (concat ?ls)"
    using assms(4) cs(2) by (auto dest: set_dropWhileD)
  have "trimTrailing_chars conv (s\<lparr>buf := concat ?ls\<rparr>) (Some t) = (0, s\<lparr>buf := concat (rev (dropWhile P (rev ?ls)))\<rparr>, [])"
  proof (cases "concat ?ls = []")
    case True
    then have "?ls = []" using ls by (cases ?ls) (auto simp: enc.is_char_def)
    then show ?thesis by (simp add: trimTrailing_chars_def del: dropWhile_eq_Nil_conv)
  next
    case False
    then show ?thesis using vec trim_trailing_chars [OF ls] getLength_chars [OF ls n] P
      by (simp add: trimTrailing_chars_def trimTrailing_def del: concat_eq_Nil_conv)
  qed
  then show ?thesis using lead by (simp add: trim_def)
qed

theorem trim_characters_witness:
  "trim (\<lambda>_ _ _. None) \<lparr>buf = [0x20, 0xc3, 0xa9, 0x20], encoding = QCS_UTF8\<rparr> (Some \<lparr>buf = [0x20], encoding = QCS_UTF8\<rparr>)
    = (0, \<lparr>buf = [0xc3, 0xa9], encoding = QCS_UTF8\<rparr>, [])"
proof -
  let ?s = "\<lparr>buf = [0x20, 0xc3, 0xa9, 0x20], encoding = QCS_UTF8\<rparr>" and ?cs = "[[0x20], [0xc3, 0xa9], [0x20]] :: bytes list"
  have "chars_of ?s ?cs" "list_all (enc.is_char QCS_UTF8) [[0x20]]"
    by (simp_all add: chars_of_def utf8.is_char_def q_UTF8_get_char_len_def)
  moreover have "codepoint (\<lambda>_ _ _. None) QCS_UTF8 [0x20] = 0x20" "codepoint (\<lambda>_ _ _. None) QCS_UTF8 [0xc3, 0xa9] = 0xe9"
    by (simp_all add: codepoint_def getUnicode_def UTF8_getByteLen_def byte_len_loop.simps q_UTF8_get_char_len_def enc_result_def UTF8_getUnicode_def)
  ultimately show ?thesis using trim_characters [of ?s ?cs "\<lparr>buf = [0x20], encoding = QCS_UTF8\<rparr>" "[[0x20]]" _ "\<lambda>_ _ _. None"]
    by (simp add: trimmed_def inVector_def)
qed

section \<open>Reversing\<close>

text \<open>\<open>strncpy\<close> copies up to a null byte and fills up with null bytes.\<close>

definition strncpy :: "bytes \<Rightarrow> nat \<Rightarrow> bytes" where
  "strncpy p n = (let t = takeWhile (\<lambda>b. b \<noteq> 0) (take n p) in t @ replicate (n - length t) 0)"

text \<open>Characters are copied in front of those already in the target, \<open>space\<close> bytes of which are still free.\<close>

function reverse_loop :: "QoreEncoding \<Rightarrow> bytes \<Rightarrow> nat \<Rightarrow> bytes \<Rightarrow> bytes" where
  "reverse_loop e p space targ =
     (if p = [] then targ
      else let r = byte_len_loop (fcharlen e) p 1;
               bl = (if snd r then 1 else fst r)
           in if bl > space then targ
              else reverse_loop e (drop bl p) (space - bl) (strncpy p bl @ targ))"
  by pat_completeness auto
termination
proof (relation "measure (\<lambda>(e, p, n, t). length p)", goal_cases)
  case (2 e p n t r bl)
  then show ?case using byte_len_loop_pos [OF 2(1), of "fcharlen e"] by auto
qed simp

declare reverse_loop.simps [simp del]

definition concat_reverse :: "qore_string \<Rightarrow> qore_string" where
  "concat_reverse s =
     (if isMultiByte (encoding s) then s\<lparr>buf := reverse_loop (encoding s) (buf s) (length (buf s)) []\<rparr>
      else s\<lparr>buf := rev (buf s)\<rparr>)"

lemma strncpy_exact: "0 \<notin> set c \<or> length c = 1 \<Longrightarrow> strncpy (c @ q) (length c) = c"
proof (cases "0 \<in> set c")
  case False
  then have "takeWhile (\<lambda>b. b \<noteq> 0) c = c" by (subst takeWhile_eq_all_conv) auto
  moreover from this have "length (takeWhile (\<lambda>b. b \<noteq> 0) c) = length c" by (rule arg_cong)
  ultimately show ?thesis unfolding strncpy_def Let_def by (simp del: takeWhile_eq_all_conv)
next
  case True
  moreover assume "0 \<notin> set c \<or> length c = 1"
  ultimately have "c = [0]" by (auto simp: length_Suc_conv)
  then show ?thesis by (simp add: strncpy_def)
qed

lemma reverse_loop_chars:
  assumes "list_all (enc.is_char e) cs" "\<forall>c\<in>set cs. 0 \<notin> set c \<or> length c = 1" "length (concat cs) \<le> n"
  shows "reverse_loop e (concat cs) n t = concat (rev cs) @ t"
  using assms
proof (induction cs arbitrary: n t)
  case (Cons c cs)
  then have c: "enc.is_char e c" "c \<noteq> []" "strncpy (c @ concat cs) (length c) = c" using strncpy_exact by (simp_all add: enc.is_char_def)
  then have b: "byte_len_loop (fcharlen e) (c @ concat cs) 1 = (length c, False)"
    using enc.is_char_append [OF c(1), of "concat cs"] by (subst byte_len_loop.simps) (simp add: Let_def byte_len_loop.simps)
  have "reverse_loop e (concat cs) (n - length c) (c @ t) = concat (rev cs) @ c @ t" using Cons by simp
  then show ?case using b c Cons.prems(3) by (subst reverse_loop.simps) (simp add: Let_def)
qed (simp add: reverse_loop.simps)

lemma utf8_char_null: "utf8.is_char c \<Longrightarrow> 0 \<notin> set c \<or> length c = 1"
  by (erule utf8_char_cases) auto

text \<open>
  Reversing a string of valid characters in UTF-8 or in a single-byte encoding reverses the list of its characters,
  and reversing it again gives the string back.
\<close>

theorem reverse_characters:
  assumes "chars_of s cs" "encoding s = QCS_UTF8 \<or> \<not> isMultiByte (encoding s)"
  shows "concat_reverse s = s\<lparr>buf := concat (rev cs)\<rparr> \<and> concat_reverse (concat_reverse s) = s"
proof (cases "isMultiByte (encoding s)")
  case True
  then have e: "encoding s = QCS_UTF8" using assms(2) by simp
  have cs: "list_all (enc.is_char QCS_UTF8) cs" "buf s = concat cs" using assms(1) e by (simp_all add: chars_of_def)
  have r: "reverse_loop QCS_UTF8 (concat ds) (length (concat ds)) [] = concat (rev ds)" if "list_all (enc.is_char QCS_UTF8) ds" for ds
    using reverse_loop_chars [OF that, of "length (concat ds)" "[]"] that utf8_char_null by (simp add: list_all_iff)
  have "concat_reverse s = s\<lparr>buf := concat (rev cs)\<rparr>" using r [OF cs(1)] e cs(2) by (simp add: concat_reverse_def)
  moreover have "list_all (enc.is_char QCS_UTF8) (rev cs)" using cs(1) by simp
  ultimately show ?thesis using r [of "rev cs"] e cs(2) by (simp add: concat_reverse_def)
next
  case False
  have "cs = map (\<lambda>b. [b]) (buf s)" by (rule chars_single [OF assms(1) False])
  then have "concat (rev cs) = rev (buf s)" using concat_singletons [of "rev (buf s)"] by (simp add: rev_map)
  then show ?thesis using False by (simp add: concat_reverse_def)
qed

theorem reverse_characters_witness:
  "concat_reverse \<lparr>buf = [0x61, 0xc3, 0xa9], encoding = QCS_UTF8\<rparr> = \<lparr>buf = [0xc3, 0xa9, 0x61], encoding = QCS_UTF8\<rparr>"
proof -
  let ?s = "\<lparr>buf = [0x61, 0xc3, 0xa9], encoding = QCS_UTF8\<rparr>" and ?cs = "[[0x61], [0xc3, 0xa9]] :: bytes list"
  have "chars_of ?s ?cs" by (simp add: chars_of_def utf8.is_char_def q_UTF8_get_char_len_def)
  then show ?thesis using reverse_characters [of ?s ?cs] by simp
qed

text \<open>
  In UTF-16BE, where the first byte of every Latin character is null, reversing a string loses its characters.
\<close>

theorem reverse_utf16be:
  "concat_reverse \<lparr>buf = [0x00, 0x61, 0x00, 0x62], encoding = QCS_UTF16BE\<rparr> = \<lparr>buf = [0, 0, 0, 0], encoding = QCS_UTF16BE\<rparr>"
  by (simp add: concat_reverse_def reverse_loop.simps byte_len_loop.simps q_UTF16BE_get_char_len_def strncpy_def numeral_eq_Suc)

end
