(* ===== verification/Text_Search.thy ===== *)
theory Text_Search
  imports Text_String
begin

text \<open>
  Searching in strings: \<open>q_memmem\<close> and \<open>q_memrmem\<close> (\<open>src/lib/QoreLib.cpp\<close>) and the functions of
  \<open>qore_string_private\<close> built on them.  Pointers into a buffer are positions in its list of bytes; the answer
  \<open>-1\<close> means that there is no match.
\<close>

section \<open>Searching in memory\<close>

definition memchr :: "bytes \<Rightarrow> byte \<Rightarrow> nat option" where
  "memchr p c = (if c \<in> set p then Some (length (takeWhile (\<lambda>b. b \<noteq> c) p)) else None)"

lemma memchr_less: "memchr p c = Some k \<Longrightarrow> k < length p \<and> p ! k = c \<and> (\<forall>j<k. p ! j \<noteq> c)"
proof -
  assume m: "memchr p c = Some k"
  then have "c \<in> set p" by (simp add: memchr_def split: if_splits)
  then obtain ys zs where p: "p = ys @ c # zs" "c \<notin> set ys" using split_list_first by metis
  then have "takeWhile (\<lambda>b. b \<noteq> c) p = ys" by (auto simp: takeWhile_append)
  then have "k = length ys" using m by (simp add: memchr_def split: if_splits)
  then show ?thesis using p by (auto simp: nth_append)
qed

function q_memmem_loop :: "bytes \<Rightarrow> bytes \<Rightarrow> nat \<Rightarrow> nat option" where
  "q_memmem_loop big lt p =
     (if p < length big then
        case memchr (drop p big) (lt ! 0) of
          None \<Rightarrow> None
        | Some k \<Rightarrow>
            if length big - (p + k) < length lt then None
            else if list_all (\<lambda>i. big ! (p + k + i) = lt ! i) [1..<length lt] then Some (p + k)
            else q_memmem_loop big lt (p + k + 1)
      else None)"
  by pat_completeness auto
termination by (relation "measure (\<lambda>(big, lt, p). length big - p)") auto

declare q_memmem_loop.simps [simp del]

definition q_memmem :: "bytes \<Rightarrow> bytes \<Rightarrow> nat option" where
  "q_memmem big little =
     (if big = [] \<or> length little > length big then None
      else if little = [] then Some 0
      else q_memmem_loop big little 0)"

text \<open>Backwards: the last byte of the pattern first, then the bytes before it; \<open>compare_back\<close> compares \<open>n\<close> of them.\<close>

fun compare_back :: "bytes \<Rightarrow> bytes \<Rightarrow> nat \<Rightarrow> nat \<Rightarrow> nat \<Rightarrow> bool" where
  "compare_back big lt 0 p0 lt0 = True"
| "compare_back big lt (Suc n) p0 lt0 = (big ! p0 = lt ! lt0 \<and> compare_back big lt n (p0 - 1) (lt0 - 1))"

fun q_memrmem_loop :: "bytes \<Rightarrow> bytes \<Rightarrow> nat \<Rightarrow> nat option" where
  "q_memrmem_loop big lt end_p =
     (if end_p \<ge> length lt \<and> end_p > 0 then
        let p = end_p - 1
        in if big ! p = lt ! (length lt - 1) \<and> (length lt = 1 \<or> compare_back big lt (length lt - 1) (p - 1) (length lt - 2))
           then Some (end_p - length lt)
           else q_memrmem_loop big lt p
      else None)"

declare q_memrmem_loop.simps [simp del]

definition q_memrmem :: "bytes \<Rightarrow> bytes \<Rightarrow> nat option" where
  "q_memrmem big little =
     (if big = [] \<or> length little > length big then None
      else if little = [] then Some 0
      else q_memrmem_loop big little (length big))"

section \<open>Occurrences\<close>

definition occurs_at :: "bytes \<Rightarrow> bytes \<Rightarrow> nat \<Rightarrow> bool" where
  "occurs_at big little i \<longleftrightarrow> i + length little \<le> length big \<and> take (length little) (drop i big) = little"

lemma occurs_at_nth: "occurs_at big lt i \<longleftrightarrow> i + length lt \<le> length big \<and> (\<forall>j<length lt. big ! (i + j) = lt ! j)"
  by (auto simp: occurs_at_def list_eq_iff_nth_eq)

lemma memchr_none: "memchr p c = None \<longleftrightarrow> c \<notin> set p"
  by (simp add: memchr_def)

lemma in_drop: "p \<le> j \<Longrightarrow> j < length big \<Longrightarrow> big ! j \<in> set (drop p big)"
  using nth_mem [of "j - p" "drop p big"] by simp

lemma all_from_one: "Q 0 \<Longrightarrow> list_all Q [1..<n] \<longleftrightarrow> (\<forall>j<n. Q j)"
proof
  assume q: "Q 0" "list_all Q [1..<n]"
  show "\<forall>j<n. Q j"
  proof (intro allI impI)
    fix j assume "j < n"
    then show "Q j" using q by (cases j) (simp_all add: list_all_iff)
  qed
qed (simp add: list_all_iff)

lemma occurs_at_first: "occurs_at big lt i \<Longrightarrow> lt \<noteq> [] \<Longrightarrow> i < length big \<and> big ! i = lt ! 0"
  using occurs_at_nth [of big lt i] by (cases lt) auto

lemma q_memmem_loop_spec:
  assumes "lt \<noteq> []"
  shows "(case q_memmem_loop big lt p of
            Some i \<Rightarrow> p \<le> i \<and> occurs_at big lt i \<and> (\<forall>j. p \<le> j \<and> j < i \<longrightarrow> \<not> occurs_at big lt j)
          | None \<Rightarrow> \<forall>j\<ge>p. \<not> occurs_at big lt j)"
  using assms
proof (induction big lt p rule: q_memmem_loop.induct)
  case (1 big lt p)
  show ?case
  proof (cases "p < length big")
    case p: True
    show ?thesis
    proof (cases "memchr (drop p big) (lt ! 0)")
      case None
      then have "\<forall>j\<ge>p. j < length big \<longrightarrow> big ! j \<noteq> lt ! 0"
        using memchr_none [of "drop p big" "lt ! 0"] in_drop by metis
      then have "\<not> occurs_at big lt j" if "p \<le> j" for j using that 1(2) occurs_at_first by blast
      then show ?thesis using p None by (subst q_memmem_loop.simps) simp
    next
      case (Some k)
      have m: "k < length (drop p big)" "drop p big ! k = lt ! 0" "\<forall>j<k. drop p big ! j \<noteq> lt ! 0" using memchr_less [OF Some] by simp_all
      have "big ! j \<noteq> lt ! 0" if "p \<le> j" "j < p + k" for j
      proof -
        have "drop p big ! (j - p) \<noteq> lt ! 0" using m(3) that by simp
        then show ?thesis using that p by simp
      qed
      then have k: "p + k < length big" "big ! (p + k) = lt ! 0" "\<forall>j. p \<le> j \<and> j < p + k \<longrightarrow> big ! j \<noteq> lt ! 0"
        using m(1,2) p by simp_all
      then have no: "\<not> occurs_at big lt j" if "p \<le> j" "j < p + k" for j using that 1(2) occurs_at_first by blast
      have oc: "occurs_at big lt (p + k) \<longleftrightarrow> p + k + length lt \<le> length big \<and> list_all (\<lambda>i. big ! (p + k + i) = lt ! i) [1..<length lt]"
        using k(2) all_from_one [of "\<lambda>i. big ! (p + k + i) = lt ! i" "length lt"] by (simp add: occurs_at_nth)
      show ?thesis
      proof (cases "length big - (p + k) < length lt")
        case True
        then have "\<not> occurs_at big lt j" if "p \<le> j" for j using no that k(1) by (cases "j < p + k") (auto simp: occurs_at_def)
        then show ?thesis using p Some True by (subst q_memmem_loop.simps) simp
      next
        case len: False
        show ?thesis
        proof (cases "list_all (\<lambda>i. big ! (p + k + i) = lt ! i) [1..<length lt]")
          case True
          then have "q_memmem_loop big lt p = Some (p + k)" using p Some len by (subst q_memmem_loop.simps) simp
          then show ?thesis using True oc len k(1) no by simp
        next
          case False
          then have e: "q_memmem_loop big lt p = q_memmem_loop big lt (p + k + 1)" using p Some len by (subst q_memmem_loop.simps) simp
          have n: "\<not> occurs_at big lt j" if "p \<le> j" "j < p + k + 1" for j using that no oc False by (cases "j = p + k") auto
          show ?thesis using 1(1) [OF p Some len False 1(2)] n unfolding e
            by (auto split: option.splits) (metis not_less)+
        qed
      qed
    qed
  next
    case False
    then show ?thesis using 1(2) by (subst q_memmem_loop.simps) (auto simp: occurs_at_def)
  qed
qed

lemma compare_back_iff:
  "n \<le> Suc p0 \<Longrightarrow> n \<le> Suc l0 \<Longrightarrow> compare_back big lt n p0 l0 \<longleftrightarrow> (\<forall>j<n. big ! (p0 - j) = lt ! (l0 - j))"
proof (induction n arbitrary: p0 l0)
  case (Suc n)
  then show ?case using Suc.IH [of "p0 - 1" "l0 - 1"] by (simp add: All_less_Suc2)
qed simp

lemma compare_back_occurs:
  assumes "lt \<noteq> []" "length lt \<le> n" "n \<le> length big"
  shows "big ! (n - 1) = lt ! (length lt - 1) \<and> (length lt = 1 \<or> compare_back big lt (length lt - 1) (n - 1 - 1) (length lt - 2))
    \<longleftrightarrow> occurs_at big lt (n - length lt)"
proof -
  have l: "0 < length lt" using assms(1) by simp
  have "big ! (n - 1) = lt ! (length lt - 1) \<and> (length lt = 1 \<or> compare_back big lt (length lt - 1) (n - 1 - 1) (length lt - 2))
    \<longleftrightarrow> compare_back big lt (length lt) (n - 1) (length lt - 1)" using l by (cases "length lt") (auto simp: numeral_2_eq_2)
  also have "\<dots> \<longleftrightarrow> (\<forall>j<length lt. big ! (n - 1 - j) = lt ! (length lt - 1 - j))"
    using l assms(2) by (intro compare_back_iff) simp_all
  also have "\<dots> \<longleftrightarrow> (\<forall>j<length lt. big ! (n - length lt + j) = lt ! j)"
  proof
    assume a: "\<forall>j<length lt. big ! (n - 1 - j) = lt ! (length lt - 1 - j)"
    show "\<forall>j<length lt. big ! (n - length lt + j) = lt ! j"
    proof (intro allI impI)
      fix j assume "j < length lt"
      then show "big ! (n - length lt + j) = lt ! j" using a [rule_format, of "length lt - 1 - j"] assms(2) by simp
    qed
  next
    assume a: "\<forall>j<length lt. big ! (n - length lt + j) = lt ! j"
    show "\<forall>j<length lt. big ! (n - 1 - j) = lt ! (length lt - 1 - j)"
    proof (intro allI impI)
      fix j assume "j < length lt"
      then show "big ! (n - 1 - j) = lt ! (length lt - 1 - j)" using a [rule_format, of "length lt - 1 - j"] assms(2) by simp
    qed
  qed
  finally show ?thesis using assms(2,3) by (simp add: occurs_at_nth)
qed

lemma q_memrmem_loop_spec:
  assumes "lt \<noteq> []" "n \<le> length big"
  shows "(case q_memrmem_loop big lt n of
            Some i \<Rightarrow> i + length lt \<le> n \<and> occurs_at big lt i \<and> (\<forall>j>i. j + length lt \<le> n \<longrightarrow> \<not> occurs_at big lt j)
          | None \<Rightarrow> \<forall>j. j + length lt \<le> n \<longrightarrow> \<not> occurs_at big lt j)"
  using assms(2)
proof (induction n)
  case 0
  then show ?case using assms(1) by (subst q_memrmem_loop.simps) simp
next
  case (Suc n)
  show ?case
  proof (cases "length lt \<le> Suc n")
    case True
    note c = compare_back_occurs [OF assms(1) True Suc.prems]
    show ?thesis
    proof (cases "occurs_at big lt (Suc n - length lt)")
      case oc: True
      then have "q_memrmem_loop big lt (Suc n) = Some (Suc n - length lt)" using c True by (subst q_memrmem_loop.simps) (simp add: Let_def)
      then show ?thesis using oc True by auto
    next
      case oc: False
      then have e: "q_memrmem_loop big lt (Suc n) = q_memrmem_loop big lt n" using c True by (subst q_memrmem_loop.simps) (auto simp: Let_def)
      have "\<not> occurs_at big lt j" if "j + length lt = Suc n" for j using oc that by (metis add_diff_cancel_right')
      then show ?thesis using Suc.IH Suc.prems unfolding e by (auto split: option.splits simp: le_Suc_eq)
    qed
  next
    case False
    then show ?thesis by (subst q_memrmem_loop.simps) simp
  qed
qed

text \<open>
  The two search loops compute what their names say: \<open>q_memmem\<close> the first and \<open>q_memrmem\<close> the last position at which
  a non-empty pattern occurs in a non-empty buffer, and nothing when it does not occur.
\<close>

theorem memory_search:
  assumes "big \<noteq> []" "little \<noteq> []"
  shows "q_memmem big little = (if \<exists>i. occurs_at big little i then Some (LEAST i. occurs_at big little i) else None)
    \<and> q_memrmem big little = (if \<exists>i. occurs_at big little i then Some (GREATEST i. occurs_at big little i) else None)"
proof (cases "length little > length big")
  case True
  then have "\<not> occurs_at big little i" for i by (simp add: occurs_at_def)
  then show ?thesis using True by (simp add: q_memmem_def q_memrmem_def)
next
  case False
  have f: "q_memmem big little = q_memmem_loop big little 0" "q_memrmem big little = q_memrmem_loop big little (length big)"
    using assms False by (simp_all add: q_memmem_def q_memrmem_def)
  have b: "i + length little \<le> length big" if "occurs_at big little i" for i using that by (simp add: occurs_at_def)
  have "q_memmem big little = (if \<exists>i. occurs_at big little i then Some (LEAST i. occurs_at big little i) else None)"
    using q_memmem_loop_spec [OF assms(2), where big = big and p = 0] unfolding f
    by (auto split: option.splits) (metis LeastI Least_le le_less_Suc_eq not_less_Least not_less_eq)+
  moreover have "q_memrmem big little = (if \<exists>i. occurs_at big little i then Some (GREATEST i. occurs_at big little i) else None)"
  proof (cases "q_memrmem_loop big little (length big)")
    case None
    then show ?thesis using q_memrmem_loop_spec [OF assms(2) order_refl [of "length big"]] b unfolding f by auto
  next
    case (Some i)
    then have i: "occurs_at big little i" "\<And>j. i < j \<Longrightarrow> \<not> occurs_at big little j"
      using q_memrmem_loop_spec [OF assms(2) order_refl [of "length big"]] b by auto
    then have "(GREATEST i. occurs_at big little i) = i" by (intro Greatest_equality) (auto intro: leI)
    then show ?thesis using Some i(1) unfolding f by auto
  qed
  ultimately show ?thesis ..
qed

theorem memory_search_witness:
  "q_memmem (lit ''abab'') (lit ''ab'') = (if \<exists>i. occurs_at (lit ''abab'') (lit ''ab'') i then Some (LEAST i. occurs_at (lit ''abab'') (lit ''ab'') i) else None)"
  using memory_search [of "lit ''abab''" "lit ''ab''"] by simp

section \<open>Positions of strings\<close>

definition index_simple :: "bytes \<Rightarrow> bytes \<Rightarrow> int \<Rightarrow> int" where
  "index_simple haystack needle pos =
     (case q_memmem (bytes_at haystack pos) needle of None \<Rightarrow> - 1 | Some k \<Rightarrow> int k + pos)"

definition rindex_simple :: "bytes \<Rightarrow> bytes \<Rightarrow> int \<Rightarrow> int" where
  "rindex_simple haystack needle pos =
     (let hlen = int (length haystack);
          pos' = (if pos < 0 then hlen + pos else if pos \<ge> hlen then hlen - 1 else pos)
      in if pos < 0 \<and> pos' < 0 then - 1
         else case q_memrmem (take (nat (pos' + 1)) haystack) needle of None \<Rightarrow> - 1 | Some k \<Rightarrow> int k)"

text \<open>A character offset becomes a byte offset; the answer is the return value, the offset and the exceptions.\<close>

definition findByteOffset :: "qore_string \<Rightarrow> int \<Rightarrow> nat \<Rightarrow> xsink \<Rightarrow> int \<times> int \<times> xsink" where
  "findByteOffset s pos start xs =
     (if pos = 0 then (0, pos, xs)
      else let (clen, xs') = (if pos < 0 then getLength (encoding s) (drop start (buf s)) xs else (0, xs));
               pos' = (if pos < 0 then int64 (int clen + pos) else pos)
           in if pos < 0 \<and> xs' \<noteq> [] then (- 1, pos, xs')
              else let (bl, xs') = getByteLen (encoding s) (drop start (buf s)) (nat (size_t pos')) xs'
                   in (if xs' \<noteq> [] then - 1 else 0, int bl, xs'))"

definition index :: "iconv \<Rightarrow> qore_string \<Rightarrow> qore_string \<Rightarrow> int \<Rightarrow> xsink \<Rightarrow> int \<times> xsink" where
  "index conv s orig_needle pos xs =
     (let (needle, xs) = TempEncodingHelper conv orig_needle (encoding s) xs
      in if xs \<noteq> [] then (- 1, xs)
         else if \<not> isMultiByte (encoding s) then
           let pos' = (if pos < 0 then max 0 (int64 (slen s + pos)) else pos)
           in if \<not> pos < 0 \<and> pos \<ge> slen s then (- 1, xs) else (index_simple (buf s) needle pos', xs)
         else let (rc, pos, xs) = findByteOffset s pos 0 xs
              in if rc \<noteq> 0 then (- 1, xs)
                 else if \<not> pos < 0 \<and> pos \<ge> slen s then (- 1, xs)
                 else let pos = max 0 pos; ind = index_simple (bytes_at (buf s) pos) needle 0
                      in if ind \<noteq> - 1 then
                           let (c, xs) = getCharPos (encoding s) (take (nat (pos + ind)) (buf s)) xs
                           in if xs \<noteq> [] then (- 1, xs) else (int c, xs)
                         else (ind, xs))"

definition rindex :: "iconv \<Rightarrow> qore_string \<Rightarrow> qore_string \<Rightarrow> int \<Rightarrow> xsink \<Rightarrow> int \<times> xsink" where
  "rindex conv s orig_needle pos xs =
     (let (needle, xs) = TempEncodingHelper conv orig_needle (encoding s) xs
      in if xs \<noteq> [] then (- 1, xs)
         else if \<not> isMultiByte (encoding s) then
           let pos' = (if pos < 0 then int64 (slen s + pos) else pos)
           in if pos < 0 \<and> pos' < 0 then (- 1, xs) else (rindex_simple (buf s) needle pos', xs)
         else let (rc, pos, xs) = findByteOffset s pos 0 xs
              in if rc \<noteq> 0 then (- 1, xs)
                 else if pos < 0 then (- 1, xs)
                 else let ind = rindex_simple (buf s) needle pos
                      in if ind \<noteq> 0 \<and> ind \<noteq> - 1 then
                           let (c, xs) = getCharPos (encoding s) (take (nat ind) (buf s)) xs
                           in if xs \<noteq> [] then (0, xs) else (int c, xs)
                         else (ind, xs))"

definition bindex_bytes :: "qore_string \<Rightarrow> bytes \<Rightarrow> int \<Rightarrow> nat \<Rightarrow> int" where
  "bindex_bytes s needle pos nsize =
     (let pos' = (if pos < 0 then max 0 (int64 (slen s + pos)) else pos)
      in if \<not> pos < 0 \<and> pos \<ge> slen s then - 1
         else index_simple (buf s) (if nsize = 0 then takeWhile (\<lambda>b. b \<noteq> 0) needle else take nsize needle) pos')"

definition bindex :: "qore_string \<Rightarrow> qore_string \<Rightarrow> int \<Rightarrow> int" where
  "bindex s needle pos =
     (if size_t (slen needle + pos) > slen s then - 1 else bindex_bytes s (buf needle) pos (length (buf needle)))"

definition brindex :: "qore_string \<Rightarrow> bytes \<Rightarrow> int \<Rightarrow> int" where
  "brindex s needle pos =
     (let pos = (if pos < 0 then int64 (slen s + pos) else pos);
          pos = (if pos \<ge> slen s then slen s - 1 else pos)
      in if pos < 0 then (if pos = - 1 \<and> buf s = [] \<and> needle = [] then 0 else - 1)
         else if size_t (int (length needle) + (slen s - pos)) > slen s then - 1
         else rindex_simple (buf s) needle pos)"

text \<open>\<open>strncmp\<close> stops at a null byte.\<close>

fun strncmp_eq :: "bytes \<Rightarrow> bytes \<Rightarrow> nat \<Rightarrow> bool" where
  "strncmp_eq a b 0 = True"
| "strncmp_eq a b (Suc n) = (peek a = peek b \<and> (peek a = 0 \<or> strncmp_eq (tl a) (tl b) n))"

definition startsWith :: "qore_string \<Rightarrow> bytes \<Rightarrow> bool" where
  "startsWith s str = strncmp_eq str (buf s) (length str)"

definition endsWith :: "qore_string \<Rightarrow> bytes \<Rightarrow> bool" where
  "endsWith s str = (if int (length str) > slen s then False else strncmp_eq str (drop (length (buf s) - length str) (buf s)) (length str))"

lemma strncmp_eq_prefix: "0 \<notin> set a \<Longrightarrow> strncmp_eq a b (length a) \<longleftrightarrow> take (length a) b = a"
proof (induction a arbitrary: b)
  case (Cons x a)
  then show ?case by (cases b) auto
qed simp

text \<open>
  \<open>startsWith\<close> and \<open>endsWith\<close> decide whether a text without null bytes is a prefix or a suffix of the string.
\<close>

theorem starts_ends_with:
  assumes "0 \<notin> set str"
  shows "(startsWith s str \<longleftrightarrow> (\<exists>t. buf s = str @ t)) \<and> (endsWith s str \<longleftrightarrow> (\<exists>t. buf s = t @ str))"
proof -
  have "take (length str) (buf s) = str \<longleftrightarrow> (\<exists>t. buf s = str @ t)" by (metis append_eq_conv_conj append_take_drop_id)
  moreover have "take (length str) (drop (length (buf s) - length str) (buf s)) = str \<longleftrightarrow> (\<exists>t. buf s = t @ str)" if "length str \<le> length (buf s)"
    using that by (auto simp: append_eq_conv_conj) (metis append_take_drop_id)
  ultimately show ?thesis using strncmp_eq_prefix [OF assms] by (auto simp: startsWith_def endsWith_def)
qed

theorem starts_ends_with_witness:
  "startsWith \<lparr>buf = lit ''abc'', encoding = QCS_UTF8\<rparr> (lit ''ab'') \<longleftrightarrow> (\<exists>t. lit ''abc'' = lit ''ab'' @ t)"
  using starts_ends_with [of "lit ''ab''" "\<lparr>buf = lit ''abc'', encoding = QCS_UTF8\<rparr>"] by (simp add: asc_def)

text \<open>
  The answer of \<open>rindex_simple\<close> is the last occurrence that ends at or before the given position, where the comment
  on it promises the last one that starts there.
\<close>

theorem rindex_simple_end:
  assumes "0 \<le> pos" "pos < int (length haystack)" "needle \<noteq> []"
  shows "rindex_simple haystack needle pos
    = (if \<exists>i. occurs_at haystack needle i \<and> i + length needle \<le> nat pos + 1
       then int (GREATEST i. occurs_at haystack needle i \<and> i + length needle \<le> nat pos + 1) else - 1)"
proof -
  let ?h = "take (nat (pos + 1)) haystack"
  have n: "nat (pos + 1) = nat pos + 1" "length ?h = nat pos + 1" using assms(1,2) by auto
  have o: "occurs_at ?h needle i \<longleftrightarrow> occurs_at haystack needle i \<and> i + length needle \<le> nat pos + 1" for i
    using n by (auto simp: occurs_at_nth)
  have "?h \<noteq> []" using assms(1,2) by auto
  then show ?thesis using memory_search [of ?h needle] assms unfolding o by (simp add: rindex_simple_def Let_def)
qed

theorem rindex_simple_end_witness:
  "rindex_simple (lit ''abcd'') (lit ''cd'') 2
    = (if \<exists>i. occurs_at (lit ''abcd'') (lit ''cd'') i \<and> i + length (lit ''cd'') \<le> nat 2 + 1
       then int (GREATEST i. occurs_at (lit ''abcd'') (lit ''cd'') i \<and> i + length (lit ''cd'') \<le> nat 2 + 1) else - 1)"
  by (rule rindex_simple_end) simp_all

text \<open>
  A negative position before the start of the string means the start in a single-byte encoding, but the end in a
  multi-byte one: the same search finds the text in the first and not in the second.
\<close>

theorem index_negative_position:
  "index conv \<lparr>buf = [0x61, 0x62], encoding = SingleByte ''ISO-8859-1''\<rparr> \<lparr>buf = [0x61], encoding = SingleByte ''ISO-8859-1''\<rparr> (- 3) [] = (0, [])
   \<and> index conv \<lparr>buf = [0x61, 0x62], encoding = QCS_UTF8\<rparr> \<lparr>buf = [0x61], encoding = QCS_UTF8\<rparr> (- 3) [] = (- 1, [])"
proof -
  have c: "list_all (enc.is_char QCS_UTF8) [[0x61], [0x62]]" by (simp add: utf8.is_char_def q_UTF8_get_char_len_def)
  have "getLength QCS_UTF8 [0x61, 0x62] [] = (2, [])" using getLength_chars [OF c, of "[]"] by simp
  moreover have "getByteLen QCS_UTF8 [0x61, 0x62] 18446744073709551615 [] = (2, [])" using getByteLen_chars [OF c, of 18446744073709551615 "[]"] by simp
  ultimately have "index conv \<lparr>buf = [0x61, 0x62], encoding = QCS_UTF8\<rparr> \<lparr>buf = [0x61], encoding = QCS_UTF8\<rparr> (- 3) [] = (- 1, [])"
    by (simp add: index_def TempEncodingHelper_def findByteOffset_def int64_def size_t_def)
  moreover have "index conv \<lparr>buf = [0x61, 0x62], encoding = SingleByte ''ISO-8859-1''\<rparr> \<lparr>buf = [0x61], encoding = SingleByte ''ISO-8859-1''\<rparr> (- 3) [] = (0, [])"
    by (simp add: index_def TempEncodingHelper_def index_simple_def bytes_at_def q_memmem_def q_memmem_loop.simps memchr_def int64_def)
  ultimately show ?thesis by simp
qed

end
