(* ===== verification/Text_Base64.thy ===== *)
theory Text_Base64
  imports Text_Bytes
begin

text \<open>
  Base64 and hexadecimal text: \<open>concatBase64\<close> and \<open>concatHex\<close> (\<open>src/lib/QoreString.cpp\<close>),
  \<open>parse_base64_intern\<close> and \<open>parseHex\<close> (\<open>src/lib/QoreLib.cpp\<close>).  A writer returns the bytes it appends;
  a parser works on what remains of its null-terminated buffer.
\<close>

section \<open>Base64 output\<close>

definition table64 :: bytes where
  "table64 = lit ''ABCDEFGHIJKLMNOPQRSTUVWXYZabcdefghijklmnopqrstuvwxyz0123456789+/''"




section \<open>Base64 input\<close>

fun skip_newlines :: "bytes \<Rightarrow> bytes" where
  "skip_newlines (b # bs) = (if b = 10 \<or> b = 13 then skip_newlines bs else b # bs)"
| "skip_newlines [] = []"

text \<open>The value of a character, -1 if it is none.\<close>

definition base64_value :: "bool \<Rightarrow> byte \<Rightarrow> int" where
  "base64_value url c =
     (if asc CHR ''A'' \<le> c \<and> c \<le> asc CHR ''Z'' then uint c - 65
      else if asc CHR ''a'' \<le> c \<and> c \<le> asc CHR ''z'' then uint c - 97 + 26
      else if asc CHR ''0'' \<le> c \<and> c \<le> asc CHR ''9'' then uint c - 48 + 52
      else if c = (if url then asc CHR ''-'' else asc CHR ''+'') then 62
      else if c = (if url then asc CHR ''_'' else asc CHR ''/'') then 63
      else - 1)"

definition get_base64_value :: "xsink \<Rightarrow> bytes \<Rightarrow> bool \<Rightarrow> bool \<Rightarrow> int \<times> bytes \<times> xsink" where
  "get_base64_value xs buf end_ok url =
     (let buf = skip_newlines buf; c = peek buf; v = base64_value url c
      in if v \<ge> 0 then (v, buf, xs)
         else if c = 0 then (- 1, buf, if end_ok then xs else raiseException xs ''BASE64-PARSE-ERROR'')
         else (- 1, buf, raiseException xs ''BASE64-PARSE-ERROR''))"






section \<open>Decoding what was encoded\<close>


definition b64_char :: "bool \<Rightarrow> byte \<Rightarrow> byte" where
  "b64_char url c = (let c = table64 ! unat c
     in if url then (if c = asc CHR ''+'' then asc CHR ''-'' else if c = asc CHR ''/'' then asc CHR ''_'' else c) else c)"

lemma table64_codes: "table64 = [65, 66, 67, 68, 69, 70, 71, 72, 73, 74, 75, 76, 77, 78, 79, 80, 81, 82, 83, 84, 85, 86, 87, 88, 89, 90,
  97, 98, 99, 100, 101, 102, 103, 104, 105, 106, 107, 108, 109, 110, 111, 112, 113, 114, 115, 116, 117, 118, 119, 120, 121, 122,
  48, 49, 50, 51, 52, 53, 54, 55, 56, 57, 43, 47]"
  by (simp add: table64_def lit_def asc_def)

lemma table64_values:
  "list_all (\<lambda>(i, c). base64_value False c = int i \<and> c \<noteq> 0 \<and> c \<noteq> 10 \<and> c \<noteq> 13 \<and> c \<noteq> 61) (enumerate 0 table64)"
  unfolding table64_codes by (simp add: base64_value_def asc_def)
lemma table64_url_values:
  "list_all (\<lambda>(i, c). let c = (if c = asc CHR ''+'' then asc CHR ''-'' else if c = asc CHR ''/'' then asc CHR ''_'' else c) in base64_value True c = int i \<and> c \<noteq> 0 \<and> c \<noteq> 10 \<and> c \<noteq> 13 \<and> c \<noteq> 61) (enumerate 0 table64)"
  unfolding table64_codes by (simp add: base64_value_def asc_def)
lemma table64_length: "length table64 = 64" by (simp add: table64_def)
lemma b64_char_value:
  assumes "c < 64"
  shows "base64_value url (b64_char url c) = uint c" "b64_char url c \<noteq> 0" "b64_char url c \<noteq> 10" "b64_char url c \<noteq> 13"
    "b64_char url c \<noteq> asc CHR ''=''"
proof -
  have "unat c < 64" using assms by (simp add: word_less_nat_alt)
  then have i: "(unat c, table64 ! unat c) \<in> set (enumerate 0 table64)" by (simp add: in_set_enumerate_eq table64_length)
  show "base64_value url (b64_char url c) = uint c" "b64_char url c \<noteq> 0" "b64_char url c \<noteq> 10" "b64_char url c \<noteq> 13"
    "b64_char url c \<noteq> asc CHR ''=''"
    using table64_values table64_url_values i unfolding list_all_iff b64_char_def Let_def by (cases url; fastforce simp: asc_def)+
qed
text \<open>Line breaks are invisible to the reader of the next value.\<close>

definition breaks :: "bytes \<Rightarrow> bool" where
  "breaks nl \<longleftrightarrow> nl = [] \<or> nl = [13, 10]"

lemma get_base64_char:
  assumes "c < 64" "breaks nl"
  shows "get_base64_value xs (nl @ b64_char url c # rest) e url = (uint c, b64_char url c # rest, xs)"
  using assms b64_char_value [OF assms(1), of url]
  by (auto simp: get_base64_value_def breaks_def Let_def)

lemma get_base64_char0:
  "c < 64 \<Longrightarrow> get_base64_value xs (b64_char url c # rest) e url = (uint c, b64_char url c # rest, xs)"
  using get_base64_char [of c "[]"] by (simp add: breaks_def)




















text \<open>
  Whether a line break comes right before the padding, for \<open>n\<close> bytes from position \<open>ll\<close> of the line on.  The
  characters before the padding are four for every three bytes and one more than the bytes left over.
\<close>

definition broken_padding :: "nat \<Rightarrow> nat \<Rightarrow> nat \<Rightarrow> bool \<Rightarrow> bool" where
  "broken_padding n ll mx url \<longleftrightarrow> \<not> url \<and> mx > 0 \<and> \<not> 3 dvd n \<and> mx dvd ll + (4 * (n div 3) + n mod 3 + 1)"




text \<open>Where the padding is safe: the URL alphabet, lines of a multiple of four, and lines longer than the text.\<close>

lemma no_broken_padding: "url \<or> 4 dvd mx \<or> 4 * (n div 3) + 3 < mx \<Longrightarrow> \<not> broken_padding n 0 mx url"
proof -
  have "n mod 3 \<le> 2" by simp
  then have "4 * (n div 3) + 3 < mx \<Longrightarrow> \<not> mx dvd 4 * (n div 3) + n mod 3 + 1"
    by (auto dest!: dvd_imp_le)
  moreover have "4 dvd 4 * (n div 3) + n mod 3 + 1 \<Longrightarrow> 3 dvd n" by presburger
  ultimately show "url \<or> 4 dvd mx \<or> 4 * (n div 3) + 3 < mx \<Longrightarrow> ?thesis" unfolding broken_padding_def add_0 by (meson dvd_trans)
qed

section \<open>Hexadecimal text\<close>

definition DO_HEX_CHAR :: "byte \<Rightarrow> byte" where
  "DO_HEX_CHAR b = b + (if b > 9 then 87 else 48)"

fun concatHex :: "bytes \<Rightarrow> bytes" where
  "concatHex [] = []"
| "concatHex (p # ps) = DO_HEX_CHAR (drop_bit 4 (p AND 240)) # DO_HEX_CHAR (p AND 15) # concatHex ps"

definition isdigit :: "byte \<Rightarrow> bool" where
  "isdigit c \<longleftrightarrow> 48 \<le> c \<and> c \<le> 57"

definition get_nibble :: "byte \<Rightarrow> xsink \<Rightarrow> int \<times> xsink" where
  "get_nibble c xs =
     (if isdigit c then (uint c - 48, xs)
      else if asc CHR ''A'' \<le> c \<and> c \<le> asc CHR ''F'' then (uint c - 55, xs)
      else if asc CHR ''a'' \<le> c \<and> c \<le> asc CHR ''f'' then (uint c - 87, xs)
      else (- 1, raiseException xs ''PARSE-HEX-ERROR''))"

fun parse_hex_loop :: "bytes \<Rightarrow> bytes \<Rightarrow> xsink \<Rightarrow> bytes option \<times> xsink" where
  "parse_hex_loop [] bin xs = (Some bin, xs)"
| "parse_hex_loop (d # ds) bin xs =
     (let (b, xs) = get_nibble d xs
      in if b < 0 then (None, xs)
         else let (l, xs) = get_nibble (peek ds) xs
              in if l < 0 then (None, xs)
                 else parse_hex_loop (tl ds) (bin @ [push_bit 4 (word_of_int b) OR word_of_int l]) xs)"

definition parseHex :: "bytes \<Rightarrow> xsink \<Rightarrow> bytes option \<times> xsink" where
  "parseHex buf xs =
     (let len = int (length buf)
      in if len = 0 then (Some [], xs)
         else if (len sdiv 2) * 2 \<noteq> len then (None, raiseException xs ''PARSE-HEX-ERROR'')
         else parse_hex_loop buf [] xs)"

definition is_hex :: "byte \<Rightarrow> bool" where
  "is_hex c \<longleftrightarrow> isdigit c \<or> asc CHR ''A'' \<le> c \<and> c \<le> asc CHR ''F'' \<or> asc CHR ''a'' \<le> c \<and> c \<le> asc CHR ''f''"

lemma get_nibble_hex:
  "get_nibble c xs = (if is_hex c then (fst (get_nibble c []), xs) else (- 1, raiseException xs ''PARSE-HEX-ERROR''))"
  "is_hex c \<Longrightarrow> 0 \<le> fst (get_nibble c [])" "get_nibble 0 xs = (- 1, raiseException xs ''PARSE-HEX-ERROR'')"
  by (auto simp: get_nibble_def is_hex_def isdigit_def asc_def word_le_def)

lemma nibble_cases: "(x :: byte) < 16 \<Longrightarrow> x \<in> {0, 1, 2, 3, 4, 5, 6, 7, 8, 9, 10, 11, 12, 13, 14, 15}"
proof -
  assume "x < 16"
  then have "unat x < 16" by (simp add: word_less_nat_alt)
  then have "unat x \<in> {0, 1, 2, 3, 4, 5, 6, 7, 8, 9, 10, 11, 12, 13, 14, 15}" by simp presburger
  then show ?thesis by (auto simp: word_unat_eq_iff)
qed

lemma nibble_char:
  assumes "x < 16"
  shows "get_nibble (DO_HEX_CHAR x) xs = (uint x, xs)"
proof -
  have "\<forall>x\<in>{0, 1, 2, 3, 4, 5, 6, 7, 8, 9, 10, 11, 12, 13, 14, 15 :: byte}. get_nibble (DO_HEX_CHAR x) xs = (uint x, xs)"
    by (simp add: get_nibble_def DO_HEX_CHAR_def isdigit_def asc_def)
  then show ?thesis using nibble_cases [OF assms] by blast
qed

lemma byte_lt_16: "(x :: byte) < 16 \<longleftrightarrow> x AND 15 = x"
proof -
  have "x AND 15 = x \<longleftrightarrow> take_bit 4 x = x" by (simp add: byte_masks take_bit_eq_mask [symmetric])
  also have "\<dots> \<longleftrightarrow> unat x mod 16 = unat x" by (simp add: take_bit_eq_mod word_unat_eq_iff unat_mod)
  also have "\<dots> \<longleftrightarrow> x < 16" by (simp add: word_less_nat_alt) (metis mod_less mod_less_divisor zero_less_numeral)
  finally show ?thesis by simp
qed

lemma high_nibble_lt_16 [simp]: "drop_bit 4 (p AND 240) < (16 :: byte)" "p AND 15 < (16 :: byte)"
proof -
  have "(240 :: byte) = push_bit 4 (mask 4)" by (simp add: mask_eq_exp_minus_1)
  then show "drop_bit 4 (p AND 240) < (16 :: byte)" by (simp add: byte_lt_16 byte_eq_iff byte_masks bit_simps)
  show "p AND 15 < (16 :: byte)" by (simp add: byte_lt_16 byte_eq_iff byte_masks bit_simps)
qed

lemma nibbles_byte: "push_bit 4 (drop_bit 4 (p AND 240)) OR (p AND 15) = (p :: byte)"
proof -
  have "(240 :: byte) = push_bit 4 (mask 4)" by (simp add: mask_eq_exp_minus_1)
  then show ?thesis by (simp add: byte_eq_iff byte_masks bit_simps)
qed

lemma parse_hex_encoded: "parse_hex_loop (concatHex bs) bin xs = (Some (bin @ bs), xs)"
  by (induction bs arbitrary: bin) (simp_all add: nibble_char nibbles_byte del: push_bit_and drop_bit_and)

lemma concatHex_length [simp]: "length (concatHex bs) = 2 * length bs"
  by (induction bs) simp_all

lemma parse_hex_loop_error:
  assumes "even (length ds)"
  shows "fst (parse_hex_loop ds bin xs) = None \<longleftrightarrow> (\<exists>d\<in>set ds. \<not> is_hex d)"
  using assms
proof (induction ds bin xs rule: parse_hex_loop.induct)
  case (2 d ds bin xs)
  then obtain e es where ds: "ds = e # es" "even (length es)" by (cases ds) auto
  show ?case
  proof (cases "is_hex d \<and> is_hex e")
    case True
    then have n: "get_nibble d xs = (fst (get_nibble d []), xs)" "get_nibble e xs = (fst (get_nibble e []), xs)"
      using get_nibble_hex(1) by metis+
    have p: "\<not> fst (get_nibble d []) < 0" "\<not> fst (get_nibble e []) < 0" using get_nibble_hex(2) True by (simp_all add: not_less)
    have "fst (parse_hex_loop es bin' xs) = None \<longleftrightarrow> (\<exists>d\<in>set es. \<not> is_hex d)"
      if "bin' = bin @ [push_bit 4 (word_of_int (fst (get_nibble d []))) OR word_of_int (fst (get_nibble e []))]" for bin'
      using "2.IH" [OF n(1) [symmetric] refl p(1) _ refl p(2)] n(2) ds that by simp
    then show ?thesis using n p ds True by (simp add: Let_def)
  next
    case False
    then show ?thesis using get_nibble_hex(1) [of d xs] get_nibble_hex(1) [of e] ds(1)
      by (cases "is_hex d") (auto simp: Let_def split: prod.split)
  qed
qed simp

text \<open>
  Hexadecimal text written for any bytes parses back to them, and parsing succeeds exactly for text
  with an even number of characters that are all hexadecimal digits.
\<close>

theorem hex_round_trip:
  "parseHex (concatHex bs) xs = (Some bs, xs)
   \<and> (fst (parseHex s xs) \<noteq> None \<longleftrightarrow> even (length s) \<and> list_all is_hex s)"
proof -
  have ev: "(int n sdiv 2) * 2 = int n \<longleftrightarrow> even n" for n
    by (simp add: sdiv_nonneg) (metis dvd_div_mult_self dvd_triv_right even_of_nat)
  have "parseHex (concatHex bs) xs = (Some bs, xs)"
    using parse_hex_encoded [of bs "[]" xs] ev [of "2 * length bs"] by (simp add: parseHex_def Let_def)
  moreover have "fst (parseHex s xs) = None \<longleftrightarrow> odd (length s) \<or> (\<exists>c\<in>set s. \<not> is_hex c)"
    using parse_hex_loop_error [of s "[]" xs] ev [of "length s"] by (cases "s = []") (auto simp: parseHex_def Let_def)
  ultimately show ?thesis by (auto simp: list_all_iff)
qed

end
