(* ===== verification/Text_URL.thy ===== *)
theory Text_URL
  imports Text_Base64 Text_String
begin

text \<open>
  Percent encoding (\<open>src/lib/QoreString.cpp\<close>, \<open>getHex\<close> in \<open>src/include/qore/intern/qore_string_private.h\<close>):
  \<open>concatEncodeUrl\<close>, \<open>concatEncodeUriRequest\<close> and the two ways through \<open>concatDecodeUriIntern\<close>.  A C string is
  the list of the bytes before its terminator, so that a loop \<open>while (*url)\<close> stops at the end of the list
  and at an embedded null byte.
\<close>

section \<open>Hexadecimal digits\<close>

definition isxdigit :: "byte \<Rightarrow> bool" where
  "isxdigit c \<longleftrightarrow> isdigit c \<or> asc CHR ''A'' \<le> c \<and> c \<le> asc CHR ''F'' \<or> asc CHR ''a'' \<le> c \<and> c \<le> asc CHR ''f''"

text \<open>\<open>strtol(x, 0, 16)\<close> on two hexadecimal digits.\<close>

definition xdigit :: "byte \<Rightarrow> int" where
  "xdigit c = (if isdigit c then uint c - 48 else if c \<le> asc CHR ''F'' then uint c - 55 else uint c - 87)"

definition getHex :: "bytes \<Rightarrow> int \<times> bytes" where
  "getHex p =
     (if peek p = asc CHR ''%'' \<and> isxdigit (peek_at 1 p) \<and> isxdigit (peek_at 2 p)
      then (16 * xdigit (peek_at 1 p) + xdigit (peek_at 2 p), drop 3 p)
      else (- 1, p))"

text \<open>\<open>sprintf("%X")\<close>: upper-case digits, no leading zeros.\<close>

definition hex_digit_upper :: "nat \<Rightarrow> byte" where
  "hex_digit_upper d = of_nat (if d < 10 then 48 + d else 55 + d)"

fun format_X :: "nat \<Rightarrow> bytes" where
  "format_X n = (if n < 16 then [hex_digit_upper n] else format_X (n div 16) @ [hex_digit_upper (n mod 16)])"

declare format_X.simps [simp del]

definition percent_X :: "byte \<Rightarrow> bytes" where
  "percent_X b = asc CHR ''%'' # format_X (unat b)"

section \<open>Decoding\<close>

text \<open>A character of several bytes, whose first byte \<open>x1\<close> has been read; the answer holds what remains of the URL.\<close>

definition concat_utf8_or_unicode ::
    "iconv \<Rightarrow> bytes \<Rightarrow> 32 word \<Rightarrow> bytes \<Rightarrow> qore_string \<Rightarrow> xsink \<Rightarrow> int \<times> bytes \<times> qore_string \<times> xsink" where
  "concat_utf8_or_unicode conv bs cp url s xs =
     (if encoding s = QCS_UTF8 then (0, url, concat_bytes bs s, xs)
      else let (rc, s', xs') = concatUnicode conv cp s xs in (if rc \<noteq> 0 then - 1 else 0, url, s', xs'))"

definition decode_multi_byte ::
    "iconv \<Rightarrow> int \<Rightarrow> bytes \<Rightarrow> qore_string \<Rightarrow> xsink \<Rightarrow> int \<times> bytes \<times> qore_string \<times> xsink" where
  "decode_multi_byte conv x1 url s xs =
     (let (x2, url) = getHex url
      in if x2 = - 1 then (- 1, url, s, raiseException xs ''URL-ENCODING-ERROR'')
         else if x1 AND 0x20 \<noteq> 0 then
           let (x3, url) = getHex url
           in if x3 = - 1 then (- 1, url, s, raiseException xs ''URL-ENCODING-ERROR'')
              else if x1 AND 0x10 \<noteq> 0 then
                let (x4, url) = getHex url
                in if x4 = - 1 then (- 1, url, s, raiseException xs ''URL-ENCODING-ERROR'')
                   else if \<not> (x2 AND 0x80 \<noteq> 0 \<and> x3 AND 0x80 \<noteq> 0 \<and> x4 AND 0x80 \<noteq> 0)
                   then (- 1, url, s, raiseException xs ''URL-ENCODING-ERROR'')
                   else concat_utf8_or_unicode conv [word_of_int x1, word_of_int x2, word_of_int x3, word_of_int x4]
                          (push_bit 18 (word_of_int (x1 AND 0x07)) OR push_bit 12 (word_of_int (x2 AND 0x3f))
                           OR push_bit 6 (word_of_int (x3 AND 0x3f)) OR word_of_int (x4 AND 0x3f)) url s xs
              else if \<not> (x2 AND 0x80 \<noteq> 0 \<and> x3 AND 0x80 \<noteq> 0)
              then (- 1, url, s, raiseException xs ''URL-ENCODING-ERROR'')
              else concat_utf8_or_unicode conv [word_of_int x1, word_of_int x2, word_of_int x3]
                     (push_bit 12 (word_of_int (x1 AND 0x0f)) OR push_bit 6 (word_of_int (x2 AND 0x3f))
                      OR word_of_int (x3 AND 0x3f)) url s xs
         else if \<not> (x2 AND 0x80 \<noteq> 0) then (- 1, url, s, raiseException xs ''URL-ENCODING-ERROR'')
         else concat_utf8_or_unicode conv [word_of_int x1, word_of_int x2]
                (push_bit 6 (word_of_int (x1 AND 0x1f)) OR word_of_int (x2 AND 0x3f)) url s xs)"

lemma getHex_cases:
  obtains (none) "getHex p = (- 1, p)" | (some) x where "getHex p = (x, drop 3 p)" "p \<noteq> []"
proof (cases "peek p = asc CHR ''%'' \<and> isxdigit (peek_at 1 p) \<and> isxdigit (peek_at 2 p)")
  case True
  then have "p \<noteq> []" by (auto simp: asc_def)
  then show ?thesis using True by (intro some) (simp_all add: getHex_def)
next
  case False
  then show ?thesis using none unfolding getHex_def by meson
qed

lemma getHex_length: "length (snd (getHex p)) \<le> length p" "0 \<le> fst (getHex p) \<Longrightarrow> length (snd (getHex p)) < length p"
  by (cases p rule: getHex_cases; simp)+

lemma decode_multi_byte_length: "length (fst (snd (decode_multi_byte conv x1 url s xs))) \<le> length url"
proof -
  have i: "length (fst (snd (if b then r else r'))) \<le> length url"
    if "length (fst (snd r)) \<le> length url" "length (fst (snd r')) \<le> length url" for b and r r' :: "int \<times> bytes \<times> qore_string \<times> xsink"
    using that by simp
  have c: "fst (snd (concat_utf8_or_unicode conv bs cp url s xs)) = url" for bs cp url
    by (simp add: concat_utf8_or_unicode_def split_beta Let_def)
  note l = getHex_length(1) [of url] getHex_length(1) [of "snd (getHex url)"]
    getHex_length(1) [of "snd (getHex (snd (getHex url)))"]
  show ?thesis unfolding decode_multi_byte_def split_beta Let_def
    by (intro i) (use l in \<open>simp_all only: c fst_conv snd_conv\<close>)
qed

function decode_uri_loop ::
    "iconv \<Rightarrow> bool \<Rightarrow> bool \<Rightarrow> bytes \<Rightarrow> qore_string \<Rightarrow> xsink \<Rightarrow> int \<times> qore_string \<times> xsink" where
  "decode_uri_loop conv detect_query in_query url s xs =
     (if peek url = 0 then (0, s, xs)
      else
        let x1 = fst (getHex url); url1 = snd (getHex url)
        in if x1 \<ge> 0 then
             if x1 AND 0xc0 = 0xc0 then
               let r = decode_multi_byte conv x1 url1 s xs
               in if fst r \<noteq> 0 then (- 1, snd (snd r))
                  else decode_uri_loop conv detect_query in_query (fst (snd r)) (fst (snd (snd r))) (snd (snd (snd r)))
             else decode_uri_loop conv detect_query in_query url1 (concat_bytes [word_of_int x1] s) xs
           else if detect_query \<and> \<not> in_query
           then decode_uri_loop conv detect_query (peek url = asc CHR ''?'') (tl url) (concat_bytes [peek url] s) xs
           else if detect_query \<and> peek url = asc CHR ''+''
           then decode_uri_loop conv detect_query in_query (tl url) (concat_bytes [asc CHR '' ''] s) xs
           else decode_uri_loop conv detect_query (in_query \<and> \<not> (detect_query \<and> peek url = asc CHR ''#'')) (tl url)
                  (concat_bytes [peek url] s) xs)"
  by pat_completeness auto
termination
proof (relation "measure (\<lambda>(conv, d, q, url, s, xs). length url)", goal_cases)
  case (2 conv d q url s xs x1 url1 r)
  then show ?case using getHex_length(2) [of url] decode_multi_byte_length [of conv "fst (getHex url)" "snd (getHex url)" s xs]
    by (simp add: split_beta)
next
  case (3 conv d q url s xs x1 url1)
  then show ?case using getHex_length(2) [of url] by simp
next
  case (4 conv d q url s xs x1 url1)
  then show ?case by (cases url) simp_all
next
  case (5 conv d q url s xs x1 url1)
  then show ?case by (cases url) simp_all
next
  case (6 conv d q url s xs x1 url1)
  then show ?case by (cases url) simp_all
qed simp

declare decode_uri_loop.simps [simp del]

definition concatDecodeUriIntern :: "iconv \<Rightarrow> bytes \<Rightarrow> bool \<Rightarrow> qore_string \<Rightarrow> xsink \<Rightarrow> int \<times> qore_string \<times> xsink" where
  "concatDecodeUriIntern conv url detect_query s xs =
     (if \<not> isAsciiCompat (encoding s) then (- 1, s, raiseException xs ''UNSUPPORTED-ENCODING'')
      else decode_uri_loop conv detect_query False url s xs)"

definition concatDecodeUrl :: "iconv \<Rightarrow> qore_string \<Rightarrow> qore_string \<Rightarrow> xsink \<Rightarrow> int \<times> qore_string \<times> xsink" where
  "concatDecodeUrl conv url s xs =
     (let (str, xs) = TempEncodingHelper conv url (encoding s) xs
      in if xs \<noteq> [] then (- 1, s, xs) else concatDecodeUriIntern conv str False s xs)"

definition concatDecodeUriRequest :: "iconv \<Rightarrow> qore_string \<Rightarrow> qore_string \<Rightarrow> xsink \<Rightarrow> int \<times> qore_string \<times> xsink" where
  "concatDecodeUriRequest conv url s xs =
     (let (str, xs) = TempEncodingHelper conv url (encoding s) xs
      in if xs \<noteq> [] then (- 1, s, xs) else concatDecodeUriIntern conv str True s xs)"

text \<open>The deprecated decoder of C strings.\<close>

function concatDecodeUrl_cstr :: "bytes \<Rightarrow> qore_string \<Rightarrow> qore_string" where
  "concatDecodeUrl_cstr url s =
     (if peek url = 0 then s
      else if peek url = asc CHR ''%'' \<and> isxdigit (peek_at 1 url) \<and> isxdigit (peek_at 2 url)
      then concatDecodeUrl_cstr (drop 3 url) (concat_bytes [word_of_int (16 * xdigit (peek_at 1 url) + xdigit (peek_at 2 url))] s)
      else concatDecodeUrl_cstr (tl url) (concat_bytes [peek url] s))"
  by pat_completeness auto
termination
proof (relation "measure (\<lambda>(url, s). length url)", goal_cases)
  case (2 url s)
  then show ?case by (cases url) simp_all
next
  case (3 url s)
  then show ?case by (cases url) simp_all
qed simp

declare concatDecodeUrl_cstr.simps [simp del]

section \<open>Encoding\<close>

text \<open>
  The length of a UTF-8 character is stored in a \<open>size_t\<close>: a negative answer (a character cut off by the end of the
  string) becomes a huge one, and the loop over the bytes of the character leaves the buffer.  Then the answer is \<open>None\<close>.
\<close>

definition url_reserved :: "byte list" where
  "url_reserved = lit ''!*'' @ [39] @ lit ''();:@&=+$,/?#[]%'' @ [39]"

definition percent_char :: "bytes \<Rightarrow> nat \<Rightarrow> bytes" where
  "percent_char p len = concat (map percent_X (take len p))"

function encode_url_loop :: "bool \<Rightarrow> bytes \<Rightarrow> qore_string \<Rightarrow> xsink \<Rightarrow> (int \<times> qore_string \<times> xsink) option" where
  "encode_url_loop encode_all p s xs =
     (if peek p = 0 then Some (0, s, xs)
      else if peek p = asc CHR ''%'' then encode_url_loop encode_all (tl p) (concat_bytes (lit ''%25'') s) xs
      else if peek p = asc CHR '' '' then encode_url_loop encode_all (tl p) (concat_bytes (lit ''%20'') s) xs
      else if peek p > 127 then
        let len = q_UTF8_get_char_len p
        in if len = 0 then Some (- 1, s, raiseException xs ''INVALID-ENCODING'')
           else if len < 0 then None
           else encode_url_loop encode_all (drop (nat len) p) (concat_bytes (percent_char p (nat len)) s) xs
      else if encode_all \<and> peek p \<in> set url_reserved
      then encode_url_loop encode_all (tl p) (concat_bytes (percent_X (peek p)) s) xs
      else encode_url_loop encode_all (tl p) (concat_bytes [peek p] s) xs)"
  by pat_completeness auto
termination
proof (relation "measure (\<lambda>(a, p, s, xs). length p)", goal_cases)
  case (2 a p s xs)
  then show ?case by (cases p) simp_all
next
  case (3 a p s xs)
  then show ?case by (cases p) simp_all
next
  case (4 a p s xs len)
  then show ?case by (cases p) simp_all
next
  case (5 a p s xs)
  then show ?case by (cases p) simp_all
next
  case (6 a p s xs)
  then show ?case by (cases p) simp_all
qed simp

declare encode_url_loop.simps [simp del]

definition concatEncodeUrl :: "iconv \<Rightarrow> qore_string \<Rightarrow> bool \<Rightarrow> qore_string \<Rightarrow> xsink \<Rightarrow> (int \<times> qore_string \<times> xsink) option" where
  "concatEncodeUrl conv url encode_all s xs =
     (if buf url = [] then Some (0, s, xs)
      else if \<not> isAsciiCompat (encoding s) then Some (- 1, s, raiseException xs ''UNSUPPORTED-ENCODING'')
      else let (str, xs) = TempEncodingHelper conv url QCS_UTF8 xs
           in if xs \<noteq> [] then Some (- 1, s, xs) else encode_url_loop encode_all str s xs)"

datatype uri_state = QUS_PATH | QUS_QUERY | QUS_FRAGMENT

text \<open>The branch for the fragment asserts that the state is \<open>QUS_PATH\<close>, which it never is there: \<open>None\<close>.\<close>

definition uri_char :: "uri_state \<Rightarrow> byte \<Rightarrow> bytes \<times> uri_state" where
  "uri_char state c =
     (case state of
        QUS_PATH \<Rightarrow> (if c = asc CHR ''?'' then ([c], QUS_QUERY)
                     else if c = asc CHR ''#'' then ([c], QUS_FRAGMENT)
                     else if c = asc CHR '' '' then (lit ''%20'', state)
                     else ([c], state))
      | QUS_QUERY \<Rightarrow> (if c = asc CHR '' '' then ([asc CHR ''+''], state)
                      else if c = asc CHR ''+'' then (lit ''%2b'', state)
                      else ([c], state))
      | QUS_FRAGMENT \<Rightarrow> (if c = asc CHR '' '' then (lit ''%20'', state) else ([c], state)))"

function encode_uri_loop :: "uri_state \<Rightarrow> bytes \<Rightarrow> qore_string \<Rightarrow> xsink \<Rightarrow> (int \<times> qore_string \<times> xsink) option" where
  "encode_uri_loop state p s xs =
     (if peek p = 0 then Some (0, s, xs)
      else if peek p = asc CHR ''%'' then encode_uri_loop state (tl p) (concat_bytes (lit ''%25'') s) xs
      else if peek p > 127 then
        let len = q_UTF8_get_char_len p
        in if len = 0 then Some (- 1, s, raiseException xs ''INVALID-ENCODING'')
           else if len < 0 then None
           else encode_uri_loop state (drop (nat len) p) (concat_bytes (percent_char p (nat len)) s) xs
      else if state = QUS_FRAGMENT then None
      else encode_uri_loop (snd (uri_char state (peek p))) (tl p) (concat_bytes (fst (uri_char state (peek p))) s) xs)"
  by pat_completeness auto
termination
proof (relation "measure (\<lambda>(a, p, s, xs). length p)", goal_cases)
  case (2 a p s xs)
  then show ?case by (cases p) simp_all
next
  case (3 a p s xs len)
  then show ?case by (cases p) simp_all
next
  case (4 a p s xs)
  then show ?case by (cases p) simp_all
qed simp

declare encode_uri_loop.simps [simp del]

text \<open>The converted string is computed and then the unconverted one is encoded.\<close>

definition concatEncodeUriRequest :: "iconv \<Rightarrow> qore_string \<Rightarrow> qore_string \<Rightarrow> xsink \<Rightarrow> (int \<times> qore_string \<times> xsink) option" where
  "concatEncodeUriRequest conv url s xs =
     (if buf url = [] then Some (0, s, xs)
      else let (str, xs) = TempEncodingHelper conv url QCS_UTF8 xs
           in if xs \<noteq> [] then Some (- 1, s, xs)
              else if \<not> isAsciiCompat (encoding s) then Some (- 1, s, raiseException xs ''UNSUPPORTED-ENCODING'')
              else encode_uri_loop QUS_PATH (buf url) s xs)"

section \<open>Digits there and back\<close>

lemma hex_digit_upper_props:
  assumes "d < 16"
  shows "isxdigit (hex_digit_upper d)" "xdigit (hex_digit_upper d) = int d"
proof -
  have "d \<in> {0, 1, 2, 3, 4, 5, 6, 7, 8, 9, 10, 11, 12, 13, 14, 15}" using assms by simp presburger
  then show "isxdigit (hex_digit_upper d)" "xdigit (hex_digit_upper d) = int d"
    by (auto simp: hex_digit_upper_def isxdigit_def xdigit_def isdigit_def asc_def)
qed

lemma format_X_two:
  assumes "16 \<le> n" "n < 256"
  shows "format_X n = [hex_digit_upper (n div 16), hex_digit_upper (n mod 16)]"
proof -
  have "n div 16 < 16" using assms(2) by simp
  then show ?thesis using assms(1) by (simp add: format_X.simps)
qed

lemma getHex_percent:
  assumes "16 \<le> b"
  shows "getHex (percent_X b @ q) = (uint b, q)"
proof -
  have "unat b < 2 ^ LENGTH(8)" by (rule unsigned_less)
  then have u: "16 \<le> unat b" "unat b < 256" using assms by (simp_all add: word_le_nat_alt)
  have d: "unat b div 16 < 16" "unat b mod 16 < 16" using u(2) by simp_all
  have "16 * int (unat b div 16) + int (unat b mod 16) = uint b"
    by (metis mult_div_mod_eq of_nat_add of_nat_mult of_nat_numeral uint_nat)
  then show ?thesis using format_X_two [OF u] hex_digit_upper_props [OF d(1)] hex_digit_upper_props [OF d(2)]
    by (simp add: getHex_def percent_X_def peek_at_num)
qed

lemma getHex_plain: "c \<noteq> asc CHR ''%'' \<Longrightarrow> getHex (c # q) = (- 1, c # q)"
  by (simp add: getHex_def)

section \<open>Characters there and back\<close>

lemma uint_mask_eqs:
  fixes b :: byte
  shows "uint b AND 0xc0 = 0xc0 \<longleftrightarrow> b AND 0xc0 = 0xc0" "uint b AND 0x80 = 0 \<longleftrightarrow> b AND 0x80 = 0"
    "uint b AND 0x20 = 0 \<longleftrightarrow> b AND 0x20 = 0" "uint b AND 0x10 = 0 \<longleftrightarrow> b AND 0x10 = 0"
proof -
  have m: "uint (b AND 0xc0) = uint b AND 0xc0" "uint (b AND 0x80) = uint b AND 0x80"
    "uint (b AND 0x20) = uint b AND 0x20" "uint (b AND 0x10) = uint b AND 0x10" by (simp_all add: unsigned_and_eq)
  show "uint b AND 0xc0 = 0xc0 \<longleftrightarrow> b AND 0xc0 = 0xc0" "uint b AND 0x80 = 0 \<longleftrightarrow> b AND 0x80 = 0"
    "uint b AND 0x20 = 0 \<longleftrightarrow> b AND 0x20 = 0" "uint b AND 0x10 = 0 \<longleftrightarrow> b AND 0x10 = 0"
    by (simp_all only: word_uint_eq_iff m) simp_all
qed

lemma high_byte: "(a :: byte) AND 0x80 \<noteq> 0 \<Longrightarrow> 16 \<le> a" "(a :: byte) AND 0xc0 = 0xc0 \<Longrightarrow> a AND 0x80 \<noteq> 0"
  "(127 < a) = (a AND 0x80 \<noteq> 0)"
proof -
  have m: "bit a 7 \<longleftrightarrow> 128 \<le> unat a"
  proof -
    have "unat a < 2 ^ LENGTH(8)" by (rule unsigned_less)
    then have "unat a div 128 = (if 128 \<le> unat a then 1 else 0)" by (simp add: div_nat_eqI)
    then have "bit (unat a) 7 \<longleftrightarrow> 128 \<le> unat a" by (simp add: bit_iff_odd)
    then show ?thesis by (simp add: bit_unsigned_iff)
  qed
  then show g: "(127 < a) = (a AND 0x80 \<noteq> 0)" by (simp add: byte_eq_iff bit_simps word_less_nat_alt) auto
  show "a AND 0xc0 = 0xc0 \<Longrightarrow> a AND 0x80 \<noteq> 0" by (simp add: byte_eq_iff bit_simps)
  assume "a AND 0x80 \<noteq> 0"
  then show "16 \<le> a" using g by (simp add: word_le_nat_alt word_less_nat_alt)
qed

lemma percent_X_neq [simp]: "peek (percent_X a @ q) = asc CHR ''%''" "percent_X a \<noteq> []"
  by (simp_all add: percent_X_def)

lemma uint_neq [simp]: "uint (b :: byte) \<noteq> - 1"
  using uint_ge_0 [of b] by linarith

lemma asc_percent [simp]: "asc CHR ''%'' \<noteq> 0"
  by (simp add: asc_def)

lemma decode_percent_byte:
  assumes "16 \<le> a" "a AND 0xc0 \<noteq> 0xc0"
  shows "decode_uri_loop conv d iq (percent_X a @ q) s xs = decode_uri_loop conv d iq q (concat_bytes [a] s) xs"
  by (subst decode_uri_loop.simps) (simp add: getHex_percent [OF assms(1)] uint_mask_eqs assms(2) Let_def)

lemma decode_percent_char:
  assumes "utf8.is_char c" "127 < hd c" "encoding s = QCS_UTF8"
  shows "decode_uri_loop conv d iq (percent_char c (length c) @ q) s xs = decode_uri_loop conv d iq q (concat_bytes c s) xs"
  using assms(1)
proof (cases rule: utf8_char_cases)
  case (one a)
  then show ?thesis using decode_percent_byte [of a] assms(2) high_byte by (simp add: percent_char_def)
next
  case (two a b)
  note h = getHex_percent [OF high_byte(1) [OF high_byte(2) [OF two(2)]]] getHex_percent [OF high_byte(1) [OF two(4)]]
  show ?thesis using two assms(3)
    by (subst decode_uri_loop.simps)
      (simp add: percent_char_def h uint_mask_eqs decode_multi_byte_def concat_utf8_or_unicode_def Let_def)
next
  case (three a b e)
  note h = getHex_percent [OF high_byte(1) [OF high_byte(2) [OF three(2)]]] getHex_percent [OF high_byte(1) [OF three(5)]]
    getHex_percent [OF high_byte(1) [OF three(6)]]
  show ?thesis using three assms(3)
    by (subst decode_uri_loop.simps)
      (simp add: percent_char_def h uint_mask_eqs decode_multi_byte_def concat_utf8_or_unicode_def Let_def)
next
  case (four a b e f)
  note h = getHex_percent [OF high_byte(1) [OF high_byte(2) [OF four(2)]]] getHex_percent [OF high_byte(1) [OF four(5)]]
    getHex_percent [OF high_byte(1) [OF four(6)]] getHex_percent [OF high_byte(1) [OF four(7)]]
  show ?thesis using four assms(3)
    by (subst decode_uri_loop.simps)
      (simp add: percent_char_def h uint_mask_eqs decode_multi_byte_def concat_utf8_or_unicode_def Let_def)
qed

lemma low_char: "utf8.is_char c \<Longrightarrow> \<not> 127 < hd c \<Longrightarrow> c = [hd c]"
  by (erule utf8_char_cases) (simp_all add: high_byte)

text \<open>What the encoder writes for one character.\<close>

definition url_char :: "bool \<Rightarrow> bytes \<Rightarrow> bytes" where
  "url_char encode_all c =
     (if hd c = asc CHR ''%'' then lit ''%25'' else if hd c = asc CHR '' '' then lit ''%20''
      else if 127 < hd c then percent_char c (length c)
      else if encode_all \<and> hd c \<in> set url_reserved then percent_X (hd c) else c)"

lemma asc_low [simp]: "\<not> 127 < asc CHR ''%''" "\<not> 127 < asc CHR '' ''"
  by (simp_all add: asc_def)

lemma encode_url_loop_append:
  assumes "list_all utf8.is_char cs" "0 \<notin> set (concat cs)"
  shows "encode_url_loop a (concat cs @ t) s xs = encode_url_loop a t (concat_bytes (concat (map (url_char a) cs)) s) xs"
  using assms
proof (induction cs arbitrary: s)
  case (Cons c cs)
  then have c: "utf8.is_char c" "0 \<notin> set c" by simp_all
  then obtain b r where br: "c = b # r" "b \<noteq> 0" by (cases c) (auto simp: utf8.is_char_def)
  have l: "r = []" if "\<not> 127 < b" using low_char [OF c(1)] that br by simp
  have n: "q_UTF8_get_char_len (b # r @ concat cs @ t) = int (Suc (length r))"
    using utf8.is_char_append [OF c(1), of "concat cs @ t"] br by simp
  have i: "encode_url_loop a (concat cs @ t) s xs = encode_url_loop a t (concat_bytes (concat (map (url_char a) cs)) s) xs" for s
    using Cons by simp
  consider "b = asc CHR ''%''" | "b = asc CHR '' ''" "b \<noteq> asc CHR ''%''" | "127 < b" "b \<noteq> asc CHR '' ''" "b \<noteq> asc CHR ''%''"
    | "\<not> 127 < b" "b \<noteq> asc CHR '' ''" "b \<noteq> asc CHR ''%''" by blast
  then show ?case
  proof cases
    case 1
    then show ?thesis using l br by (subst encode_url_loop.simps) (simp add: url_char_def i)
  next
    case 2
    then show ?thesis using l br by (subst encode_url_loop.simps) (simp add: url_char_def i)
  next
    case 3
    then show ?thesis using br n by (subst encode_url_loop.simps) (simp add: url_char_def i percent_char_def nat_add_distrib Let_def)
  next
    case 4
    then show ?thesis using l br i by (subst encode_url_loop.simps) (cases a; simp add: url_char_def)
  qed
qed simp

lemma encode_url_loop_chars:
  assumes "list_all utf8.is_char cs" "0 \<notin> set (concat cs)"
  shows "encode_url_loop a (concat cs) s xs = Some (0, concat_bytes (concat (map (url_char a) cs)) s, xs)"
  using encode_url_loop_append [OF assms, of a "[]"] by (simp add: encode_url_loop.simps)

lemma reserved_props: "b \<in> set url_reserved \<Longrightarrow> 16 \<le> b \<and> b AND 0xc0 \<noteq> 0xc0"
  by (auto simp: url_reserved_def asc_def)

lemma percent_lits: "lit ''%25'' = percent_X (asc CHR ''%'')" "lit ''%20'' = percent_X (asc CHR '' '')"
  by (simp_all add: percent_X_def asc_def format_X_two hex_digit_upper_def)

lemma decode_url_char:
  assumes "utf8.is_char c" "encoding s = QCS_UTF8" "peek c \<noteq> 0"
  shows "decode_uri_loop conv False iq (url_char a c @ q) s xs = decode_uri_loop conv False iq q (concat_bytes c s) xs"
proof -
  obtain b r where br: "c = b # r" using assms(1) by (cases c) (auto simp: utf8.is_char_def)
  have l: "r = []" if "\<not> 127 < b" using low_char [OF assms(1)] that br by simp
  consider "b = asc CHR ''%'' \<or> b = asc CHR '' ''" | "127 < b" "b \<noteq> asc CHR '' ''" "b \<noteq> asc CHR ''%''"
    | "\<not> 127 < b" "b \<noteq> asc CHR '' ''" "b \<noteq> asc CHR ''%''" "a" "b \<in> set url_reserved"
    | "\<not> 127 < b" "b \<noteq> asc CHR '' ''" "b \<noteq> asc CHR ''%''" "\<not> (a \<and> b \<in> set url_reserved)" by blast
  then show ?thesis
  proof cases
    case 1
    then have "16 \<le> b" "b AND 0xc0 \<noteq> 0xc0" "c = [b]" using l br by (auto simp: asc_def)
    moreover have "url_char a c = percent_X b" using 1 br by (auto simp: url_char_def percent_lits simp del: lit_simps)
    ultimately show ?thesis using decode_percent_byte by simp
  next
    case 2
    then show ?thesis using br decode_percent_char [OF assms(1) _ assms(2)] by (simp add: url_char_def)
  next
    case 3
    then show ?thesis using br l decode_percent_byte reserved_props by (simp add: url_char_def)
  next
    case 4
    then have "url_char a c = [b]" "c = [b]" using br l by (auto simp: url_char_def)
    then show ?thesis using assms(3) getHex_plain [OF 4(3)] by (subst decode_uri_loop.simps) (simp add: Let_def)
  qed
qed

lemma decode_url_chars:
  assumes "list_all utf8.is_char cs" "0 \<notin> set (concat cs)" "encoding s = QCS_UTF8"
  shows "decode_uri_loop conv False iq (concat (map (url_char a) cs)) s xs = (0, concat_bytes (concat cs) s, xs)"
  using assms
proof (induction cs arbitrary: s)
  case Nil
  then show ?case by (simp add: decode_uri_loop.simps)
next
  case (Cons c cs)
  then have "utf8.is_char c" "peek c \<noteq> 0" by (cases c; auto simp: utf8.is_char_def)+
  then show ?case using Cons decode_url_char [of c s conv iq a "concat (map (url_char a) cs)" xs] by simp
qed

abbreviation "empty_utf8 \<equiv> \<lparr>buf = [], encoding = QCS_UTF8\<rparr>"

lemma utf8_buffer_chars:
  assumes "snd (getLength QCS_UTF8 p []) = []"
  obtains cs where "list_all utf8.is_char cs" "p = concat cs"
proof -
  have "\<not> snd (UTF8_getLength p)" using assms by (auto simp: enc_result_def split: if_splits)
  then show ?thesis using utf8.valid_split that by (auto simp: UTF8_getLength_def)
qed

text \<open>
  C19: A UTF-8 string with no null byte and no invalid character is encoded by \<open>concatEncodeUrl\<close> without an error,
  with and without the reserved characters, and \<open>concatDecodeUrl\<close> gives the string back.
\<close>

theorem url_round_trip:
  assumes "encoding url = QCS_UTF8" "snd (getLength QCS_UTF8 (buf url) []) = []" "0 \<notin> set (buf url)"
  shows "\<exists>e. concatEncodeUrl conv url encode_all empty_utf8 [] = Some (0, e, []) \<and> concatDecodeUrl conv e empty_utf8 [] = (0, url, [])"
proof -
  obtain cs where cs: "list_all utf8.is_char cs" "buf url = concat cs" using assms(2) by (rule utf8_buffer_chars)
  let ?e = "concat_bytes (concat (map (url_char encode_all) cs)) empty_utf8"
  have "concatEncodeUrl conv url encode_all empty_utf8 [] = Some (0, ?e, [])"
  proof (cases "buf url = []")
    case True
    then have "cs = []" using cs by (cases cs) (auto simp: utf8.is_char_def)
    then show ?thesis using True by (simp add: concatEncodeUrl_def)
  next
    case False
    then show ?thesis using encode_url_loop_chars [OF cs(1)] cs(2) assms(1,3)
      by (auto simp: concatEncodeUrl_def TempEncodingHelper_def)
  qed
  moreover have "concat_bytes (concat cs) empty_utf8 = url" using cs(2) assms(1) by (simp add: concat_bytes_def)
  then have "concatDecodeUrl conv ?e empty_utf8 [] = (0, url, [])" using decode_url_chars [OF cs(1)] cs(2) assms(3)
    by (simp add: concatDecodeUrl_def TempEncodingHelper_def concatDecodeUriIntern_def)
  ultimately show ?thesis by blast
qed

theorem url_round_trip_witness:
  "\<exists>e. concatEncodeUrl (\<lambda>_ _ _. None) \<lparr>buf = [0x61, 0x20, 0xc3, 0xa9], encoding = QCS_UTF8\<rparr> True empty_utf8 [] = Some (0, e, [])
     \<and> concatDecodeUrl (\<lambda>_ _ _. None) e empty_utf8 [] = (0, \<lparr>buf = [0x61, 0x20, 0xc3, 0xa9], encoding = QCS_UTF8\<rparr>, [])"
  using url_round_trip [of "\<lparr>buf = [0x61, 0x20, 0xc3, 0xa9], encoding = QCS_UTF8\<rparr>" "\<lambda>_ _ _. None" True]
  by (simp add: UTF8_getLength_def length_loop.simps q_UTF8_get_char_len_def enc_result_def)

section \<open>URI requests\<close>

definition uri_enc :: "uri_state \<Rightarrow> bytes \<Rightarrow> bytes" where
  "uri_enc state c =
     (if hd c = asc CHR ''%'' then lit ''%25'' else if 127 < hd c then percent_char c (length c) else fst (uri_char state (hd c)))"

definition uri_next :: "uri_state \<Rightarrow> bytes \<Rightarrow> uri_state" where
  "uri_next state c = (if hd c = asc CHR ''%'' \<or> 127 < hd c then state else snd (uri_char state (hd c)))"

fun uri_enc_all :: "uri_state \<Rightarrow> bytes list \<Rightarrow> bytes" where
  "uri_enc_all state [] = []"
| "uri_enc_all state (c # cs) = uri_enc state c @ uri_enc_all (uri_next state c) cs"

text \<open>No character is met in the state of the fragment.\<close>

fun no_fragment :: "uri_state \<Rightarrow> bytes list \<Rightarrow> bool" where
  "no_fragment state [] \<longleftrightarrow> True"
| "no_fragment state (c # cs) \<longleftrightarrow> state \<noteq> QUS_FRAGMENT \<and> no_fragment (uri_next state c) cs"

lemma no_fragment_char:
  "asc CHR ''#'' \<notin> set (concat cs) \<Longrightarrow> list_all utf8.is_char cs \<Longrightarrow> state \<noteq> QUS_FRAGMENT \<Longrightarrow> no_fragment state cs"
proof (induction cs arbitrary: state)
  case (Cons c cs)
  then have "hd c \<noteq> asc CHR ''#''" by (cases c) (auto simp: utf8.is_char_def)
  then have "uri_next state c \<noteq> QUS_FRAGMENT" using Cons.prems(3) by (cases state) (auto simp: uri_next_def uri_char_def)
  then show ?case using Cons by simp
qed simp

lemma encode_uri_loop_chars:
  assumes "list_all utf8.is_char cs" "0 \<notin> set (concat cs)" "no_fragment st cs"
  shows "encode_uri_loop st (concat cs) s xs = Some (0, concat_bytes (uri_enc_all st cs) s, xs)"
  using assms
proof (induction cs arbitrary: s st)
  case (Cons c cs)
  then have c: "utf8.is_char c" "0 \<notin> set c" by simp_all
  then obtain b r where br: "c = b # r" "b \<noteq> 0" by (cases c) (auto simp: utf8.is_char_def)
  have l: "r = []" if "\<not> 127 < b" using low_char [OF c(1)] that br by simp
  have n: "q_UTF8_get_char_len (b # r @ concat cs) = int (Suc (length r))" using utf8.is_char_append [OF c(1), of "concat cs"] br by simp
  have i: "encode_uri_loop (uri_next st c) (concat cs) s xs = Some (0, concat_bytes (uri_enc_all (uri_next st c) cs) s, xs)" for s
    using Cons by simp
  have f: "st \<noteq> QUS_FRAGMENT" using Cons.prems(3) by simp
  consider "b = asc CHR ''%''" | "127 < b" "b \<noteq> asc CHR ''%''" | "\<not> 127 < b" "b \<noteq> asc CHR ''%''" by blast
  then show ?case
  proof cases
    case 1
    then show ?thesis using l br i by (subst encode_uri_loop.simps) (simp add: uri_enc_def uri_next_def)
  next
    case 2
    then show ?thesis using br n i
      by (subst encode_uri_loop.simps) (simp add: uri_enc_def uri_next_def percent_char_def nat_add_distrib Let_def)
  next
    case 3
    then show ?thesis using l br i f by (subst encode_uri_loop.simps) (simp add: uri_enc_def uri_next_def)
  qed
qed (simp add: encode_uri_loop.simps)

lemma asc_neqs:
  "asc CHR '' '' \<noteq> asc CHR ''%''" "asc CHR ''+'' \<noteq> asc CHR ''%''" "asc CHR ''?'' \<noteq> asc CHR ''%''" "asc CHR '' '' \<noteq> asc CHR ''?''"
  "asc CHR '' '' \<noteq> asc CHR ''+''" "asc CHR ''+'' \<noteq> 0" "asc CHR ''+'' \<noteq> asc CHR ''#''" "asc CHR ''+'' \<noteq> asc CHR ''?''"
  by (simp_all add: asc_def)

lemma getHex_2b: "getHex (asc CHR ''%'' # asc CHR ''2'' # asc CHR ''b'' # q) = (43, q)"
  by (simp add: getHex_def peek_at_num isxdigit_def isdigit_def xdigit_def asc_def)

text \<open>Outside a fragment the query flag of the decoder follows the state of the encoder.\<close>

lemma decode_uri_char:
  assumes "utf8.is_char c" "encoding s = QCS_UTF8" "peek c \<noteq> 0" "hd c \<noteq> asc CHR ''#''" "st = (if iq then QUS_QUERY else QUS_PATH)"
  shows "decode_uri_loop conv True iq (uri_enc st c @ q) s xs
    = decode_uri_loop conv True (uri_next st c = QUS_QUERY) q (concat_bytes c s) xs"
proof -
  obtain b r where br: "c = b # r" using assms(1) by (cases c) (auto simp: utf8.is_char_def)
  have l: "r = []" if "\<not> 127 < b" using low_char [OF assms(1)] that br by simp
  consider "b = asc CHR ''%''" | "127 < b" "b \<noteq> asc CHR ''%''" | "\<not> 127 < b" "b \<noteq> asc CHR ''%''" by blast
  then show ?thesis
  proof cases
    case 1
    then have "16 \<le> b" "b AND 0xc0 \<noteq> 0xc0" "c = [b]" using l br by (auto simp: asc_def)
    moreover have "uri_enc st c = percent_X b" "uri_next st c = st" using 1 br
      by (auto simp: uri_enc_def uri_next_def percent_lits simp del: lit_simps)
    ultimately show ?thesis using decode_percent_byte assms(5) by simp
  next
    case 2
    then show ?thesis using br assms(5) decode_percent_char [OF assms(1) _ assms(2)] by (simp add: uri_enc_def uri_next_def)
  next
    case 3
    have c: "c = [b]" "b \<noteq> 0" "b \<noteq> asc CHR ''#''" using br l [OF 3(1)] assms(3,4) by simp_all
    have sp: "decode_uri_loop conv True iq (lit ''%20'' @ q) s xs = decode_uri_loop conv True iq q (concat_bytes [asc CHR '' ''] s) xs"
      unfolding percent_lits by (rule decode_percent_byte) (simp_all add: asc_def)
    have pl: "decode_uri_loop conv True iq (lit ''%2b'' @ q) s xs = decode_uri_loop conv True iq q (concat_bytes [asc CHR ''+''] s) xs"
      by (subst decode_uri_loop.simps) (simp add: getHex_2b Let_def, simp add: asc_def)
    have st: "decode_uri_loop conv True iq (d # q) s xs =
        (if iq \<and> d = asc CHR ''+'' then decode_uri_loop conv True iq q (concat_bytes [asc CHR '' ''] s) xs
         else decode_uri_loop conv True (if iq then d \<noteq> asc CHR ''#'' else d = asc CHR ''?'') q (concat_bytes [d] s) xs)"
      if "d \<noteq> asc CHR ''%''" "d \<noteq> 0" for d
      by (subst decode_uri_loop.simps) (cases iq; simp add: that getHex_plain [OF that(1)] Let_def)
    show ?thesis using 3 c sp pl st asc_neqs assms(5) by (cases iq) (auto simp: uri_enc_def uri_next_def uri_char_def simp del: lit_simps)
  qed
qed

lemma decode_uri_chars:
  assumes "list_all utf8.is_char cs" "0 \<notin> set (concat cs)" "encoding s = QCS_UTF8" "asc CHR ''#'' \<notin> set (concat cs)"
  shows "decode_uri_loop conv True iq (uri_enc_all (if iq then QUS_QUERY else QUS_PATH) cs) s xs = (0, concat_bytes (concat cs) s, xs)"
  using assms
proof (induction cs arbitrary: s iq)
  case Nil
  then show ?case by (simp add: decode_uri_loop.simps)
next
  case (Cons c cs)
  then have c: "utf8.is_char c" "peek c \<noteq> 0" "hd c \<noteq> asc CHR ''#''" by (cases c; auto simp: utf8.is_char_def)+
  let ?st = "if iq then QUS_QUERY else QUS_PATH"
  have "uri_next ?st c = (if uri_next ?st c = QUS_QUERY then QUS_QUERY else QUS_PATH)"
    using c(3) by (simp add: uri_next_def uri_char_def)
  then show ?case using Cons.IH [of "concat_bytes c s" "uri_next ?st c = QUS_QUERY"] Cons.prems
    decode_uri_char [OF c(1) Cons.prems(3) c(2,3) refl, of conv iq "uri_enc_all (uri_next ?st c) cs" xs] by simp
qed

text \<open>
  A URI request with no null byte, no invalid character and no fragment is encoded by \<open>concatEncodeUriRequest\<close>
  without an error, spaces of the query as plus signs, and \<open>concatDecodeUriRequest\<close> gives it back.
\<close>

theorem uri_request_round_trip:
  assumes "encoding url = QCS_UTF8" "snd (getLength QCS_UTF8 (buf url) []) = []" "0 \<notin> set (buf url)" "asc CHR ''#'' \<notin> set (buf url)"
  shows "\<exists>e. concatEncodeUriRequest conv url empty_utf8 [] = Some (0, e, []) \<and> concatDecodeUriRequest conv e empty_utf8 [] = (0, url, [])"
proof -
  obtain cs where cs: "list_all utf8.is_char cs" "buf url = concat cs" using assms(2) by (rule utf8_buffer_chars)
  let ?e = "concat_bytes (uri_enc_all QUS_PATH cs) empty_utf8"
  have "concatEncodeUriRequest conv url empty_utf8 [] = Some (0, ?e, [])"
  proof (cases "buf url = []")
    case True
    then have "cs = []" using cs by (cases cs) (auto simp: utf8.is_char_def)
    then show ?thesis using True by (simp add: concatEncodeUriRequest_def)
  next
    case False
    then show ?thesis using encode_uri_loop_chars [OF cs(1), of QUS_PATH] no_fragment_char [of cs QUS_PATH] cs assms(1,3,4)
      by (auto simp: concatEncodeUriRequest_def TempEncodingHelper_def)
  qed
  moreover have "concat_bytes (concat cs) empty_utf8 = url" using cs(2) assms(1) by (simp add: concat_bytes_def)
  then have "concatDecodeUriRequest conv ?e empty_utf8 [] = (0, url, [])"
    using decode_uri_chars [OF cs(1), of empty_utf8 conv False "[]"] cs(2) assms(3,4)
    by (simp add: concatDecodeUriRequest_def TempEncodingHelper_def concatDecodeUriIntern_def)
  ultimately show ?thesis by blast
qed

theorem uri_request_round_trip_witness:
  "\<exists>e. concatEncodeUriRequest (\<lambda>_ _ _. None) \<lparr>buf = lit ''a b?c d'', encoding = QCS_UTF8\<rparr> empty_utf8 [] = Some (0, e, [])
     \<and> concatDecodeUriRequest (\<lambda>_ _ _. None) e empty_utf8 [] = (0, \<lparr>buf = lit ''a b?c d'', encoding = QCS_UTF8\<rparr>, [])"
  using uri_request_round_trip [of "\<lparr>buf = lit ''a b?c d'', encoding = QCS_UTF8\<rparr>" "\<lambda>_ _ _. None"]
  by (simp add: UTF8_getLength_def length_loop.simps q_UTF8_get_char_len_def enc_result_def asc_def)

lemma utf8_ascii_char: "b AND 0xc0 \<noteq> 0xc0 \<Longrightarrow> utf8.is_char [b]"
  by (simp add: utf8.is_char_def q_UTF8_get_char_len_def)

text \<open>
  With a fragment behind a query it does not: the encoder stays in its query state at the number sign, the
  decoder leaves it, so that the plus sign written for a space of the fragment is read as a plus sign.
\<close>

theorem uri_request_fragment:
  "concatEncodeUriRequest conv \<lparr>buf = lit ''?a#b c'', encoding = QCS_UTF8\<rparr> empty_utf8 []
     = Some (0, \<lparr>buf = lit ''?a#b+c'', encoding = QCS_UTF8\<rparr>, [])
   \<and> concatDecodeUriRequest conv \<lparr>buf = lit ''?a#b+c'', encoding = QCS_UTF8\<rparr> empty_utf8 []
     = (0, \<lparr>buf = lit ''?a#b+c'', encoding = QCS_UTF8\<rparr>, [])"
proof
  show "concatEncodeUriRequest conv \<lparr>buf = lit ''?a#b c'', encoding = QCS_UTF8\<rparr> empty_utf8 []
     = Some (0, \<lparr>buf = lit ''?a#b+c'', encoding = QCS_UTF8\<rparr>, [])"
    using encode_uri_loop_chars [of "map (\<lambda>b. [b]) (lit ''?a#b c'')" QUS_PATH empty_utf8 "[]"]
    by (simp add: concatEncodeUriRequest_def TempEncodingHelper_def utf8_ascii_char uri_enc_def uri_next_def uri_char_def
        concat_bytes_def asc_def)
  show "concatDecodeUriRequest conv \<lparr>buf = lit ''?a#b+c'', encoding = QCS_UTF8\<rparr> empty_utf8 []
     = (0, \<lparr>buf = lit ''?a#b+c'', encoding = QCS_UTF8\<rparr>, [])"
    by (simp add: concatDecodeUriRequest_def TempEncodingHelper_def concatDecodeUriIntern_def decode_uri_loop.simps getHex_def
        concat_bytes_def asc_def Let_def)
qed

text \<open>A fragment behind a path fails the assertion with its first character.\<close>

lemma uri_request_path_fragment: "concatEncodeUriRequest conv \<lparr>buf = lit ''#a'', encoding = QCS_UTF8\<rparr> empty_utf8 [] = None"
  by (simp add: concatEncodeUriRequest_def TempEncodingHelper_def encode_uri_loop.simps uri_char_def asc_def)

text \<open>
  A character that the end of the string cuts off makes the encoder read past the buffer instead of raising
  \<open>INVALID-ENCODING\<close>: the model's \<open>None\<close>.
\<close>

theorem url_truncated_character:
  assumes "list_all utf8.is_char cs" "0 \<notin> set (concat cs)" "127 < peek t" "q_UTF8_get_char_len t < 0" "encoding url = QCS_UTF8"
    "buf url = concat cs @ t" "isAsciiCompat (encoding s)"
  shows "concatEncodeUrl conv url encode_all s [] = None"
proof -
  have t: "encode_url_loop encode_all t s [] = None" for s
  proof -
    have "peek t \<noteq> 0" "peek t \<noteq> asc CHR ''%''" "peek t \<noteq> asc CHR '' ''" using assms(3) asc_low by (metis word_not_simps(1))+
    then show ?thesis using assms(3,4) by (subst encode_url_loop.simps) (simp add: Let_def)
  qed
  have "encode_url_loop encode_all (concat cs @ t) s [] = None" using encode_url_loop_append [OF assms(1,2)] t by simp
  moreover have "concat cs @ t \<noteq> []" using assms(3) by auto
  ultimately show ?thesis using assms(5,6,7) by (simp add: concatEncodeUrl_def TempEncodingHelper_def)
qed

theorem url_truncated_character_witness:
  "concatEncodeUrl (\<lambda>_ _ _. None) \<lparr>buf = [0x61, 0xe2, 0x82], encoding = QCS_UTF8\<rparr> False empty_utf8 [] = None"
  using url_truncated_character [of "[[0x61]]" "[0xe2, 0x82]" "\<lparr>buf = [0x61, 0xe2, 0x82], encoding = QCS_UTF8\<rparr>" empty_utf8 "\<lambda>_ _ _. None" False]
  by (simp add: utf8_ascii_char q_UTF8_get_char_len_def)

end
