(* ===== verification/Hash_Members.thy ===== *)
theory Hash_Members
  imports Queue_Links "HOL-Library.AList"
begin

text \<open>
  Hashes (\<open>qore_hash_private\<close>, \<open>src/include/qore/intern/QoreHashNodeIntern.h\<close> and \<open>src/lib/QoreHashNode.cpp\<close>): a list of
  pointers to \<open>HashMember\<close> objects in the order of insertion, and a map from keys to iterators into that list.  Members live
  in an explicit heap; an iterator of \<open>std::list\<close> is the address of the member it stands at.  \<open>None\<close> is a failed assertion
  or the use of a freed member.  The value NOTHING is \<open>None :: qvalue option\<close>.  The type check of a value and
  the removal of type information are parameters.  The hash is not the member hash of an object.
\<close>

section \<open>State\<close>

type_synonym hvalue = "qvalue option"

record HashMember =
  m_key :: string
  m_val :: hvalue

text \<open>A plain hash, one with a \<open>hashdecl\<close> (its members), or one with a complex type.\<close>

datatype hash_type = PlainHash | HashDecl "string list" | ComplexHash

record qhash =
  cells :: "nat \<Rightarrow> HashMember option"
  next_cell :: nat
  member_list :: "nat list"
  hm :: "string \<Rightarrow> nat option"
  obj_count :: int
  h_type :: hash_type
  h_valid :: bool

definition hash_new :: "hash_type \<Rightarrow> qhash" where
  "hash_new ty = \<lparr>cells = (\<lambda>_. None), next_cell = 0, member_list = [], hm = (\<lambda>_. None), obj_count = 0, h_type = ty, h_valid = True\<rparr>"

definition hneeds_scan :: "hvalue \<Rightarrow> bool" where
  "hneeds_scan v = (case v of None \<Rightarrow> False | Some q \<Rightarrow> needs_scan q)"

text \<open>\<open>assert(obj_count || dt > 0)\<close>.\<close>

definition incScanCount :: "int \<Rightarrow> qhash \<Rightarrow> qhash option" where
  "incScanCount dt h = (if dt = 0 \<or> \<not> (obj_count h \<noteq> 0 \<or> dt > 0) then None else Some (h\<lparr>obj_count := obj_count h + dt\<rparr>))"

definition checkValid :: "qhash \<Rightarrow> xsink \<Rightarrow> int \<times> xsink" where
  "checkValid h xs = (if \<not> h_valid h then (- 1, raiseException xs ''HASH-ERROR'') else (0, xs))"

section \<open>Lookup\<close>

definition getKeyValueExistenceIntern :: "string \<Rightarrow> qhash \<Rightarrow> (hvalue \<times> bool) option" where
  "getKeyValueExistenceIntern key h =
     (case hm h key of None \<Rightarrow> Some (None, False) | Some i \<Rightarrow> do { m \<leftarrow> cells h i; Some (m_val m, True) })"

definition getKeyValueIntern :: "string \<Rightarrow> qhash \<Rightarrow> hvalue option" where
  "getKeyValueIntern key h = (case hm h key of None \<Rightarrow> Some None | Some i \<Rightarrow> do { m \<leftarrow> cells h i; Some (m_val m) })"

definition checkKey :: "string \<Rightarrow> qhash \<Rightarrow> xsink \<Rightarrow> int \<times> xsink" where
  "checkKey key h xs =
     (case h_type h of HashDecl ms \<Rightarrow> (if key \<notin> set ms then (- 1, raiseException xs ''INVALID-MEMBER'') else (0, xs)) | _ \<Rightarrow> (0, xs))"

text \<open>\<open>exists\<close> is the variable of the caller, which keeps its value when the key is refused.\<close>

definition getKeyValueExistence :: "string \<Rightarrow> bool \<Rightarrow> qhash \<Rightarrow> xsink \<Rightarrow> ((hvalue \<times> bool) \<times> xsink) option" where
  "getKeyValueExistence key exists h xs =
     (let (rc, xs) = checkKey key h xs
      in if rc \<noteq> 0 then Some ((None, exists), xs) else do { r \<leftarrow> getKeyValueExistenceIntern key h; Some (r, xs) })"

definition existsKey :: "string \<Rightarrow> qhash \<Rightarrow> bool" where
  "existsKey key h = (hm h key \<noteq> None)"

definition existsKeyValue :: "string \<Rightarrow> qhash \<Rightarrow> bool option" where
  "existsKeyValue key h = (case hm h key of None \<Rightarrow> Some False | Some i \<Rightarrow> do { m \<leftarrow> cells h i; Some (m_val m \<noteq> None) })"

definition findMember :: "string \<Rightarrow> qhash \<Rightarrow> nat option" where
  "findMember key h = hm h key"

definition member_keys :: "qhash \<Rightarrow> string list" where
  "member_keys h = map (\<lambda>a. case cells h a of Some m \<Rightarrow> m_key m | None \<Rightarrow> []) (member_list h)"

definition member_values :: "qhash \<Rightarrow> hvalue list" where
  "member_values h = map (\<lambda>a. case cells h a of Some m \<Rightarrow> m_val m | None \<Rightarrow> None) (member_list h)"

definition getKeys :: "qhash \<Rightarrow> string list" where
  "getKeys h = member_keys h"

definition getValues :: "qhash \<Rightarrow> hvalue list" where
  "getValues h = member_values h"

definition getFirstKey :: "qhash \<Rightarrow> string option" where
  "getFirstKey h = (if member_list h = [] then None else do { m \<leftarrow> cells h (List.hd (member_list h)); Some (m_key m) })"

definition getLastKey :: "qhash \<Rightarrow> string option" where
  "getLastKey h = (if member_list h = [] then None else do { m \<leftarrow> cells h (last (member_list h)); Some (m_key m) })"

definition hash_size :: "qhash \<Rightarrow> nat" where
  "hash_size h = length (member_list h)"

section \<open>Assignment\<close>

definition findCreateMember :: "string \<Rightarrow> qhash \<Rightarrow> nat \<times> qhash" where
  "findCreateMember key h =
     (case findMember key h of
        Some om \<Rightarrow> (om, h)
      | None \<Rightarrow> let om = next_cell h
                in (om, h\<lparr>cells := (cells h)(om := Some \<lparr>m_key = key, m_val = None\<rparr>), next_cell := Suc om,
                          member_list := member_list h @ [om], hm := (hm h)(key := Some om)\<rparr>))"

text \<open>\<open>swapImpl\<close>: the answer is the old value.\<close>

definition swapImpl :: "nat \<Rightarrow> hvalue \<Rightarrow> qhash \<Rightarrow> (hvalue \<times> qhash) option" where
  "swapImpl om v h = do {
     m \<leftarrow> cells h om;
     let h' = h\<lparr>cells := (cells h)(om := Some (m\<lparr>m_val := v\<rparr>))\<rparr>;
     h'' \<leftarrow> (if hneeds_scan (m_val m) then (if \<not> hneeds_scan v then incScanCount (- 1) h' else Some h')
            else if hneeds_scan v then incScanCount 1 h' else Some h');
     Some (m_val m, h'') }"

text \<open>
  \<open>accept key v\<close> is the type check of the value for the key (\<open>acceptInputKey\<close>): the value to store or the exception that is
  raised; \<open>strip v\<close> is the value without complex type information (\<open>copy_strip_complex_types\<close>).  After the check of a typed
  hash, any exception that is active gives up the assignment, also one raised before.
\<close>

type_synonym acceptor = "string \<Rightarrow> hvalue \<Rightarrow> hvalue + string"

definition acceptInputKey :: "acceptor \<Rightarrow> string \<Rightarrow> hvalue \<Rightarrow> xsink \<Rightarrow> hvalue option \<times> xsink" where
  "acceptInputKey accept key v xs =
     (case accept key v of Inr e \<Rightarrow> (None, raiseException xs e) | Inl w \<Rightarrow> if xs \<noteq> [] then (None, xs) else (Some w, xs))"

definition type_check :: "acceptor \<Rightarrow> (hvalue \<Rightarrow> hvalue) \<Rightarrow> hash_type \<Rightarrow> string \<Rightarrow> hvalue \<Rightarrow> xsink \<Rightarrow> hvalue option \<times> xsink" where
  "type_check accept strip ty key v xs =
     (case ty of
        HashDecl ms \<Rightarrow> (if key \<notin> set ms then (None, raiseException xs ''HASHDECL-KEY-ERROR'') else acceptInputKey accept key v xs)
      | ComplexHash \<Rightarrow> acceptInputKey accept key v xs
      | PlainHash \<Rightarrow> (Some (strip v), xs))"

definition hash_assign :: "acceptor \<Rightarrow> (hvalue \<Rightarrow> hvalue) \<Rightarrow> nat \<Rightarrow> hvalue \<Rightarrow> qhash \<Rightarrow> xsink \<Rightarrow> (qhash \<times> xsink) option" where
  "hash_assign accept strip om v h xs = do {
     m \<leftarrow> cells h om;
     (case type_check accept strip (h_type h) (m_key m) v xs of
        (None, xs) \<Rightarrow> Some (h, xs)
      | (Some w, xs) \<Rightarrow> do { (old, h) \<leftarrow> swapImpl om w h; Some (h, xs) }) }"

definition setKeyValue :: "acceptor \<Rightarrow> (hvalue \<Rightarrow> hvalue) \<Rightarrow> string \<Rightarrow> hvalue \<Rightarrow> qhash \<Rightarrow> xsink \<Rightarrow> (qhash \<times> xsink) option" where
  "setKeyValue accept strip key v h xs = (let (om, h) = findCreateMember key h in hash_assign accept strip om v h xs)"

definition setKeyValueIntern :: "string \<Rightarrow> hvalue \<Rightarrow> qhash \<Rightarrow> qhash option" where
  "setKeyValueIntern key v h = (let (om, h) = findCreateMember key h in do { (old, h) \<leftarrow> swapImpl om v h; Some h })"

definition swapKeyValue :: "string \<Rightarrow> hvalue \<Rightarrow> qhash \<Rightarrow> (hvalue \<times> qhash) option" where
  "swapKeyValue key v h = (let (om, h) = findCreateMember key h in swapImpl om v h)"

definition swapKeyValueIfExists :: "string \<Rightarrow> hvalue \<Rightarrow> qhash \<Rightarrow> ((hvalue \<times> bool) \<times> qhash) option" where
  "swapKeyValueIfExists key v h =
     (case findMember key h of
        None \<Rightarrow> Some ((None, False), h)
      | Some om \<Rightarrow> do { (old, h) \<leftarrow> swapImpl om v h; Some ((old, True), h) })"

section \<open>Removal\<close>

definition internDeleteKey :: "nat \<Rightarrow> qhash \<Rightarrow> qhash option" where
  "internDeleteKey i h = do {
     om \<leftarrow> cells h i;
     Some (h\<lparr>member_list := remove1 i (member_list h), cells := (cells h)(i := None)\<rparr>) }"

text \<open>The answer of \<open>deleteKey\<close> is the value that is dereferenced, \<open>None\<close> when there is none.\<close>

definition deleteKey :: "string \<Rightarrow> qhash \<Rightarrow> (hvalue \<times> qhash) option" where
  "deleteKey key h =
     (case hm h key of
        None \<Rightarrow> Some (None, h)
      | Some li \<Rightarrow> do {
          let h = h\<lparr>hm := (hm h)(key := None)\<rparr>;
          m \<leftarrow> cells h li;
          let h = h\<lparr>cells := (cells h)(li := Some (m\<lparr>m_val := None\<rparr>))\<rparr>;
          h \<leftarrow> (if hneeds_scan (m_val m) then incScanCount (- 1) h else Some h);
          h \<leftarrow> internDeleteKey li h;
          Some (case m_val m of Some (Node n s) \<Rightarrow> Some (Node n s) | _ \<Rightarrow> None, h) })"

definition takeKeyValueIntern :: "string \<Rightarrow> qhash \<Rightarrow> ((hvalue \<times> bool) \<times> qhash) option" where
  "takeKeyValueIntern key h =
     (case hm h key of
        None \<Rightarrow> Some ((None, False), h)
      | Some li \<Rightarrow> do {
          let h = h\<lparr>hm := (hm h)(key := None)\<rparr>;
          m \<leftarrow> cells h li;
          h \<leftarrow> internDeleteKey li h;
          h \<leftarrow> (if hneeds_scan (m_val m) then incScanCount (- 1) h else Some h);
          Some ((m_val m, True), h) })"

definition removeKey :: "string \<Rightarrow> qhash \<Rightarrow> qhash option" where
  "removeKey key h = do { (r, h) \<leftarrow> takeKeyValueIntern key h; Some h }"

definition hash_derefImpl :: "qhash \<Rightarrow> qhash" where
  "hash_derefImpl h = h\<lparr>cells := (\<lambda>a. if a \<in> set (member_list h) then None else cells h a), member_list := [], hm := (\<lambda>_. None),
     obj_count := 0, h_valid := False\<rparr>"

definition hash_clear :: "qhash \<Rightarrow> qhash" where
  "hash_clear h = hash_derefImpl h"

text \<open>An lvalue for a key: the address of its member.\<close>

definition hash_getLValue :: "string \<Rightarrow> bool \<Rightarrow> qhash \<Rightarrow> xsink \<Rightarrow> nat option \<times> qhash \<times> xsink" where
  "hash_getLValue key for_remove h xs =
     (let (rc, xs) = checkValid h xs
      in if rc \<noteq> 0 then (None, h, xs)
         else if (case h_type h of HashDecl ms \<Rightarrow> key \<notin> set ms | _ \<Rightarrow> False) then (None, h, raiseException xs ''INVALID-MEMBER'')
         else case hm h key of
                Some i \<Rightarrow> (Some i, h, xs)
              | None \<Rightarrow> if for_remove then (None, h, xs) else (let (om, h) = findCreateMember key h in (Some om, h, xs)))"

section \<open>Invariant and entries\<close>

text \<open>The entries of a hash: keys and values in the order of insertion.\<close>

definition entry :: "qhash \<Rightarrow> nat \<Rightarrow> string \<times> hvalue" where
  "entry h a = (case cells h a of Some m \<Rightarrow> (m_key m, m_val m) | None \<Rightarrow> ([], None))"

definition entries :: "qhash \<Rightarrow> (string \<times> hvalue) list" where
  "entries h = map (entry h) (member_list h)"

definition scans :: "(string \<times> hvalue) list \<Rightarrow> int" where
  "scans es = int (length (filter (\<lambda>e. hneeds_scan (snd e)) es))"

text \<open>
  List and map agree: the members of the list are the allocated ones, without repetition, and the map sends exactly their keys
  to them; the scan count is the number of values that need a scan.
\<close>

definition hash_ok :: "qhash \<Rightarrow> bool" where
  "hash_ok h \<longleftrightarrow> distinct (member_list h) \<and> (\<forall>a. cells h a \<noteq> None \<longleftrightarrow> a \<in> set (member_list h))
     \<and> (\<forall>a\<in>set (member_list h). a < next_cell h)
     \<and> (\<forall>k a. hm h k = Some a \<longleftrightarrow> (\<exists>m. cells h a = Some m \<and> m_key m = k))
     \<and> obj_count h = scans (entries h)"

lemma scans_simps [simp]:
  "scans [] = 0" "scans (e # es) = (if hneeds_scan (snd e) then 1 else 0) + scans es" "scans (xs @ ys) = scans xs + scans ys"
  "0 \<le> scans es"
  by (simp_all add: scans_def)

lemma entries_cong: "cells h' = cells h \<Longrightarrow> member_list h' = member_list h \<Longrightarrow> entries h' = entries h"
  by (simp add: entries_def entry_def [abs_def])

lemma hash_ok_new: "hash_ok (hash_new ty) \<and> entries (hash_new ty) = []"
  by (simp add: hash_ok_def hash_new_def entries_def)

lemma hash_okD:
  assumes "hash_ok h"
  shows "distinct (member_list h)" "\<And>a. cells h a \<noteq> None \<longleftrightarrow> a \<in> set (member_list h)" "\<And>a. a \<in> set (member_list h) \<Longrightarrow> a < next_cell h"
    "\<And>k a. hm h k = Some a \<longleftrightarrow> (\<exists>m. cells h a = Some m \<and> m_key m = k)" "obj_count h = scans (entries h)"
  using assms by (simp_all add: hash_ok_def)

lemma entries_distinct: "hash_ok h \<Longrightarrow> distinct (map fst (entries h))"
proof -
  assume ok: "hash_ok h"
  note d = hash_okD [OF ok]
  have "inj_on (\<lambda>a. fst (entry h a)) (set (member_list h))"
  proof (rule inj_onI)
    fix a b assume ab: "a \<in> set (member_list h)" "b \<in> set (member_list h)" "fst (entry h a) = fst (entry h b)"
    obtain m n where "cells h a = Some m" "cells h b = Some n" using ab(1,2) d(2) by (metis option.exhaust)
    then have "hm h (m_key m) = Some a" "hm h (m_key m) = Some b" using ab(3) d(4) by (auto simp: entry_def)
    then show "a = b" by simp
  qed
  then show ?thesis using d(1) by (simp add: entries_def distinct_map comp_def)
qed

lemma hm_lookup:
  assumes "hash_ok h"
  shows "hm h k = None \<longleftrightarrow> k \<notin> fst ` set (entries h)"
    and "hm h k = Some a \<Longrightarrow> \<exists>m. cells h a = Some m \<and> m_key m = k \<and> a \<in> set (member_list h) \<and> map_of (entries h) k = Some (m_val m)"
proof -
  note d = hash_okD [OF assms]
  have e: "\<exists>m. cells h a = Some m \<and> entry h a = (m_key m, m_val m)" if "a \<in> set (member_list h)" for a
    using that d(2) [of a] by (auto simp: entry_def)
  show "hm h k = None \<longleftrightarrow> k \<notin> fst ` set (entries h)"
  proof
    assume n: "hm h k = None"
    show "k \<notin> fst ` set (entries h)"
    proof
      assume "k \<in> fst ` set (entries h)"
      then obtain a where "a \<in> set (member_list h)" "fst (entry h a) = k" by (auto simp: entries_def)
      then show False using e [of a] d(4) [of k a] n by auto
    qed
  next
    assume k: "k \<notin> fst ` set (entries h)"
    show "hm h k = None"
    proof (rule ccontr)
      assume "hm h k \<noteq> None"
      then obtain a where "hm h k = Some a" by blast
      then obtain m where "cells h a = Some m" "m_key m = k" using d(4) by blast
      moreover then have "a \<in> set (member_list h)" using d(2) by auto
      ultimately have "(k, m_val m) \<in> set (entries h)" by (force simp: entries_def entry_def)
      then show False using k by force
    qed
  qed
  assume "hm h k = Some a"
  then obtain m where m: "cells h a = Some m" "m_key m = k" using d(4) by blast
  then have a: "a \<in> set (member_list h)" using d(2) [of a] by auto
  then have "(k, m_val m) \<in> set (entries h)" using m by (force simp: entries_def entry_def)
  then have "map_of (entries h) k = Some (m_val m)" using entries_distinct [OF assms] by simp
  then show "\<exists>m. cells h a = Some m \<and> m_key m = k \<and> a \<in> set (member_list h) \<and> map_of (entries h) k = Some (m_val m)"
    using m a by blast
qed

section \<open>Association lists\<close>

lemma update_in: "distinct (map fst es) \<Longrightarrow> k \<in> fst ` set es \<Longrightarrow> AList.update k v es = map (\<lambda>p. if fst p = k then (k, v) else p) es"
proof (induction es)
  case (Cons e es)
  show ?case
  proof (cases "fst e = k")
    case True
    then have "map (\<lambda>p. if fst p = k then (k, v) else p) es = es" using Cons.prems(1) True by (intro map_idI) (force simp: rev_image_eqI)
    then show ?thesis using True by (cases e) simp
  next
    case False
    then show ?thesis using Cons by (cases e) simp
  qed
qed simp

lemma update_new: "k \<notin> fst ` set es \<Longrightarrow> AList.update k v es = es @ [(k, v)]"
  by (induction es) auto

lemma update_append_new: "k \<notin> fst ` set es \<Longrightarrow> AList.update k v (es @ [(k, w)]) = AList.update k v es"
  by (induction es) auto

lemma scans_update: "distinct (map fst es) \<Longrightarrow> map_of es k = Some w \<Longrightarrow>
  scans (AList.update k v es) = scans es - (if hneeds_scan w then 1 else 0) + (if hneeds_scan v then 1 else 0)"
  by (induction es) (auto split: if_splits)

lemma scans_delete: "distinct (map fst es) \<Longrightarrow> map_of es k = Some w \<Longrightarrow>
  scans (AList.delete k es) = scans es - (if hneeds_scan w then 1 else 0)"
proof (induction es)
  case (Cons e es)
  show ?case
  proof (cases "fst e = k")
    case True
    then have "AList.delete k es = es" using Cons.prems(1) by (intro delete_id) auto
    then show ?thesis using True Cons.prems by (cases e) simp
  next
    case False
    then show ?thesis using Cons by (cases e) simp
  qed
qed simp

lemma scans_pos: "map_of es k = Some w \<Longrightarrow> hneeds_scan w \<Longrightarrow> 0 < scans es"
  by (force simp: scans_def filter_empty_conv dest: map_of_SomeD)

section \<open>Every operation on the entries\<close>

lemma findCreateMember_ok:
  assumes ok: "hash_ok h" and f: "findCreateMember k h = (om, h')"
  shows "hash_ok h' \<and> hm h' k = Some om
    \<and> entries h' = (if k \<in> fst ` set (entries h) then entries h else entries h @ [(k, None)]) \<and> h_type h' = h_type h \<and> h_valid h' = h_valid h"
proof (cases "hm h k")
  case (Some a)
  then have "h' = h" "om = a" using f by (simp_all add: findCreateMember_def findMember_def)
  then show ?thesis using ok Some hm_lookup(1) [OF ok, of k] by auto
next
  case None
  note d = hash_okD [OF ok]
  let ?a = "next_cell h"
  have fresh: "?a \<notin> set (member_list h)" "cells h ?a = None" using d(2,3) by force+
  have h': "h' = h\<lparr>cells := (cells h)(?a := Some \<lparr>m_key = k, m_val = None\<rparr>), next_cell := Suc ?a,
      member_list := member_list h @ [?a], hm := (hm h)(k := Some ?a)\<rparr>" "om = ?a"
    using f None by (auto simp: findCreateMember_def findMember_def Let_def)
  have same: "map (entry h') (member_list h) = map (entry h) (member_list h)"
    using fresh(1) by (intro map_cong) (auto simp: h' entry_def)
  have en: "entries h' = entries h @ [(k, None)]" using same by (simp add: entries_def h' entry_def)
  have "hm h' j = Some b \<longleftrightarrow> (\<exists>m. cells h' b = Some m \<and> m_key m = j)" for j b
    using d(4) [of j b] d(4) [of k b] None fresh(2) by (auto simp: h')
  moreover have "cells h' b \<noteq> None \<longleftrightarrow> b \<in> set (member_list h')" for b using d(2) [of b] by (auto simp: h')
  moreover have "obj_count h' = scans (entries h')" using d(5) en by (simp add: h' hneeds_scan_def)
  ultimately have "hash_ok h'" unfolding hash_ok_def using d(1) fresh(1) d(3) by (auto simp: h' less_Suc_eq)
  moreover have "k \<notin> fst ` set (entries h)" using hm_lookup(1) [OF ok, of k] None by simp
  ultimately show ?thesis using en by (simp add: h')
qed

lemma swapImpl_ok:
  assumes ok: "hash_ok h" and k: "hm h k = Some om"
  obtains h' where "swapImpl om v h = Some (the (map_of (entries h) k), h')" "hash_ok h'" "entries h' = AList.update k v (entries h)"
    "h_type h' = h_type h" "h_valid h' = h_valid h"
proof -
  note d = hash_okD [OF ok]
  obtain m where m: "cells h om = Some m" "m_key m = k" "om \<in> set (member_list h)" "map_of (entries h) k = Some (m_val m)"
    using hm_lookup(2) [OF ok k] by blast
  let ?h1 = "h\<lparr>cells := (cells h)(om := Some (m\<lparr>m_val := v\<rparr>))\<rparr>"
  have dk: "distinct (map fst (entries h))" by (rule entries_distinct [OF ok])
  have "entry ?h1 a = (if fst (entry h a) = k then (k, v) else entry h a)" if "a \<in> set (member_list h)" for a
  proof (cases "a = om")
    case True
    then show ?thesis using m by (simp add: entry_def)
  next
    case False
    have "fst (entry h a) \<noteq> k"
    proof
      assume "fst (entry h a) = k"
      moreover obtain n where "cells h a = Some n" using d(2) \<open>a \<in> set (member_list h)\<close> by blast
      ultimately have "hm h k = Some a" using d(4) by (auto simp: entry_def)
      then show False using k False by simp
    qed
    then show ?thesis using False by (simp add: entry_def)
  qed
  then have "entries ?h1 = map (\<lambda>p. if fst p = k then (k, v) else p) (entries h)" by (simp add: entries_def)
  also have "\<dots> = AList.update k v (entries h)" using map_of_SomeD [OF m(4)] dk by (intro update_in [symmetric]) force+
  finally have en: "entries ?h1 = AList.update k v (entries h)" .
  have en2: "entries (?h1\<lparr>obj_count := c\<rparr>) = AList.update k v (entries h)" for c
    unfolding en [symmetric] by (rule entries_cong) simp_all
  have sc: "scans (entries ?h1) = scans (entries h) - (if hneeds_scan (m_val m) then 1 else 0) + (if hneeds_scan v then 1 else 0)"
    unfolding en by (rule scans_update [OF dk m(4)])
  have oks: "hash_ok (?h1\<lparr>obj_count := scans (entries ?h1)\<rparr>)"
    unfolding hash_ok_def using d(1-4) m en2 en by (auto simp: split: if_splits)
  define h' where "h' = ?h1\<lparr>obj_count := scans (entries ?h1)\<rparr>"
  have same: "h' = ?h1" if "hneeds_scan (m_val m) = hneeds_scan v" using that sc d(5) by (simp add: h'_def)
  have pos: "obj_count h \<noteq> 0" if "hneeds_scan (m_val m)" using scans_pos [OF m(4) that] d(5) by simp
  have "swapImpl om v h = Some (m_val m, h')"
    using m(1) same pos sc d(5) by (simp add: swapImpl_def incScanCount_def h'_def)
  then show ?thesis using that [of h'] oks en2 m(4) by (simp add: h'_def)
qed

text \<open>Removing the member at an iterator, with its key out of the map; the scan count follows the value.\<close>

lemma unlink_ok:
  assumes ok: "hash_ok h" and k: "hm h k = Some li" and m: "cells h li = Some m"
    and h': "h' = h\<lparr>hm := (hm h)(k := None), member_list := remove1 li (member_list h), cells := (cells h)(li := None),
      obj_count := obj_count h - (if hneeds_scan (m_val m) then 1 else 0)\<rparr>"
  shows "hash_ok h'" "entries h' = AList.delete k (entries h)" "hneeds_scan (m_val m) \<Longrightarrow> obj_count h \<noteq> 0"
    "map_of (entries h) k = Some (m_val m)" "m_key m = k"
proof -
  note d = hash_okD [OF ok]
  have li: "m_key m = k" "li \<in> set (member_list h)" "map_of (entries h) k = Some (m_val m)"
  proof -
    obtain n where n: "cells h li = Some n" "m_key n = k" "li \<in> set (member_list h)" "map_of (entries h) k = Some (m_val n)"
      using hm_lookup(2) [OF ok k] by blast
    moreover have "n = m" using n(1) m by simp
    ultimately show "m_key m = k" "li \<in> set (member_list h)" "map_of (entries h) k = Some (m_val m)" by simp_all
  qed
  have en: "entry h' a = entry h a" if "a \<noteq> li" for a using that by (simp add: h' entry_def)
  have key: "fst (entry h a) = k \<longleftrightarrow> a = li" if "a \<in> set (member_list h)" for a
  proof
    assume e: "fst (entry h a) = k"
    obtain n where "cells h a = Some n" using d(2) \<open>a \<in> set (member_list h)\<close> by blast
    then have "hm h k = Some a" using d(4) e by (auto simp: entry_def)
    then show "a = li" using k by simp
  next
    assume "a = li"
    then show "fst (entry h a) = k" using m li by (simp add: entry_def)
  qed
  have "entries h' = map (entry h') (filter ((\<noteq>) li) (member_list h))"
    using d(1) by (simp add: entries_def h' distinct_remove1_removeAll removeAll_filter_not_eq)
  also have "\<dots> = map (entry h) (filter ((\<noteq>) li) (member_list h))" using en by (intro map_cong) auto
  also have "filter ((\<noteq>) li) (member_list h) = filter (\<lambda>a. k \<noteq> fst (entry h a)) (member_list h)" using key by (intro filter_cong) auto
  also have "map (entry h) \<dots> = filter (\<lambda>e. k \<noteq> fst e) (map (entry h) (member_list h))" by (simp add: filter_map comp_def)
  finally show e: "entries h' = AList.delete k (entries h)" by (simp add: entries_def AList.delete_eq case_prod_beta')
  show "hneeds_scan (m_val m) \<Longrightarrow> obj_count h \<noteq> 0" using scans_pos [OF li(3)] d(5) by simp
  have "obj_count h' = scans (entries h')" unfolding e using scans_delete [OF entries_distinct [OF ok] li(3)] d(5) by (simp add: h')
  moreover have "hm h' j = Some b \<longleftrightarrow> (\<exists>n. cells h' b = Some n \<and> m_key n = j)" for j b
  proof (cases "b = li")
    case True
    have "hm h j \<noteq> Some li" if "j \<noteq> k" using d(4) [of j li] m li(1) that by auto
    then show ?thesis using True by (simp add: h')
  next
    case False
    then show ?thesis using d(4) [of j b] k by (auto simp: h')
  qed
  moreover have "cells h' b \<noteq> None \<longleftrightarrow> b \<in> set (member_list h')" for b using d(1) d(2) [of b] by (auto simp: h')
  ultimately show "hash_ok h'" unfolding hash_ok_def using d(1,3) by (auto simp: h' dest: notin_set_remove1)
  show "map_of (entries h) k = Some (m_val m)" "m_key m = k" using li by simp_all
qed

lemma takeKey_ok:
  assumes ok: "hash_ok h"
  obtains h' where "takeKeyValueIntern k h = Some ((case map_of (entries h) k of None \<Rightarrow> (None, False) | Some v \<Rightarrow> (v, True)), h')"
    "deleteKey k h = Some (case map_of (entries h) k of Some (Some (Node n s)) \<Rightarrow> Some (Node n s) | _ \<Rightarrow> None, h')"
    "removeKey k h = Some h'" "hash_ok h'" "entries h' = AList.delete k (entries h)" "h_type h' = h_type h" "h_valid h' = h_valid h"
proof (cases "hm h k")
  case None
  then have n: "k \<notin> fst ` set (entries h)" using hm_lookup(1) [OF ok] by simp
  then have "map_of (entries h) k = None" "AList.delete k (entries h) = entries h" by (simp_all add: map_of_eq_None_iff delete_id)
  then show ?thesis using that [of h] None ok by (simp add: takeKeyValueIntern_def deleteKey_def removeKey_def)
next
  case (Some li)
  obtain m where m: "cells h li = Some m" using hm_lookup(2) [OF ok Some] by blast
  define h' where "h' = h\<lparr>hm := (hm h)(k := None), member_list := remove1 li (member_list h), cells := (cells h)(li := None),
      obj_count := obj_count h - (if hneeds_scan (m_val m) then 1 else 0)\<rparr>"
  note u = unlink_ok [OF ok Some m h'_def]
  have t: "takeKeyValueIntern k h = Some ((m_val m, True), h')"
    using Some m u(3) by (simp add: takeKeyValueIntern_def internDeleteKey_def incScanCount_def h'_def)
  moreover have "deleteKey k h = Some (case m_val m of Some (Node n s) \<Rightarrow> Some (Node n s) | _ \<Rightarrow> None, h')"
    using Some m u(3) by (simp add: deleteKey_def internDeleteKey_def incScanCount_def h'_def)
  moreover have "removeKey k h = Some h'" using t by (simp add: removeKey_def)
  ultimately show ?thesis using that [of h'] u by (simp add: h'_def)
qed

end
