(* ===== verification/Hash_Ops.thy ===== *)
theory Hash_Ops
  imports Hash_Members
begin

text \<open>
  Operations on whole hashes: merging, copying, slices, comparison, and the iterators of \<open>src/lib/QoreHashNode.cpp\<close>.  The locale
  \<open>ordered_map\<close> is what they rely on: a map that keeps its entries in the order of insertion.
\<close>

section \<open>Maps that keep an order\<close>

locale ordered_map =
  fixes ok :: "'s \<Rightarrow> bool" and al :: "'s \<Rightarrow> ('k \<times> 'v) list" and put :: "'k \<Rightarrow> 'v \<Rightarrow> 's \<Rightarrow> 's option" and del :: "'k \<Rightarrow> 's \<Rightarrow> 's option"
  assumes al_distinct: "ok s \<Longrightarrow> distinct (map fst (al s))"
    and put_ok: "ok s \<Longrightarrow> \<exists>s'. put k v s = Some s' \<and> ok s' \<and> al s' = AList.update k v (al s)"
    and del_ok: "ok s \<Longrightarrow> \<exists>s'. del k s = Some s' \<and> ok s' \<and> al s' = AList.delete k (al s)"
begin

primrec put_all :: "('k \<times> 'v) list \<Rightarrow> 's \<Rightarrow> 's option" where
  "put_all [] s = Some s"
| "put_all (e # es) s = Option.bind (put (fst e) (snd e) s) (put_all es)"

lemma put_all_ok: "ok s \<Longrightarrow> \<exists>s'. put_all es s = Some s' \<and> ok s' \<and> al s' = fold (\<lambda>e. AList.update (fst e) (snd e)) es (al s)"
proof (induction es arbitrary: s)
  case (Cons e es)
  obtain s1 where s1: "put (fst e) (snd e) s = Some s1" "ok s1" "al s1 = AList.update (fst e) (snd e) (al s)"
    using put_ok [OF Cons.prems] by blast
  then show ?case using Cons.IH [OF s1(2)] by auto
qed simp

lemma put_all_lookup: "ok s \<Longrightarrow> put_all es s = Some s' \<Longrightarrow> map_of (al s') = map_of (al s) ++ map_of (rev es)"
proof -
  assume a: "ok s" "put_all es s = Some s'"
  then have e: "al s' = fold (\<lambda>e. AList.update (fst e) (snd e)) es (al s)" using put_all_ok [OF a(1), of es] by auto
  have "map_of (fold (\<lambda>e. AList.update (fst e) (snd e)) es xs) = map_of xs ++ map_of (rev es)" for xs
  proof (induction es arbitrary: xs)
    case (Cons e es)
    have "map_of (fold (\<lambda>e. AList.update (fst e) (snd e)) (e # es) xs) = (map_of xs)(fst e \<mapsto> snd e) ++ map_of (rev es)"
      using Cons [of "AList.update (fst e) (snd e) xs"] by (simp add: update_conv' fun_upd_def)
    then show ?case by (cases e) (simp add: map_add_upd_left map_add_def fun_eq_iff split: option.splits)
  qed simp
  then show ?thesis unfolding e .
qed

lemma put_all_keys:
  assumes "ok s" "put_all es s = Some s'" "distinct (map fst es)"
  shows "map fst (al s') = map fst (al s) @ filter (\<lambda>k. k \<notin> fst ` set (al s)) (map fst es)"
proof -
  have e: "al s' = fold (\<lambda>e. AList.update (fst e) (snd e)) es (al s)" using put_all_ok [OF assms(1), of es] assms(2) by auto
  have "map fst (fold (\<lambda>e. AList.update (fst e) (snd e)) es xs) = map fst xs @ filter (\<lambda>k. k \<notin> fst ` set xs) (map fst es)"
    if "distinct (map fst es)" for xs :: "('k \<times> 'v) list"
    using that
  proof (induction es arbitrary: xs)
    case (Cons e es)
    let ?ys = "AList.update (fst e) (snd e) xs"
    have k: "map fst ?ys = (if fst e \<in> fst ` set xs then map fst xs else map fst xs @ [fst e])" by (simp add: update_keys)
    have "set (map fst ?ys) = insert (fst e) (set (map fst xs))" unfolding k by auto
    then have "filter (\<lambda>k. k \<notin> fst ` set ?ys) (map fst es) = filter (\<lambda>k. k \<notin> fst ` set xs) (map fst es)"
      using Cons.prems by (intro filter_cong) (force simp: rev_image_eqI)+
    then show ?case using Cons.IH [of ?ys] Cons.prems k by auto
  qed simp
  then show ?thesis using assms(3) unfolding e by blast
qed

end

section \<open>The hash as an ordered map\<close>

lemma setKeyValueIntern_ok:
  assumes "hash_ok h"
  shows "\<exists>h'. setKeyValueIntern k v h = Some h' \<and> hash_ok h' \<and> entries h' = AList.update k v (entries h) \<and> h_type h' = h_type h \<and> h_valid h' = h_valid h"
proof -
  obtain om h1 where f: "findCreateMember k h = (om, h1)" by fastforce
  note f1 = findCreateMember_ok [OF assms f]
  then have "hash_ok h1" "hm h1 k = Some om" by simp_all
  then obtain h' where h': "swapImpl om v h1 = Some (the (map_of (entries h1) k), h')" "hash_ok h'" "entries h' = AList.update k v (entries h1)"
    "h_type h' = h_type h1" "h_valid h' = h_valid h1" by (rule swapImpl_ok)
  have "AList.update k v (entries h1) = AList.update k v (entries h)"
    using f1 update_append_new [of k "entries h" v None] by (cases "k \<in> fst ` set (entries h)") simp_all
  then show ?thesis using h' f f1 by (simp add: setKeyValueIntern_def)
qed

interpretation hash: ordered_map hash_ok entries setKeyValueIntern removeKey
proof
  fix s :: qhash and k v
  assume ok: "hash_ok s"
  show "distinct (map fst (entries s))" by (rule entries_distinct [OF ok])
  show "\<exists>s'. setKeyValueIntern k v s = Some s' \<and> hash_ok s' \<and> entries s' = AList.update k v (entries s)"
    using setKeyValueIntern_ok [OF ok] by blast
  show "\<exists>s'. removeKey k s = Some s' \<and> hash_ok s' \<and> entries s' = AList.delete k (entries s)"
    by (rule takeKey_ok [OF ok]) blast
qed

lemma hash_lookup:
  assumes "hash_ok h"
  shows "getKeyValueIntern k h = Some (case map_of (entries h) k of None \<Rightarrow> None | Some v \<Rightarrow> v)"
    "getKeyValueExistenceIntern k h = Some (case map_of (entries h) k of None \<Rightarrow> (None, False) | Some v \<Rightarrow> (v, True))"
    "existsKey k h \<longleftrightarrow> k \<in> fst ` set (entries h)" "getKeys h = map fst (entries h)" "getValues h = map snd (entries h)"
    "hash_size h = length (entries h)"
proof -
  have n: "map_of (entries h) k = None" if "hm h k = None" using that hm_lookup(1) [OF assms] by (simp add: map_of_eq_None_iff)
  have s: "\<exists>m. cells h a = Some m \<and> map_of (entries h) k = Some (m_val m)" if "hm h k = Some a" for a
    using hm_lookup(2) [OF assms that] by blast
  show "getKeyValueIntern k h = Some (case map_of (entries h) k of None \<Rightarrow> None | Some v \<Rightarrow> v)"
    "getKeyValueExistenceIntern k h = Some (case map_of (entries h) k of None \<Rightarrow> (None, False) | Some v \<Rightarrow> (v, True))"
    using n s by (cases "hm h k"; force simp: getKeyValueIntern_def getKeyValueExistenceIntern_def)+
  show "existsKey k h \<longleftrightarrow> k \<in> fst ` set (entries h)" using hm_lookup(1) [OF assms, of k] by (simp add: existsKey_def)
  have e: "\<exists>m. cells h a = Some m" if "a \<in> set (member_list h)" for a using hash_okD(2) [OF assms, of a] that by blast
  then show "getKeys h = map fst (entries h)" by (auto simp: getKeys_def member_keys_def entries_def entry_def split: option.splits)
  show "getValues h = map snd (entries h)" using e by (auto simp: getValues_def member_values_def entries_def entry_def split: option.splits)
  show "hash_size h = length (entries h)" by (simp add: hash_size_def entries_def)
qed

section \<open>Operations on whole hashes\<close>

primrec merge_loop ::
    "acceptor \<Rightarrow> (hvalue \<Rightarrow> hvalue) \<Rightarrow> (string \<times> hvalue) list \<Rightarrow> qhash \<Rightarrow> xsink \<Rightarrow> (qhash \<times> xsink) option" where
  "merge_loop accept strip [] h xs = Some (h, xs)"
| "merge_loop accept strip (e # es) h xs =
     do { (h, xs) \<leftarrow> setKeyValue accept strip (fst e) (snd e) h xs; merge_loop accept strip es h xs }"

definition hash_merge ::
    "acceptor \<Rightarrow> (hvalue \<Rightarrow> hvalue) \<Rightarrow> qhash \<Rightarrow> qhash \<Rightarrow> xsink \<Rightarrow> (qhash \<times> xsink) option" where
  "hash_merge accept strip h0 h xs = merge_loop accept strip (zip (member_keys h0) (member_values h0)) h xs"

primrec copyIntern :: "(string \<times> hvalue) list \<Rightarrow> qhash \<Rightarrow> qhash option" where
  "copyIntern [] h = Some h"
| "copyIntern (e # es) h = do { (old, h) \<leftarrow> swapKeyValue (fst e) (snd e) h; if old \<noteq> None then None else copyIntern es h }"

definition hash_copy :: "qhash \<Rightarrow> qhash option" where
  "hash_copy h = copyIntern (zip (member_keys h) (member_values h)) (hash_new (h_type h))"

text \<open>The comparison of two values is a parameter; the answer is true when the hashes differ.\<close>

primrec compare_loop :: "(hvalue \<Rightarrow> hvalue \<Rightarrow> bool) \<Rightarrow> (string \<times> hvalue) list \<Rightarrow> qhash \<Rightarrow> bool option" where
  "compare_loop eq [] h = Some False"
| "compare_loop eq (e # es) h =
     (case hm h (fst e) of
        None \<Rightarrow> Some True
      | Some j \<Rightarrow> do { m \<leftarrow> cells h j; if \<not> eq (snd e) (m_val m) then Some True else compare_loop eq es h })"

definition compareHard :: "(hvalue \<Rightarrow> hvalue \<Rightarrow> bool) \<Rightarrow> qhash \<Rightarrow> qhash \<Rightarrow> bool option" where
  "compareHard isEqualHard this h =
     (if hash_size h \<noteq> hash_size this then Some True else compare_loop isEqualHard (zip (member_keys this) (member_values this)) h)"

definition compareSoft :: "(hvalue \<Rightarrow> hvalue \<Rightarrow> bool) \<Rightarrow> qhash \<Rightarrow> qhash \<Rightarrow> bool option" where
  "compareSoft isEqualSoft this h =
     (if hash_size h \<noteq> hash_size this then Some True else compare_loop isEqualSoft (zip (member_keys this) (member_values this)) h)"

primrec slice_loop ::
    "acceptor \<Rightarrow> (hvalue \<Rightarrow> hvalue) \<Rightarrow> string list \<Rightarrow> qhash \<Rightarrow> qhash \<Rightarrow> xsink \<Rightarrow> (qhash option \<times> xsink) option" where
  "slice_loop accept strip [] h rv xs = Some (Some rv, xs)"
| "slice_loop accept strip (k # ks) h rv xs = do {
     ((v, exists), xs) \<leftarrow> getKeyValueExistence k False h xs;
     if xs \<noteq> [] then Some (None, xs)
     else if \<not> exists then slice_loop accept strip ks h rv xs
     else do {
       (rv, xs) \<leftarrow> setKeyValue accept strip k v rv xs;
       if xs \<noteq> [] then Some (None, xs) else slice_loop accept strip ks h rv xs } }"

definition getSlice ::
    "acceptor \<Rightarrow> (hvalue \<Rightarrow> hvalue) \<Rightarrow> string list \<Rightarrow> qhash \<Rightarrow> xsink \<Rightarrow> (qhash option \<times> xsink) option" where
  "getSlice accept strip ks h xs = slice_loop accept strip ks h (hash_new (h_type h)) xs"

section \<open>Iterators\<close>

text \<open>\<open>qhi_priv\<close>: the member the iterator stands at, and whether it is valid.\<close>

record qhi_priv =
  it :: nat
  it_val :: bool

definition qhi_new :: qhi_priv where
  "qhi_new = \<lparr>it = 0, it_val = False\<rparr>"

definition pos_of :: "nat list \<Rightarrow> nat \<Rightarrow> nat" where
  "pos_of ml a = length (takeWhile (\<lambda>b. b \<noteq> a) ml)"

definition qhi_next :: "nat list \<Rightarrow> qhi_priv \<Rightarrow> qhi_priv" where
  "qhi_next ml p =
     (if \<not> it_val p then (if ml \<noteq> [] then \<lparr>it = List.hd ml, it_val = True\<rparr> else p)
      else if Suc (pos_of ml (it p)) < length ml then p\<lparr>it := ml ! Suc (pos_of ml (it p))\<rparr>
      else p\<lparr>it_val := False\<rparr>)"

definition qhi_prev :: "nat list \<Rightarrow> qhi_priv \<Rightarrow> qhi_priv" where
  "qhi_prev ml p =
     (if \<not> it_val p then (if ml \<noteq> [] then \<lparr>it = last ml, it_val = True\<rparr> else p)
      else if pos_of ml (it p) = 0 then p\<lparr>it_val := False\<rparr>
      else p\<lparr>it := ml ! (pos_of ml (it p) - 1)\<rparr>)"

definition it_getKey :: "qhash \<Rightarrow> qhi_priv \<Rightarrow> string option" where
  "it_getKey h p = (if \<not> it_val p then None else do { m \<leftarrow> cells h (it p); Some (m_key m) })"

definition it_get :: "qhash \<Rightarrow> qhi_priv \<Rightarrow> hvalue" where
  "it_get h p = (if \<not> it_val p then None else do { m \<leftarrow> cells h (it p); m_val m })"

definition it_last :: "qhash \<Rightarrow> qhi_priv \<Rightarrow> bool" where
  "it_last h p = (if \<not> it_val p then False else Suc (pos_of (member_list h) (it p)) = length (member_list h))"

definition it_first :: "qhash \<Rightarrow> qhi_priv \<Rightarrow> bool" where
  "it_first h p = (if \<not> it_val p then False else pos_of (member_list h) (it p) = 0)"

definition it_removeKeyValue :: "qhash \<Rightarrow> qhi_priv \<Rightarrow> (hvalue \<times> qhash \<times> qhi_priv) option" where
  "it_removeKeyValue h p =
     (if \<not> it_val p then Some (None, h, p)
      else do {
        m \<leftarrow> cells h (it p);
        h \<leftarrow> (if hneeds_scan (m_val m) then incScanCount (- 1) h else Some h);
        let ni = it p;
        let p = qhi_prev (member_list h) p;
        i \<leftarrow> hm h (m_key m);
        let h = h\<lparr>hm := (hm h)(m_key m := None)\<rparr>;
        h \<leftarrow> internDeleteKey ni h;
        Some (m_val m, h, p) })"

definition it_deleteKey :: "qhash \<Rightarrow> qhi_priv \<Rightarrow> (qhash \<times> qhi_priv) option" where
  "it_deleteKey h p = do { (v, h, p) \<leftarrow> it_removeKeyValue h p; Some (h, p) }"

definition it_assign :: "acceptor \<Rightarrow> (hvalue \<Rightarrow> hvalue) \<Rightarrow> hvalue \<Rightarrow> qhash \<Rightarrow> qhi_priv \<Rightarrow> xsink \<Rightarrow> (int \<times> qhash \<times> xsink) option" where
  "it_assign accept strip v h p xs =
     (if \<not> it_val p then Some (- 1, h, xs)
      else do { (h, xs) \<leftarrow> hash_assign accept strip (it p) v h xs; Some (if xs \<noteq> [] then - 1 else 0, h, xs) })"

section \<open>Typed assignment\<close>

lemma zip_entries: "hash_ok h \<Longrightarrow> zip (member_keys h) (member_values h) = entries h"
  using hash_lookup(4,5) [of h] by (simp add: getKeys_def getValues_def zip_map_fst_snd)

lemma setKeyValue_accepted:
  assumes "hash_ok h" "type_check accept strip (h_type h) k v xs = (Some w, xs')"
  shows "setKeyValue accept strip k v h xs = do { h' \<leftarrow> setKeyValueIntern k w h; Some (h', xs') }"
proof -
  obtain om h1 where f: "findCreateMember k h = (om, h1)" by fastforce
  note f1 = findCreateMember_ok [OF assms(1) f]
  then obtain m where m: "cells h1 om = Some m" "m_key m = k" using hm_lookup(2) [of h1 k om] by blast
  show ?thesis using f m f1 assms(2)
    by (cases "swapImpl om w h1") (simp_all add: setKeyValue_def setKeyValueIntern_def hash_assign_def split_beta)
qed

lemma setKeyValue_refused:
  assumes "hash_ok h" "type_check accept strip (h_type h) k v xs = (None, xs')"
  shows "\<exists>h'. setKeyValue accept strip k v h xs = Some (h', xs') \<and> hash_ok h'
    \<and> entries h' = (if k \<in> fst ` set (entries h) then entries h else entries h @ [(k, None)]) \<and> h_type h' = h_type h \<and> h_valid h' = h_valid h"
proof -
  obtain om h1 where f: "findCreateMember k h = (om, h1)" by fastforce
  note f1 = findCreateMember_ok [OF assms(1) f]
  then obtain m where "cells h1 om = Some m" "m_key m = k" using hm_lookup(2) [of h1 k om] by blast
  then show ?thesis using f f1 assms(2) by (simp add: setKeyValue_def hash_assign_def)
qed

lemma setKeyValue_ok:
  assumes "hash_ok h"
  shows "\<exists>h' xs'. setKeyValue accept strip k v h xs = Some (h', xs') \<and> hash_ok h' \<and> h_type h' = h_type h \<and> h_valid h' = h_valid h"
proof -
  obtain r xs' where t: "type_check accept strip (h_type h) k v xs = (r, xs')" by fastforce
  show ?thesis
  proof (cases r)
    case None
    then show ?thesis using setKeyValue_refused [OF assms, of accept strip k v xs xs'] t by blast
  next
    case (Some w)
    then show ?thesis using setKeyValue_accepted [OF assms, of accept strip k v xs w xs'] setKeyValueIntern_ok [OF assms, of k w] t by auto
  qed
qed

lemma merge_loop_ok:
  "hash_ok h \<Longrightarrow> \<exists>h' xs'. merge_loop accept strip es h xs = Some (h', xs') \<and> hash_ok h' \<and> h_type h' = h_type h \<and> h_valid h' = h_valid h"
proof (induction es arbitrary: h xs)
  case (Cons e es)
  obtain h1 xs1 where h1: "setKeyValue accept strip (fst e) (snd e) h xs = Some (h1, xs1)" "hash_ok h1" "h_type h1 = h_type h" "h_valid h1 = h_valid h"
    using setKeyValue_ok [OF Cons.prems] by blast
  then show ?case using Cons.IH [OF h1(2), of xs1] by auto
qed simp

lemma merge_loop_plain:
  "hash_ok h \<Longrightarrow> h_type h = PlainHash \<Longrightarrow>
     merge_loop accept strip es h xs = do { h' \<leftarrow> hash.put_all (map (apsnd strip) es) h; Some (h', xs) }"
proof (induction es arbitrary: h)
  case (Cons e es)
  obtain h1 where h1: "setKeyValueIntern (fst e) (strip (snd e)) h = Some h1" "hash_ok h1" "h_type h1 = h_type h"
    using setKeyValueIntern_ok [OF Cons.prems(1)] by blast
  have "setKeyValue accept strip (fst e) (snd e) h xs = Some (h1, xs)"
    using setKeyValue_accepted [OF Cons.prems(1), of accept strip "fst e" "snd e" xs "strip (snd e)" xs] h1 Cons.prems(2) by (simp add: type_check_def)
  then show ?case using Cons.IH [OF h1(2)] h1 Cons.prems(2) by simp
qed simp

lemma map_of_rev: "distinct (map fst es) \<Longrightarrow> map_of (rev es) = map_of es"
  by (rule map_of_inject_set [THEN iffD2]) (simp_all add: rev_map [symmetric])

end
