(* ===== verification/Hash_Properties.thy ===== *)
theory Hash_Properties
  imports Hash_Ops
begin

text \<open>
  The properties of hashes: a sequence of operations against the specification, an association list in the order of insertion;
  merging, copying and comparing; iteration, and deletion during iteration.
\<close>

section \<open>Specification\<close>

text \<open>What a hash is for its users: its entries in the order of insertion, its type and whether it is valid.\<close>

record hash_spec =
  al :: "(string \<times> hvalue) list"
  al_type :: hash_type
  al_valid :: bool

definition hash_abs :: "qhash \<Rightarrow> hash_spec" where
  "hash_abs h = \<lparr>al = entries h, al_type = h_type h, al_valid = h_valid h\<rparr>"

datatype hash_op =
    SetKeyValue string hvalue | SetKeyValueIntern string hvalue | SwapKeyValue string hvalue | SwapKeyValueIfExists string hvalue
  | GetKeyValue string | TakeKeyValue string | DeleteKey string | GetLValue string bool | Clear

text \<open>The answer of an operation: a value, and whether the key or an lvalue was there (a flag the caller has set to false).\<close>

type_synonym hash_answer = "hvalue \<times> bool"

fun hash_exec :: "acceptor \<Rightarrow> (hvalue \<Rightarrow> hvalue) \<Rightarrow> hash_op \<Rightarrow> qhash \<Rightarrow> xsink \<Rightarrow> (hash_answer \<times> qhash \<times> xsink) option" where
  "hash_exec accept strip (SetKeyValue k v) h xs = do { (h, xs) \<leftarrow> setKeyValue accept strip k v h xs; Some ((None, False), h, xs) }"
| "hash_exec accept strip (SetKeyValueIntern k v) h xs = do { h \<leftarrow> setKeyValueIntern k v h; Some ((None, False), h, xs) }"
| "hash_exec accept strip (SwapKeyValue k v) h xs = do { (old, h) \<leftarrow> swapKeyValue k v h; Some ((old, False), h, xs) }"
| "hash_exec accept strip (SwapKeyValueIfExists k v) h xs = do { (r, h) \<leftarrow> swapKeyValueIfExists k v h; Some (r, h, xs) }"
| "hash_exec accept strip (GetKeyValue k) h xs = do { (r, xs) \<leftarrow> getKeyValueExistence k False h xs; Some (r, h, xs) }"
| "hash_exec accept strip (TakeKeyValue k) h xs = do { (r, h) \<leftarrow> takeKeyValueIntern k h; Some (r, h, xs) }"
| "hash_exec accept strip (DeleteKey k) h xs = do { (r, h) \<leftarrow> deleteKey k h; Some ((r, False), h, xs) }"
| "hash_exec accept strip (GetLValue k rm) h xs = (let (r, h, xs) = hash_getLValue k rm h xs in Some ((None, r \<noteq> None), h, xs))"
| "hash_exec accept strip Clear h xs = Some ((None, False), hash_clear h, xs)"

definition al_put :: "string \<Rightarrow> hvalue \<Rightarrow> hash_spec \<Rightarrow> hash_spec" where
  "al_put k v a = a\<lparr>al := AList.update k v (al a)\<rparr>"

definition al_create :: "string \<Rightarrow> hash_spec \<Rightarrow> hash_spec" where
  "al_create k a = (if k \<in> fst ` set (al a) then a else a\<lparr>al := al a @ [(k, None)]\<rparr>)"

definition al_get :: "string \<Rightarrow> hash_spec \<Rightarrow> hash_answer" where
  "al_get k a = (case map_of (al a) k of None \<Rightarrow> (None, False) | Some v \<Rightarrow> (v, True))"

definition al_unknown :: "string \<Rightarrow> hash_spec \<Rightarrow> bool" where
  "al_unknown k a = (case al_type a of HashDecl ms \<Rightarrow> k \<notin> set ms | _ \<Rightarrow> False)"

fun spec_exec :: "acceptor \<Rightarrow> (hvalue \<Rightarrow> hvalue) \<Rightarrow> hash_op \<Rightarrow> hash_spec \<Rightarrow> xsink \<Rightarrow> hash_answer \<times> hash_spec \<times> xsink" where
  "spec_exec accept strip (SetKeyValue k v) a xs =
     (case type_check accept strip (al_type a) k v xs of
        (None, xs) \<Rightarrow> ((None, False), al_create k a, xs)
      | (Some w, xs) \<Rightarrow> ((None, False), al_put k w a, xs))"
| "spec_exec accept strip (SetKeyValueIntern k v) a xs = ((None, False), al_put k v a, xs)"
| "spec_exec accept strip (SwapKeyValue k v) a xs = ((fst (al_get k a), False), al_put k v a, xs)"
| "spec_exec accept strip (SwapKeyValueIfExists k v) a xs = (al_get k a, if k \<in> fst ` set (al a) then al_put k v a else a, xs)"
| "spec_exec accept strip (GetKeyValue k) a xs =
     (if al_unknown k a then ((None, False), a, raiseException xs ''INVALID-MEMBER'') else (al_get k a, a, xs))"
| "spec_exec accept strip (TakeKeyValue k) a xs = (al_get k a, a\<lparr>al := AList.delete k (al a)\<rparr>, xs)"
| "spec_exec accept strip (DeleteKey k) a xs =
     ((case fst (al_get k a) of Some (Node n s) \<Rightarrow> Some (Node n s) | _ \<Rightarrow> None, False), a\<lparr>al := AList.delete k (al a)\<rparr>, xs)"
| "spec_exec accept strip (GetLValue k rm) a xs =
     (if \<not> al_valid a then ((None, False), a, raiseException xs ''HASH-ERROR'')
      else if al_unknown k a then ((None, False), a, raiseException xs ''INVALID-MEMBER'')
      else if rm then ((None, k \<in> fst ` set (al a)), a, xs)
      else ((None, True), al_create k a, xs))"
| "spec_exec accept strip Clear a xs = ((None, False), a\<lparr>al := [], al_valid := False\<rparr>, xs)"

primrec hash_run :: "acceptor \<Rightarrow> (hvalue \<Rightarrow> hvalue) \<Rightarrow> hash_op list \<Rightarrow> qhash \<Rightarrow> xsink \<Rightarrow> (hash_answer list \<times> qhash \<times> xsink) option" where
  "hash_run accept strip [] h xs = Some ([], h, xs)"
| "hash_run accept strip (op # ops) h xs = do {
     (r, h, xs) \<leftarrow> hash_exec accept strip op h xs;
     (rs, h, xs) \<leftarrow> hash_run accept strip ops h xs;
     Some (r # rs, h, xs) }"

primrec spec_run :: "acceptor \<Rightarrow> (hvalue \<Rightarrow> hvalue) \<Rightarrow> hash_op list \<Rightarrow> hash_spec \<Rightarrow> xsink \<Rightarrow> hash_answer list \<times> hash_spec \<times> xsink" where
  "spec_run accept strip [] a xs = ([], a, xs)"
| "spec_run accept strip (op # ops) a xs =
     (let (r, a, xs) = spec_exec accept strip op a xs; (rs, a, xs) = spec_run accept strip ops a xs in (r # rs, a, xs))"

section \<open>Refinement\<close>

lemma hash_abs_simps [simp]: "al (hash_abs h) = entries h" "al_type (hash_abs h) = h_type h" "al_valid (hash_abs h) = h_valid h"
  by (simp_all add: hash_abs_def)

lemma hash_absI: "h_type h' = al_type a \<Longrightarrow> h_valid h' = al_valid a \<Longrightarrow> entries h' = al a \<Longrightarrow> hash_abs h' = a"
  by (simp add: hash_abs_def)

lemma findCreate_abs:
  assumes "hash_ok h" "findCreateMember k h = (om, h')"
  shows "hash_ok h' \<and> hash_abs h' = al_create k (hash_abs h)"
  using findCreateMember_ok [OF assms] by (auto simp: al_create_def hash_abs_def)

lemma swap_abs:
  assumes "hash_ok h"
  shows "\<exists>h'. swapKeyValue k v h = Some (fst (al_get k (hash_abs h)), h') \<and> hash_ok h' \<and> hash_abs h' = al_put k v (hash_abs h)"
proof -
  obtain om h1 where f: "findCreateMember k h = (om, h1)" by fastforce
  note f1 = findCreateMember_ok [OF assms f]
  then have "hash_ok h1" "hm h1 k = Some om" by simp_all
  then obtain h' where h': "swapImpl om v h1 = Some (the (map_of (entries h1) k), h')" "hash_ok h'" "entries h' = AList.update k v (entries h1)"
    "h_type h' = h_type h1" "h_valid h' = h_valid h1" by (rule swapImpl_ok)
  have l: "the (map_of (entries h1) k) = fst (al_get k (hash_abs h))"
  proof (cases "k \<in> fst ` set (entries h)")
    case True
    then obtain w where "map_of (entries h) k = Some w" by (metis map_of_eq_None_iff not_None_eq)
    then show ?thesis using f1 True by (simp add: al_get_def)
  next
    case False
    then have "map_of (entries h) k = None" by (simp add: map_of_eq_None_iff)
    then show ?thesis using f1 False by (simp add: al_get_def map_add_def)
  qed
  have "AList.update k v (entries h1) = AList.update k v (entries h)"
    using f1 update_append_new [of k "entries h" v None] by (cases "k \<in> fst ` set (entries h)") simp_all
  then show ?thesis using h' f f1 l by (simp add: swapKeyValue_def al_put_def hash_abs_def)
qed

lemma swapIf_abs:
  assumes "hash_ok h"
  shows "\<exists>h'. swapKeyValueIfExists k v h = Some (al_get k (hash_abs h), h') \<and> hash_ok h'
    \<and> hash_abs h' = (if k \<in> fst ` set (entries h) then al_put k v (hash_abs h) else hash_abs h)"
proof (cases "hm h k")
  case None
  then have "k \<notin> fst ` set (entries h)" using hm_lookup(1) [OF assms, of k] by simp
  moreover then have "map_of (entries h) k = None" by (simp add: map_of_eq_None_iff)
  ultimately show ?thesis using None assms by (simp add: swapKeyValueIfExists_def findMember_def al_get_def)
next
  case (Some om)
  have i: "k \<in> fst ` set (entries h)" using Some hm_lookup(1) [OF assms, of k] by simp
  obtain w where w: "map_of (entries h) k = Some w" using i by (metis map_of_eq_None_iff not_None_eq)
  obtain h' where "swapImpl om v h = Some (the (map_of (entries h) k), h')" "hash_ok h'" "entries h' = AList.update k v (entries h)"
    "h_type h' = h_type h" "h_valid h' = h_valid h" by (rule swapImpl_ok [OF assms Some])
  then show ?thesis using Some i w by (simp add: swapKeyValueIfExists_def findMember_def al_get_def al_put_def hash_abs_def)
qed

lemma set_abs:
  assumes "hash_ok h"
  shows "\<exists>h' xs'. setKeyValue accept strip k v h xs = Some (h', xs') \<and> hash_ok h'
    \<and> spec_exec accept strip (SetKeyValue k v) (hash_abs h) xs = ((None, False), hash_abs h', xs')"
proof -
  obtain r xs' where t: "type_check accept strip (h_type h) k v xs = (r, xs')" by fastforce
  show ?thesis
  proof (cases r)
    case None
    then obtain h' where "setKeyValue accept strip k v h xs = Some (h', xs')" "hash_ok h'"
      "entries h' = (if k \<in> fst ` set (entries h) then entries h else entries h @ [(k, None)])" "h_type h' = h_type h" "h_valid h' = h_valid h"
      using setKeyValue_refused [OF assms, of accept strip k v xs xs'] t by blast
    moreover then have "hash_abs h' = al_create k (hash_abs h)" by (simp add: hash_abs_def al_create_def)
    ultimately show ?thesis using t None by simp
  next
    case (Some w)
    then obtain h' where "setKeyValue accept strip k v h xs = Some (h', xs')" "hash_ok h'" "entries h' = AList.update k w (entries h)"
      "h_type h' = h_type h" "h_valid h' = h_valid h"
      using setKeyValue_accepted [OF assms, of accept strip k v xs w xs'] setKeyValueIntern_ok [OF assms, of k w] t by auto
    moreover then have "hash_abs h' = al_put k w (hash_abs h)" by (simp add: hash_abs_def al_put_def)
    ultimately show ?thesis using t Some by simp
  qed
qed

lemma lvalue_abs:
  assumes "hash_ok h" "hash_getLValue k rm h xs = (r, h', xs')"
  shows "hash_ok h' \<and> spec_exec accept strip (GetLValue k rm) (hash_abs h) xs = ((None, r \<noteq> None), hash_abs h', xs')"
proof -
  obtain om h1 where f: "findCreateMember k h = (om, h1)" by fastforce
  have a: "hash_ok h1" "hash_abs h1 = al_create k (hash_abs h)" using findCreate_abs [OF assms(1) f] by simp_all
  have i: "hm h k \<noteq> None \<Longrightarrow> al_create k (hash_abs h) = hash_abs h" using hm_lookup(1) [OF assms(1), of k] by (auto simp: al_create_def)
  have u: "al_unknown k (hash_abs h) \<longleftrightarrow> (case h_type h of HashDecl ms \<Rightarrow> k \<notin> set ms | _ \<Rightarrow> False)" by (simp add: al_unknown_def)
  have m: "k \<in> fst ` set (entries h) \<longleftrightarrow> (\<exists>y. hm h k = Some y)" using hm_lookup(1) [OF assms(1), of k] by auto
  show ?thesis using assms a f i u unfolding m spec_exec.simps hash_abs_simps
    by (cases "hm h k") (auto simp: hash_getLValue_def checkValid_def Let_def split: if_splits intro: sym)
qed

lemma hash_ok_clear: "hash_ok h \<Longrightarrow> hash_ok (hash_clear h) \<and> entries (hash_clear h) = []"
  by (auto simp: hash_ok_def hash_clear_def hash_derefImpl_def entries_def)

lemma hash_exec_refines:
  assumes "hash_ok h"
  shows "\<exists>r h' xs'. hash_exec accept strip op h xs = Some (r, h', xs') \<and> hash_ok h'
    \<and> spec_exec accept strip op (hash_abs h) xs = (r, hash_abs h', xs')"
proof (cases op)
  case (SetKeyValue k v)
  then show ?thesis using set_abs [OF assms, of accept strip k v xs] by auto
next
  case (SetKeyValueIntern k v)
  then show ?thesis using setKeyValueIntern_ok [OF assms, of k v] by (auto simp: al_put_def hash_abs_def)
next
  case (SwapKeyValue k v)
  then show ?thesis using swap_abs [OF assms, of k v] by auto
next
  case (SwapKeyValueIfExists k v)
  then show ?thesis using swapIf_abs [OF assms, of k v] by (cases "k \<in> fst ` set (entries h)") auto
next
  case (GetKeyValue k)
  then show ?thesis using hash_lookup(2) [OF assms, of k] assms
    by (auto simp: getKeyValueExistence_def checkKey_def al_unknown_def al_get_def split: hash_type.splits)
next
  case (TakeKeyValue k)
  obtain h' where "takeKeyValueIntern k h = Some ((case map_of (entries h) k of None \<Rightarrow> (None, False) | Some v \<Rightarrow> (v, True)), h')" "hash_ok h'"
    "entries h' = AList.delete k (entries h)" "h_type h' = h_type h" "h_valid h' = h_valid h" by (rule takeKey_ok [OF assms])
  then show ?thesis using TakeKeyValue by (simp add: al_get_def hash_abs_def)
next
  case (DeleteKey k)
  obtain h' where "deleteKey k h = Some (case map_of (entries h) k of Some (Some (Node n s)) \<Rightarrow> Some (Node n s) | _ \<Rightarrow> None, h')" "hash_ok h'"
    "entries h' = AList.delete k (entries h)" "h_type h' = h_type h" "h_valid h' = h_valid h" by (rule takeKey_ok [OF assms])
  then show ?thesis using DeleteKey by (auto simp: al_get_def hash_abs_def split: option.splits)
next
  case (GetLValue k rm)
  obtain r h' xs' where "hash_getLValue k rm h xs = (r, h', xs')" by (cases "hash_getLValue k rm h xs") blast
  then show ?thesis using GetLValue lvalue_abs [OF assms] by auto
next
  case Clear
  have "hash_abs (hash_clear h) = (hash_abs h)\<lparr>al := [], al_valid := False\<rparr>"
    using hash_ok_clear [OF assms] by (intro hash_absI) (simp_all add: hash_clear_def hash_derefImpl_def)
  then show ?thesis using Clear hash_ok_clear [OF assms] by (intro exI [of _ "(None, False)"] exI [of _ "hash_clear h"]) simp
qed

lemma hash_run_refines:
  "\<exists>h rs xs. hash_run accept strip ops (hash_new ty) [] = Some (rs, h, xs) \<and> hash_ok h
    \<and> spec_run accept strip ops \<lparr>al = [], al_type = ty, al_valid = True\<rparr> [] = (rs, hash_abs h, xs)"
proof -
  have run: "\<exists>h' rs xs'. hash_run accept strip ops h xs = Some (rs, h', xs') \<and> hash_ok h'
      \<and> spec_run accept strip ops (hash_abs h) xs = (rs, hash_abs h', xs')" if "hash_ok h" for h xs
    using that
  proof (induction ops arbitrary: h xs)
    case (Cons op ops)
    obtain r h1 xs1 where "hash_exec accept strip op h xs = Some (r, h1, xs1)" "hash_ok h1"
      "spec_exec accept strip op (hash_abs h) xs = (r, hash_abs h1, xs1)" using hash_exec_refines [OF Cons.prems] by blast
    then show ?case using Cons.IH [of h1 xs1] by auto
  qed simp
  have "hash_abs (hash_new ty) = \<lparr>al = [], al_type = ty, al_valid = True\<rparr>" using hash_ok_new [of ty] by (simp add: hash_abs_def) (simp add: hash_new_def)
  then show ?thesis using run [of "hash_new ty" "[]"] hash_ok_new by metis
qed

text \<open>
  C21: A sequence of operations on a new hash never uses a freed member and never fails an assertion, and it keeps the list
  of members, the map and the scan count in agreement; its answers, exceptions and entries are those of the specification, an
  association list in the order of insertion.
\<close>

theorem hash_refines_association_list:
  "\<exists>h rs xs. hash_run accept strip ops (hash_new ty) [] = Some (rs, h, xs) \<and> hash_ok h
    \<and> spec_run accept strip ops \<lparr>al = [], al_type = ty, al_valid = True\<rparr> [] = (rs, hash_abs h, xs)"
  by (rule hash_run_refines)

section \<open>Copying and comparing\<close>

lemma copyIntern_ok:
  "hash_ok h \<Longrightarrow> distinct (map fst es) \<Longrightarrow> fst ` set es \<inter> fst ` set (entries h) = {} \<Longrightarrow>
     \<exists>h'. copyIntern es h = Some h' \<and> hash_ok h' \<and> entries h' = entries h @ es \<and> h_type h' = h_type h \<and> h_valid h' = h_valid h"
proof (induction es arbitrary: h)
  case (Cons e es)
  have n: "fst e \<notin> fst ` set (entries h)" using Cons.prems(3) by auto
  obtain h1 where h1: "swapKeyValue (fst e) (snd e) h = Some (fst (al_get (fst e) (hash_abs h)), h1)" "hash_ok h1"
    "hash_abs h1 = al_put (fst e) (snd e) (hash_abs h)" using swap_abs [OF Cons.prems(1)] by blast
  have en: "entries h1 = entries h @ [e]" "h_type h1 = h_type h" "h_valid h1 = h_valid h"
    using arg_cong [OF h1(3), of al] arg_cong [OF h1(3), of al_type] arg_cong [OF h1(3), of al_valid] update_new [OF n, of "snd e"]
    by (simp_all add: al_put_def)
  have "fst (al_get (fst e) (hash_abs h)) = None" using n by (simp add: al_get_def map_of_eq_None_iff [THEN iffD2])
  moreover have "\<exists>h'. copyIntern es h1 = Some h' \<and> hash_ok h' \<and> entries h' = entries h1 @ es \<and> h_type h' = h_type h1 \<and> h_valid h' = h_valid h1"
    using Cons.prems en by (intro Cons.IH [OF h1(2)]) auto
  ultimately show ?case using h1(1) en by auto
qed simp

text \<open>Every list of entries with distinct keys is the list of entries of a hash.\<close>

lemma hash_with_entries: "distinct (map fst es) \<Longrightarrow> \<exists>h. hash_ok h \<and> entries h = es \<and> h_type h = ty \<and> h_valid h"
proof -
  assume d: "distinct (map fst es)"
  have "\<exists>h. copyIntern es (hash_new ty) = Some h \<and> hash_ok h \<and> entries h = entries (hash_new ty) @ es \<and> h_type h = h_type (hash_new ty) \<and> h_valid h = h_valid (hash_new ty)"
    using d hash_ok_new by (intro copyIntern_ok) simp_all
  then show ?thesis using hash_ok_new [of ty] by (auto simp: hash_new_def)
qed

text \<open>
  A copy of a hash has the same entries in the same order, the same type, and is valid.
\<close>

theorem hash_copy_same_entries:
  assumes "hash_ok h"
  shows "\<exists>h'. hash_copy h = Some h' \<and> hash_ok h' \<and> entries h' = entries h \<and> h_type h' = h_type h \<and> h_valid h'"
proof -
  have "\<exists>h'. copyIntern (entries h) (hash_new (h_type h)) = Some h' \<and> hash_ok h' \<and> entries h' = entries (hash_new (h_type h)) @ entries h
      \<and> h_type h' = h_type (hash_new (h_type h)) \<and> h_valid h' = h_valid (hash_new (h_type h))"
    using hash_ok_new entries_distinct [OF assms] by (intro copyIntern_ok) simp_all
  then show ?thesis using hash_ok_new by (simp add: hash_copy_def zip_entries [OF assms]) (simp add: hash_new_def)
qed

theorem hash_copy_same_entries_witness:
  "\<exists>h h'. entries h = [(''b'', Some (Scalar 1)), (''a'', None)] \<and> hash_copy h = Some h' \<and> entries h' = [(''b'', Some (Scalar 1)), (''a'', None)]"
proof -
  obtain h where "hash_ok h" "entries h = [(''b'', Some (Scalar 1)), (''a'', None)]"
    using hash_with_entries [of "[(''b'', Some (Scalar 1)), (''a'', None)]"] by auto
  then show ?thesis using hash_copy_same_entries [of h] by auto
qed

lemma compare_loop_iff:
  assumes "hash_ok h"
  shows "compare_loop eq es h = Some (\<exists>e\<in>set es. \<not> (\<exists>v. map_of (entries h) (fst e) = Some v \<and> eq (snd e) v))"
proof (induction es)
  case (Cons e es)
  show ?case
  proof (cases "hm h (fst e)")
    case None
    then have "map_of (entries h) (fst e) = None" using hm_lookup(1) [OF assms] by (simp add: map_of_eq_None_iff)
    then show ?thesis using None by simp
  next
    case (Some a)
    then obtain m where "cells h a = Some m" "map_of (entries h) (fst e) = Some (m_val m)" using hm_lookup(2) [OF assms Some] by blast
    then show ?thesis using Some Cons by simp
  qed
qed simp

text \<open>
  Two hashes compare as equal exactly when they are the same map: the order of the entries does not matter (values are
  compared with equality).
\<close>

theorem compareHard_map_equality:
  assumes "hash_ok g" "hash_ok h"
  shows "compareHard (=) g h = Some (map_of (entries g) \<noteq> map_of (entries h))"
proof -
  let ?g = "entries g" and ?h = "entries h"
  have d: "distinct (map fst ?g)" "distinct (map fst ?h)" using entries_distinct assms by simp_all
  have s: "length es = card (dom (map_of es))" if "distinct (map fst es)" for es :: "(string \<times> hvalue) list"
    using that distinct_card [OF that] by (simp add: dom_map_of_conv_image_fst)
  have sub: "(\<forall>e\<in>set ?g. map_of ?h (fst e) = Some (snd e)) \<longleftrightarrow> map_of ?g \<subseteq>\<^sub>m map_of ?h"
    using d by (force simp: map_le_def dom_map_of_conv_image_fst)
  have eq: "map_of ?g = map_of ?h" if "map_of ?g \<subseteq>\<^sub>m map_of ?h" "length ?h = length ?g"
  proof -
    have "dom (map_of ?g) = dom (map_of ?h)"
      using that s [OF d(1)] s [OF d(2)] map_le_implies_dom_le [OF that(1)] by (intro card_subset_eq) (simp_all add: finite_dom_map_of)
    then show ?thesis using that(1) by (intro map_le_antisym) (auto simp: map_le_def)
  qed
  have same: "length ?h = length ?g" if "map_of ?g = map_of ?h" using s [OF d(1)] s [OF d(2)] that by simp
  have "compareHard (=) g h = Some (length ?h \<noteq> length ?g \<or> \<not> map_of ?g \<subseteq>\<^sub>m map_of ?h)"
    unfolding sub [symmetric] using assms by (simp add: compareHard_def zip_entries compare_loop_iff hash_lookup(6))
  moreover have "(length ?h \<noteq> length ?g \<or> \<not> map_of ?g \<subseteq>\<^sub>m map_of ?h) \<longleftrightarrow> map_of ?g \<noteq> map_of ?h"
    using eq same map_le_refl by metis
  ultimately show ?thesis by simp
qed

theorem compareHard_map_equality_witness:
  "\<exists>g h. entries g = [(''b'', None), (''a'', Some (Scalar 1))] \<and> entries h = [(''a'', Some (Scalar 1)), (''b'', None)] \<and> compareHard (=) g h = Some False"
proof -
  obtain g h where gh: "hash_ok g" "entries g = [(''b'', None), (''a'', Some (Scalar 1))]" "hash_ok h" "entries h = [(''a'', Some (Scalar 1)), (''b'', None)]"
    using hash_with_entries [of "[(''b'', None), (''a'', Some (Scalar 1))]"] hash_with_entries [of "[(''a'', Some (Scalar 1)), (''b'', None)]"] by (simp; blast)
  have "map_of (entries g) = map_of (entries h)" using gh(2,4) by (simp add: fun_upd_twist)
  then show ?thesis using compareHard_map_equality [OF gh(1,3)] gh by auto
qed

section \<open>Merging\<close>

text \<open>
  C34: Merging a hash into a plain hash keeps the order: the keys of the target stay where they are, the new keys follow in the
  order of the other hash, and the values of common keys are those of the other hash.
\<close>

theorem hash_merge_order:
  assumes "hash_ok g" "hash_ok h" "h_type h = PlainHash"
  shows "\<exists>h'. hash_merge accept strip g h xs = Some (h', xs) \<and> hash_ok h'
    \<and> getKeys h' = getKeys h @ filter (\<lambda>k. \<not> existsKey k h) (getKeys g)
    \<and> map_of (entries h') = map_of (entries h) ++ (map_option strip \<circ> map_of (entries g))"
proof -
  let ?es = "map (apsnd strip) (entries g)"
  obtain h' where h': "hash.put_all ?es h = Some h'" "hash_ok h'" using hash.put_all_ok [OF assms(2)] by blast
  have dg: "distinct (map fst ?es)" using entries_distinct [OF assms(1)] by (simp add: comp_def)
  have "hash_merge accept strip g h xs = Some (h', xs)"
    using h' by (simp add: hash_merge_def zip_entries [OF assms(1)] merge_loop_plain [OF assms(2,3)])
  moreover have "map_of (entries h') = map_of (entries h) ++ (map_option strip \<circ> map_of (entries g))"
    using hash.put_all_lookup [OF assms(2) h'(1)] map_of_rev [OF dg] by (simp add: apsnd_def map_prod_def map_of_map)
  moreover have "getKeys h' = getKeys h @ filter (\<lambda>k. \<not> existsKey k h) (getKeys g)"
    using hash.put_all_keys [OF assms(2) h'(1) dg] hash_lookup(3,4) assms h'(2) by (simp add: comp_def)
  ultimately show ?thesis using h'(2) by blast
qed

theorem hash_merge_order_witness:
  "\<exists>g h h'. entries g = [(''c'', None), (''a'', Some (Scalar 2))] \<and> entries h = [(''a'', Some (Scalar 1)), (''b'', None)]
    \<and> hash_merge (\<lambda>k v. Inl v) id g h [] = Some (h', []) \<and> getKeys h' = [''a'', ''b'', ''c''] \<and> map_of (entries h') ''a'' = Some (Some (Scalar 2))"
proof -
  obtain g h where gh: "hash_ok g" "entries g = [(''c'', None), (''a'', Some (Scalar 2))]"
    "hash_ok h" "entries h = [(''a'', Some (Scalar 1)), (''b'', None)]" "h_type h = PlainHash"
    using hash_with_entries [of "[(''c'', None), (''a'', Some (Scalar 2))]" PlainHash] hash_with_entries [of "[(''a'', Some (Scalar 1)), (''b'', None)]" PlainHash]
    by auto
  have k: "getKeys h @ filter (\<lambda>k. \<not> existsKey k h) (getKeys g) = [''a'', ''b'', ''c'']"
    using gh hash_lookup(3,4) by simp
  obtain h' where h': "hash_merge (\<lambda>k v. Inl v) id g h [] = Some (h', [])" "getKeys h' = [''a'', ''b'', ''c'']"
    "map_of (entries h') = map_of (entries h) ++ (map_option id \<circ> map_of (entries g))"
    using hash_merge_order [OF gh(1,3,5), of "\<lambda>k v. Inl v" id "[]"] unfolding k by blast
  then have "map_of (entries h') ''a'' = Some (Some (Scalar 2))" using gh(2,4) by (simp add: map_add_def)
  then show ?thesis using h' gh by blast
qed

text \<open>
  An assignment that is refused in a hash with a declaration or a complex type (an unknown key, a value that is not
  accepted, or an exception that was already active) leaves every entry as it is, except that a key that was not there
  is now there, with the value NOTHING.
\<close>

theorem refused_assignment_creates_key:
  assumes "hash_ok h" "h_type h \<noteq> PlainHash"
    and "xs \<noteq> [] \<or> (\<exists>ms. h_type h = HashDecl ms \<and> k \<notin> set ms) \<or> (\<exists>e. accept k v = Inr e)"
  shows "\<exists>h' xs'. setKeyValue accept strip k v h xs = Some (h', xs') \<and> hash_ok h' \<and> xs' \<noteq> []
    \<and> entries h' = (if existsKey k h then entries h else entries h @ [(k, None)])"
proof -
  have "fst (type_check accept strip (h_type h) k v xs) = None \<and> snd (type_check accept strip (h_type h) k v xs) \<noteq> []"
    using assms(2,3) by (auto simp: type_check_def acceptInputKey_def raiseException_def split: hash_type.splits sum.splits)
  then obtain xs' where t: "type_check accept strip (h_type h) k v xs = (None, xs')" "xs' \<noteq> []" by (metis prod.collapse)
  then show ?thesis using setKeyValue_refused [OF assms(1) t(1)] unfolding hash_lookup(3) [OF assms(1), of k] by blast
qed

theorem refused_assignment_creates_key_witness:
  "\<exists>h' xs'. setKeyValue (\<lambda>k v. Inr ''RUNTIME-TYPE-ERROR'') id ''a'' (Some (Scalar 1)) (hash_new ComplexHash) [] = Some (h', xs') \<and> hash_ok h' \<and> xs' \<noteq> []
    \<and> entries h' = [(''a'', None)]"
proof -
  have "hash_ok (hash_new ComplexHash)" "entries (hash_new ComplexHash) = []" using hash_ok_new by simp_all
  moreover have "h_type (hash_new ComplexHash) \<noteq> PlainHash" "\<not> existsKey ''a'' (hash_new ComplexHash)"
    by (simp_all add: hash_new_def existsKey_def)
  ultimately show ?thesis
    using refused_assignment_creates_key [of "hash_new ComplexHash" "[]" "''a''" "\<lambda>k v. Inr ''RUNTIME-TYPE-ERROR''" "Some (Scalar 1)" id] by simp
qed

section \<open>Slices\<close>

lemma slice_loop_plain:
  assumes "hash_ok h" "h_type h = PlainHash"
  shows "hash_ok rv \<Longrightarrow> h_type rv = PlainHash \<Longrightarrow> \<exists>rv'. slice_loop accept strip ks h rv [] = Some (Some rv', []) \<and> hash_ok rv'
    \<and> entries rv' = fold (\<lambda>k es. case map_of (entries h) k of None \<Rightarrow> es | Some v \<Rightarrow> AList.update k (strip v) es) ks (entries rv)"
proof (induction ks arbitrary: rv)
  case (Cons k ks)
  have g: "getKeyValueExistence k False h [] = Some (case map_of (entries h) k of None \<Rightarrow> (None, False) | Some v \<Rightarrow> (v, True), [])"
    using hash_lookup(2) [OF assms(1)] assms(2) by (simp add: getKeyValueExistence_def checkKey_def)
  show ?case
  proof (cases "map_of (entries h) k")
    case None
    then show ?thesis using g Cons by simp
  next
    case (Some v)
    obtain rv1 where rv1: "setKeyValueIntern k (strip v) rv = Some rv1" "hash_ok rv1" "entries rv1 = AList.update k (strip v) (entries rv)" "h_type rv1 = h_type rv"
      using setKeyValueIntern_ok [OF Cons.prems(1)] by blast
    have "setKeyValue accept strip k v rv [] = Some (rv1, [])"
      using setKeyValue_accepted [OF Cons.prems(1), of accept strip k v "[]" "strip v" "[]"] rv1 Cons.prems(2) by (simp add: type_check_def)
    then show ?thesis using g Some rv1 Cons.prems(2) Cons.IH [OF rv1(2)] by simp
  qed
qed simp

lemma getSlice_plain:
  assumes "hash_ok h" "h_type h = PlainHash"
  shows "\<exists>rv. getSlice accept strip ks h [] = Some (Some rv, []) \<and> hash_ok rv
    \<and> map_of (entries rv) = (\<lambda>k. if k \<in> set ks then map_option strip (map_of (entries h) k) else None)"
proof -
  let ?f = "\<lambda>k es. case map_of (entries h) k of None \<Rightarrow> es | Some v \<Rightarrow> AList.update k (strip v) es"
  have m: "map_of (fold ?f ks es) = (\<lambda>k. if k \<in> set ks \<and> map_of (entries h) k \<noteq> None then map_option strip (map_of (entries h) k) else map_of es k)" for es
    by (induction ks arbitrary: es) (auto simp: fun_eq_iff update_conv' split: option.splits)
  obtain rv where "slice_loop accept strip ks h (hash_new PlainHash) [] = Some (Some rv, [])" "hash_ok rv" "entries rv = fold ?f ks []"
    using slice_loop_plain [OF assms, of "hash_new PlainHash" accept strip ks] hash_ok_new [of PlainHash] by (auto simp: hash_new_def)
  then show ?thesis using assms(2) m [of "[]"] by (auto simp: getSlice_def fun_eq_iff)
qed

section \<open>Iteration\<close>

lemma pos_of_simps [simp]: "pos_of [] a = 0" "pos_of (b # ml) a = (if b = a then 0 else Suc (pos_of ml a))"
  by (simp_all add: pos_of_def)

lemma pos_of_nth: "distinct ml \<Longrightarrow> n < length ml \<Longrightarrow> pos_of ml (ml ! n) = n"
  by (induction ml arbitrary: n) (auto simp: nth_Cons split: nat.splits)

lemma next_step: "distinct ml \<Longrightarrow> n < length ml \<Longrightarrow>
  qhi_next ml \<lparr>it = ml ! n, it_val = True\<rparr> = (if Suc n < length ml then \<lparr>it = ml ! Suc n, it_val = True\<rparr> else \<lparr>it = ml ! n, it_val = False\<rparr>)"
  by (simp add: qhi_next_def pos_of_nth)

lemma prev_step: "distinct ml \<Longrightarrow> n < length ml \<Longrightarrow>
  qhi_prev ml \<lparr>it = ml ! n, it_val = True\<rparr> = (if n = 0 then \<lparr>it = ml ! n, it_val = False\<rparr> else \<lparr>it = ml ! (n - 1), it_val = True\<rparr>)"
  by (simp add: qhi_prev_def pos_of_nth)

lemma start_step: "\<not> it_val p \<Longrightarrow> ml \<noteq> [] \<Longrightarrow> qhi_next ml p = \<lparr>it = ml ! 0, it_val = True\<rparr>"
  "\<not> it_val p \<Longrightarrow> ml \<noteq> [] \<Longrightarrow> qhi_prev ml p = \<lparr>it = ml ! (length ml - 1), it_val = True\<rparr>"
  "\<not> it_val p \<Longrightarrow> qhi_next [] p = p"
  by (simp_all add: qhi_next_def qhi_prev_def hd_conv_nth last_conv_nth)

lemma qhi_new_val [simp]: "\<not> it_val qhi_new"
  by (simp add: qhi_new_def)

lemma next_walk: "distinct ml \<Longrightarrow> n < length ml \<Longrightarrow> (qhi_next ml ^^ Suc n) qhi_new = \<lparr>it = ml ! n, it_val = True\<rparr>"
  by (induction n) (auto simp: start_step next_step)

lemma next_end: "distinct ml \<Longrightarrow> \<not> it_val ((qhi_next ml ^^ Suc (length ml)) qhi_new)"
proof (cases "length ml")
  case (Suc n)
  assume d: "distinct ml"
  have "(qhi_next ml ^^ Suc (length ml)) qhi_new = qhi_next ml \<lparr>it = ml ! n, it_val = True\<rparr>" using next_walk [OF d, of n] Suc by simp
  then show ?thesis using next_step [OF d, of n] Suc by simp
qed (simp add: start_step)

lemma prev_walk: "distinct ml \<Longrightarrow> n < length ml \<Longrightarrow> (qhi_prev ml ^^ Suc n) qhi_new = \<lparr>it = ml ! (length ml - Suc n), it_val = True\<rparr>"
proof (induction n)
  case 0
  then show ?case by (simp add: start_step)
next
  case (Suc n)
  then show ?case using prev_step [OF Suc.prems(1), of "length ml - Suc n"] by simp
qed

lemma it_at:
  assumes "hash_ok h" "n < hash_size h"
  shows "it_getKey h \<lparr>it = member_list h ! n, it_val = True\<rparr> = Some (getKeys h ! n)"
    "it_get h \<lparr>it = member_list h ! n, it_val = True\<rparr> = getValues h ! n"
proof -
  obtain m where m: "cells h (member_list h ! n) = Some m" using assms hash_okD(2) [OF assms(1), of "member_list h ! n"] by (auto simp: hash_size_def)
  then show "it_getKey h \<lparr>it = member_list h ! n, it_val = True\<rparr> = Some (getKeys h ! n)"
    "it_get h \<lparr>it = member_list h ! n, it_val = True\<rparr> = getValues h ! n"
    using assms(2) by (simp_all add: it_getKey_def it_get_def getKeys_def getValues_def member_keys_def member_values_def hash_size_def)
qed

text \<open>
  A new iterator visits the entries in the order of insertion and then becomes invalid; moved backwards it visits them
  in the opposite order.
\<close>

theorem iterator_visits_in_order:
  assumes "hash_ok h"
  shows "map (\<lambda>n. it_getKey h ((qhi_next (member_list h) ^^ Suc n) qhi_new)) [0..<hash_size h] = map Some (getKeys h)
    \<and> map (\<lambda>n. it_get h ((qhi_next (member_list h) ^^ Suc n) qhi_new)) [0..<hash_size h] = getValues h
    \<and> \<not> it_val ((qhi_next (member_list h) ^^ Suc (hash_size h)) qhi_new)
    \<and> map (\<lambda>n. it_getKey h ((qhi_prev (member_list h) ^^ Suc n) qhi_new)) [0..<hash_size h] = map Some (rev (getKeys h))"
proof (intro conjI)
  note d = hash_okD(1) [OF assms]
  have l: "length (getKeys h) = hash_size h" "length (getValues h) = hash_size h" "length (member_list h) = hash_size h"
    by (simp_all add: getKeys_def getValues_def member_keys_def member_values_def hash_size_def)
  have w: "(qhi_next (member_list h) ^^ Suc n) qhi_new = \<lparr>it = member_list h ! n, it_val = True\<rparr>" if "n < hash_size h" for n
    using that l d by (intro next_walk) simp_all
  show "map (\<lambda>n. it_getKey h ((qhi_next (member_list h) ^^ Suc n) qhi_new)) [0..<hash_size h] = map Some (getKeys h)"
    by (rule nth_equalityI) (use l w it_at [OF assms] in \<open>simp_all del: funpow.simps\<close>)
  show "map (\<lambda>n. it_get h ((qhi_next (member_list h) ^^ Suc n) qhi_new)) [0..<hash_size h] = getValues h"
    by (rule nth_equalityI) (use l w it_at [OF assms] in \<open>simp_all del: funpow.simps\<close>)
  show "\<not> it_val ((qhi_next (member_list h) ^^ Suc (hash_size h)) qhi_new)" using next_end [OF d] l by metis
  have p: "(qhi_prev (member_list h) ^^ Suc n) qhi_new = \<lparr>it = member_list h ! (hash_size h - Suc n), it_val = True\<rparr>" if "n < hash_size h" for n
    using prev_walk [OF d, of n] that l by simp
  show "map (\<lambda>n. it_getKey h ((qhi_prev (member_list h) ^^ Suc n) qhi_new)) [0..<hash_size h] = map Some (rev (getKeys h))"
    by (rule nth_equalityI) (use l p it_at [OF assms] in \<open>simp_all add: rev_nth del: funpow.simps\<close>)
qed

theorem iterator_visits_in_order_witness:
  "\<exists>h. entries h = [(''b'', Some (Scalar 1)), (''a'', None)]
    \<and> map (\<lambda>n. it_getKey h ((qhi_next (member_list h) ^^ Suc n) qhi_new)) [0..<2] = [Some ''b'', Some ''a'']"
proof -
  obtain h where h: "hash_ok h" "entries h = [(''b'', Some (Scalar 1)), (''a'', None)]"
    using hash_with_entries [of "[(''b'', Some (Scalar 1)), (''a'', None)]"] by auto
  have "hash_size h = 2" "getKeys h = [''b'', ''a'']" using hash_lookup(4,6) [OF h(1)] h(2) by simp_all
  then show ?thesis using iterator_visits_in_order [OF h(1)] h(2) by auto
qed

lemma remove1_nth: "distinct ml \<Longrightarrow> n < length ml \<Longrightarrow> remove1 (ml ! n) ml = take n ml @ drop (Suc n) ml"
  by (induction ml arbitrary: n) (auto simp: nth_Cons take_Cons' drop_Cons' split: nat.splits)

text \<open>The iterator after the removal of the member it stands at, moved forward, is at the successor.\<close>

lemma remove_then_next:
  assumes "distinct ml" "n < length ml"
  defines "ml' \<equiv> remove1 (ml ! n) ml" and "p \<equiv> qhi_prev ml \<lparr>it = ml ! n, it_val = True\<rparr>"
  shows "if Suc n < length ml then qhi_next ml' p = \<lparr>it = ml' ! n, it_val = True\<rparr> else \<not> it_val (qhi_next ml' p)"
proof -
  have ml': "ml' = take n ml @ drop (Suc n) ml" "length ml' = length ml - 1" "distinct ml'"
    unfolding ml'_def using remove1_nth [OF assms(1,2)] distinct_remove1 [OF assms(1)] length_remove1 [of "ml ! n" ml] nth_mem [OF assms(2)] by metis+
  show ?thesis
  proof (cases "n = 0")
    case True
    then have p: "\<not> it_val p" using prev_step [OF assms(1,2)] by (simp add: p_def)
    show ?thesis using True ml'(2) start_step(1,3) [OF p] assms(2) p by (cases ml') auto
  next
    case False
    have "ml' ! (n - 1) = ml ! (n - 1)" using False assms(2) by (simp add: ml'(1) nth_append)
    then have "p = \<lparr>it = ml' ! (n - 1), it_val = True\<rparr>" using False prev_step [OF assms(1,2)] by (simp add: p_def)
    then show ?thesis using False next_step [OF ml'(3), of "n - 1"] ml'(2) assms(2) by auto
  qed
qed

text \<open>
  C23: Removing the member an iterator stands at takes exactly that entry out of the hash, and the next move of the iterator goes
  to the entry that followed it, or to the end: a loop that removes entries while it iterates skips none and visits none twice.
\<close>

theorem iterator_removal_continues:
  assumes "hash_ok h" "n < hash_size h"
  shows "\<exists>h' p'. it_removeKeyValue h \<lparr>it = member_list h ! n, it_val = True\<rparr> = Some (getValues h ! n, h', p') \<and> hash_ok h'
    \<and> entries h' = take n (entries h) @ drop (Suc n) (entries h)
    \<and> it_getKey h' (qhi_next (member_list h') p') = (if Suc n < hash_size h then Some (getKeys h ! Suc n) else None)"
proof -
  note d = hash_okD [OF assms(1)]
  have n: "n < length (member_list h)" using assms(2) by (simp add: hash_size_def)
  let ?a = "member_list h ! n"
  obtain m where m: "cells h ?a = Some m" using d(2) [of ?a] n by auto
  then have k: "hm h (m_key m) = Some ?a" using d(4) by blast
  define h' where "h' = h\<lparr>hm := (hm h)(m_key m := None), member_list := remove1 ?a (member_list h), cells := (cells h)(?a := None),
      obj_count := obj_count h - (if hneeds_scan (m_val m) then 1 else 0)\<rparr>"
  let ?p = "qhi_prev (member_list h) \<lparr>it = ?a, it_val = True\<rparr>"
  note u = unlink_ok [OF assms(1) k m h'_def]
  have v: "m_val m = getValues h ! n" using m n by (simp add: getValues_def member_values_def)
  have r: "it_removeKeyValue h \<lparr>it = ?a, it_val = True\<rparr> = Some (getValues h ! n, h', ?p)"
    using m k u(3) unfolding v [symmetric] by (simp add: it_removeKeyValue_def internDeleteKey_def incScanCount_def h'_def Let_def)
  have ml': "member_list h' = take n (member_list h) @ drop (Suc n) (member_list h)" using remove1_nth [OF d(1) n] by (simp add: h'_def)
  have "entry h' b = entry h b" if "b \<in> set (member_list h')" for b
    using that d(1) by (simp add: h'_def entry_def)
  then have "map (entry h') (member_list h') = map (entry h) (member_list h')" by (intro map_cong) simp_all
  then have e: "entries h' = take n (entries h) @ drop (Suc n) (entries h)" by (simp add: entries_def ml' take_map drop_map)
  have "it_getKey h' (qhi_next (member_list h') ?p) = (if Suc n < hash_size h then Some (getKeys h ! Suc n) else None)"
  proof (cases "Suc n < hash_size h")
    case True
    then have "qhi_next (member_list h') ?p = \<lparr>it = member_list h' ! n, it_val = True\<rparr>"
      using remove_then_next [OF d(1) n] by (simp add: h'_def hash_size_def)
    moreover have "n < hash_size h'" using True ml' n by (simp add: hash_size_def)
    moreover have "getKeys h' ! n = getKeys h ! Suc n" using True e hash_lookup(4,6) u(1) assms(1) by (simp add: nth_append)
    ultimately show ?thesis using True it_at(1) [OF u(1)] by simp
  next
    case False
    then show ?thesis using remove_then_next [OF d(1) n] by (simp add: h'_def hash_size_def it_getKey_def)
  qed
  then show ?thesis using r u(1) e by blast
qed

theorem iterator_removal_continues_witness:
  "\<exists>h h' p'. entries h = [(''a'', None), (''b'', Some (Scalar 1)), (''c'', None)]
    \<and> it_removeKeyValue h \<lparr>it = member_list h ! 1, it_val = True\<rparr> = Some (Some (Scalar 1), h', p')
    \<and> entries h' = [(''a'', None), (''c'', None)] \<and> it_getKey h' (qhi_next (member_list h') p') = Some ''c''"
proof -
  obtain h where h: "hash_ok h" "entries h = [(''a'', None), (''b'', Some (Scalar 1)), (''c'', None)]"
    using hash_with_entries [of "[(''a'', None), (''b'', Some (Scalar 1)), (''c'', None)]"] by auto
  have f: "hash_size h = 3" "getKeys h = [''a'', ''b'', ''c'']" "getValues h = [None, Some (Scalar 1), None]"
    using hash_lookup(4-6) [OF h(1)] h(2) by simp_all
  obtain h' p' where "it_removeKeyValue h \<lparr>it = member_list h ! 1, it_val = True\<rparr> = Some (getValues h ! 1, h', p')"
    "entries h' = take 1 (entries h) @ drop (Suc 1) (entries h)"
    "it_getKey h' (qhi_next (member_list h') p') = (if Suc 1 < hash_size h then Some (getKeys h ! Suc 1) else None)"
    using iterator_removal_continues [OF h(1), of 1] f(1) by auto
  then show ?thesis using f h(2) by (intro exI [of _ h] exI [of _ h'] exI [of _ p']) simp
qed

section \<open>Types\<close>

text \<open>
  What the types of a hash promise of its entries: \<open>ok k v\<close> says that the value fits the type of the key.  A key of a hash with a declaration is one of its members, or it was
  made by an assignment that was refused and has no value.
\<close>

definition entry_typed :: "hash_type \<Rightarrow> (string \<Rightarrow> hvalue \<Rightarrow> bool) \<Rightarrow> string \<times> hvalue \<Rightarrow> bool" where
  "entry_typed ty ok e \<longleftrightarrow> snd e = None \<or> (ok (fst e) (snd e) \<and> (case ty of HashDecl ms \<Rightarrow> fst e \<in> set ms | _ \<Rightarrow> True))"

definition typed_op :: "hash_op \<Rightarrow> bool" where
  "typed_op op \<longleftrightarrow> (case op of SetKeyValueIntern _ _ \<Rightarrow> False | SwapKeyValue _ _ \<Rightarrow> False | SwapKeyValueIfExists _ _ \<Rightarrow> False | _ \<Rightarrow> True)"

lemma set_update_subset: "set (AList.update k v es) \<subseteq> insert (k, v) (set es)"
  by (induction es) auto

lemma set_delete_subset: "set (AList.delete k es) \<subseteq> set es"
  by (auto simp: AList.delete_eq)

lemma type_check_typed:
  assumes "ty \<noteq> PlainHash" "\<And>k v w. accept k v = Inl w \<Longrightarrow> ok k w" "type_check accept strip ty k v xs = (Some w, xs')"
  shows "entry_typed ty ok (k, w)"
  using assms by (cases ty) (auto simp: type_check_def acceptInputKey_def entry_typed_def split: sum.splits if_splits)

lemma spec_exec_typed:
  assumes "typed_op op" "al_type a \<noteq> PlainHash" "\<And>k v w. accept k v = Inl w \<Longrightarrow> ok k w" "\<forall>e\<in>set (al a). entry_typed (al_type a) ok e"
    and "spec_exec accept strip op a xs = (r, a', xs')"
  shows "al_type a' = al_type a \<and> (\<forall>e\<in>set (al a'). entry_typed (al_type a) ok e)"
proof -
  have n: "entry_typed ty ok (k, None)" for ty k by (simp add: entry_typed_def)
  have c: "al_type (al_create k a) = al_type a \<and> (\<forall>e\<in>set (al (al_create k a)). entry_typed (al_type a) ok e)" for k
    using assms(4) n by (auto simp: al_create_def)
  have p: "entry_typed (al_type a) ok (k, w) \<Longrightarrow> \<forall>e\<in>set (AList.update k w (al a)). entry_typed (al_type a) ok e" for k w
    using assms(4) set_update_subset [of k w "al a"] by blast
  have d: "\<forall>e\<in>set (AList.delete k (al a)). entry_typed (al_type a) ok e" for k using assms(4) set_delete_subset [of k "al a"] by blast
  show ?thesis
  proof (cases op)
    case (SetKeyValue k v)
    obtain w ys where t: "type_check accept strip (al_type a) k v xs = (w, ys)" by fastforce
    show ?thesis
    proof (cases w)
      case None
      then show ?thesis using assms(5) SetKeyValue t c [of k] by simp
    next
      case (Some u)
      then show ?thesis using assms(5) SetKeyValue t p [OF type_check_typed [OF assms(2,3) t [unfolded Some]]] by (auto simp: al_put_def)
    qed
  qed (use assms(1,4,5) c d in \<open>auto simp: typed_op_def split: if_splits\<close>)
qed

text \<open>
  C22: In a hash with a declaration or a complex type that is changed by assignments with a type check, by making lvalues and by removals, every value fits the type of its key, and the keys
  that have a value are members of the declaration.
\<close>

theorem hash_values_typed:
  assumes "ty \<noteq> PlainHash" "\<And>k v w. accept k v = Inl w \<Longrightarrow> ok k w" "\<forall>op\<in>set ops. typed_op op"
  shows "\<exists>rs h xs. hash_run accept strip ops (hash_new ty) [] = Some (rs, h, xs) \<and> (\<forall>e\<in>set (entries h). entry_typed ty ok e)"
proof -
  have run: "al_type a \<noteq> PlainHash \<Longrightarrow> \<forall>e\<in>set (al a). entry_typed (al_type a) ok e \<Longrightarrow> spec_run accept strip ops a xs = (rs, a', xs') \<Longrightarrow>
      \<forall>e\<in>set (al a'). entry_typed (al_type a) ok e" for a xs rs a' xs'
    using assms(3)
  proof (induction ops arbitrary: a xs rs)
    case (Cons op ops)
    obtain r a1 xs1 where e: "spec_exec accept strip op a xs = (r, a1, xs1)" by (cases "spec_exec accept strip op a xs") blast
    obtain rs1 where s: "spec_run accept strip ops a1 xs1 = (rs1, a', xs')" using Cons.prems(3) e by (auto simp: Let_def split: prod.splits)
    have t: "al_type a1 = al_type a" "\<forall>e\<in>set (al a1). entry_typed (al_type a1) ok e"
      using spec_exec_typed [OF _ Cons.prems(1) assms(2) Cons.prems(2) e] Cons.prems(4) by simp_all
    then show ?case using Cons.IH [OF _ t(2) s] Cons.prems(1,4) by simp
  qed simp
  obtain h rs xs where "hash_run accept strip ops (hash_new ty) [] = Some (rs, h, xs)" "spec_run accept strip ops \<lparr>al = [], al_type = ty, al_valid = True\<rparr> [] = (rs, hash_abs h, xs)"
    using hash_run_refines by blast
  then show ?thesis using run [of "\<lparr>al = [], al_type = ty, al_valid = True\<rparr>" "[]" rs "hash_abs h" xs] assms(1) by auto
qed

theorem hash_values_typed_witness:
  "\<exists>rs h xs. hash_run (\<lambda>k v. if v = Some (Scalar 1) then Inl v else Inr ''RUNTIME-TYPE-ERROR'') id
      [SetKeyValue ''a'' (Some (Scalar 1)), SetKeyValue ''b'' (Some (Scalar 2))] (hash_new ComplexHash) [] = Some (rs, h, xs)
    \<and> (\<forall>e\<in>set (entries h). entry_typed ComplexHash (\<lambda>k v. v = Some (Scalar 1)) e)"
  by (rule hash_values_typed) (auto simp: typed_op_def split: if_splits)

end
