(* ===== verification/List_Core.thy ===== *)
theory List_Core
  imports Hash_Members
begin

text \<open>
  Lists (\<open>qore_list_private\<close>, \<open>src/include/qore/intern/qore_list_private.h\<close>, and \<open>src/lib/QoreListNode.cpp\<close>): an array
  of values that has been allocated and the number of values in use.  A cell of the array that has never been written is
  \<open>None\<close>; \<open>None\<close> as the result of an operation is an access outside of the allocation, the use of a cell that has not been written, or
  a failed assertion.  The type checks of the values are parameters.
\<close>

section \<open>State\<close>

datatype list_type = PlainList | ComplexList

record qlist =
  l_entry :: "hvalue option list"
  l_length :: nat
  l_obj_count :: int
  l_type :: list_type
  l_valid :: bool

text \<open>
  What the lists use of the types: whether a value is a list or a hash and its copy without type information, whether the
  element type takes the value as it is, and the check of an assignment, with the value to store or the exception raised.
\<close>

record list_types =
  lt_container :: "hvalue \<Rightarrow> bool"
  lt_strip :: "hvalue \<Rightarrow> hvalue"
  lt_super :: "hvalue \<Rightarrow> bool"
  lt_accept :: "hvalue \<Rightarrow> hvalue + string"

definition list_new :: "list_type \<Rightarrow> qlist" where
  "list_new ty = \<lparr>l_entry = [], l_length = 0, l_obj_count = 0, l_type = ty, l_valid = True\<rparr>"

definition list_checkValid :: "qlist \<Rightarrow> xsink \<Rightarrow> int \<times> xsink" where
  "list_checkValid l xs = (if \<not> l_valid l then (- 1, raiseException xs ''LIST-ERROR'') else (0, xs))"

definition list_incScanCount :: "int \<Rightarrow> qlist \<Rightarrow> qlist option" where
  "list_incScanCount dt l =
     (if dt = 0 \<or> \<not> (l_obj_count l \<noteq> 0 \<or> dt > 0) then None else Some (l\<lparr>l_obj_count := l_obj_count l + dt\<rparr>))"

definition scan_add :: "hvalue \<Rightarrow> qlist \<Rightarrow> qlist option" where
  "scan_add v l = (if hneeds_scan v then list_incScanCount 1 l else Some l)"

definition scan_remove :: "hvalue \<Rightarrow> qlist \<Rightarrow> qlist option" where
  "scan_remove v l = (if hneeds_scan v then list_incScanCount (- 1) l else Some l)"

section \<open>The array\<close>

definition get_cell :: "nat \<Rightarrow> qlist \<Rightarrow> hvalue option" where
  "get_cell i l = (if i < length (l_entry l) then l_entry l ! i else None)"

definition set_cell :: "nat \<Rightarrow> hvalue \<Rightarrow> qlist \<Rightarrow> qlist option" where
  "set_cell i v l = (if i < length (l_entry l) then Some (l\<lparr>l_entry := (l_entry l)[i := Some v]\<rparr>) else None)"

definition mem_move :: "nat \<Rightarrow> nat \<Rightarrow> nat \<Rightarrow> qlist \<Rightarrow> qlist option" where
  "mem_move dst src n l =
     (if dst + n \<le> length (l_entry l) \<and> src + n \<le> length (l_entry l)
      then Some (l\<lparr>l_entry := take dst (l_entry l) @ take n (drop src (l_entry l)) @ drop (dst + n) (l_entry l)\<rparr>) else None)"

primrec zeroEntries :: "nat \<Rightarrow> nat \<Rightarrow> qlist \<Rightarrow> qlist option" where
  "zeroEntries start 0 l = Some l"
| "zeroEntries start (Suc n) l = do { l \<leftarrow> set_cell start None l; zeroEntries (Suc start) n l }"

definition list_allocate :: "nat \<Rightarrow> qlist \<Rightarrow> qlist" where
  "list_allocate num l =
     (let d = num div 4; allocated = num + (if d < 15 then 15 else d)
      in l\<lparr>l_entry := l_entry l @ replicate (allocated - length (l_entry l)) None\<rparr>)"

definition list_reserve :: "nat \<Rightarrow> qlist \<Rightarrow> qlist" where
  "list_reserve num l = (if num < l_length l then l else if num \<ge> length (l_entry l) then list_allocate num l else l)"

definition list_resize :: "nat \<Rightarrow> qlist \<Rightarrow> qlist option" where
  "list_resize num l =
     (if num < l_length l then Some (l\<lparr>l_length := num\<rparr>)
      else do {
        let l = (if num \<ge> length (l_entry l) then list_allocate num l else l);
        l \<leftarrow> zeroEntries (l_length l) (num - l_length l) l;
        Some (l\<lparr>l_length := num\<rparr>) })"

definition list_getEntryReference :: "nat \<Rightarrow> qlist \<Rightarrow> qlist option" where
  "list_getEntryReference num l = (if num \<ge> l_length l then list_resize (num + 1) l else Some l)"

definition retrieveEntry :: "nat \<Rightarrow> qlist \<Rightarrow> hvalue option" where
  "retrieveEntry num l = (if num \<ge> l_length l then Some None else get_cell num l)"

section \<open>Single values\<close>

definition pushIntern :: "hvalue \<Rightarrow> qlist \<Rightarrow> qlist option" where
  "pushIntern v l = do {
     let i = l_length l;
     l \<leftarrow> list_getEntryReference i l;
     l \<leftarrow> set_cell i v l;
     scan_add v l }"

definition stripVal :: "list_types \<Rightarrow> hvalue \<Rightarrow> xsink \<Rightarrow> hvalue option \<times> xsink" where
  "stripVal te v xs =
     (if lt_container te v then (if xs \<noteq> [] then (None, xs) else (Some (lt_strip te v), xs)) else (Some v, xs))"

definition checkVal :: "list_types \<Rightarrow> list_type \<Rightarrow> hvalue \<Rightarrow> xsink \<Rightarrow> hvalue option \<times> xsink" where
  "checkVal te ty v xs =
     (case ty of
        ComplexList \<Rightarrow>
          (if \<not> lt_super te v
           then (case lt_accept te v of
                   Inr e \<Rightarrow> (None, raiseException xs e)
                 | Inl w \<Rightarrow> if xs \<noteq> [] then (None, xs) else (Some w, xs))
           else (Some v, xs))
      | PlainList \<Rightarrow> stripVal te v xs)"

definition list_push :: "list_types \<Rightarrow> hvalue \<Rightarrow> qlist \<Rightarrow> xsink \<Rightarrow> (int \<times> qlist \<times> xsink) option" where
  "list_push te v l xs =
     (case checkVal te (l_type l) v xs of
        (None, xs) \<Rightarrow> Some (- 1, l, xs)
      | (Some w, xs) \<Rightarrow> do { l \<leftarrow> pushIntern w l; Some (0, l, xs) })"

definition list_node_push :: "list_types \<Rightarrow> hvalue \<Rightarrow> qlist \<Rightarrow> xsink \<Rightarrow> (int \<times> qlist \<times> xsink) option" where
  "list_node_push te v l xs =
     (let (rc, xs) = list_checkValid l xs in if rc \<noteq> 0 then Some (- 1, l, xs) else list_push te v l xs)"

text \<open>
  \<open>insert\<close> asks the value it was given, not the one it stores, whether it needs a scan.  The lifetime of values is not modelled:
  where the type check replaces the value by a converted one, the one it was given may have been released by then.
\<close>

definition list_insert :: "list_types \<Rightarrow> hvalue \<Rightarrow> qlist \<Rightarrow> xsink \<Rightarrow> (int \<times> qlist \<times> xsink) option" where
  "list_insert te v l xs =
     (case checkVal te (l_type l) v xs of
        (None, xs) \<Rightarrow> Some (- 1, l, xs)
      | (Some w, xs) \<Rightarrow> do {
          l \<leftarrow> list_resize (l_length l + 1) l;
          l \<leftarrow> (if l_length l - 1 \<noteq> 0 then mem_move 1 0 (l_length l - 1) l else Some l);
          l \<leftarrow> set_cell 0 w l;
          l \<leftarrow> scan_add v l;
          Some (0, l, xs) })"

definition list_shift :: "qlist \<Rightarrow> (hvalue \<times> qlist) option" where
  "list_shift l =
     (if l_length l = 0 then Some (None, l)
      else do {
        rv \<leftarrow> get_cell 0 l;
        let pos = l_length l - 1;
        l \<leftarrow> mem_move 0 1 pos l;
        l \<leftarrow> set_cell pos None l;
        l \<leftarrow> list_resize pos l;
        l \<leftarrow> scan_remove rv l;
        Some (rv, l) })"

definition list_pop :: "qlist \<Rightarrow> (hvalue \<times> qlist) option" where
  "list_pop l =
     (if l_length l = 0 then Some (None, l)
      else do {
        let pos = l_length l - 1;
        rv \<leftarrow> get_cell pos l;
        l \<leftarrow> set_cell pos None l;
        l \<leftarrow> list_resize pos l;
        l \<leftarrow> scan_remove rv l;
        Some (rv, l) })"

definition setEntry :: "nat \<Rightarrow> hvalue \<Rightarrow> qlist \<Rightarrow> qlist option" where
  "setEntry index v l = do {
     l \<leftarrow> (if index \<ge> l_length l then list_resize (index + 1) l else Some l);
     old \<leftarrow> get_cell index l;
     l \<leftarrow> scan_remove old l;
     l \<leftarrow> set_cell index v l;
     scan_add v l }"

definition list_swap :: "nat \<Rightarrow> hvalue \<Rightarrow> qlist \<Rightarrow> (hvalue \<times> qlist) option" where
  "list_swap offset v l = do {
     l \<leftarrow> list_getEntryReference offset l;
     old \<leftarrow> get_cell offset l;
     let l = (if hneeds_scan old then (if \<not> hneeds_scan v then l\<lparr>l_obj_count := l_obj_count l - 1\<rparr> else l)
              else if hneeds_scan v then l\<lparr>l_obj_count := l_obj_count l + 1\<rparr> else l);
     l \<leftarrow> set_cell offset v l;
     Some (old, l) }"

definition takeExists :: "nat \<Rightarrow> qlist \<Rightarrow> (hvalue \<times> qlist) option" where
  "takeExists offset l =
     (if offset \<ge> l_length l then Some (None, l)
      else do {
        rv \<leftarrow> get_cell offset l;
        l \<leftarrow> set_cell offset None l;
        Some (rv, if hneeds_scan rv then l\<lparr>l_obj_count := l_obj_count l - 1\<rparr> else l) })"

definition getAndClear :: "nat \<Rightarrow> qlist \<Rightarrow> (hvalue \<times> qlist) option" where
  "getAndClear i l =
     (if i \<ge> l_length l then Some (None, l)
      else do {
        rv \<leftarrow> get_cell i l;
        l \<leftarrow> set_cell i None l;
        l \<leftarrow> scan_remove rv l;
        Some (rv, l) })"

text \<open>An lvalue for an index: the list is extended so that the index exists.\<close>

definition list_getLValue :: "nat \<Rightarrow> qlist \<Rightarrow> xsink \<Rightarrow> (int \<times> qlist \<times> xsink) option" where
  "list_getLValue ind l xs =
     (let (rc, xs) = list_checkValid l xs
      in if rc \<noteq> 0 then Some (- 1, l, xs)
         else do { l \<leftarrow> (if ind \<ge> l_length l then list_resize (ind + 1) l else Some l); Some (0, l, xs) })"

section \<open>Splicing\<close>

definition list_checkOffset :: "int \<Rightarrow> qlist \<Rightarrow> nat" where
  "list_checkOffset offset l =
     (if offset < 0 then (let offset = int (l_length l) + offset in if offset < 0 then 0 else nat offset)
      else if offset > int (l_length l) then l_length l else nat offset)"

definition list_checkOffset_len :: "int \<Rightarrow> int \<Rightarrow> qlist \<Rightarrow> nat \<times> nat" where
  "list_checkOffset_len offset ln l =
     (let n_offset = list_checkOffset offset l
      in (n_offset, if ln < 0 then (let ln = int (l_length l) + ln - int n_offset in if ln < 0 then 0 else nat ln) else nat ln))"

definition list_getCopy :: "qlist \<Rightarrow> qlist" where
  "list_getCopy l = list_new (l_type l)"

text \<open>\<open>removeEntry\<close>: the removed value goes into the list \<open>rv\<close>, which is made when there is none.\<close>

definition removeEntry :: "hvalue \<Rightarrow> qlist \<Rightarrow> qlist option \<Rightarrow> (qlist \<times> qlist option) option" where
  "removeEntry v l rv = do {
     l \<leftarrow> scan_remove v l;
     r \<leftarrow> pushIntern v (case rv of None \<Rightarrow> list_new ComplexList | Some r \<Rightarrow> r);
     Some (l, Some r) }"

primrec remove_entries :: "nat \<Rightarrow> nat \<Rightarrow> qlist \<Rightarrow> qlist option \<Rightarrow> (qlist \<times> qlist option) option" where
  "remove_entries i 0 l rv = Some (l, rv)"
| "remove_entries i (Suc n) l rv = do {
     v \<leftarrow> get_cell i l;
     (l, rv) \<leftarrow> removeEntry v l rv;
     remove_entries (Suc i) n l rv }"

definition splice_end :: "nat \<Rightarrow> nat \<Rightarrow> qlist \<Rightarrow> nat \<times> nat" where
  "splice_end offset ln l =
     (if ln > l_length l - offset then (l_length l, l_length l - offset) else (offset + ln, ln))"

definition spliceIntern :: "nat \<Rightarrow> nat \<Rightarrow> bool \<Rightarrow> qlist \<Rightarrow> (qlist option \<times> qlist) option" where
  "spliceIntern offset ln ext l = do {
     let (e, ln) = splice_end offset ln l;
     (l, rv) \<leftarrow> remove_entries offset (e - offset) l (if ext then Some (list_getCopy l) else None);
     l \<leftarrow> (if e \<noteq> l_length l
          then do { l \<leftarrow> mem_move offset e (l_length l - e) l; zeroEntries (l_length l - ln) ln l }
          else if e = 0 then None else set_cell (e - 1) None l);
     l \<leftarrow> list_resize (l_length l - ln) l;
     Some (rv, l) }"

definition spliceSingle :: "nat \<Rightarrow> qlist \<Rightarrow> (hvalue \<times> qlist) option" where
  "spliceSingle offset l =
     (if offset \<ge> l_length l then None
      else do {
        rv \<leftarrow> get_cell offset l;
        l \<leftarrow> scan_remove rv l;
        let e = offset + 1;
        l \<leftarrow> (if e \<noteq> l_length l
             then do { l \<leftarrow> mem_move offset e (l_length l - e) l; zeroEntries (l_length l - 1) 1 l }
             else set_cell (e - 1) None l);
        l \<leftarrow> (if l_length l > 0 then list_resize (l_length l - 1) l else Some l);
        Some (rv, l) })"

text \<open>The values to insert: a single value, or the values of a list.\<close>

datatype splice_arg = ArgValue hvalue | ArgList "hvalue list"

primrec check_values :: "list_types \<Rightarrow> list_type \<Rightarrow> hvalue list \<Rightarrow> xsink \<Rightarrow> hvalue list option \<times> xsink" where
  "check_values te ty [] xs = (Some [], xs)"
| "check_values te ty (v # vs) xs =
     (case checkVal te ty v xs of
        (None, xs) \<Rightarrow> (None, xs)
      | (Some w, xs) \<Rightarrow> (case check_values te ty vs xs of (None, xs) \<Rightarrow> (None, xs) | (Some ws, xs) \<Rightarrow> (Some (w # ws), xs)))"

definition arg_values :: "splice_arg \<Rightarrow> hvalue list" where
  "arg_values a = (case a of ArgValue v \<Rightarrow> [v] | ArgList vs \<Rightarrow> vs)"

primrec store_entries :: "nat \<Rightarrow> hvalue list \<Rightarrow> qlist \<Rightarrow> qlist option" where
  "store_entries i [] l = Some l"
| "store_entries i (v # vs) l = do { l \<leftarrow> scan_add v l; l \<leftarrow> set_cell i v l; store_entries (Suc i) vs l }"

definition spliceIntern_value ::
    "list_types \<Rightarrow> nat \<Rightarrow> nat \<Rightarrow> splice_arg \<Rightarrow> bool \<Rightarrow> qlist \<Rightarrow> xsink \<Rightarrow> (qlist option \<times> qlist \<times> xsink) option" where
  "spliceIntern_value te offset ln a ext l xs =
     (case check_values te (l_type l) (arg_values a) xs of
        (None, xs) \<Rightarrow> Some (None, l, xs)
      | (Some ws, xs) \<Rightarrow> do {
          let (e, ln) = splice_end offset ln l;
          (l, rv) \<leftarrow> remove_entries offset (e - offset) l (if ext then Some (list_getCopy l) else None);
          let n = length (arg_values a);
          let ol = l_length l;
          l \<leftarrow> (if n > ln
               then do {
                 l \<leftarrow> list_resize (ol - ln + n) l;
                 (if e \<noteq> ol then mem_move (e - ln + n) e (ol - e) l else Some l) }
               else if ln > n
               then do {
                 l \<leftarrow> mem_move (offset + n) (offset + ln) (ol - offset - n) l;
                 l \<leftarrow> zeroEntries (ol - (ln - n)) (ln - n) l;
                 list_resize (ol - (ln - n)) l }
               else Some l);
          l \<leftarrow> (case a of
                 ArgValue v \<Rightarrow> do { l \<leftarrow> set_cell offset (List.hd ws) l; scan_add v l }
               | ArgList vs \<Rightarrow> store_entries offset ws l);
          Some (rv, l, xs) })"

definition list_splice :: "int \<Rightarrow> qlist \<Rightarrow> (qlist option \<times> qlist) option" where
  "list_splice offset l =
     (let n_offset = list_checkOffset offset l
      in if n_offset = l_length l then Some (None, l) else spliceIntern n_offset (l_length l - n_offset) False l)"

definition list_splice_len :: "int \<Rightarrow> int \<Rightarrow> qlist \<Rightarrow> (qlist option \<times> qlist) option" where
  "list_splice_len offset ln l =
     (let (n_offset, n_len) = list_checkOffset_len offset ln l
      in if n_offset = l_length l then Some (None, l) else spliceIntern n_offset n_len False l)"

definition list_splice_value ::
    "list_types \<Rightarrow> int \<Rightarrow> int \<Rightarrow> splice_arg \<Rightarrow> qlist \<Rightarrow> xsink \<Rightarrow> (qlist option \<times> qlist \<times> xsink) option" where
  "list_splice_value te offset ln a l xs =
     (let (n_offset, n_len) = list_checkOffset_len offset ln l in spliceIntern_value te n_offset n_len a False l xs)"

definition list_extract :: "int \<Rightarrow> qlist \<Rightarrow> (qlist option \<times> qlist) option" where
  "list_extract offset l =
     (let n_offset = list_checkOffset offset l
      in if n_offset = l_length l then Some (Some (list_getCopy l), l) else spliceIntern n_offset (l_length l - n_offset) True l)"

definition list_extract_len :: "int \<Rightarrow> int \<Rightarrow> qlist \<Rightarrow> (qlist option \<times> qlist) option" where
  "list_extract_len offset ln l =
     (let (n_offset, n_len) = list_checkOffset_len offset ln l
      in if n_offset = l_length l then Some (Some (list_getCopy l), l) else spliceIntern n_offset n_len True l)"

definition list_extract_value ::
    "list_types \<Rightarrow> int \<Rightarrow> int \<Rightarrow> splice_arg \<Rightarrow> qlist \<Rightarrow> xsink \<Rightarrow> (qlist option \<times> qlist \<times> xsink) option" where
  "list_extract_value te offset ln a l xs =
     (let (n_offset, n_len) = list_checkOffset_len offset ln l in spliceIntern_value te n_offset n_len a True l xs)"

section \<open>Whole lists\<close>

primrec push_all :: "hvalue list \<Rightarrow> qlist \<Rightarrow> qlist option" where
  "push_all [] l = Some l"
| "push_all (v # vs) l = do { l \<leftarrow> pushIntern v l; push_all vs l }"

text \<open>The values in the cells from \<open>i\<close> on, \<open>n\<close> of them.\<close>

primrec read_cells :: "nat \<Rightarrow> nat \<Rightarrow> qlist \<Rightarrow> hvalue list option" where
  "read_cells i 0 l = Some []"
| "read_cells i (Suc n) l = do { v \<leftarrow> get_cell i l; vs \<leftarrow> read_cells (Suc i) n l; Some (v # vs) }"

definition list_copyIntern :: "qlist \<Rightarrow> qlist \<Rightarrow> qlist option" where
  "list_copyIntern this l = do { vs \<leftarrow> read_cells 0 (l_length this) this; push_all vs (list_reserve (l_length this) l) }"

definition list_copy :: "qlist \<Rightarrow> qlist option" where
  "list_copy l = list_copyIntern l (list_getCopy l)"

definition copyListFrom :: "nat \<Rightarrow> qlist \<Rightarrow> qlist option" where
  "copyListFrom index l = do { vs \<leftarrow> read_cells index (l_length l - index) l; push_all vs (list_getCopy l) }"

primrec list_merge_loop :: "list_types \<Rightarrow> hvalue list \<Rightarrow> qlist \<Rightarrow> xsink \<Rightarrow> (int \<times> qlist \<times> xsink) option" where
  "list_merge_loop te [] l xs = Some (0, l, xs)"
| "list_merge_loop te (v # vs) l xs = do {
     (rc, l, xs) \<leftarrow> list_push te v l xs;
     if rc \<noteq> 0 then Some (- 1, l, xs) else list_merge_loop te vs l xs }"

definition list_merge :: "list_types \<Rightarrow> qlist \<Rightarrow> qlist \<Rightarrow> xsink \<Rightarrow> (int \<times> qlist \<times> xsink) option" where
  "list_merge te m l xs = do { vs \<leftarrow> read_cells 0 (l_length m) m; list_merge_loop te vs (list_reserve (l_length l + l_length m) l) xs }"

primrec reverse_entries :: "nat \<Rightarrow> nat \<Rightarrow> qlist \<Rightarrow> qlist \<Rightarrow> qlist option" where
  "reverse_entries i 0 this l = Some l"
| "reverse_entries i (Suc n) this l = do {
     v \<leftarrow> get_cell (l_length this - i - 1) this;
     l \<leftarrow> set_cell i v l;
     reverse_entries (Suc i) n this l }"

definition list_reverse :: "qlist \<Rightarrow> qlist option" where
  "list_reverse this = do { l \<leftarrow> list_resize (l_length this) (list_getCopy this); reverse_entries 0 (l_length this) this l }"

end
