(* ===== verification/List_Ops.thy ===== *)
theory List_Ops
  imports List_Core
begin

text \<open>
  The operations on lists against lists of values.  \<open>holds l vs\<close> says that the list \<open>l\<close> holds the values \<open>vs\<close>; \<open>list_st l vs d\<close> says
  in addition that its scan count is \<open>d\<close> above the number of values that need a scan; the count is exact when \<open>d\<close> is zero.
\<close>

section \<open>Representation\<close>

definition vscans :: "hvalue list \<Rightarrow> int" where
  "vscans vs = int (length (filter hneeds_scan vs))"

definition holds :: "qlist \<Rightarrow> hvalue list \<Rightarrow> bool" where
  "holds l vs \<longleftrightarrow> l_length l = length vs \<and> (\<exists>rest. l_entry l = map Some vs @ rest)"

definition list_st :: "qlist \<Rightarrow> hvalue list \<Rightarrow> int \<Rightarrow> bool" where
  "list_st l vs d \<longleftrightarrow> holds l vs \<and> l_obj_count l = vscans vs + d \<and> 0 \<le> d"

text \<open>Only the array and the length change.\<close>

definition same_head :: "qlist \<Rightarrow> qlist \<Rightarrow> bool" where
  "same_head l l' \<longleftrightarrow> l_type l' = l_type l \<and> l_valid l' = l_valid l \<and> l_obj_count l' = l_obj_count l"

lemma vscans_simps [simp]:
  "vscans [] = 0" "vscans (v # vs) = of_bool (hneeds_scan v) + vscans vs" "vscans (us @ vs) = vscans us + vscans vs"
  "vscans (replicate n None) = 0" "vscans (rev vs) = vscans vs"
  by (simp_all add: vscans_def hneeds_scan_def rev_filter [symmetric])

lemma vscans_nonneg: "0 \<le> vscans vs"
  by (simp add: vscans_def)

lemma vscans_nth: "i < length vs \<Longrightarrow> hneeds_scan (vs ! i) \<Longrightarrow> 0 < vscans vs"
  by (auto simp: vscans_def filter_empty_conv)

lemma vscans_split: "vscans vs = vscans (take i vs) + vscans (drop i vs)"
  using vscans_simps(3) [of "take i vs" "drop i vs"] by simp

lemma vscans_update: "i < length vs \<Longrightarrow> vscans (vs[i := v]) = vscans vs - of_bool (hneeds_scan (vs ! i)) + of_bool (hneeds_scan v)"
  by (induction vs arbitrary: i) (auto simp: nth_Cons split: nat.splits)

lemma holdsE:
  assumes "holds l vs"
  obtains rest where "l_entry l = map Some vs @ rest" "l_length l = length vs"
  using assms by (auto simp: holds_def)

lemma holds_length: "holds l vs \<Longrightarrow> l_length l = length vs"
  by (simp add: holds_def)

lemma holdsI: "l_length l = length vs \<Longrightarrow> l_entry l = map Some vs @ rest \<Longrightarrow> holds l vs"
  by (auto simp: holds_def)

lemma holds_allocated: "holds l vs \<Longrightarrow> length vs \<le> length (l_entry l)"
  by (auto simp: holds_def)

lemma holds_new [simp]: "holds (list_new ty) []" "list_st (list_new ty) [] 0"
  by (simp_all add: holds_def list_st_def list_new_def)

lemma holds_obj [simp]: "holds (l\<lparr>l_obj_count := c\<rparr>) vs = holds l vs"
  by (simp add: holds_def)

lemma list_st_holds: "list_st l vs d \<Longrightarrow> holds l vs"
  by (simp add: list_st_def)

section \<open>The array\<close>

lemma get_cell_holds: "holds l vs \<Longrightarrow> i < length vs \<Longrightarrow> get_cell i l = Some (vs ! i)"
  by (auto simp: holds_def get_cell_def nth_append)

lemma set_cell_holds:
  assumes "holds l vs" "i < length vs"
  obtains l' where "set_cell i v l = Some l'" "holds l' (vs[i := v])" "same_head l l'"
proof -
  obtain rest where r: "l_entry l = map Some vs @ rest" "l_length l = length vs" using holdsE [OF assms(1)] .
  have "(map Some vs @ rest)[i := Some v] = map Some (vs[i := v]) @ rest" using assms(2) by (simp add: list_update_append map_update)
  then have "set_cell i v l = Some (l\<lparr>l_entry := map Some (vs[i := v]) @ rest\<rparr>)" using r assms(2) by (simp add: set_cell_def)
  moreover have "holds (l\<lparr>l_entry := map Some (vs[i := v]) @ rest\<rparr>) (vs[i := v])" using r by (intro holdsI) simp_all
  ultimately show ?thesis using that by (simp add: same_head_def)
qed

lemma zeroEntries_eq: "a + n \<le> length (l_entry l) \<Longrightarrow>
  zeroEntries a n l = Some (l\<lparr>l_entry := take a (l_entry l) @ replicate n (Some None) @ drop (a + n) (l_entry l)\<rparr>)"
proof (induction n arbitrary: a l)
  case (Suc n)
  let ?l = "l\<lparr>l_entry := (l_entry l)[a := Some None]\<rparr>"
  have "zeroEntries (Suc a) n ?l = Some (?l\<lparr>l_entry := take (Suc a) (l_entry ?l) @ replicate n (Some None) @ drop (Suc a + n) (l_entry ?l)\<rparr>)"
    using Suc.prems by (intro Suc.IH) simp
  moreover have "take (Suc a) ((l_entry l)[a := Some None]) = take a (l_entry l) @ [Some None]"
    using Suc.prems by (simp add: take_Suc_conv_app_nth)
  ultimately show ?case using Suc.prems by (simp add: set_cell_def)
qed simp

lemma list_allocate_grows:
  "\<exists>n. l_entry (list_allocate num l) = l_entry l @ replicate n None"
  "num < length (l_entry (list_allocate num l))" "same_head l (list_allocate num l)" "l_length (list_allocate num l) = l_length l"
  by (auto simp: list_allocate_def Let_def same_head_def)

lemma allocate_holds: "holds l vs \<Longrightarrow> holds (list_allocate num l) vs"
  using list_allocate_grows(1) [of num l] list_allocate_grows(4) [of num l] by (auto simp: holds_def)

lemma list_reserve_holds: "holds l vs \<Longrightarrow> holds (list_reserve num l) vs \<and> same_head l (list_reserve num l)"
  using allocate_holds list_allocate_grows(3) by (simp add: list_reserve_def) (simp add: same_head_def)

lemma list_resize_grow:
  assumes "holds l vs" "length vs \<le> num"
  obtains l' where "list_resize num l = Some l'" "holds l' (vs @ replicate (num - length vs) None)" "num < length (l_entry l')" "same_head l l'"
proof -
  define k where "k = (if num \<ge> length (l_entry l) then list_allocate num l else l)"
  have k: "holds k vs" "num < length (l_entry k)" "same_head l k"
    using assms(1) allocate_holds [OF assms(1)] list_allocate_grows(2) [of num l] list_allocate_grows(3) [of l num] by (auto simp: k_def same_head_def)
  obtain rest where r: "l_entry k = map Some vs @ rest" "l_length k = length vs" using holdsE [OF k(1)] .
  let ?e = "map Some (vs @ replicate (num - length vs) None) @ drop num (l_entry k)"
  have "zeroEntries (l_length k) (num - l_length k) k = Some (k\<lparr>l_entry := ?e\<rparr>)"
    using zeroEntries_eq [of "length vs" "num - length vs" k] k(2) r assms(2) by simp
  then have "list_resize num l = Some (k\<lparr>l_entry := ?e, l_length := num\<rparr>)"
    using assms holds_length [OF assms(1)] by (simp add: list_resize_def Let_def k_def)
  moreover have "holds (k\<lparr>l_entry := ?e, l_length := num\<rparr>) (vs @ replicate (num - length vs) None)"
    using assms(2) by (intro holdsI) simp_all
  ultimately show ?thesis using that k(2,3) assms(2) by (simp add: same_head_def)
qed

lemma list_resize_shrink:
  assumes "holds l vs" "num < length vs"
  shows "list_resize num l = Some (l\<lparr>l_length := num\<rparr>)" "holds (l\<lparr>l_length := num\<rparr>) (take num vs)"
proof -
  obtain rest where r: "l_entry l = map Some vs @ rest" "l_length l = length vs" using holdsE [OF assms(1)] .
  have "map Some vs = map Some (take num vs) @ map Some (drop num vs)" by (metis append_take_drop_id map_append)
  then show "holds (l\<lparr>l_length := num\<rparr>) (take num vs)" using r assms(2) by (intro holdsI [where rest = "map Some (drop num vs) @ rest"]) simp_all
  show "list_resize num l = Some (l\<lparr>l_length := num\<rparr>)" using r assms(2) by (simp add: list_resize_def)
qed

text \<open>Moving part of the array within the part that is in use.\<close>

lemma mem_move_holds:
  assumes "holds l vs" "dst + n \<le> length vs" "src + n \<le> length vs"
  obtains l' where "mem_move dst src n l = Some l'" "holds l' (take dst vs @ take n (drop src vs) @ drop (dst + n) vs)" "same_head l l'"
proof -
  obtain rest where r: "l_entry l = map Some vs @ rest" "l_length l = length vs" using holdsE [OF assms(1)] .
  let ?vs = "take dst vs @ take n (drop src vs) @ drop (dst + n) vs"
  have "mem_move dst src n l = Some (l\<lparr>l_entry := map Some ?vs @ rest\<rparr>)"
    using r assms by (simp add: mem_move_def take_map drop_map)
  moreover have "holds (l\<lparr>l_entry := map Some ?vs @ rest\<rparr>) ?vs" using r assms by (intro holdsI) simp_all
  ultimately show ?thesis using that by (simp add: same_head_def)
qed

section \<open>The scan count\<close>

lemma scan_add_eq: "scan_add v l = Some (l\<lparr>l_obj_count := l_obj_count l + of_bool (hneeds_scan v)\<rparr>)"
  by (simp add: scan_add_def list_incScanCount_def)

lemma scan_remove_eq: "(hneeds_scan v \<Longrightarrow> l_obj_count l \<noteq> 0) \<Longrightarrow> scan_remove v l = Some (l\<lparr>l_obj_count := l_obj_count l - of_bool (hneeds_scan v)\<rparr>)"
  by (simp add: scan_remove_def list_incScanCount_def)

section \<open>Single values\<close>

lemma list_stI: "holds l vs \<Longrightarrow> l_obj_count l = vscans vs + d \<Longrightarrow> 0 \<le> d \<Longrightarrow> list_st l vs d"
  by (simp add: list_st_def)

lemma pushIntern_st:
  assumes "list_st l vs d"
  obtains l' where "pushIntern v l = Some l'" "list_st l' (vs @ [v]) d" "l_type l' = l_type l" "l_valid l' = l_valid l"
proof -
  have h: "holds l vs" and c: "l_obj_count l = vscans vs + d" "0 \<le> d" using assms by (simp_all add: list_st_def)
  obtain l1 where l1: "list_resize (length vs + 1) l = Some l1" "holds l1 (vs @ replicate (length vs + 1 - length vs) None)" "same_head l l1"
    using list_resize_grow [OF h, of "length vs + 1"] by auto
  obtain l2 where l2: "set_cell (length vs) v l1 = Some l2" "holds l2 ((vs @ [None])[length vs := v])" "same_head l1 l2"
    using set_cell_holds [of l1 "vs @ [None]" "length vs" v] l1(2) by auto
  have o: "l_obj_count l2 = vscans vs + d" "l_type l2 = l_type l" "l_valid l2 = l_valid l" using l1(3) l2(3) c by (simp_all add: same_head_def)
  then have "pushIntern v l = Some (l2\<lparr>l_obj_count := vscans vs + d + of_bool (hneeds_scan v)\<rparr>)"
    using holds_length [OF h] l1 l2 c(2) by (simp add: pushIntern_def list_getEntryReference_def scan_add_eq)
  then show ?thesis using that l2(2) o c(2) by (simp add: list_st_def)
qed

definition same_kind :: "qlist \<Rightarrow> qlist \<Rightarrow> bool" where
  "same_kind l l' \<longleftrightarrow> l_type l' = l_type l \<and> l_valid l' = l_valid l"

lemma same_head_kind: "same_head l l' \<Longrightarrow> same_kind l l' \<and> l_obj_count l' = l_obj_count l"
  by (simp add: same_head_def same_kind_def)

lemma same_kind_obj [simp]: "same_kind l (l'\<lparr>l_obj_count := c\<rparr>) = same_kind l l'" "same_kind l (l'\<lparr>l_length := n\<rparr>) = same_kind l l'" "same_kind l l"
  by (simp_all add: same_kind_def)

lemma same_kind_trans: "same_kind l l' \<Longrightarrow> same_kind l' l'' \<Longrightarrow> same_kind l l''"
  by (simp add: same_kind_def)

lemma zeroEntries_holds:
  assumes "holds l vs" "a + n \<le> length vs"
  obtains l' where "zeroEntries a n l = Some l'" "holds l' (take a vs @ replicate n None @ drop (a + n) vs)" "same_head l l'"
proof -
  obtain rest where r: "l_entry l = map Some vs @ rest" "l_length l = length vs" using holdsE [OF assms(1)] .
  let ?vs = "take a vs @ replicate n None @ drop (a + n) vs"
  have "zeroEntries a n l = Some (l\<lparr>l_entry := map Some ?vs @ rest\<rparr>)"
    using zeroEntries_eq [of a n l] r assms(2) by (simp add: take_map drop_map)
  moreover have "holds (l\<lparr>l_entry := map Some ?vs @ rest\<rparr>) ?vs" using r assms by (intro holdsI) simp_all
  ultimately show ?thesis using that by (simp add: same_head_def)
qed

lemma list_shift_st:
  assumes "list_st l (v # vs) d"
  obtains l' where "list_shift l = Some (v, l')" "list_st l' vs d" "same_kind l l'"
proof -
  have h: "holds l (v # vs)" and c: "l_obj_count l = vscans (v # vs) + d" "0 \<le> d" using assms by (simp_all add: list_st_def)
  obtain l1 where l1: "mem_move 0 1 (length vs) l = Some l1" "holds l1 (vs @ drop (length vs) (v # vs))" "same_head l l1"
    using mem_move_holds [OF h, of 0 "length vs" 1] by auto
  obtain l2 where l2: "set_cell (length vs) None l1 = Some l2" "holds l2 ((vs @ drop (length vs) (v # vs))[length vs := None])" "same_head l1 l2"
    using set_cell_holds [OF l1(2), of "length vs" None] by auto
  have l3: "list_resize (length vs) l2 = Some (l2\<lparr>l_length := length vs\<rparr>)" "holds (l2\<lparr>l_length := length vs\<rparr>) vs"
    using list_resize_shrink [OF l2(2), of "length vs"] by simp_all
  have o: "l_obj_count l2 = vscans (v # vs) + d" "same_kind l l2" using l1(3) l2(3) c(1) by (simp_all add: same_head_def same_kind_def)
  have "hneeds_scan v \<Longrightarrow> vscans (v # vs) + d \<noteq> 0" using c(2) vscans_nonneg [of vs] by simp
  then have "list_shift l = Some (v, l2\<lparr>l_length := length vs, l_obj_count := vscans (v # vs) + d - of_bool (hneeds_scan v)\<rparr>)"
    using holds_length [OF h] get_cell_holds [OF h, of 0] l1(1) l2(1) l3(1) o(1) by (simp add: list_shift_def scan_remove_eq)
  then show ?thesis using that l3(2) o(2) c(2) by (simp add: list_st_def)
qed

lemma list_pop_st:
  assumes "list_st l (vs @ [v]) d"
  obtains l' where "list_pop l = Some (v, l')" "list_st l' vs d" "same_kind l l'"
proof -
  have h: "holds l (vs @ [v])" and c: "l_obj_count l = vscans (vs @ [v]) + d" "0 \<le> d" using assms by (simp_all add: list_st_def)
  obtain l2 where l2: "set_cell (length vs) None l = Some l2" "holds l2 ((vs @ [v])[length vs := None])" "same_head l l2"
    using set_cell_holds [OF h, of "length vs" None] by auto
  have l3: "list_resize (length vs) l2 = Some (l2\<lparr>l_length := length vs\<rparr>)" "holds (l2\<lparr>l_length := length vs\<rparr>) vs"
    using list_resize_shrink [OF l2(2), of "length vs"] by simp_all
  have o: "l_obj_count l2 = vscans (vs @ [v]) + d" "same_kind l l2" using l2(3) c(1) by (simp_all add: same_head_def same_kind_def)
  have "hneeds_scan v \<Longrightarrow> vscans (vs @ [v]) + d \<noteq> 0" using c(2) vscans_nonneg [of vs] by simp
  then have "list_pop l = Some (v, l2\<lparr>l_length := length vs, l_obj_count := vscans (vs @ [v]) + d - of_bool (hneeds_scan v)\<rparr>)"
    using holds_length [OF h] get_cell_holds [OF h, of "length vs"] l2(1) l3(1) o(1) by (simp add: list_pop_def scan_remove_eq nth_append)
  then show ?thesis using that l3(2) o(2) c(2) by (simp add: list_st_def)
qed

text \<open>The types keep whether a value needs a scan.\<close>

definition keeps_scan :: "list_types \<Rightarrow> bool" where
  "keeps_scan te \<longleftrightarrow> (\<forall>v. hneeds_scan (lt_strip te v) = hneeds_scan v \<and> (\<forall>w. lt_accept te v = Inl w \<longrightarrow> hneeds_scan w = hneeds_scan v))"

lemma checkVal_scan: "keeps_scan te \<Longrightarrow> checkVal te ty v xs = (Some w, xs') \<Longrightarrow> hneeds_scan w = hneeds_scan v"
  by (auto simp: keeps_scan_def checkVal_def stripVal_def split: list_type.splits if_splits sum.splits)

lemma list_insert_st:
  assumes "list_st l vs d" "checkVal te (l_type l) v xs = (Some w, xs')" "hneeds_scan w = hneeds_scan v"
  obtains l' where "list_insert te v l xs = Some (0, l', xs')" "list_st l' (w # vs) d" "same_kind l l'"
proof -
  have h: "holds l vs" and c: "l_obj_count l = vscans vs + d" "0 \<le> d" using assms(1) by (simp_all add: list_st_def)
  obtain l1 where l1: "list_resize (length vs + 1) l = Some l1" "holds l1 (vs @ [None])" "same_head l l1"
    using list_resize_grow [OF h, of "length vs + 1"] by auto
  have "\<exists>l2. (if l_length l1 - 1 \<noteq> 0 then mem_move 1 0 (l_length l1 - 1) l1 else Some l1) = Some l2 \<and> same_head l1 l2 \<and> (\<exists>u. holds l2 (u # vs))"
  proof (cases "vs = []")
    case True
    then show ?thesis using l1(2) holds_length [OF l1(2)] by (auto simp: same_head_def)
  next
    case False
    obtain l2 where l2: "mem_move 1 0 (length vs) l1 = Some l2" "same_head l1 l2" "holds l2 (take 1 (vs @ [None]) @ take (length vs) (drop 0 (vs @ [None])) @ drop (1 + length vs) (vs @ [None]))"
      using mem_move_holds [OF l1(2), of 1 "length vs" 0] by auto
    obtain u us where "vs = u # us" using False by (cases vs) auto
    then have "holds l2 (u # vs)" using l2(3) by simp
    then show ?thesis using l2 holds_length [OF l1(2)] False by auto
  qed
  then obtain l2 u where l2: "(if l_length l1 - 1 \<noteq> 0 then mem_move 1 0 (l_length l1 - 1) l1 else Some l1) = Some l2" "same_head l1 l2" "holds l2 (u # vs)" by blast
  obtain l3 where l3: "set_cell 0 w l2 = Some l3" "holds l3 (w # vs)" "same_head l2 l3" using set_cell_holds [OF l2(3), of 0 w] by auto
  have o: "l_obj_count l3 = vscans vs + d" "same_kind l l3" using l1(3) l2(2) l3(3) c(1) by (simp_all add: same_head_def same_kind_def)
  have "list_insert te v l xs = Some (0, l3\<lparr>l_obj_count := vscans vs + d + of_bool (hneeds_scan v)\<rparr>, xs')"
    using assms(2) l1(1) l2(1) l3(1) o(1) c(2) holds_length [OF h] by (simp add: list_insert_def scan_add_eq)
  then show ?thesis using that l3(2) o(2) c(2) assms(3) by (simp add: list_st_def)
qed

lemma setEntry_st:
  assumes "list_st l vs d"
  obtains l' where "setEntry i v l = Some l'" "list_st l' ((vs @ replicate (Suc i - length vs) None)[i := v]) d" "same_kind l l'"
proof -
  let ?us = "vs @ replicate (Suc i - length vs) None"
  have h: "holds l vs" and c: "l_obj_count l = vscans vs + d" "0 \<le> d" using assms by (simp_all add: list_st_def)
  have "\<exists>l1. (if i \<ge> l_length l then list_resize (i + 1) l else Some l) = Some l1 \<and> holds l1 ?us \<and> same_head l l1"
  proof (cases "i \<ge> length vs")
    case True
    then show ?thesis using list_resize_grow [OF h, of "i + 1"] holds_length [OF h] by auto
  next
    case False
    then show ?thesis using holds_length [OF h] h by (simp add: same_head_def)
  qed
  then obtain l1 where l1: "(if i \<ge> l_length l then list_resize (i + 1) l else Some l) = Some l1" "holds l1 ?us" "same_head l l1" by blast
  have i: "i < length ?us" by simp
  let ?l2 = "l1\<lparr>l_obj_count := l_obj_count l1 - of_bool (hneeds_scan (?us ! i))\<rparr>"
  have "holds ?l2 ?us" using l1(2) by simp
  then obtain l3 where l3: "set_cell i v ?l2 = Some l3" "holds l3 (?us[i := v])" "same_head ?l2 l3" by (rule set_cell_holds [OF _ i])
  have o1: "l_obj_count l1 = vscans ?us + d" using l1(3) c by (simp add: same_head_def)
  have pos: "hneeds_scan (?us ! i) \<Longrightarrow> 0 < l_obj_count l1" using vscans_nth [OF i] o1 c(2) by simp
  have r: "scan_remove (?us ! i) l1 = Some ?l2" using pos by (intro scan_remove_eq) simp
  have o3: "l_obj_count l3 = vscans ?us + d - of_bool (hneeds_scan (?us ! i))" "same_kind l l3" "0 \<le> l_obj_count l3"
    using l3(3) l1(3) o1 pos c(2) vscans_nonneg [of ?us] by (auto simp: same_head_def same_kind_def simp del: vscans_simps)
  have "setEntry i v l = Some (l3\<lparr>l_obj_count := l_obj_count l3 + of_bool (hneeds_scan v)\<rparr>)"
    using l1(1) get_cell_holds [OF l1(2) i] r l3(1) o3(3) by (simp add: setEntry_def scan_add_eq)
  moreover have "list_st (l3\<lparr>l_obj_count := l_obj_count l3 + of_bool (hneeds_scan v)\<rparr>) (?us[i := v]) d"
    using l3(2) o3(1) c(2) vscans_update [OF i, of v] by (simp add: list_st_def)
  ultimately show ?thesis using that o3(2) by simp
qed

end
