(* ===== verification/List_Splice.thy ===== *)
theory List_Splice
  imports List_Ops
begin

text \<open>Splicing and extraction of lists, copies and reversal, against lists of values.\<close>

section \<open>Removed values\<close>

definition removed_st :: "qlist option \<Rightarrow> hvalue list \<Rightarrow> bool" where
  "removed_st rv rs \<longleftrightarrow> (case rv of None \<Rightarrow> rs = [] | Some r \<Rightarrow> list_st r rs 0)"

lemma remove_entries_st:
  assumes "holds l vs" "i + n \<le> length vs" "vscans (take n (drop i vs)) \<le> l_obj_count l" "removed_st rv rs"
  obtains rv' where "remove_entries i n l rv = Some (l\<lparr>l_obj_count := l_obj_count l - vscans (take n (drop i vs))\<rparr>, rv')"
    "removed_st rv' (rs @ take n (drop i vs))" "rv' = None \<longleftrightarrow> rv = None \<and> n = 0"
  using assms
proof (induction n arbitrary: i l rv rs thesis)
  case 0
  then show ?case by (intro "0.prems"(1) [of rv]) simp_all
next
  case (Suc n)
  have i: "i < length vs" using Suc.prems(3) by simp
  have t: "take (Suc n) (drop i vs) = vs ! i # take n (drop (Suc i) vs)" using i by (simp add: Cons_nth_drop_Suc [symmetric])
  let ?l = "l\<lparr>l_obj_count := l_obj_count l - of_bool (hneeds_scan (vs ! i))\<rparr>"
  have c: "vscans (take n (drop (Suc i) vs)) \<le> l_obj_count ?l" using Suc.prems(4) t by simp
  have "hneeds_scan (vs ! i) \<Longrightarrow> l_obj_count l \<noteq> 0" using Suc.prems(4) t vscans_nonneg [of "take n (drop (Suc i) vs)"] by simp
  then have r: "scan_remove (vs ! i) l = Some ?l" by (rule scan_remove_eq)
  have "list_st (case rv of None \<Rightarrow> list_new ComplexList | Some r \<Rightarrow> r) rs 0" using Suc.prems(5) by (auto simp: removed_st_def split: option.splits)
  then obtain r1 where r1: "pushIntern (vs ! i) (case rv of None \<Rightarrow> list_new ComplexList | Some r \<Rightarrow> r) = Some r1" "list_st r1 (rs @ [vs ! i]) 0"
    by (rule pushIntern_st)
  have s1: "removed_st (Some r1) (rs @ [vs ! i])" using r1(2) by (simp add: removed_st_def)
  have h: "holds ?l vs" using Suc.prems(2) by simp
  show ?case
  proof (rule Suc.IH [OF _ h _ c s1])
    show "Suc i + n \<le> length vs" using Suc.prems(3) by simp
    fix rv' assume rv': "remove_entries (Suc i) n ?l (Some r1) = Some (?l\<lparr>l_obj_count := l_obj_count ?l - vscans (take n (drop (Suc i) vs))\<rparr>, rv')"
      "removed_st rv' ((rs @ [vs ! i]) @ take n (drop (Suc i) vs))" "rv' = None \<longleftrightarrow> Some r1 = None \<and> n = 0"
    have "remove_entries i (Suc n) l rv = Some (l\<lparr>l_obj_count := l_obj_count l - vscans (take (Suc n) (drop i vs))\<rparr>, rv')"
      using rv'(1) r r1(1) get_cell_holds [OF Suc.prems(2) i] t by (simp add: removeEntry_def algebra_simps)
    then show thesis using rv'(2,3) t by (intro Suc.prems(1)) simp_all
  qed
qed

section \<open>Cutting out\<close>

text \<open>What \<open>spliceIntern\<close> removes: at most to the end of the list.\<close>

lemma splice_end_eq: "holds l vs \<Longrightarrow> offset \<le> length vs \<Longrightarrow>
  splice_end offset ln l = (offset + min ln (length vs - offset), min ln (length vs - offset))"
  using holds_length [of l vs] by (simp add: splice_end_def min_def)

lemma close_gap:
  assumes h: "holds l vs" and n: "offset + k < length vs"
  obtains l' where "do { l \<leftarrow> mem_move offset (offset + k) (l_length l - (offset + k)) l; zeroEntries (l_length l - k) k l } = Some l'"
    "holds l' (take offset vs @ drop (offset + k) vs @ replicate k None)" "same_head l l'"
proof -
  let ?m = "length vs - (offset + k)"
  obtain l1 where l1: "mem_move offset (offset + k) ?m l = Some l1"
    "holds l1 (take offset vs @ take ?m (drop (offset + k) vs) @ drop (offset + ?m) vs)" "same_head l l1"
    using mem_move_holds [OF h, of offset ?m "offset + k"] n by auto
  let ?us = "take offset vs @ drop (offset + k) vs @ drop (length vs - k) vs"
  have us: "take offset vs @ take ?m (drop (offset + k) vs) @ drop (offset + ?m) vs = ?us" using n by simp
  have lu: "length ?us = length vs" using n by simp
  obtain l2 where l2: "zeroEntries (length vs - k) k l1 = Some l2"
    "holds l2 (take (length vs - k) ?us @ replicate k None @ drop (length vs - k + k) ?us)" "same_head l1 l2"
    using zeroEntries_holds [OF l1(2) [unfolded us], of "length vs - k" k] n lu by auto
  have "take (length vs - k) ?us = take offset vs @ drop (offset + k) vs" "drop (length vs - k + k) ?us = []" using n by simp_all
  then have h2: "holds l2 (take offset vs @ drop (offset + k) vs @ replicate k None)" using l2(2) by simp
  have "l_length l1 = length vs" using holds_length [OF l1(2) [unfolded us]] lu by simp
  then have "do { l \<leftarrow> mem_move offset (offset + k) (l_length l - (offset + k)) l; zeroEntries (l_length l - k) k l } = Some l2"
    using l1(1) l2(1) holds_length [OF h] by simp
  then show ?thesis using that h2 l1(3) l2(3) by (simp add: same_head_def)
qed

lemma list_resize_drop:
  assumes "holds l (us @ ws)"
  obtains l' where "list_resize (length us) l = Some l'" "holds l' us" "same_head l l'"
proof (cases "ws = []")
  case True
  then show ?thesis using that assms list_resize_grow [OF assms, of "length us"] by auto
next
  case False
  then have "list_resize (length us) l = Some (l\<lparr>l_length := length us\<rparr>)" "holds (l\<lparr>l_length := length us\<rparr>) us"
    using list_resize_shrink [OF assms, of "length us"] by simp_all
  then show ?thesis using that by (simp add: same_head_def)
qed

lemma spliceIntern_st:
  assumes st: "list_st l vs d" and o: "offset < length vs" and k_def: "k = min ln (length vs - offset)"
  obtains rv l' where "spliceIntern offset ln ext l = Some (rv, l')" "removed_st rv (take k (drop offset vs))"
    "rv = None \<longleftrightarrow> \<not> ext \<and> k = 0" "list_st l' (take offset vs @ drop (offset + k) vs) d" "same_kind l l'"
proof -
  have h: "holds l vs" and c: "l_obj_count l = vscans vs + d" "0 \<le> d" using st by (simp_all add: list_st_def)
  let ?rs = "take k (drop offset vs)" and ?us = "take offset vs @ drop (offset + k) vs"
  have k: "offset + k \<le> length vs" using o by (simp add: k_def)
  have vs: "vs = take offset vs @ ?rs @ drop (offset + k) vs" by (metis append_take_drop_id drop_drop add.commute)
  then have sc: "vscans vs = vscans ?us + vscans ?rs" by (metis vscans_simps(3) add.assoc add.commute)
  have r0: "removed_st (if ext then Some (list_getCopy l) else None) []" by (simp add: removed_st_def list_getCopy_def)
  have le: "vscans ?rs \<le> l_obj_count l" using sc c vscans_nonneg [of ?us] by simp
  obtain rv where rv: "remove_entries offset k l (if ext then Some (list_getCopy l) else None) = Some (l\<lparr>l_obj_count := l_obj_count l - vscans ?rs\<rparr>, rv)"
    "removed_st rv ?rs" "rv = None \<longleftrightarrow> (if ext then Some (list_getCopy l) else None) = None \<and> k = 0"
    using remove_entries_st [OF h k le r0] by auto
  define l1 where "l1 = l\<lparr>l_obj_count := l_obj_count l - vscans ?rs\<rparr>"
  have h1: "holds l1 vs" "l_obj_count l1 = vscans ?us + d" "same_kind l l1" "l_length l1 = length vs"
    using h c sc holds_length [OF h] by (simp_all add: l1_def)
  have "\<exists>l2 w. (if offset + k \<noteq> l_length l1 then do { l \<leftarrow> mem_move offset (offset + k) (l_length l1 - (offset + k)) l1; zeroEntries (l_length l - k) k l }
      else if offset + k = 0 then None else set_cell (offset + k - 1) None l1) = Some l2 \<and> holds l2 (?us @ w) \<and> length w = k \<and> same_head l1 l2"
  proof (cases "offset + k = length vs")
    case True
    obtain l2 where l2: "set_cell (offset + k - 1) None l1 = Some l2" "holds l2 (vs[offset + k - 1 := None])" "same_head l1 l2"
      by (rule set_cell_holds [OF h1(1), of "offset + k - 1" None]) (use True o in auto)
    have "k \<noteq> 0" using True o by simp
    then have "take offset (vs[offset + k - 1 := None]) = take offset vs" by simp
    then have "vs[offset + k - 1 := None] = ?us @ drop offset (vs[offset + k - 1 := None])" using True by (metis append_take_drop_id drop_eq_Nil2 order_refl append_Nil2)
    then have "holds l2 (?us @ drop offset (vs[offset + k - 1 := None]))" using l2(2) by argo
    moreover have "length (drop offset (vs[offset + k - 1 := None])) = k" using True by simp
    moreover have "\<not> offset + k \<noteq> l_length l1" "offset + k \<noteq> 0" using True o h1(4) by auto
    ultimately show ?thesis using l2(1,3) by (intro exI [of _ l2] exI [of _ "drop offset (vs[offset + k - 1 := None])"]) (simp only: if_False simp_thms)
  next
    case False
    then have n: "offset + k < length vs" using k by simp
    obtain l2 where l2: "do { l \<leftarrow> mem_move offset (offset + k) (l_length l1 - (offset + k)) l1; zeroEntries (l_length l - k) k l } = Some l2"
      "holds l2 (take offset vs @ drop (offset + k) vs @ replicate k None)" "same_head l1 l2" using close_gap [OF h1(1) n] .
    then show ?thesis using False h1(4) by (intro exI [of _ l2] exI [of _ "replicate k None"]) simp
  qed
  then obtain l2 w where l2: "(if offset + k \<noteq> l_length l1 then do { l \<leftarrow> mem_move offset (offset + k) (l_length l1 - (offset + k)) l1; zeroEntries (l_length l - k) k l }
      else if offset + k = 0 then None else set_cell (offset + k - 1) None l1) = Some l2" "holds l2 (?us @ w)" "length w = k" "same_head l1 l2" by blast
  obtain l3 where l3: "list_resize (length ?us) l2 = Some l3" "holds l3 ?us" "same_head l2 l3" using list_resize_drop [OF l2(2)] .
  have ln: "l_length l2 - k = length ?us" using holds_length [OF l2(2)] l2(3) by simp
  have "spliceIntern offset ln ext l = Some (rv, l3)"
    using rv(1) l2(1) l3(1) splice_end_eq [OF h, of offset ln] o holds_length [OF h] unfolding ln [symmetric]
    by (simp add: spliceIntern_def k_def [symmetric] l1_def [symmetric])
  moreover have "list_st l3 ?us d" using l3 l2(4) h1(2) c(2) by (simp add: list_st_def same_head_def)
  moreover have "same_kind l l3" using l3(3) l2(4) h1(3) by (simp add: same_head_def same_kind_def)
  ultimately show ?thesis using that rv(2,3) by simp
qed

section \<open>Putting in\<close>

lemma store_entries_st:
  "holds l us \<Longrightarrow> i + length ws \<le> length us \<Longrightarrow> 
     \<exists>l'. store_entries i ws l = Some l' \<and> holds l' (take i us @ ws @ drop (i + length ws) us) \<and> same_kind l l' \<and> l_obj_count l' = l_obj_count l + vscans ws"
proof (induction ws arbitrary: i l us)
  case (Cons w ws)
  let ?l = "l\<lparr>l_obj_count := l_obj_count l + of_bool (hneeds_scan w)\<rparr>"
  have h: "holds ?l us" using Cons.prems(1) by simp
  have i: "i < length us" using Cons.prems(2) by simp
  obtain l1 where l1: "set_cell i w ?l = Some l1" "holds l1 (us[i := w])" "same_head ?l l1" by (rule set_cell_holds [OF h i])
  have "Suc i + length ws \<le> length (us[i := w])" using Cons.prems(2) by simp
  then obtain l2 where l2: "store_entries (Suc i) ws l1 = Some l2" "holds l2 (take (Suc i) (us[i := w]) @ ws @ drop (Suc i + length ws) (us[i := w]))"
    "same_kind l1 l2" "l_obj_count l2 = l_obj_count l1 + vscans ws" using Cons.IH [OF l1(2)] by blast
  have "take (Suc i) (us[i := w]) = take i us @ [w]" using i by (simp add: take_Suc_conv_app_nth)
  then show ?case using l1 l2 by (simp add: scan_add_eq same_head_def same_kind_def)
qed simp

text \<open>
  Making room: the values from \<open>offset\<close> on are moved so that \<open>n\<close> values fit in place of \<open>k\<close>.  When \<open>n\<close> is smaller, the move reads
  \<open>k - n\<close> cells behind the list, which have to be allocated.
\<close>

definition make_room :: "nat \<Rightarrow> nat \<Rightarrow> nat \<Rightarrow> qlist \<Rightarrow> qlist option" where
  "make_room offset k n l =
     (let ol = l_length l
      in if n > k
         then do { l \<leftarrow> list_resize (ol - k + n) l; (if offset + k \<noteq> ol then mem_move (offset + k - k + n) (offset + k) (ol - (offset + k)) l else Some l) }
         else if k > n
         then do {
           l \<leftarrow> mem_move (offset + n) (offset + k) (ol - offset - n) l;
           l \<leftarrow> zeroEntries (ol - (k - n)) (k - n) l;
           list_resize (ol - (k - n)) l }
         else Some l)"

lemma make_room_grow:
  assumes h: "holds l vs" and k: "offset + k \<le> length vs" and n: "k < n"
  shows "\<exists>l' ms. make_room offset k n l = Some l' \<and> holds l' (take offset vs @ ms @ drop (offset + k) vs) \<and> length ms = n \<and> same_head l l'"
proof -
  let ?us = "vs @ replicate (n - k) None"
  have ge: "length vs \<le> length vs - k + n" using k n by simp
  obtain l1 where l1: "list_resize (length vs - k + n) l = Some l1" "holds l1 (vs @ replicate (length vs - k + n - length vs) None)" "same_head l l1"
    by (rule list_resize_grow [OF h ge])
  have h1: "holds l1 ?us" using l1(2) n k by simp
  show ?thesis
  proof (cases "offset + k = length vs")
    case True
    have "?us = take offset vs @ (drop offset vs @ replicate (n - k) None) @ drop (offset + k) vs" using True by simp
    moreover have "length (drop offset vs @ replicate (n - k) None) = n" using True n by simp
    moreover have "make_room offset k n l = Some l1" using True n l1(1) holds_length [OF h] by (simp add: make_room_def)
    ultimately show ?thesis using h1 l1(3) by metis
  next
    case False
    let ?m = "length vs - (offset + k)"
    have b: "offset + n + ?m \<le> length ?us" "offset + k + ?m \<le> length ?us" using k n by simp_all
    obtain l2 where l2: "mem_move (offset + n) (offset + k) ?m l1 = Some l2"
      "holds l2 (take (offset + n) ?us @ take ?m (drop (offset + k) ?us) @ drop (offset + n + ?m) ?us)" "same_head l1 l2"
      by (rule mem_move_holds [OF h1 b])
    have "take ?m (drop (offset + k) ?us) = drop (offset + k) vs" "drop (offset + n + ?m) ?us = []" using k n by simp_all
    moreover have "take (offset + n) ?us = take offset vs @ drop offset (take (offset + n) ?us)"
      using append_take_drop_id [of offset "take (offset + n) ?us"] k by simp
    ultimately have "holds l2 (take offset vs @ drop offset (take (offset + n) ?us) @ drop (offset + k) vs)" using l2(2) by (metis append.assoc append_Nil2)
    moreover have "length (drop offset (take (offset + n) ?us)) = n" using k n by simp
    moreover have "make_room offset k n l = Some l2" using False n l1(1) l2(1) holds_length [OF h] by (simp add: make_room_def)
    ultimately show ?thesis using l1(3) l2(3)
      by (intro exI [of _ l2] exI [of _ "drop offset (take (offset + n) ?us)"] conjI) (assumption+, simp add: same_head_def)
  qed
qed

lemma make_room_shrink:
  assumes h: "holds l vs" and k: "offset + k \<le> length vs" and n: "n < k"
  shows "length vs + (k - n) \<le> length (l_entry l) \<Longrightarrow>
      \<exists>l' ms. make_room offset k n l = Some l' \<and> holds l' (take offset vs @ ms @ drop (offset + k) vs) \<and> length ms = n \<and> same_head l l'"
    "\<not> length vs + (k - n) \<le> length (l_entry l) \<Longrightarrow> make_room offset k n l = None"
proof -
  obtain rest where r: "l_entry l = map Some vs @ rest" "l_length l = length vs" using holdsE [OF h] .
  let ?us = "take (offset + n) vs @ drop (offset + k) vs"
  let ?x = "take (k - n) rest"
  {
    assume a: "length vs + (k - n) \<le> length (l_entry l)"
    have e: "take (length vs - offset - n) (drop (offset + k) (l_entry l)) = map Some (drop (offset + k) vs) @ ?x"
      using k n a r(1) by (simp add: drop_map)
    let ?l1 = "l\<lparr>l_entry := map Some ?us @ ?x @ rest\<rparr>"
    have m: "mem_move (offset + n) (offset + k) (length vs - offset - n) l = Some ?l1"
      using k n a e r(1) by (simp add: mem_move_def take_map)
    have lu: "length ?us = length vs - (k - n)" using k n by simp
    have lx: "length ?x = k - n" using a r(1) by simp
    let ?l2 = "?l1\<lparr>l_entry := map Some (?us @ replicate (k - n) None) @ rest\<rparr>"
    have "zeroEntries (length ?us) (k - n) ?l1 = Some ?l2" using zeroEntries_eq [of "length ?us" "k - n" ?l1] lx by simp
    then have z: "zeroEntries (length vs - (k - n)) (k - n) ?l1 = Some ?l2" using lu by simp
    have "holds ?l2 (?us @ replicate (k - n) None)" using k n r(2) by (intro holdsI) simp_all
    then obtain l3 where l3: "list_resize (length ?us) ?l2 = Some l3" "holds l3 ?us" "same_head ?l2 l3" by (rule list_resize_drop)
    have "make_room offset k n l = Some l3" using m z l3(1) n r(2) unfolding lu by (simp add: make_room_def Let_def)
    moreover have "?us = take offset vs @ take n (drop offset vs) @ drop (offset + k) vs" by (simp add: take_add)
    moreover have "length (take n (drop offset vs)) = n" using k n by simp
    ultimately show "\<exists>l' ms. make_room offset k n l = Some l' \<and> holds l' (take offset vs @ ms @ drop (offset + k) vs) \<and> length ms = n \<and> same_head l l'"
      using l3(2,3) by (intro exI [of _ l3] exI [of _ "take n (drop offset vs)"]) (simp add: same_head_def)
  }
  assume "\<not> length vs + (k - n) \<le> length (l_entry l)"
  then have "\<not> offset + k + (length vs - offset - n) \<le> length (l_entry l)" using k n by simp
  then show "make_room offset k n l = None" using n r(2) by (simp add: make_room_def mem_move_def)
qed

lemma make_room_st:
  assumes h: "holds l vs" and k: "offset + k \<le> length vs" and a: "length vs + (k - n) \<le> length (l_entry l)"
  shows "\<exists>l' ms. make_room offset k n l = Some l' \<and> holds l' (take offset vs @ ms @ drop (offset + k) vs) \<and> length ms = n \<and> same_head l l'"
proof (cases rule: linorder_cases [of n k])
  case less
  then show ?thesis using make_room_shrink(1) [OF h k _ a] by blast
next
  case equal
  have "vs = take offset vs @ take k (drop offset vs) @ drop (offset + k) vs" by (metis append_take_drop_id drop_drop add.commute)
  then have "holds l (take offset vs @ take k (drop offset vs) @ drop (offset + k) vs)" using h by simp
  moreover have "length (take k (drop offset vs)) = n" "make_room offset k n l = Some l" using k equal by (simp_all add: make_room_def)
  ultimately show ?thesis by (intro exI [of _ l] exI [of _ "take k (drop offset vs)"]) (simp add: same_head_def)
next
  case greater
  then show ?thesis using make_room_grow [OF h k] by blast
qed

text \<open>The values put in, after the check of their types.\<close>

lemma check_values_length: "check_values te ty vs xs = (Some ws, xs') \<Longrightarrow> length ws = length vs"
  by (induction vs arbitrary: ws xs) (auto split: prod.splits option.splits)

lemma check_values_single: "check_values te ty [v] xs = (Some ws, xs') \<Longrightarrow> keeps_scan te \<Longrightarrow> \<exists>w. ws = [w] \<and> hneeds_scan w = hneeds_scan v"
  using checkVal_scan [of te ty v xs] by (auto split: prod.splits option.splits)

lemma put_values_st:
  assumes h: "holds l (as @ ms @ bs)" and n: "length ms = length ws" and a: "length ws = length (arg_values a)"
    and s: "\<And>v. a = ArgValue v \<Longrightarrow> \<exists>w. ws = [w] \<and> hneeds_scan w = hneeds_scan v"
  shows "\<exists>l'. (case a of ArgValue v \<Rightarrow> do { l \<leftarrow> set_cell (length as) (List.hd ws) l; scan_add v l } | ArgList vs \<Rightarrow> store_entries (length as) ws l) = Some l'
    \<and> holds l' (as @ ws @ bs) \<and> same_kind l l' \<and> l_obj_count l' = l_obj_count l + vscans ws"
proof (cases a)
  case (ArgValue v)
  then obtain w where w: "ws = [w]" "hneeds_scan w = hneeds_scan v" using s by blast
  obtain m where m: "ms = [m]" using n w by (cases ms) auto
  obtain l1 where "set_cell (length as) w l = Some l1" "holds l1 ((as @ ms @ bs)[length as := w])" "same_head l l1"
    by (rule set_cell_holds [OF h, of "length as" w]) (use m in auto)
  then show ?thesis using ArgValue w m by (simp add: scan_add_eq same_head_def same_kind_def)
next
  case (ArgList vs)
  then show ?thesis using store_entries_st [OF h, of "length as" ws] n by simp
qed

lemma spliceIntern_value_st:
  assumes st: "list_st l vs d" and o: "offset \<le> length vs" and k_def: "k = min ln (length vs - offset)"
    and te: "keeps_scan te" and cv: "check_values te (l_type l) (arg_values a) xs = (Some ws, xs')"
    and alloc: "length vs + (k - length ws) \<le> length (l_entry l)"
  obtains rv l' where "spliceIntern_value te offset ln a ext l xs = Some (rv, l', xs')" "removed_st rv (take k (drop offset vs))"
    "list_st l' (take offset vs @ ws @ drop (offset + k) vs) d" "same_kind l l'"
proof -
  have h: "holds l vs" and c: "l_obj_count l = vscans vs + d" "0 \<le> d" using st by (simp_all add: list_st_def)
  let ?rs = "take k (drop offset vs)" and ?us = "take offset vs @ drop (offset + k) vs" and ?n = "length (arg_values a)"
  have n: "length ws = ?n" by (rule check_values_length [OF cv])
  have k: "offset + k \<le> length vs" using o by (simp add: k_def)
  have "vs = take offset vs @ ?rs @ drop (offset + k) vs" by (metis append_take_drop_id drop_drop add.commute)
  then have sc: "vscans vs = vscans ?us + vscans ?rs" by (metis vscans_simps(3) add.assoc add.commute)
  have r0: "removed_st (if ext then Some (list_getCopy l) else None) []" by (simp add: removed_st_def list_getCopy_def)
  have le: "vscans ?rs \<le> l_obj_count l" using sc c vscans_nonneg [of ?us] by simp
  obtain rv where rv: "remove_entries offset k l (if ext then Some (list_getCopy l) else None) = Some (l\<lparr>l_obj_count := l_obj_count l - vscans ?rs\<rparr>, rv)"
    "removed_st rv ?rs" using remove_entries_st [OF h k le r0] by auto
  define l1 where "l1 = l\<lparr>l_obj_count := l_obj_count l - vscans ?rs\<rparr>"
  have h1: "holds l1 vs" "l_obj_count l1 = vscans ?us + d" "same_kind l l1" "length vs + (k - ?n) \<le> length (l_entry l1)"
    using h c sc alloc n by (simp_all add: l1_def)
  obtain l2 ms where l2: "make_room offset k ?n l1 = Some l2" "holds l2 (take offset vs @ ms @ drop (offset + k) vs)" "length ms = ?n" "same_head l1 l2"
    using make_room_st [OF h1(1) k h1(4)] by blast
  have s: "\<exists>w. ws = [w] \<and> hneeds_scan w = hneeds_scan v" if "a = ArgValue v" for v
    using check_values_single [OF _ te] cv that by (simp add: arg_values_def)
  have lo: "length (take offset vs) = offset" using o by simp
  obtain l3 where l3: "(case a of ArgValue v \<Rightarrow> do { l \<leftarrow> set_cell offset (List.hd ws) l2; scan_add v l } | ArgList vs \<Rightarrow> store_entries offset ws l2) = Some l3"
    "holds l3 (take offset vs @ ws @ drop (offset + k) vs)" "same_kind l2 l3" "l_obj_count l3 = l_obj_count l2 + vscans ws"
    using put_values_st [OF l2(2) trans [OF l2(3) n [symmetric]] n] s unfolding lo by blast
  have "spliceIntern_value te offset ln a ext l xs = Some (rv, l3, xs')"
    using rv(1) l2(1) l3(1) splice_end_eq [OF h o, of ln] cv
    by (simp add: spliceIntern_value_def k_def [symmetric] l1_def [symmetric] make_room_def Let_def)
  moreover have "list_st l3 (take offset vs @ ws @ drop (offset + k) vs) d"
    using l3(2,4) l2(4) h1(2) c(2) by (simp add: list_st_def same_head_def)
  moreover have "same_kind l l3" using l3(3) l2(4) h1(3) by (simp add: same_head_def same_kind_def)
  ultimately show ?thesis using that rv(2) by blast
qed

end
