(* ===== verification/List_Properties.thy ===== *)
theory List_Properties
  imports List_Splice
begin

text \<open>
  The properties of lists: operations against the specification, lists of values with the usual operations; copies, reversal
  and the scan count; the list as a double-ended queue.
\<close>

section \<open>Whole lists\<close>

lemma read_cells_holds: "holds l vs \<Longrightarrow> i + n \<le> length vs \<Longrightarrow> read_cells i n l = Some (take n (drop i vs))"
proof (induction n arbitrary: i)
  case (Suc n)
  have "take (Suc n) (drop i vs) = vs ! i # take n (drop (Suc i) vs)" using Suc.prems(2) by (simp add: Cons_nth_drop_Suc [symmetric])
  then show ?case using Suc get_cell_holds [OF Suc.prems(1), of i] by simp
qed simp

lemma push_all_st: "list_st l vs d \<Longrightarrow> \<exists>l'. push_all ws l = Some l' \<and> list_st l' (vs @ ws) d \<and> same_kind l l'"
proof (induction ws arbitrary: l vs)
  case (Cons w ws)
  obtain l1 where l1: "pushIntern w l = Some l1" "list_st l1 (vs @ [w]) d" "l_type l1 = l_type l" "l_valid l1 = l_valid l" by (rule pushIntern_st [OF Cons.prems])
  then show ?case using Cons.IH [OF l1(2)] by (auto simp: same_kind_def)
qed simp

lemma list_reserve_st: "list_st l vs d \<Longrightarrow> list_st (list_reserve num l) vs d \<and> same_kind l (list_reserve num l)"
  using list_reserve_holds [of l vs num] by (simp add: list_st_def same_head_def same_kind_def)

lemma list_copy_st:
  assumes "list_st l vs d"
  shows "\<exists>l'. list_copy l = Some l' \<and> list_st l' vs 0 \<and> l_type l' = l_type l"
proof -
  have h: "holds l vs" by (rule list_st_holds [OF assms])
  have "list_st (list_reserve (length vs) (list_getCopy l)) [] 0 \<and> same_kind (list_getCopy l) (list_reserve (length vs) (list_getCopy l))"
    by (rule list_reserve_st) (simp add: list_getCopy_def)
  then have r: "list_st (list_reserve (length vs) (list_getCopy l)) [] 0" "l_type (list_reserve (length vs) (list_getCopy l)) = l_type l"
    by (simp_all add: same_kind_def list_getCopy_def list_new_def)
  show ?thesis using push_all_st [OF r(1), of vs] read_cells_holds [OF h, of 0 "length vs"] holds_length [OF h] r(2)
    by (auto simp: list_copy_def list_copyIntern_def same_kind_def)
qed

lemma copyListFrom_st:
  assumes "list_st l vs d" "index \<le> length vs"
  shows "\<exists>l'. copyListFrom index l = Some l' \<and> list_st l' (drop index vs) 0"
  using push_all_st [of "list_getCopy l" "[]" 0 "drop index vs"] read_cells_holds [OF list_st_holds [OF assms(1)], of index "length vs - index"]
    holds_length [OF list_st_holds [OF assms(1)]] assms(2) by (auto simp: copyListFrom_def list_getCopy_def)

lemma list_merge_loop_st:
  "list_st l vs d \<Longrightarrow> check_values te (l_type l) ws xs = (Some us, xs') \<Longrightarrow>
     \<exists>l'. list_merge_loop te ws l xs = Some (0, l', xs') \<and> list_st l' (vs @ us) d \<and> same_kind l l'"
proof (induction ws arbitrary: l vs xs us)
  case (Cons w ws)
  obtain u us1 xs1 where u: "checkVal te (l_type l) w xs = (Some u, xs1)" "check_values te (l_type l) ws xs1 = (Some us1, xs')" "us = u # us1"
    using Cons.prems(2) by (auto split: prod.splits option.splits)
  obtain l1 where l1: "pushIntern u l = Some l1" "list_st l1 (vs @ [u]) d" "l_type l1 = l_type l" "l_valid l1 = l_valid l" by (rule pushIntern_st [OF Cons.prems(1)])
  have "list_push te w l xs = Some (0, l1, xs1)" using u(1) l1(1) by (simp add: list_push_def)
  then show ?case using Cons.IH [OF l1(2), of xs1 us1] u l1 by (auto simp: same_kind_def)
qed simp

lemma list_merge_st:
  assumes "list_st l vs d" "list_st m ws e" "check_values te (l_type l) ws xs = (Some us, xs')"
  shows "\<exists>l'. list_merge te m l xs = Some (0, l', xs') \<and> list_st l' (vs @ us) d"
proof -
  let ?l = "list_reserve (l_length l + l_length m) l"
  have r: "list_st ?l vs d" "l_type ?l = l_type l" using list_reserve_st [OF assms(1)] by (simp_all add: same_kind_def)
  have h: "holds m ws" by (rule list_st_holds [OF assms(2)])
  show ?thesis using list_merge_loop_st [OF r(1), of te ws xs us xs'] r(2) assms(3) read_cells_holds [OF h, of 0 "length ws"] holds_length [OF h]
    by (auto simp: list_merge_def)
qed

lemma reverse_entries_holds:
  "holds this vs \<Longrightarrow> holds l (take i (rev vs) @ replicate n None) \<Longrightarrow> i + n = length vs \<Longrightarrow>
     \<exists>l'. reverse_entries i n this l = Some l' \<and> holds l' (rev vs) \<and> same_head l l'"
proof (induction n arbitrary: i l)
  case 0
  then show ?case by (simp add: same_head_def)
next
  case (Suc n)
  let ?v = "vs ! (length vs - i - 1)"
  have i: "i < length vs" "i < length (take i (rev vs) @ replicate (Suc n) None)" using Suc.prems(3) by simp_all
  obtain l1 where l1: "set_cell i ?v l = Some l1" "holds l1 ((take i (rev vs) @ replicate (Suc n) None)[i := ?v])" "same_head l l1"
    by (rule set_cell_holds [OF Suc.prems(2) i(2)])
  have "(take i (rev vs) @ replicate (Suc n) None)[i := ?v] = take (Suc i) (rev vs) @ replicate n None"
    using i by (simp add: list_update_append take_Suc_conv_app_nth rev_nth)
  then have "\<exists>l'. reverse_entries (Suc i) n this l1 = Some l' \<and> holds l' (rev vs) \<and> same_head l1 l'"
    using Suc.IH [OF Suc.prems(1), of l1 "Suc i"] l1(2) Suc.prems(3) by simp
  moreover have "get_cell (l_length this - i - 1) this = Some ?v"
    using get_cell_holds [OF Suc.prems(1), of "length vs - i - 1"] holds_length [OF Suc.prems(1)] i by simp
  ultimately show ?case using l1(1,3) by (auto simp: same_head_def)
qed

lemma list_reverse_holds:
  assumes "holds l vs"
  shows "\<exists>l'. list_reverse l = Some l' \<and> holds l' (rev vs) \<and> l_obj_count l' = 0"
proof -
  have n: "holds (list_getCopy l) []" by (simp add: list_getCopy_def)
  obtain l1 where l1: "list_resize (length vs) (list_getCopy l) = Some l1" "holds l1 ([] @ replicate (length vs - length []) None)" "same_head (list_getCopy l) l1"
    by (rule list_resize_grow [OF n, of "length vs"]) auto
  then obtain l2 where "reverse_entries 0 (length vs) l l1 = Some l2" "holds l2 (rev vs)" "same_head l1 l2"
    using reverse_entries_holds [OF assms, of l1 0 "length vs"] by auto
  then show ?thesis using l1 holds_length [OF assms] by (simp add: list_reverse_def same_head_def list_getCopy_def list_new_def)
qed

section \<open>Specification\<close>

datatype list_op =
    Push hvalue | Insert hvalue | Shift | Pop | SetEntry nat hvalue | Splice int | SpliceLen int int | Extract int | ExtractLen int int

text \<open>The answer of an operation is the list of the values it takes out.\<close>

definition removed_values :: "qlist option \<Rightarrow> hvalue list option" where
  "removed_values rv = (case rv of None \<Rightarrow> Some [] | Some r \<Rightarrow> read_cells 0 (l_length r) r)"

definition cut_result :: "(qlist option \<times> qlist) option \<Rightarrow> xsink \<Rightarrow> (hvalue list \<times> qlist \<times> xsink) option" where
  "cut_result r xs = do { (rv, l) \<leftarrow> r; vs \<leftarrow> removed_values rv; Some (vs, l, xs) }"

fun list_exec :: "list_types \<Rightarrow> list_op \<Rightarrow> qlist \<Rightarrow> xsink \<Rightarrow> (hvalue list \<times> qlist \<times> xsink) option" where
  "list_exec te (Push v) l xs = do { (rc, l, xs) \<leftarrow> list_node_push te v l xs; Some ([], l, xs) }"
| "list_exec te (Insert v) l xs = do { (rc, l, xs) \<leftarrow> list_insert te v l xs; Some ([], l, xs) }"
| "list_exec te Shift l xs = do { (v, l) \<leftarrow> list_shift l; Some ([v], l, xs) }"
| "list_exec te Pop l xs = do { (v, l) \<leftarrow> list_pop l; Some ([v], l, xs) }"
| "list_exec te (SetEntry i v) l xs = do { l \<leftarrow> setEntry i v l; Some ([], l, xs) }"
| "list_exec te (Splice offset) l xs = cut_result (list_splice offset l) xs"
| "list_exec te (SpliceLen offset n) l xs = cut_result (list_splice_len offset n l) xs"
| "list_exec te (Extract offset) l xs = cut_result (list_extract offset l) xs"
| "list_exec te (ExtractLen offset n) l xs = cut_result (list_extract_len offset n l) xs"

text \<open>Where a cut starts and how many values it may take: negative numbers count from the end.\<close>

definition cut_start :: "int \<Rightarrow> nat \<Rightarrow> nat" where
  "cut_start offset sz = (if offset < 0 then nat (int sz + offset) else min (nat offset) sz)"

definition cut_length :: "int \<Rightarrow> int \<Rightarrow> nat \<Rightarrow> nat" where
  "cut_length offset n sz = (if n < 0 then nat (int sz + n - int (cut_start offset sz)) else nat n)"

fun lspec_exec :: "list_types \<Rightarrow> list_type \<Rightarrow> list_op \<Rightarrow> hvalue list \<Rightarrow> xsink \<Rightarrow> hvalue list \<times> hvalue list \<times> xsink" where
  "lspec_exec te ty (Push v) vs xs = (case checkVal te ty v xs of (None, xs) \<Rightarrow> ([], vs, xs) | (Some w, xs) \<Rightarrow> ([], vs @ [w], xs))"
| "lspec_exec te ty (Insert v) vs xs = (case checkVal te ty v xs of (None, xs) \<Rightarrow> ([], vs, xs) | (Some w, xs) \<Rightarrow> ([], w # vs, xs))"
| "lspec_exec te ty Shift vs xs = (case vs of [] \<Rightarrow> ([None], [], xs) | v # vs \<Rightarrow> ([v], vs, xs))"
| "lspec_exec te ty Pop vs xs = (if vs = [] then ([None], [], xs) else ([last vs], butlast vs, xs))"
| "lspec_exec te ty (SetEntry i v) vs xs = ([], (vs @ replicate (Suc i - length vs) None)[i := v], xs)"
| "lspec_exec te ty (Splice offset) vs xs = (let i = cut_start offset (length vs) in (drop i vs, take i vs, xs))"
| "lspec_exec te ty (SpliceLen offset n) vs xs =
     (let i = cut_start offset (length vs); k = cut_length offset n (length vs) in (take k (drop i vs), take i vs @ drop (i + k) vs, xs))"
| "lspec_exec te ty (Extract offset) vs xs = (let i = cut_start offset (length vs) in (drop i vs, take i vs, xs))"
| "lspec_exec te ty (ExtractLen offset n) vs xs =
     (let i = cut_start offset (length vs); k = cut_length offset n (length vs) in (take k (drop i vs), take i vs @ drop (i + k) vs, xs))"

primrec list_run :: "list_types \<Rightarrow> list_op list \<Rightarrow> qlist \<Rightarrow> xsink \<Rightarrow> (hvalue list list \<times> qlist \<times> xsink) option" where
  "list_run te [] l xs = Some ([], l, xs)"
| "list_run te (op # ops) l xs = do {
     (r, l, xs) \<leftarrow> list_exec te op l xs;
     (rs, l, xs) \<leftarrow> list_run te ops l xs;
     Some (r # rs, l, xs) }"

primrec lspec_run :: "list_types \<Rightarrow> list_type \<Rightarrow> list_op list \<Rightarrow> hvalue list \<Rightarrow> xsink \<Rightarrow> hvalue list list \<times> hvalue list \<times> xsink" where
  "lspec_run te ty [] vs xs = ([], vs, xs)"
| "lspec_run te ty (op # ops) vs xs =
     (let (r, vs, xs) = lspec_exec te ty op vs xs; (rs, vs, xs) = lspec_run te ty ops vs xs in (r # rs, vs, xs))"

section \<open>Refinement\<close>

lemma removed_values_st: "removed_st rv rs \<Longrightarrow> removed_values rv = Some rs"
  using read_cells_holds [of _ rs 0 "length rs"] holds_length [of _ rs]
  by (auto simp: removed_st_def removed_values_def list_st_def split: option.splits)

lemma cut_start_le: "cut_start offset sz \<le> sz"
  by (auto simp: cut_start_def)

lemma checkOffset_eq: "holds l vs \<Longrightarrow> list_checkOffset offset l = cut_start offset (length vs)"
  "holds l vs \<Longrightarrow> list_checkOffset_len offset n l = (cut_start offset (length vs), cut_length offset n (length vs))"
  by (auto simp: list_checkOffset_len_def list_checkOffset_def cut_start_def cut_length_def Let_def holds_length)

lemma cut_st:
  assumes "list_st l vs d"
  shows "\<exists>l'. cut_result (if cut_start offset (length vs) = l_length l then Some (if ext then Some (list_getCopy l) else None, l)
        else spliceIntern (cut_start offset (length vs)) k ext l) xs
      = Some (take k (drop (cut_start offset (length vs)) vs), l', xs)
    \<and> list_st l' (take (cut_start offset (length vs)) vs @ drop (cut_start offset (length vs) + k) vs) d \<and> same_kind l l'"
proof (cases "cut_start offset (length vs) = length vs")
  case True
  have "removed_st (if ext then Some (list_getCopy l) else None) []" by (simp add: removed_st_def list_getCopy_def)
  then show ?thesis using True assms holds_length [OF list_st_holds [OF assms]] removed_values_st by (simp add: cut_result_def)
next
  case False
  let ?i = "cut_start offset (length vs)"
  have i: "?i < length vs" using cut_start_le [of offset "length vs"] False by simp
  obtain rv l' where r: "spliceIntern ?i k ext l = Some (rv, l')" "removed_st rv (take (min k (length vs - ?i)) (drop ?i vs))"
    "list_st l' (take ?i vs @ drop (?i + min k (length vs - ?i)) vs) d" "same_kind l l'" by (rule spliceIntern_st [OF assms i refl])
  have "take (min k (length vs - ?i)) (drop ?i vs) = take k (drop ?i vs)" "drop (?i + min k (length vs - ?i)) vs = drop (?i + k) vs"
    by (simp_all add: min_def)
  then show ?thesis using r removed_values_st False holds_length [OF list_st_holds [OF assms]] by (simp add: cut_result_def)
qed

lemma list_exec_refines:
  assumes "list_st l vs d" "l_valid l" "keeps_scan te"
  shows "\<exists>r l' vs' xs'. list_exec te op l xs = Some (r, l', xs') \<and> list_st l' vs' d \<and> same_kind l l' \<and> lspec_exec te (l_type l) op vs xs = (r, vs', xs')"
proof -
  have h: "holds l vs" by (rule list_st_holds [OF assms(1)])
  show ?thesis
  proof (cases op)
    case (Push v)
    obtain w xs' where c: "checkVal te (l_type l) v xs = (w, xs')" by fastforce
    show ?thesis
    proof (cases w)
      case None
      then show ?thesis using Push c assms by (simp add: list_node_push_def list_checkValid_def list_push_def)
    next
      case (Some u)
      obtain l' where "pushIntern u l = Some l'" "list_st l' (vs @ [u]) d" "l_type l' = l_type l" "l_valid l' = l_valid l" by (rule pushIntern_st [OF assms(1)])
      then show ?thesis using Push Some c assms by (simp add: list_node_push_def list_checkValid_def list_push_def same_kind_def)
    qed
  next
    case (Insert v)
    obtain w xs' where c: "checkVal te (l_type l) v xs = (w, xs')" by fastforce
    show ?thesis
    proof (cases w)
      case None
      then show ?thesis using Insert c assms by (simp add: list_insert_def)
    next
      case (Some u)
      then obtain l' where "list_insert te v l xs = Some (0, l', xs')" "list_st l' (u # vs) d" "same_kind l l'"
        using list_insert_st [OF assms(1) c [unfolded Some] checkVal_scan [OF assms(3) c [unfolded Some]]] by blast
      then show ?thesis using Insert Some c by simp
    qed
  next
    case Shift
    show ?thesis
    proof (cases vs)
      case Nil
      then show ?thesis using Shift assms(1) holds_length [OF h] by (simp add: list_shift_def)
    next
      case (Cons v us)
      obtain l' where "list_shift l = Some (v, l')" "list_st l' us d" "same_kind l l'" by (rule list_shift_st [OF assms(1) [unfolded Cons]])
      then show ?thesis using Shift Cons by simp
    qed
  next
    case Pop
    show ?thesis
    proof (cases vs rule: rev_cases)
      case Nil
      then show ?thesis using Pop assms(1) holds_length [OF h] by (simp add: list_pop_def)
    next
      case (snoc us v)
      obtain l' where "list_pop l = Some (v, l')" "list_st l' us d" "same_kind l l'" by (rule list_pop_st [OF assms(1) [unfolded snoc]])
      then show ?thesis using Pop snoc by simp
    qed
  next
    case (SetEntry i v)
    obtain l' where "setEntry i v l = Some l'" "list_st l' ((vs @ replicate (Suc i - length vs) None)[i := v]) d" "same_kind l l'" by (rule setEntry_st [OF assms(1)])
    then show ?thesis using SetEntry by simp
  next
    case (Splice offset)
    then show ?thesis using cut_st [OF assms(1), of offset False "length vs - cut_start offset (length vs)" xs] holds_length [OF h] checkOffset_eq(1) [OF h]
      by (auto simp: list_splice_def Let_def cut_start_le)
  next
    case (SpliceLen offset n)
    then show ?thesis using cut_st [OF assms(1), of offset False "cut_length offset n (length vs)" xs] checkOffset_eq(2) [OF h]
      by (auto simp: list_splice_len_def Let_def)
  next
    case (Extract offset)
    then show ?thesis using cut_st [OF assms(1), of offset True "length vs - cut_start offset (length vs)" xs] holds_length [OF h] checkOffset_eq(1) [OF h]
      by (auto simp: list_extract_def Let_def cut_start_le)
  next
    case (ExtractLen offset n)
    then show ?thesis using cut_st [OF assms(1), of offset True "cut_length offset n (length vs)" xs] checkOffset_eq(2) [OF h]
      by (auto simp: list_extract_len_def Let_def)
  qed
qed

text \<open>
  C24: A sequence of operations on a new list (push, insert, shift, pop, setting an entry, splice and extract with offsets and
  lengths that may be negative or too large) never leaves the allocated array, never uses a cell that has not been written and never
  fails an assertion; it acts as the corresponding operations on lists of values, and the scan count is exact.
\<close>

theorem list_refines_values:
  assumes "keeps_scan te"
  shows "\<exists>rs l vs xs. list_run te ops (list_new ty) [] = Some (rs, l, xs) \<and> list_st l vs 0 \<and> lspec_run te ty ops [] [] = (rs, vs, xs)"
proof -
  have run: "\<exists>rs l' vs' xs'. list_run te ops l xs = Some (rs, l', xs') \<and> list_st l' vs' 0 \<and> lspec_run te (l_type l) ops vs xs = (rs, vs', xs')"
    if "list_st l vs 0" "l_valid l" for l vs xs
    using that
  proof (induction ops arbitrary: l vs xs)
    case (Cons op ops)
    obtain r l1 vs1 xs1 where 1: "list_exec te op l xs = Some (r, l1, xs1)" "list_st l1 vs1 0" "same_kind l l1" "lspec_exec te (l_type l) op vs xs = (r, vs1, xs1)"
      using list_exec_refines [OF Cons.prems assms] by blast
    have "l_valid l1" "l_type l1 = l_type l" using 1(3) Cons.prems(2) by (simp_all add: same_kind_def)
    then obtain rs l' vs' xs' where "list_run te ops l1 xs1 = Some (rs, l', xs')" "list_st l' vs' 0" "lspec_run te (l_type l) ops vs1 xs1 = (rs, vs', xs')"
      using Cons.IH [OF 1(2)] by metis
    then show ?case using 1 by auto
  qed auto
  show ?thesis using run [of "list_new ty" "[]" "[]"] by (simp add: list_new_def [of ty, symmetric]) (simp add: list_new_def)
qed

text \<open>Types that take every value as it is.\<close>

definition any_types :: list_types where
  "any_types = \<lparr>lt_container = (\<lambda>_. False), lt_strip = id, lt_super = (\<lambda>_. True), lt_accept = Inl\<rparr>"

lemma any_types_simps [simp]: "keeps_scan any_types" "checkVal any_types ty v xs = (Some v, xs)" "check_values any_types ty vs xs = (Some vs, xs)"
proof -
  show c: "checkVal any_types ty v xs = (Some v, xs)" for v xs by (cases ty) (simp_all add: any_types_def checkVal_def stripVal_def)
  show "check_values any_types ty vs xs = (Some vs, xs)" by (induction vs) (simp_all add: c)
qed (simp add: keeps_scan_def any_types_def)

theorem list_refines_values_witness:
  "\<exists>l xs. list_run any_types [Push (Some (Scalar 1)), Push (Some (Scalar 2)), Insert None, SpliceLen (- 2) 1] (list_new PlainList) []
      = Some ([[], [], [], [Some (Scalar 1)]], l, xs) \<and> list_st l [None, Some (Scalar 2)] 0"
proof -
  let ?ops = "[Push (Some (Scalar 1)), Push (Some (Scalar 2)), Insert None, SpliceLen (- 2) 1]"
  have "lspec_run any_types PlainList ?ops [] [] = ([[], [], [], [Some (Scalar 1)]], [None, Some (Scalar 2)], [])"
    by (simp add: cut_start_def cut_length_def Let_def)
  then show ?thesis using list_refines_values [of any_types ?ops PlainList] by (simp del: list_run.simps) blast
qed

section \<open>Splicing values in\<close>

text \<open>
  C39: \<open>splice\<close> and \<open>extract\<close> with values to insert replace the cut by these values, after the check of their types, keep the scan
  count and give back the values they removed, provided that the cells the move of a shrinking list reads behind its end are allocated.  When the types refuse
  a value the list is not changed.
\<close>

theorem splice_values:
  assumes "list_st l vs d" "keeps_scan te" "check_values te (l_type l) (arg_values a) xs = (ws, xs')"
    and "i = cut_start offset (length vs)" "k = min (cut_length offset n (length vs)) (length vs - i)"
    and "length vs + (k - length (arg_values a)) \<le> length (l_entry l)"
  shows "\<exists>rv l' r l''. list_splice_value te offset n a l xs = Some (rv, l', xs') \<and> list_extract_value te offset n a l xs = Some (r, l'', xs')
    \<and> (case ws of
         None \<Rightarrow> l' = l \<and> l'' = l
       | Some us \<Rightarrow> list_st l' (take i vs @ us @ drop (i + k) vs) d \<and> list_st l'' (take i vs @ us @ drop (i + k) vs) d
           \<and> removed_values rv = Some (take k (drop i vs)) \<and> removed_values r = Some (take k (drop i vs)))"
proof (cases ws)
  case None
  then show ?thesis using assms(3) by (auto simp: list_splice_value_def list_extract_value_def spliceIntern_value_def split: prod.splits)
next
  case (Some us)
  have o: "list_checkOffset_len offset n l = (i, cut_length offset n (length vs))" using checkOffset_eq(2) [OF list_st_holds [OF assms(1)]] assms(4) by simp
  have i: "i \<le> length vs" using assms(4) cut_start_le by simp
  have u: "length us = length (arg_values a)" using check_values_length assms(3) Some by blast
  have "\<exists>rv l'. spliceIntern_value te i (cut_length offset n (length vs)) a ext l xs = Some (rv, l', xs') \<and> removed_values rv = Some (take k (drop i vs))
      \<and> list_st l' (take i vs @ us @ drop (i + k) vs) d" for ext
    using spliceIntern_value_st [OF assms(1) i assms(5,2) assms(3) [unfolded Some], of ext] assms(6) u removed_values_st by metis
  from this [of False] this [of True] show ?thesis using o Some by (auto simp: list_splice_value_def list_extract_value_def)
qed

theorem splice_values_witness:
  "\<exists>l rv l'. list_st l [None, Some (Scalar 1), None] 0 \<and> list_splice_value any_types 1 1 (ArgList [Some (Scalar 2), Some (Scalar 3)]) l [] = Some (rv, l', [])
    \<and> list_st l' [None, Some (Scalar 2), Some (Scalar 3), None] 0"
proof -
  obtain l where l: "list_st l [None, Some (Scalar 1), None] 0" using push_all_st [of "list_new PlainList" "[]" 0 "[None, Some (Scalar 1), None]"] by auto
  have "3 \<le> length (l_entry l)" using holds_allocated [OF list_st_holds [OF l]] by simp
  then show ?thesis using splice_values [OF l, of any_types "ArgList [Some (Scalar 2), Some (Scalar 3)]" "[]" "Some [Some (Scalar 2), Some (Scalar 3)]" "[]" 1 1 1 1] l
    by (auto simp: cut_start_def cut_length_def arg_values_def)
qed

text \<open>
  Replacing ten of fifteen values by one reads behind the allocated array: a list that was built by fifteen pushes has room for sixteen values, and the move
  that closes the gap takes as many values as the list had behind the new value, not as many as are left.
\<close>

theorem splice_shrink_overread:
  "case push_all (replicate 15 None) (list_new PlainList) of
     None \<Rightarrow> False
   | Some l \<Rightarrow> l_length l = 15 \<and> length (l_entry l) = 16 \<and> list_splice_value any_types 0 10 (ArgValue None) l [] = None"
  by code_simp

section \<open>The scan count after reversing\<close>

text \<open>
  A reversed list has the values in the opposite order, but its scan count is zero also when it holds objects: removing an object from it fails the
  assertion on the count.
\<close>

theorem reverse_loses_scan_count:
  assumes "list_st l (v # vs) d"
  shows "\<exists>l'. list_reverse l = Some l' \<and> holds l' (rev (v # vs)) \<and> l_obj_count l' = 0 \<and> (hneeds_scan v \<longrightarrow> list_pop l' = None)"
proof -
  obtain l' where l': "list_reverse l = Some l'" "holds l' (rev (v # vs))" "l_obj_count l' = 0"
    using list_reverse_holds [OF list_st_holds [OF assms]] by blast
  have h: "holds l' (rev vs @ [v])" using l'(2) by simp
  obtain l2 where l2: "set_cell (length vs) None l' = Some l2" "holds l2 ((rev vs @ [v])[length vs := None])" "same_head l' l2"
    by (rule set_cell_holds [OF h, of "length vs" None]) auto
  have "list_pop l' = None" if "hneeds_scan v"
    using that l2 l'(3) holds_length [OF h] get_cell_holds [OF h, of "length vs"] list_resize_shrink(1) [OF l2(2), of "length vs"]
    by (simp add: list_pop_def nth_append scan_remove_def list_incScanCount_def same_head_def)
  then show ?thesis using l' by blast
qed

theorem reverse_loses_scan_count_witness:
  "\<exists>l l'. list_st l [Some (Node 1 True)] 0 \<and> list_reverse l = Some l' \<and> list_pop l' = None"
proof -
  obtain l where l: "list_st l [Some (Node 1 True)] 0" using push_all_st [of "list_new PlainList" "[]" 0 "[Some (Node 1 True)]"] by auto
  then show ?thesis using reverse_loses_scan_count [OF l] by (auto simp: hneeds_scan_def)
qed

section \<open>The list as a double-ended queue\<close>

definition plain_insert :: "hvalue \<Rightarrow> qlist \<Rightarrow> qlist option" where
  "plain_insert v l = map_option (fst \<circ> snd) (list_insert any_types v l [])"

definition answered :: "(hvalue \<times> qlist) option \<Rightarrow> ((unit \<times> hvalue) \<times> qlist) option" where
  "answered r = map_option (apfst (Pair ())) r"

interpretation ld: deque "\<lambda>l vs. list_st l vs 0" pushIntern plain_insert "answered \<circ> list_shift" "answered \<circ> list_pop"
proof
  fix s :: qlist and vs v
  show "list_st s vs 0 \<Longrightarrow> \<exists>s'. pushIntern v s = Some s' \<and> list_st s' (vs @ [v]) 0" by (rule pushIntern_st) blast+
  show "\<exists>s'. plain_insert v s = Some s' \<and> list_st s' (v # vs) 0" if "list_st s vs 0"
  proof -
    obtain s' where "list_insert any_types v s [] = Some (0, s', [])" "list_st s' (v # vs) 0" by (rule list_insert_st [OF \<open>list_st s vs 0\<close>, of any_types v "[]" v "[]"]) auto
    then show ?thesis by (simp add: plain_insert_def)
  qed
  show "list_st s (v # vs) 0 \<Longrightarrow> \<exists>a s'. (answered \<circ> list_shift) s = Some ((a, v), s') \<and> list_st s' vs 0"
    using list_shift_st [of s v vs 0] by (auto simp: answered_def)
  show "list_st s (vs @ [v]) 0 \<Longrightarrow> \<exists>a s'. (answered \<circ> list_pop) s = Some ((a, v), s') \<and> list_st s' vs 0"
    using list_pop_st [of s vs v 0] by (auto simp: answered_def)
qed

lemma list_fifo: "\<exists>l l'. ld.push_all ws (list_new ty) = Some l \<and> ld.drain_front (length ws) l = Some (ws, l') \<and> list_st l' [] 0"
  using ld.fifo [of "list_new ty" "[]" ws] by simp

end
