(* ===== verification/List_Sort.thy ===== *)
theory List_Sort
  imports List_Properties
begin

text \<open>
  Sorting of lists (\<open>mergesort\<close>, \<open>qsort\<close> and the sort methods of \<open>src/lib/QoreListNode.cpp\<close>): a stable merge sort with two temporary
  lists, and a quick sort in place.  The comparison is a parameter: the comparison operator or the call of a function, which
  gives an integer or raises an exception; it is called again and again and may not change.  The stack check of the quick sort is a predicate
  on the depth of the recursion.
\<close>

section \<open>Comparison\<close>

type_synonym comparator = "hvalue \<Rightarrow> hvalue \<Rightarrow> int + string"

definition compare_values :: "comparator \<Rightarrow> hvalue \<Rightarrow> hvalue \<Rightarrow> xsink \<Rightarrow> int option \<times> xsink" where
  "compare_values cmp a b xs =
     (case cmp a b of Inr e \<Rightarrow> (None, raiseException xs e) | Inl rc \<Rightarrow> if xs \<noteq> [] then (None, xs) else (Some rc, xs))"

section \<open>Lengths\<close>

lemma set_cell_length: "set_cell i v l = Some l' \<Longrightarrow> l_length l' = l_length l"
  by (auto simp: set_cell_def split: if_splits)

lemma scan_length: "scan_add v l = Some l' \<Longrightarrow> l_length l' = l_length l" "scan_remove v l = Some l' \<Longrightarrow> l_length l' = l_length l"
  by (auto simp: scan_add_def scan_remove_def list_incScanCount_def split: if_splits)

lemma resize_length: "list_resize n l = Some l' \<Longrightarrow> l_length l' = n"
  by (auto simp: list_resize_def Let_def bind_eq_Some_conv split: if_splits)

lemma pushIntern_length: "pushIntern v l = Some l' \<Longrightarrow> l_length l' = Suc (l_length l)"
  by (auto simp: pushIntern_def list_getEntryReference_def Let_def bind_eq_Some_conv dest!: resize_length set_cell_length scan_length)

lemma push_all_length: "push_all vs l = Some l' \<Longrightarrow> l_length l' = l_length l + length vs"
  by (induction vs arbitrary: l) (auto simp: bind_eq_Some_conv dest!: pushIntern_length)

lemma read_cells_length: "read_cells i n l = Some vs \<Longrightarrow> length vs = n"
  by (induction n arbitrary: i vs) (auto simp: bind_eq_Some_conv)

lemma getAndClear_length: "getAndClear i l = Some (v, l') \<Longrightarrow> l_length l' = l_length l"
  by (auto simp: getAndClear_def bind_eq_Some_conv dest!: set_cell_length scan_length split: if_splits)

section \<open>Merge sort\<close>

text \<open>The values of one temporary list that are left over.\<close>

function drain :: "nat \<Rightarrow> qlist \<Rightarrow> qlist \<Rightarrow> qlist option" where
  "drain i r l = (if i < l_length r then do { (v, r) \<leftarrow> getAndClear i r; l \<leftarrow> pushIntern v l; drain (Suc i) r l } else Some l)"
  by auto
termination
  by (relation "measure (\<lambda>(i, r, l). l_length r - i)") (auto dest: getAndClear_length)

function merge_lists ::
    "comparator \<Rightarrow> bool \<Rightarrow> nat \<Rightarrow> qlist \<Rightarrow> nat \<Rightarrow> qlist \<Rightarrow> qlist \<Rightarrow> xsink \<Rightarrow> (int \<times> qlist \<times> xsink) option" where
  "merge_lists cmp ascending li left ri right l xs =
     (if li < l_length left \<and> ri < l_length right
      then do {
        lv \<leftarrow> get_cell li left;
        rv \<leftarrow> get_cell ri right;
        (case compare_values cmp lv rv xs of
           (None, xs) \<Rightarrow> Some (- 1, l, xs)
         | (Some rc, xs) \<Rightarrow>
             if ascending \<and> rc \<le> 0 \<or> \<not> ascending \<and> rc \<ge> 0
             then do { (v, left) \<leftarrow> getAndClear li left; l \<leftarrow> pushIntern v l; merge_lists cmp ascending (Suc li) left ri right l xs }
             else do { (v, right) \<leftarrow> getAndClear ri right; l \<leftarrow> pushIntern v l; merge_lists cmp ascending li left (Suc ri) right l xs }) }
      else do { l \<leftarrow> drain li left l; l \<leftarrow> drain ri right l; Some (0, l, xs) })"
  by pat_completeness auto
termination
  by (relation "measure (\<lambda>(cmp, ascending, li, left, ri, right, l, xs). (l_length left - li) + (l_length right - ri))") (auto dest: getAndClear_length)

function mergesort :: "comparator \<Rightarrow> bool \<Rightarrow> qlist \<Rightarrow> xsink \<Rightarrow> (int \<times> qlist \<times> xsink) option" where
  "mergesort cmp ascending l xs =
     (if l_length l \<le> 1 then Some (0, l, xs)
      else do {
        let mid = l_length l div 2;
        lvs \<leftarrow> read_cells 0 mid l;
        left \<leftarrow> push_all lvs (list_new ComplexList);
        rvs \<leftarrow> read_cells mid (l_length l - mid) l;
        right \<leftarrow> push_all rvs (list_new ComplexList);
        let l = l\<lparr>l_length := 0\<rparr>;
        (rc, left, xs) \<leftarrow> mergesort cmp ascending left xs;
        if rc \<noteq> 0 then Some (- 1, l, xs)
        else do {
          (rc, right, xs) \<leftarrow> mergesort cmp ascending right xs;
          if rc \<noteq> 0 then Some (- 1, l, xs) else merge_lists cmp ascending 0 left 0 right l xs } })"
  by pat_completeness auto
termination
  by (relation "measure (\<lambda>(cmp, ascending, l, xs). l_length l)") (auto dest!: read_cells_length push_all_length simp: list_new_def)

section \<open>Quick sort\<close>

function scan_right :: "comparator \<Rightarrow> bool \<Rightarrow> hvalue \<Rightarrow> nat \<Rightarrow> nat \<Rightarrow> qlist \<Rightarrow> xsink \<Rightarrow> (nat option \<times> xsink) option" where
  "scan_right cmp ascending pivot left right l xs = do {
     v \<leftarrow> get_cell right l;
     (case compare_values cmp v pivot xs of
        (None, xs) \<Rightarrow> Some (None, xs)
      | (Some rc, xs) \<Rightarrow>
          if left < right \<and> (rc \<ge> 0 \<and> ascending \<or> rc < 0 \<and> \<not> ascending) then scan_right cmp ascending pivot left (right - 1) l xs
          else Some (Some right, xs)) }"
  by pat_completeness auto
termination
  by (relation "measure (\<lambda>(cmp, ascending, pivot, left, right, l, xs). right)") auto

function scan_left :: "comparator \<Rightarrow> bool \<Rightarrow> hvalue \<Rightarrow> nat \<Rightarrow> nat \<Rightarrow> qlist \<Rightarrow> xsink \<Rightarrow> (nat option \<times> xsink) option" where
  "scan_left cmp ascending pivot left right l xs = do {
     v \<leftarrow> get_cell left l;
     (case compare_values cmp v pivot xs of
        (None, xs) \<Rightarrow> Some (None, xs)
      | (Some rc, xs) \<Rightarrow>
          if left < right \<and> (rc \<le> 0 \<and> ascending \<or> rc > 0 \<and> \<not> ascending) then scan_left cmp ascending pivot (Suc left) right l xs
          else Some (Some left, xs)) }"
  by pat_completeness auto
termination
  by (relation "measure (\<lambda>(cmp, ascending, pivot, left, right, l, xs). right - left)") auto

declare drain.simps [simp del] merge_lists.simps [simp del] mergesort.simps [simp del] scan_right.simps [simp del] scan_left.simps [simp del]

lemma scan_right_bounds: "scan_right cmp ascending pivot left right l xs = Some (Some r, xs') \<Longrightarrow> left \<le> right \<Longrightarrow> left \<le> r \<and> r \<le> right"
proof (induction cmp ascending pivot left right l xs rule: scan_right.induct)
  case (1 cmp ascending pivot left right l xs)
  obtain v where v: "get_cell right l = Some v" using 1(2) by (auto simp: scan_right.simps [of cmp ascending pivot left right] bind_eq_Some_conv)
  obtain rc ys where c: "compare_values cmp v pivot xs = (Some rc, ys)"
    using 1(2) v by (auto simp: scan_right.simps [of cmp ascending pivot left right] split: prod.splits option.splits)
  show ?case
  proof (cases "left < right \<and> (rc \<ge> 0 \<and> ascending \<or> rc < 0 \<and> \<not> ascending)")
    case True
    have "left \<le> r \<and> r \<le> right - 1" using 1(2) v c True by (intro 1(1) [OF v c [symmetric] refl True]) (auto simp: scan_right.simps [of cmp ascending pivot left right])
    then show ?thesis by linarith
  next
    case False
    then show ?thesis using 1(2,3) v c by (auto simp: scan_right.simps [of cmp ascending pivot left right] split: if_splits)
  qed
qed

lemma scan_left_bounds: "scan_left cmp ascending pivot left right l xs = Some (Some r, xs') \<Longrightarrow> left \<le> right \<Longrightarrow> left \<le> r \<and> r \<le> right"
proof (induction cmp ascending pivot left right l xs rule: scan_left.induct)
  case (1 cmp ascending pivot left right l xs)
  obtain v where v: "get_cell left l = Some v" using 1(2) by (auto simp: scan_left.simps [of cmp ascending pivot left right] bind_eq_Some_conv)
  obtain rc ys where c: "compare_values cmp v pivot xs = (Some rc, ys)"
    using 1(2) v by (auto simp: scan_left.simps [of cmp ascending pivot left right] split: prod.splits option.splits)
  show ?case
  proof (cases "left < right \<and> (rc \<le> 0 \<and> ascending \<or> rc > 0 \<and> \<not> ascending)")
    case True
    have "Suc left \<le> r \<and> r \<le> right" using 1(2) v c True by (intro 1(1) [OF v c [symmetric] refl True]) (auto simp: scan_left.simps [of cmp ascending pivot left right])
    then show ?thesis by simp
  next
    case False
    then show ?thesis using 1(2,3) v c by (auto simp: scan_left.simps [of cmp ascending pivot left right] split: if_splits)
  qed
qed

definition move_entry :: "nat \<Rightarrow> nat \<Rightarrow> qlist \<Rightarrow> qlist option" where
  "move_entry dst src l = do { v \<leftarrow> get_cell src l; set_cell dst v l }"

function partition_loop ::
    "comparator \<Rightarrow> bool \<Rightarrow> hvalue \<Rightarrow> nat \<Rightarrow> nat \<Rightarrow> qlist \<Rightarrow> xsink \<Rightarrow> (nat option \<times> qlist \<times> xsink) option" where
  "partition_loop cmp ascending pivot left right l xs =
     (if left < right
      then do {
        (r, xs) \<leftarrow> scan_right cmp ascending pivot left right l xs;
        (case r of
           None \<Rightarrow> Some (None, l, xs)
         | Some right \<Rightarrow> do {
             (left, l) \<leftarrow> (if left \<noteq> right then do { l \<leftarrow> move_entry left right l; Some (Suc left, l) } else Some (left, l));
             (r, xs) \<leftarrow> scan_left cmp ascending pivot left right l xs;
             (case r of
                None \<Rightarrow> Some (None, l, xs)
              | Some left \<Rightarrow> do {
                  (right, l) \<leftarrow> (if left \<noteq> right then do { l \<leftarrow> move_entry right left l; Some (right - 1, l) } else Some (right, l));
                  partition_loop cmp ascending pivot left right l xs }) }) }
      else Some (Some left, l, xs))"
  by pat_completeness auto
termination
proof (relation "measure (\<lambda>(cmp, ascending, pivot, left, right, l, xs). right - left)", goal_cases)
  case (2 cmp ascending pivot left right l xs a r1 xs1 right1 b left1 l1 c r2 xs2 left2 d right2 l2)
  have "left \<le> right1 \<and> right1 \<le> right" using scan_right_bounds 2 by fastforce
  moreover have "left1 = (if left \<noteq> right1 then Suc left else left)" using 2 by (auto simp: bind_eq_Some_conv split: if_splits)
  moreover have "left1 \<le> left2 \<and> left2 \<le> right1" using scan_left_bounds [of cmp ascending pivot left1 right1 l1 xs1 left2] 2 calculation by (auto split: if_splits)
  moreover have "right2 = (if left2 \<noteq> right1 then right1 - 1 else right1)" using 2 by (auto simp: bind_eq_Some_conv split: if_splits)
  ultimately show ?case using 2(1) by (auto split: if_splits)
qed simp

declare partition_loop.simps [simp del]

lemma partition_loop_bounds:
  "partition_loop cmp ascending pivot left right l xs = Some (Some t, l', xs') \<Longrightarrow> left \<le> t \<and> (left \<le> right \<longrightarrow> t \<le> right) \<and> (right \<le> left \<longrightarrow> t = left)"
proof (induction cmp ascending pivot left right l xs rule: partition_loop.induct)
  case (1 cmp ascending pivot left right l xs)
  note eq = 1(2) [unfolded partition_loop.simps [of cmp ascending pivot left right]]
  show ?case
  proof (cases "left < right")
    case True
    then obtain right1 xs1 where s1: "scan_right cmp ascending pivot left right l xs = Some (Some right1, xs1)"
      using eq by (auto simp: bind_eq_Some_conv split: option.splits)
    obtain left1 l1 where m1: "(if left \<noteq> right1 then do { l \<leftarrow> move_entry left right1 l; Some (Suc left, l) } else Some (left, l)) = Some (left1, l1)"
      using eq True s1 by (auto simp: bind_eq_Some_conv simp del: not_None_eq split: option.splits if_splits)
    obtain left2 xs2 where s2: "scan_left cmp ascending pivot left1 right1 l1 xs1 = Some (Some left2, xs2)"
      using eq True s1 m1 by (auto simp: bind_eq_Some_conv split: option.splits if_splits)
    obtain right2 l2 where m2: "(if left2 \<noteq> right1 then do { l \<leftarrow> move_entry right1 left2 l1; Some (right1 - 1, l) } else Some (right1, l1)) = Some (right2, l2)"
      using eq True s1 m1 s2 by (auto simp: bind_eq_Some_conv split: option.splits if_splits)
    have b1: "left \<le> right1 \<and> right1 \<le> right" using scan_right_bounds [OF s1] True by simp
    have e1: "left1 = (if left \<noteq> right1 then Suc left else left)" using m1 by (auto simp: bind_eq_Some_conv split: if_splits)
    have b2: "left1 \<le> left2 \<and> left2 \<le> right1" using scan_left_bounds [OF s2] e1 b1 by (auto split: if_splits)
    have e2: "right2 = (if left2 \<noteq> right1 then right1 - 1 else right1)" using m2 by (auto simp: bind_eq_Some_conv split: if_splits)
    have "partition_loop cmp ascending pivot left2 right2 l2 xs2 = Some (Some t, l', xs')" using eq True s1 m1 s2 m2 by simp
    then have "left2 \<le> t \<and> (left2 \<le> right2 \<longrightarrow> t \<le> right2)"
      using 1(1) [OF True s1 refl refl m1 refl s2 refl refl m2 refl] by simp
    moreover have "left2 \<le> right2" using b2 e2 by auto
    ultimately show ?thesis using b1 b2 e1 e2 by (auto split: if_splits)
  next
    case False
    then show ?thesis using eq by auto
  qed
qed

function qsort ::
    "comparator \<Rightarrow> (nat \<Rightarrow> bool) \<Rightarrow> nat \<Rightarrow> nat \<Rightarrow> nat \<Rightarrow> bool \<Rightarrow> qlist \<Rightarrow> xsink \<Rightarrow> (int \<times> qlist \<times> xsink) option" where
  "qsort cmp check_stack depth left right ascending l xs =
     (if check_stack depth then Some (- 1, l, raiseException xs ''STACK-LIMIT-EXCEEDED'')
      else do {
        pivot \<leftarrow> get_cell left l;
        (t, l, xs) \<leftarrow> partition_loop cmp ascending pivot left right l xs;
        (case t of
           None \<Rightarrow> Some (- 1, l, xs)
         | Some t_left \<Rightarrow> do {
             l \<leftarrow> set_cell t_left pivot l;
             (rc, l, xs) \<leftarrow> (if left < t_left then qsort cmp check_stack (Suc depth) left (t_left - 1) ascending l xs else Some (0, l, xs));
             if rc = 0 \<and> right > t_left then qsort cmp check_stack (Suc depth) (t_left + 1) right ascending l xs else Some (rc, l, xs) }) })"
  by pat_completeness auto
termination
proof (relation "measure (\<lambda>(cmp, check_stack, depth, left, right, ascending, l, xs). right - left)", goal_cases)
  case 1
  then show ?case by simp
next
  case 2
  then show ?case using partition_loop_bounds by fastforce
next
  case 3
  then show ?case using partition_loop_bounds by fastforce
qed

declare qsort.simps [simp del]

section \<open>Sort methods\<close>

definition QORE_QUICKSORT_LIMIT :: nat where
  "QORE_QUICKSORT_LIMIT = 1000"

definition list_sort :: "comparator \<Rightarrow> (nat \<Rightarrow> bool) \<Rightarrow> bool \<Rightarrow> qlist \<Rightarrow> xsink \<Rightarrow> (qlist option \<times> xsink) option" where
  "list_sort cmp check_stack ascending l xs = do {
     rv \<leftarrow> list_copy l;
     if l_length l \<noteq> 0
     then do {
       (rc, rv, xs) \<leftarrow> (if l_length l > QORE_QUICKSORT_LIMIT then mergesort cmp ascending rv xs
                       else qsort cmp check_stack 0 0 (l_length l - 1) ascending rv xs);
       Some (if rc \<noteq> 0 then None else Some rv, xs) }
     else Some (Some rv, xs) }"

definition sortStable :: "comparator \<Rightarrow> bool \<Rightarrow> qlist \<Rightarrow> xsink \<Rightarrow> (qlist option \<times> xsink) option" where
  "sortStable cmp ascending l xs = do {
     rv \<leftarrow> list_copy l;
     if l_length l \<noteq> 0
     then do { (rc, rv, xs) \<leftarrow> mergesort cmp ascending rv xs; Some (if rc \<noteq> 0 then None else Some rv, xs) }
     else Some (Some rv, xs) }"

end
