(* ===== verification/List_Sorted.thy ===== *)
theory List_Sorted
  imports List_Sort Date_Arith "HOL-Library.Multiset"
begin

text \<open>
  Correctness of sorting.  The locale \<open>sort_order\<close> is the contract of the comparison on the values of a list: it raises no exception and
  is the sign of a total preorder.  It is met by the comparison operator on integers and on dates.
\<close>

section \<open>Merging and sorting lists of values\<close>

fun merge_vals :: "('v \<Rightarrow> 'v \<Rightarrow> bool) \<Rightarrow> 'v list \<Rightarrow> 'v list \<Rightarrow> 'v list" where
  "merge_vals le (a # as) (b # bs) = (if le a b then a # merge_vals le as (b # bs) else b # merge_vals le (a # as) bs)"
| "merge_vals le [] bs = bs"
| "merge_vals le as [] = as"

function msort :: "('v \<Rightarrow> 'v \<Rightarrow> bool) \<Rightarrow> 'v list \<Rightarrow> 'v list" where
  "msort le vs = (if length vs \<le> 1 then vs else merge_vals le (msort le (take (length vs div 2) vs)) (msort le (drop (length vs div 2) vs)))"
  by auto
termination by (relation "measure (\<lambda>(le, vs). length vs)") auto

declare msort.simps [simp del]

lemma mset_merge_vals: "mset (merge_vals le as bs) = mset as + mset bs"
  by (induction le as bs rule: merge_vals.induct) simp_all

lemma set_merge_vals: "set (merge_vals le as bs) = set as \<union> set bs"
  by (induction le as bs rule: merge_vals.induct) auto

lemma mset_msort: "mset (msort le vs) = mset vs"
proof (induction le vs rule: msort.induct)
  case (1 le vs)
  have "mset (take (length vs div 2) vs) + mset (drop (length vs div 2) vs) = mset vs" by (metis append_take_drop_id mset_append)
  then show ?case using 1 by (simp add: msort.simps [of le vs] mset_merge_vals)
qed

lemma set_msort: "set (msort le vs) = set vs"
  using mset_msort [of le vs] by (metis set_mset_mset)

section \<open>The contract of a comparison\<close>

locale sort_order =
  fixes S :: "hvalue set" and cmp :: comparator and c :: "hvalue \<Rightarrow> hvalue \<Rightarrow> int"
  assumes cmp: "a \<in> S \<Longrightarrow> b \<in> S \<Longrightarrow> cmp a b = Inl (c a b)"
    and flip: "a \<in> S \<Longrightarrow> b \<in> S \<Longrightarrow> c a b \<le> 0 \<longleftrightarrow> 0 \<le> c b a"
    and trans: "a \<in> S \<Longrightarrow> b \<in> S \<Longrightarrow> w \<in> S \<Longrightarrow> c a b \<le> 0 \<Longrightarrow> c b w \<le> 0 \<Longrightarrow> c a w \<le> 0"
begin

definition le :: "bool \<Rightarrow> hvalue \<Rightarrow> hvalue \<Rightarrow> bool" where
  "le asc a b = (if asc then c a b \<le> 0 else 0 \<le> c a b)"

lemma le_total: "a \<in> S \<Longrightarrow> b \<in> S \<Longrightarrow> le asc a b \<or> le asc b a"
  using flip [of a b] by (auto simp: le_def)

lemma le_refl: "a \<in> S \<Longrightarrow> le asc a a"
  using le_total by blast

lemma le_trans: "a \<in> S \<Longrightarrow> b \<in> S \<Longrightarrow> w \<in> S \<Longrightarrow> le asc a b \<Longrightarrow> le asc b w \<Longrightarrow> le asc a w"
  using trans [of a b w] trans [of w b a] flip [of b a] flip [of w b] flip [of w a] by (auto simp: le_def split: if_splits)

lemma compare: "a \<in> S \<Longrightarrow> b \<in> S \<Longrightarrow> compare_values cmp a b [] = (Some (c a b), [])"
  by (simp add: compare_values_def cmp)

definition eqv :: "hvalue \<Rightarrow> hvalue \<Rightarrow> bool" where
  "eqv v w \<longleftrightarrow> c v w = 0"

lemma eqv_le: "v \<in> S \<Longrightarrow> w \<in> S \<Longrightarrow> eqv v w \<longleftrightarrow> le asc v w \<and> le asc w v"
  using flip [of v w] flip [of w v] by (auto simp: eqv_def le_def)

lemma sorted_merge:
  "sorted_wrt (le asc) as \<Longrightarrow> sorted_wrt (le asc) bs \<Longrightarrow> set as \<subseteq> S \<Longrightarrow> set bs \<subseteq> S \<Longrightarrow> sorted_wrt (le asc) (merge_vals (le asc) as bs)"
proof (induction "le asc" as bs rule: merge_vals.induct)
  case (1 a as b bs)
  show ?case
  proof (cases "le asc a b")
    case True
    then have "le asc a x" if "x \<in> set as \<union> set (b # bs)" for x
      using that 1(3,4,5,6) le_trans [of a b x] by auto
    then show ?thesis using True 1(1) [OF True] 1(3-6) by (simp add: set_merge_vals)
  next
    case False
    then have "le asc b a" using le_total [of a b] 1(5,6) by auto
    then have "le asc b x" if "x \<in> set (a # as) \<union> set bs" for x
      using that 1(3,4,5,6) le_trans [of b a x] by auto
    then show ?thesis using False 1(2) [OF False] 1(3-6) by (simp add: set_merge_vals)
  qed
qed simp_all

lemma stable_merge:
  "sorted_wrt (le asc) as \<Longrightarrow> set as \<subseteq> S \<Longrightarrow> set bs \<subseteq> S \<Longrightarrow> v \<in> S \<Longrightarrow>
     filter (eqv v) (merge_vals (le asc) as bs) = filter (eqv v) as @ filter (eqv v) bs"
proof (induction "le asc" as bs rule: merge_vals.induct)
  case (1 a as b bs)
  show ?case
  proof (cases "le asc a b")
    case True
    then show ?thesis using 1(1) [OF True] 1(3-6) by simp
  next
    case False
    have "filter (eqv v) (a # as) = []" if "eqv v b"
    proof -
      have "\<not> eqv v x" if x: "x \<in> set (a # as)" for x
      proof
        assume e: "eqv v x"
        have s: "a \<in> S" "b \<in> S" "x \<in> S" using 1(4,5) x by auto
        have "le asc x v" "le asc v b" using e \<open>eqv v b\<close> eqv_le 1(6) s by blast+
        then have "le asc x b" using le_trans s 1(6) by blast
        moreover have "le asc a x" using x 1(3) le_refl s(1) by auto
        ultimately show False using False le_trans s by blast
      qed
      then show ?thesis by (simp add: filter_empty_conv)
    qed
    then show ?thesis using False 1(2) [OF False] 1(3-6) by auto
  qed
qed simp_all

lemma msort_correct:
  "set vs \<subseteq> S \<Longrightarrow> sorted_wrt (le asc) (msort (le asc) vs) \<and> (\<forall>v\<in>S. filter (eqv v) (msort (le asc) vs) = filter (eqv v) vs)"
proof (induction "le asc" vs rule: msort.induct)
  case (1 vs)
  show ?case
  proof (cases "length vs \<le> 1")
    case True
    then have "vs = [] \<or> (\<exists>v. vs = [v])" by (cases vs) auto
    then show ?thesis using True by (auto simp: msort.simps [of _ vs])
  next
    case False
    let ?a = "take (length vs div 2) vs" and ?b = "drop (length vs div 2) vs"
    have s: "set ?a \<subseteq> S" "set ?b \<subseteq> S" using 1(3) by (auto dest: in_set_takeD in_set_dropD)
    have i: "sorted_wrt (le asc) (msort (le asc) ?a)" "sorted_wrt (le asc) (msort (le asc) ?b)"
      "\<And>v. v \<in> S \<Longrightarrow> filter (eqv v) (msort (le asc) ?a) = filter (eqv v) ?a" "\<And>v. v \<in> S \<Longrightarrow> filter (eqv v) (msort (le asc) ?b) = filter (eqv v) ?b"
      using 1(1) [OF False s(1)] 1(2) [OF False s(2)] by blast+
    have "filter (eqv v) ?a @ filter (eqv v) ?b = filter (eqv v) vs" for v by (metis append_take_drop_id filter_append)
    then show ?thesis using False i s by (auto simp: msort.simps [of _ vs] sorted_merge stable_merge set_msort)
  qed
qed

end

section \<open>Merge sort\<close>

lemma getAndClear_st:
  assumes "list_st l (replicate i None @ v # vs) d"
  shows "\<exists>l'. getAndClear i l = Some (v, l') \<and> list_st l' (replicate (Suc i) None @ vs) d"
proof -
  let ?ps = "replicate i None @ v # vs"
  have h: "holds l ?ps" and o: "l_obj_count l = vscans ?ps + d" "0 \<le> d" using assms by (simp_all add: list_st_def)
  obtain l1 where l1: "set_cell i None l = Some l1" "holds l1 (?ps[i := None])" "same_head l l1"
    by (rule set_cell_holds [OF h, of i None]) auto
  have e: "?ps[i := None] = replicate (Suc i) None @ vs" by (simp add: list_update_append replicate_append_same [symmetric])
  have "hneeds_scan v \<Longrightarrow> l_obj_count l1 \<noteq> 0" using l1(3) o vscans_nonneg [of vs] by (simp add: same_head_def)
  then have "getAndClear i l = Some (v, l1\<lparr>l_obj_count := l_obj_count l1 - of_bool (hneeds_scan v)\<rparr>)"
    using l1(1) holds_length [OF h] get_cell_holds [OF h, of i] by (simp add: getAndClear_def scan_remove_eq nth_append)
  moreover have "list_st (l1\<lparr>l_obj_count := l_obj_count l1 - of_bool (hneeds_scan v)\<rparr>) (replicate (Suc i) None @ vs) d"
    using l1(2,3) o e by (simp add: list_st_def same_head_def vscans_def hneeds_scan_def)
  ultimately show ?thesis by blast
qed

lemma drain_st:
  "list_st r (replicate i None @ vs) e \<Longrightarrow> list_st l ps d \<Longrightarrow> \<exists>l'. drain i r l = Some l' \<and> list_st l' (ps @ vs) d \<and> same_kind l l'"
proof (induction vs arbitrary: i r l ps)
  case Nil
  then show ?case using holds_length [OF list_st_holds [OF Nil(1)]] by (simp add: drain.simps [of i r l])
next
  case (Cons v vs)
  have n: "i < l_length r" using holds_length [OF list_st_holds [OF Cons.prems(1)]] by simp
  obtain r1 where r1: "getAndClear i r = Some (v, r1)" "list_st r1 (replicate (Suc i) None @ vs) e" using getAndClear_st [OF Cons.prems(1)] by blast
  obtain l1 where l1: "pushIntern v l = Some l1" "list_st l1 (ps @ [v]) d" "l_type l1 = l_type l" "l_valid l1 = l_valid l" by (rule pushIntern_st [OF Cons.prems(2)])
  show ?case using Cons.IH [OF r1(2) l1(2)] n r1(1) l1 by (auto simp: drain.simps [of i r l] same_kind_def)
qed

context sort_order
begin

lemma merge_lists_st:
  "list_st left (replicate li None @ as) e \<Longrightarrow> list_st right (replicate ri None @ bs) f \<Longrightarrow> list_st l ps d \<Longrightarrow> set as \<subseteq> S \<Longrightarrow> set bs \<subseteq> S \<Longrightarrow>
     \<exists>l'. merge_lists cmp asc li left ri right l [] = Some (0, l', []) \<and> list_st l' (ps @ merge_vals (le asc) as bs) d \<and> same_kind l l'"
proof (induction "le asc" as bs arbitrary: li left ri right l ps rule: merge_vals.induct)
  case (1 a as b bs)
  have n: "li < l_length left" "ri < l_length right" using holds_length [OF list_st_holds [OF 1(3)]] holds_length [OF list_st_holds [OF 1(4)]] by simp_all
  have g: "get_cell li left = Some a" "get_cell ri right = Some b"
    using get_cell_holds [OF list_st_holds [OF 1(3)], of li] get_cell_holds [OF list_st_holds [OF 1(4)], of ri] by (simp_all add: nth_append)
  have cv: "compare_values cmp a b [] = (Some (c a b), [])" using 1(6,7) by (intro compare) auto
  have t: "asc \<and> c a b \<le> 0 \<or> \<not> asc \<and> c a b \<ge> 0 \<longleftrightarrow> le asc a b" by (simp add: le_def)
  show ?case
  proof (cases "le asc a b")
    case True
    obtain left1 where left1: "getAndClear li left = Some (a, left1)" "list_st left1 (replicate (Suc li) None @ as) e" using getAndClear_st [OF 1(3)] by blast
    obtain l1 where l1: "pushIntern a l = Some l1" "list_st l1 (ps @ [a]) d" "l_type l1 = l_type l" "l_valid l1 = l_valid l" by (rule pushIntern_st [OF 1(5)])
    have "\<exists>l'. merge_lists cmp asc (Suc li) left1 ri right l1 [] = Some (0, l', []) \<and> list_st l' ((ps @ [a]) @ merge_vals (le asc) as (b # bs)) d \<and> same_kind l1 l'"
      using 1(6,7) by (intro 1(1) [OF True left1(2) 1(4) l1(2)]) auto
    then show ?thesis using True n g cv left1(1) l1 t by (auto simp: merge_lists.simps [of cmp asc li left ri right l] same_kind_def)
  next
    case False
    obtain right1 where right1: "getAndClear ri right = Some (b, right1)" "list_st right1 (replicate (Suc ri) None @ bs) f" using getAndClear_st [OF 1(4)] by blast
    obtain l1 where l1: "pushIntern b l = Some l1" "list_st l1 (ps @ [b]) d" "l_type l1 = l_type l" "l_valid l1 = l_valid l" by (rule pushIntern_st [OF 1(5)])
    have "\<exists>l'. merge_lists cmp asc li left (Suc ri) right1 l1 [] = Some (0, l', []) \<and> list_st l' ((ps @ [b]) @ merge_vals (le asc) (a # as) bs) d \<and> same_kind l1 l'"
      using 1(6,7) by (intro 1(2) [OF False 1(3) right1(2) l1(2)]) auto
    then show ?thesis using False n g cv right1(1) l1 t by (auto simp: merge_lists.simps [of cmp asc li left ri right l] same_kind_def)
  qed
next
  case (2 bs)
  obtain l1 where l1: "drain li left l = Some l1" "list_st l1 (ps @ []) d" "same_kind l l1" using drain_st [OF 2(1,3)] by blast
  obtain l2 where l2: "drain ri right l1 = Some l2" "list_st l2 ((ps @ []) @ bs) d" "same_kind l1 l2" using drain_st [OF 2(2) l1(2)] by blast
  have "\<not> li < l_length left" using holds_length [OF list_st_holds [OF 2(1)]] by simp
  then show ?case using l1 l2 by (auto simp: merge_lists.simps [of cmp asc li left ri right l] same_kind_def)
next
  case (3 a as)
  obtain l1 where l1: "drain li left l = Some l1" "list_st l1 (ps @ a # as) d" "same_kind l l1" using drain_st [OF 3(1,3)] by blast
  obtain l2 where l2: "drain ri right l1 = Some l2" "list_st l2 ((ps @ a # as) @ []) d" "same_kind l1 l2" using drain_st [OF 3(2) l1(2)] by blast
  have "\<not> ri < l_length right" using holds_length [OF list_st_holds [OF 3(2)]] by simp
  then show ?case using l1 l2 by (auto simp: merge_lists.simps [of cmp asc li left ri right l] same_kind_def)
qed

lemma mergesort_st:
  "list_st l vs d \<Longrightarrow> set vs \<subseteq> S \<Longrightarrow>
     \<exists>l'. mergesort cmp asc l [] = Some (0, l', []) \<and> list_st l' (msort (le asc) vs) (d + (if length vs \<le> 1 then 0 else vscans vs)) \<and> same_kind l l'"
proof (induction "le asc" vs arbitrary: l d rule: msort.induct)
  case (1 vs)
  have h: "holds l vs" and o: "l_obj_count l = vscans vs + d" "0 \<le> d" using 1(3) by (simp_all add: list_st_def)
  show ?case
  proof (cases "length vs \<le> 1")
    case True
    then show ?thesis using 1(3) holds_length [OF h] by (simp add: mergesort.simps [of cmp asc l] msort.simps [of _ vs])
  next
    case False
    let ?m = "length vs div 2"
    let ?a = "take ?m vs" and ?b = "drop ?m vs"
    have s: "set ?a \<subseteq> S" "set ?b \<subseteq> S" using 1(4) by (auto dest: in_set_takeD in_set_dropD)
    obtain left where left: "push_all ?a (list_new ComplexList) = Some left" "list_st left ?a 0" using push_all_st [of "list_new ComplexList" "[]" 0 ?a] by auto
    obtain right where right: "push_all ?b (list_new ComplexList) = Some right" "list_st right ?b 0" using push_all_st [of "list_new ComplexList" "[]" 0 ?b] by auto
    obtain left1 e where left1: "mergesort cmp asc left [] = Some (0, left1, [])" "list_st left1 (msort (le asc) ?a) e" using 1(1) [OF False left(2) s(1)] by blast
    obtain right1 f where right1: "mergesort cmp asc right [] = Some (0, right1, [])" "list_st right1 (msort (le asc) ?b) f" using 1(2) [OF False right(2) s(2)] by blast
    have r: "read_cells 0 ?m l = Some ?a" "read_cells ?m (length vs - ?m) l = Some ?b" using read_cells_holds [OF h] by simp_all
    have l0: "list_st (l\<lparr>l_length := 0\<rparr>) [] (d + vscans vs)" using o vscans_nonneg [of vs] by (simp add: list_st_def holds_def)
    obtain l1 where l1: "merge_lists cmp asc 0 left1 0 right1 (l\<lparr>l_length := 0\<rparr>) [] = Some (0, l1, [])"
      "list_st l1 (merge_vals (le asc) (msort (le asc) ?a) (msort (le asc) ?b)) (d + vscans vs)" "same_kind (l\<lparr>l_length := 0\<rparr>) l1"
      using merge_lists_st [of left1 0 "msort (le asc) ?a" e right1 0 "msort (le asc) ?b" f "l\<lparr>l_length := 0\<rparr>" "[]" "d + vscans vs" asc] left1(2) right1(2) l0 s
      by (auto simp: set_msort)
    have "mergesort cmp asc l [] = Some (0, l1, [])"
      using False holds_length [OF h] r left(1) right(1) left1(1) right1(1) l1(1) by (simp add: mergesort.simps [of cmp asc l])
    then show ?thesis using l1(2,3) False by (simp add: msort.simps [of _ vs] same_kind_def)
  qed
qed

end

end
