(* ===== verification/List_Quicksort.thy ===== *)
theory List_Quicksort
  imports List_Sorted
begin

text \<open>Correctness of the quick sort in place: the scans, the partition with a hole for the pivot, the recursion.\<close>

section \<open>Lists as arrays\<close>

lemma mset_hole: "i < length vs \<Longrightarrow> j < length vs \<Longrightarrow> i \<noteq> j \<Longrightarrow> mset (vs[i := vs ! j, j := p]) = mset (vs[i := p])"
  using mset_swap [of j "vs[i := p]" i] by simp

text \<open>A permutation that changes only the positions from \<open>a\<close> to \<open>b\<close> permutes the values there.\<close>

lemma range_perm:
  assumes "mset ws = mset vs" "length ws = length vs" "\<And>j. j < a \<or> b < j \<Longrightarrow> ws ! j = vs ! j" "b < length vs"
    and "\<And>j. a \<le> j \<Longrightarrow> j \<le> b \<Longrightarrow> P (vs ! j)" "a \<le> i" "i \<le> b"
  shows "P (ws ! i)"
proof -
  let ?s = "\<lambda>xs. take (Suc b - a) (drop a xs)"
  have d: "xs = take a xs @ ?s xs @ drop (Suc b) xs" for xs :: "'a list"
    by (metis append_take_drop_id drop_drop le_add_diff_inverse2 assms(6,7) le_SucI le_trans)
  have t: "take a ws = take a vs" "drop (Suc b) ws = drop (Suc b) vs"
    using assms(2-4) by (auto intro!: nth_equalityI)
  have "mset (take a vs) + (mset (?s ws) + mset (drop (Suc b) vs)) = mset (take a vs) + (mset (?s vs) + mset (drop (Suc b) vs))"
    using assms(1) d [of ws] d [of vs] t by (metis mset_append)
  then have m: "mset (?s ws) = mset (?s vs)" by simp
  have "ws ! i = ?s ws ! (i - a)" "i - a < length (?s ws)" using assms by simp_all
  then have "ws ! i \<in> set (?s ws)" using nth_mem by metis
  then have "ws ! i \<in> set (?s vs)" using m by (metis set_mset_mset)
  then obtain n where "n < length (?s vs)" "?s vs ! n = ws ! i" by (metis in_set_conv_nth)
  then have "ws ! i = vs ! (a + n)" "a + n \<le> b" using assms(4) by auto
  then show ?thesis using assms(5) [of "a + n"] by simp
qed

lemma move_entry_holds:
  assumes "holds l vs" "i < length vs" "j < length vs"
  shows "\<exists>l'. move_entry i j l = Some l' \<and> holds l' (vs[i := vs ! j]) \<and> same_head l l'"
proof -
  obtain l' where "set_cell i (vs ! j) l = Some l'" "holds l' (vs[i := vs ! j])" "same_head l l'" by (rule set_cell_holds [OF assms(1,2)])
  then show ?thesis using get_cell_holds [OF assms(1,3)] by (simp add: move_entry_def)
qed

lemma same_head_trans: "same_head l l' \<Longrightarrow> same_head l' l'' \<Longrightarrow> same_head l l''" "same_head l l"
  by (simp_all add: same_head_def)

section \<open>The scans\<close>

context sort_order
begin

lemma scan_right_st:
  "holds l vs \<Longrightarrow> set vs \<subseteq> S \<Longrightarrow> pivot \<in> S \<Longrightarrow> left \<le> right \<Longrightarrow> right < length vs \<Longrightarrow>
     \<exists>r. scan_right cmp asc pivot left right l [] = Some (Some r, []) \<and> left \<le> r \<and> r \<le> right
       \<and> (\<forall>j. r < j \<and> j \<le> right \<longrightarrow> le asc pivot (vs ! j)) \<and> (left < r \<longrightarrow> le asc (vs ! r) pivot)"
proof (induction "right - left" arbitrary: right)
  case 0
  then have r: "right = left" by simp
  have "vs ! right \<in> S" using 0 by auto
  then show ?case using get_cell_holds [OF 0(2), of right] 0 r by (auto simp: scan_right.simps [of cmp asc pivot left left l] compare)
next
  case (Suc n)
  have s: "vs ! right \<in> S" using Suc.prems by auto
  have g: "get_cell right l = Some (vs ! right)" using get_cell_holds [OF Suc.prems(1)] Suc.prems by simp
  have lt: "left < right" using Suc(2) by simp
  let ?c = "c (vs ! right) pivot"
  have eq: "scan_right cmp asc pivot left right l [] = (if ?c \<ge> 0 \<and> asc \<or> ?c < 0 \<and> \<not> asc then scan_right cmp asc pivot left (right - 1) l [] else Some (Some right, []))"
    using g lt s Suc.prems(3) by (simp add: scan_right.simps [of cmp asc pivot left right l] compare)
  show ?case
  proof (cases "?c \<ge> 0 \<and> asc \<or> ?c < 0 \<and> \<not> asc")
    case True
    then have p: "le asc pivot (vs ! right)" using flip [OF Suc.prems(3) s] flip [OF s Suc.prems(3)] by (auto simp: le_def)
    obtain r where r: "scan_right cmp asc pivot left (right - 1) l [] = Some (Some r, [])" "left \<le> r" "r \<le> right - 1"
      "\<forall>j. r < j \<and> j \<le> right - 1 \<longrightarrow> le asc pivot (vs ! j)" "left < r \<longrightarrow> le asc (vs ! r) pivot"
    proof -
      have "n = right - 1 - left" "left \<le> right - 1" "right - 1 < length vs" using Suc.prems(5) Suc.hyps(2) lt by simp_all
      then show ?thesis using that Suc.hyps(1) [of "right - 1", OF _ Suc.prems(1-3)] by blast
    qed
    have "le asc pivot (vs ! j)" if "r < j" "j \<le> right" for j using r(4) p that by (cases "j = right") auto
    then show ?thesis using eq True r lt by auto
  next
    case False
    then show ?thesis using eq lt by (auto simp: le_def)
  qed
qed

lemma scan_left_st:
  "holds l vs \<Longrightarrow> set vs \<subseteq> S \<Longrightarrow> pivot \<in> S \<Longrightarrow> left \<le> right \<Longrightarrow> right < length vs \<Longrightarrow>
     \<exists>r. scan_left cmp asc pivot left right l [] = Some (Some r, []) \<and> left \<le> r \<and> r \<le> right
       \<and> (\<forall>j. left \<le> j \<and> j < r \<longrightarrow> le asc (vs ! j) pivot) \<and> (r < right \<longrightarrow> le asc pivot (vs ! r))"
proof (induction "right - left" arbitrary: left)
  case 0
  then have r: "right = left" by simp
  have "vs ! left \<in> S" using 0 by auto
  then show ?case using get_cell_holds [OF 0(2), of left] 0 r by (auto simp: scan_left.simps [of cmp asc pivot left left l] compare)
next
  case (Suc n)
  have s: "vs ! left \<in> S" using Suc.prems by auto
  have g: "get_cell left l = Some (vs ! left)" using get_cell_holds [OF Suc.prems(1)] Suc.prems by simp
  have lt: "left < right" using Suc(2) by simp
  let ?c = "c (vs ! left) pivot"
  have eq: "scan_left cmp asc pivot left right l [] = (if ?c \<le> 0 \<and> asc \<or> ?c > 0 \<and> \<not> asc then scan_left cmp asc pivot (Suc left) right l [] else Some (Some left, []))"
    using g lt s Suc.prems(3) by (simp add: scan_left.simps [of cmp asc pivot left right l] compare)
  show ?case
  proof (cases "?c \<le> 0 \<and> asc \<or> ?c > 0 \<and> \<not> asc")
    case True
    then have p: "le asc (vs ! left) pivot" by (auto simp: le_def)
    obtain r where r: "scan_left cmp asc pivot (Suc left) right l [] = Some (Some r, [])" "Suc left \<le> r" "r \<le> right"
      "\<forall>j. Suc left \<le> j \<and> j < r \<longrightarrow> le asc (vs ! j) pivot" "r < right \<longrightarrow> le asc pivot (vs ! r)"
    proof -
      have "n = right - Suc left" "Suc left \<le> right" using Suc.hyps(2) lt by simp_all
      then show ?thesis using that Suc.hyps(1) [of "Suc left", OF _ Suc.prems(1-3) _ Suc.prems(5)] by blast
    qed
    have "le asc (vs ! j) pivot" if "left \<le> j" "j < r" for j using r(4) p that by (cases "j = left") auto
    then show ?thesis using eq True r lt by auto
  next
    case False
    then have "le asc pivot (vs ! left)" using flip [OF Suc.prems(3) s] flip [OF s Suc.prems(3)] by (auto simp: le_def)
    then show ?thesis using eq lt False by auto
  qed
qed

text \<open>
  The partition: at the start of a round the value of the pivot is missing from the array, at \<open>left\<close>.  At the end there are only values up to the pivot before
  \<open>t\<close> and from the pivot on behind it.
\<close>

definition partitioned :: "bool \<Rightarrow> hvalue \<Rightarrow> nat \<Rightarrow> nat \<Rightarrow> hvalue list \<Rightarrow> nat \<Rightarrow> hvalue list \<Rightarrow> bool" where
  "partitioned asc pivot left right vs t ws \<longleftrightarrow> left \<le> t \<and> t \<le> right \<and> length ws = length vs \<and> mset (ws[t := pivot]) = mset (vs[left := pivot])
     \<and> (\<forall>j. j < left \<or> right < j \<longrightarrow> ws ! j = vs ! j)
     \<and> (\<forall>j. left \<le> j \<and> j < t \<longrightarrow> le asc (ws ! j) pivot) \<and> (\<forall>j. t < j \<and> j \<le> right \<longrightarrow> le asc pivot (ws ! j))"

lemma partitioned_step:
  assumes "left < right1" "right1 \<le> right" "right < length vs" "vs1 = vs[left := vs ! right1]" "Suc left \<le> left2" "left2 < right1"
    and "vs2 = vs1[right1 := vs1 ! left2]" "partitioned asc pivot left2 (right1 - 1) vs2 t ws"
    and l1: "le asc (vs ! right1) pivot" and r1: "\<forall>j. right1 < j \<and> j \<le> right \<longrightarrow> le asc pivot (vs ! j)"
    and l2: "\<forall>j. Suc left \<le> j \<and> j < left2 \<longrightarrow> le asc (vs1 ! j) pivot" and r2: "le asc pivot (vs1 ! left2)"
  shows "partitioned asc pivot left right vs t ws"
proof -
  have n: "length vs1 = length vs" "length vs2 = length vs" using assms by simp_all
  note p = assms(8) [unfolded partitioned_def]
  have "mset (ws[t := pivot]) = mset (vs1[right1 := vs1 ! left2, left2 := pivot])" using p assms(7) by simp
  also have "\<dots> = mset (vs1[right1 := pivot])" using mset_hole [of right1 vs1 left2 pivot] assms n by simp
  also have "\<dots> = mset (vs[left := pivot])" unfolding assms(4) using assms(1-3) by (intro mset_hole) simp_all
  finally have m: "mset (ws[t := pivot]) = mset (vs[left := pivot])" .
  have out: "ws ! j = vs2 ! j" if "j < left2 \<or> right1 - 1 < j" for j using p that by blast
  have "ws ! j = vs ! j" if "j < left \<or> right < j" for j
  proof -
    have "j \<noteq> left" "j \<noteq> right1" "j < left2 \<or> right1 - 1 < j" using that assms by auto
    then show ?thesis using out by (simp add: assms(4,7))
  qed
  moreover have "le asc (ws ! j) pivot" if "left \<le> j" "j < t" for j
  proof (cases "j < left2")
    case True
    then have "ws ! j = vs1 ! j" using out [of j] assms(5,6) by (simp add: assms(7))
    then show ?thesis using l1 l2 True that assms(1-5) by (cases "j = left") auto
  next
    case False
    then show ?thesis using p that by simp
  qed
  moreover have "le asc pivot (ws ! j)" if "t < j" "j \<le> right" for j
  proof (cases "j \<le> right1 - 1")
    case True
    then show ?thesis using p that by simp
  next
    case False
    then have "ws ! j = vs2 ! j" using out [of j] by simp
    moreover have "j \<noteq> left" "j \<noteq> right1 \<Longrightarrow> right1 < j" using False assms(1) by auto
    ultimately show ?thesis using r1 r2 that assms(2,3) n by (cases "j = right1") (auto simp: assms(4,7))
  qed
  moreover have "left \<le> t" "t \<le> right" using p assms(1,2,5,6) by linarith+
  ultimately show ?thesis using m n p by (simp add: partitioned_def)
qed

lemma partition_loop_st:
  "holds l vs \<Longrightarrow> set vs \<subseteq> S \<Longrightarrow> pivot \<in> S \<Longrightarrow> left \<le> right \<Longrightarrow> right < length vs \<Longrightarrow>
     \<exists>t l' ws. partition_loop cmp asc pivot left right l [] = Some (Some t, l', []) \<and> holds l' ws \<and> same_head l l' \<and> set ws \<subseteq> S \<and> partitioned asc pivot left right vs t ws"
proof (induction "right - left" arbitrary: left right l vs rule: less_induct)
  case less
  note prems = less.prems
  show ?case
  proof (cases "left < right")
    case False
    then have e: "right = left" using prems(4) by simp
    have "partition_loop cmp asc pivot left right l [] = Some (Some left, l, [])" using e by (simp add: partition_loop.simps [of cmp asc pivot left left l])
    moreover have "partitioned asc pivot left right vs left vs" using e by (auto simp: partitioned_def)
    ultimately show ?thesis using prems(1,2) same_head_trans(2) by blast
  next
    case True
    obtain right1 where r1: "scan_right cmp asc pivot left right l [] = Some (Some right1, [])" "left \<le> right1" "right1 \<le> right"
      "\<forall>j. right1 < j \<and> j \<le> right \<longrightarrow> le asc pivot (vs ! j)" "left < right1 \<longrightarrow> le asc (vs ! right1) pivot"
      using scan_right_st [OF prems] by blast
    show ?thesis
    proof (cases "left = right1")
      case eq: True
      have b: "left < length vs" using prems by simp
      have "scan_left cmp asc pivot left left l [] = Some (Some left, [])" using scan_left_st [OF prems(1-3) order_refl b, of asc] by auto
      then have "partition_loop cmp asc pivot left right l [] = Some (Some left, l, [])"
        using True r1(1) eq by (simp add: partition_loop.simps [of cmp asc pivot right1 right l] partition_loop.simps [of cmp asc pivot right1 right1 l])
      moreover have "partitioned asc pivot left right vs left vs" using r1(4) eq prems(4) by (auto simp: partitioned_def)
      ultimately show ?thesis using prems(1,2) same_head_trans(2) by blast
    next
      case False
      then have lt: "left < right1" using r1(2) by simp
      define vs1 where "vs1 = vs[left := vs ! right1]"
      have b: "left < length vs" "right1 < length vs" using prems r1 lt by simp_all
      obtain l1 where l1: "move_entry left right1 l = Some l1" "holds l1 vs1" "same_head l l1" using move_entry_holds [OF prems(1) b] by (auto simp: vs1_def)
      have s1: "set vs1 \<subseteq> S" unfolding vs1_def using prems(2) b by (intro set_update_subsetI) auto
      have b1: "Suc left \<le> right1" "right1 < length vs1" using lt b by (simp_all add: vs1_def)
      obtain left2 where l2: "scan_left cmp asc pivot (Suc left) right1 l1 [] = Some (Some left2, [])" "Suc left \<le> left2" "left2 \<le> right1"
        "\<forall>j. Suc left \<le> j \<and> j < left2 \<longrightarrow> le asc (vs1 ! j) pivot" "left2 < right1 \<longrightarrow> le asc pivot (vs1 ! left2)"
        using scan_left_st [OF l1(2) s1 prems(3) b1, of asc] by blast
      show ?thesis
      proof (cases "left2 = right1")
        case eq: True
        have "partition_loop cmp asc pivot left right l [] = Some (Some right1, l1, [])"
          using True lt r1(1) l1(1) l2(1) eq by (simp add: partition_loop.simps [of cmp asc pivot left right l] partition_loop.simps [of cmp asc pivot right1 right1 l1])
        moreover have "partitioned asc pivot left right vs right1 vs1"
        proof -
          have "le asc (vs1 ! j) pivot" if "left \<le> j" "j < right1" for j
            using that l2(4) eq r1(5) lt b by (cases "j = left") (auto simp: vs1_def)
          moreover have "le asc pivot (vs1 ! j)" if "right1 < j" "j \<le> right" for j using that r1(4) lt by (simp add: vs1_def)
          ultimately show ?thesis using mset_hole [OF b, of pivot] lt r1(3) by (simp add: partitioned_def) (simp add: vs1_def)
        qed
        ultimately show ?thesis using l1(2,3) s1 by blast
      next
        case False
        then have lt2: "left2 < right1" using l2(3) by simp
        define vs2 where "vs2 = vs1[right1 := vs1 ! left2]"
        have b2: "left2 < length vs1" using lt2 b1 by simp
        obtain l2' where m2: "move_entry right1 left2 l1 = Some l2'" "holds l2' vs2" "same_head l1 l2'" using move_entry_holds [OF l1(2) b1(2) b2] by (auto simp: vs2_def)
        have s2: "set vs2 \<subseteq> S" unfolding vs2_def using s1 b2 by (intro set_update_subsetI) auto
        have rec: "right1 - 1 - left2 < right - left" "left2 \<le> right1 - 1" "right1 - 1 < length vs2" using lt lt2 r1(3) l2(2) b1(2) by (auto simp: vs2_def)
        obtain t l' ws where t: "partition_loop cmp asc pivot left2 (right1 - 1) l2' [] = Some (Some t, l', [])" "holds l' ws" "same_head l2' l'" "set ws \<subseteq> S"
          "partitioned asc pivot left2 (right1 - 1) vs2 t ws" using less.hyps [OF rec(1) m2(2) s2 prems(3) rec(2,3)] by blast
        have "partition_loop cmp asc pivot left right l [] = Some (Some t, l', [])"
          using True lt lt2 r1(1) l1(1) l2(1) m2(1) t(1) by (simp add: partition_loop.simps [of cmp asc pivot left right l])
        moreover have "partitioned asc pivot left right vs t ws"
          using partitioned_step [OF lt r1(3) prems(5) vs1_def l2(2) lt2 vs2_def t(5)] r1(4,5) l2(4,5) lt lt2 by blast
        ultimately show ?thesis using t(2,4) same_head_trans(1) [OF same_head_trans(1) [OF l1(3) m2(3)] t(3)] by blast
      qed
    qed
  qed
qed

section \<open>The recursion\<close>

definition range_sorted :: "bool \<Rightarrow> nat \<Rightarrow> nat \<Rightarrow> hvalue list \<Rightarrow> bool" where
  "range_sorted asc left right vs \<longleftrightarrow> (\<forall>i j. left \<le> i \<and> i < j \<and> j \<le> right \<longrightarrow> le asc (vs ! i) (vs ! j))"

text \<open>What one call changes: the values from \<open>left\<close> to \<open>right\<close> are permuted.\<close>

definition permutes :: "nat \<Rightarrow> nat \<Rightarrow> hvalue list \<Rightarrow> hvalue list \<Rightarrow> bool" where
  "permutes left right vs ws \<longleftrightarrow> mset ws = mset vs \<and> (\<forall>j. j < left \<or> right < j \<longrightarrow> ws ! j = vs ! j)"

lemma permutes_length: "permutes left right vs ws \<Longrightarrow> length ws = length vs \<and> set ws = set vs"
  by (metis permutes_def mset_eq_length set_mset_mset)

lemma permutes_trans: "permutes left right vs ws \<Longrightarrow> permutes a b ws xs \<Longrightarrow> left \<le> a \<Longrightarrow> b \<le> right \<Longrightarrow> permutes left right vs xs"
  by (auto simp: permutes_def)

lemma permutes_all:
  "permutes a b vs ws \<Longrightarrow> b < length vs \<Longrightarrow> (\<And>j. a \<le> j \<Longrightarrow> j \<le> b \<Longrightarrow> P (vs ! j)) \<Longrightarrow> a \<le> i \<Longrightarrow> i \<le> b \<Longrightarrow> P (ws ! i)"
  by (rule range_perm [of ws vs a b P]) (auto simp: permutes_def dest: mset_eq_length)

lemma sorted_around:
  assumes p: "set vs \<subseteq> S" "right < length vs" "left \<le> t" "t \<le> right"
    and lo: "range_sorted asc left t' vs" "\<And>j. left \<le> j \<Longrightarrow> j < t \<Longrightarrow> le asc (vs ! j) (vs ! t)" "left < t \<Longrightarrow> t' = t - 1"
    and hi: "range_sorted asc (t + 1) right vs" "\<And>j. t < j \<Longrightarrow> j \<le> right \<Longrightarrow> le asc (vs ! t) (vs ! j)"
  shows "range_sorted asc left right vs"
  unfolding range_sorted_def
proof (intro allI impI)
  fix i j assume ij: "left \<le> i \<and> i < j \<and> j \<le> right"
  have s: "vs ! i \<in> S" "vs ! j \<in> S" "vs ! t \<in> S" using p ij by auto
  consider "j < t" | "j = t" | "i = t" | "i < t" "t < j" | "t < i" using ij by linarith
  then show "le asc (vs ! i) (vs ! j)"
  proof cases
    case 1
    then have "t' = t - 1" using lo(3) ij by simp
    then show ?thesis using lo(1) ij 1 by (auto simp: range_sorted_def)
  next
    case 4
    then show ?thesis using lo(2) [of i] hi(2) [of j] ij le_trans s by blast
  next
    case 5
    then show ?thesis using hi(1) ij by (simp add: range_sorted_def)
  qed (use lo(2) hi(2) ij in auto)
qed

text \<open>The values around a pivot, after both sides have been sorted.\<close>

lemma around_pivot:
  assumes v: "set vs1 \<subseteq> S" "right < length vs1" "left \<le> t" "t \<le> right"
    and e: "\<And>j. left \<le> j \<Longrightarrow> j < t \<Longrightarrow> le asc (vs1 ! j) pivot" "\<And>j. t < j \<Longrightarrow> j \<le> right \<Longrightarrow> le asc pivot (vs1 ! j)"
    and a: "permutes left (t - 1) vs1 vs2" "vs2 ! t = pivot" "range_sorted asc left (t - 1) vs2"
    and b: "permutes (t + 1) right vs2 vs3" "range_sorted asc (t + 1) right vs3"
  shows "range_sorted asc left right vs3"
proof -
  have n: "length vs2 = length vs1" "length vs3 = length vs1" "set vs3 \<subseteq> S" using permutes_length [OF a(1)] permutes_length [OF b(1)] v(1) by simp_all
  have low: "vs3 ! j = vs2 ! j" if "j \<le> t" for j using b(1) that by (simp add: permutes_def)
  have lo: "le asc (vs3 ! j) pivot" if "left \<le> j" "j < t" for j
    using permutes_all [OF a(1), of "\<lambda>x. le asc x pivot" j] e(1) v that low [of j] by auto
  have "vs2 ! j = vs1 ! j" if "t < j" for j using a(1) that by (simp add: permutes_def)
  then have hi: "le asc pivot (vs3 ! j)" if "t < j" "j \<le> right" for j
    using permutes_all [OF b(1), of "\<lambda>x. le asc pivot x" j] e(2) n(1) v(2) that by auto
  have "range_sorted asc left (t - 1) vs3" using a(3) low by (auto simp: range_sorted_def)
  then show ?thesis using sorted_around [OF n(3) _ v(3,4) _ _ _ b(2)] n(2) v(2) lo hi low [of t] a(2) by simp
qed

lemma qsort_st:
  "holds l vs \<Longrightarrow> set vs \<subseteq> S \<Longrightarrow> left \<le> right \<Longrightarrow> right < length vs \<Longrightarrow> (\<And>n. n \<le> depth + (right - left) \<Longrightarrow> \<not> check_stack n) \<Longrightarrow>
     \<exists>l' ws. qsort cmp check_stack depth left right asc l [] = Some (0, l', []) \<and> holds l' ws \<and> same_head l l' \<and> permutes left right vs ws \<and> range_sorted asc left right ws"
proof (induction "right - left" arbitrary: left right l vs depth rule: less_induct)
  case less
  note prems = less.prems
  define pivot where "pivot = vs ! left"
  have b: "left < length vs" using prems by simp
  have pS: "pivot \<in> S" using prems(2) b by (auto simp: pivot_def)
  obtain t l1 ws1 where t: "partition_loop cmp asc pivot left right l [] = Some (Some t, l1, [])" "holds l1 ws1" "same_head l l1" "set ws1 \<subseteq> S"
    "partitioned asc pivot left right vs t ws1" using partition_loop_st [OF prems(1,2) pS prems(3,4)] by blast
  note q = t(5) [unfolded partitioned_def]
  define vs1 where "vs1 = ws1[t := pivot]"
  have tb: "t < length ws1" using q prems(4) by simp
  obtain l2 where l2: "set_cell t pivot l1 = Some l2" "holds l2 vs1" "same_head l1 l2" using set_cell_holds [OF t(2) tb, of pivot] by (auto simp: vs1_def)
  have p1: "permutes left right vs vs1" using q b by (auto simp: permutes_def vs1_def pivot_def)
  have e1: "vs1 ! t = pivot" "\<And>j. left \<le> j \<Longrightarrow> j < t \<Longrightarrow> le asc (vs1 ! j) pivot" "\<And>j. t < j \<Longrightarrow> j \<le> right \<Longrightarrow> le asc pivot (vs1 ! j)"
    using q tb by (auto simp: vs1_def)
  have n1: "length vs1 = length vs" "set vs1 \<subseteq> S" using permutes_length [OF p1] prems(2) by simp_all
  have "\<exists>l3 vs2. (if left < t then qsort cmp check_stack (Suc depth) left (t - 1) asc l2 [] else Some (0, l2, [])) = Some (0, l3, [])
      \<and> holds l3 vs2 \<and> same_head l2 l3 \<and> permutes left (t - 1) vs1 vs2 \<and> range_sorted asc left (t - 1) vs2 \<and> vs2 ! t = pivot"
  proof (cases "left < t")
    case True
    have m: "t - 1 - left < right - left" "left \<le> t - 1" "t - 1 < length vs1" using True q n1(1) prems(4) by auto
    have d: "\<not> check_stack n" if "n \<le> Suc depth + (t - 1 - left)" for n using prems(5) [of n] m that by simp
    obtain l3 vs2 where l3: "qsort cmp check_stack (Suc depth) left (t - 1) asc l2 [] = Some (0, l3, [])" "holds l3 vs2" "same_head l2 l3"
      "permutes left (t - 1) vs1 vs2" "range_sorted asc left (t - 1) vs2" using less.hyps [OF m(1) l2(2) n1(2) m(2,3), of "Suc depth"] d by blast
    moreover have "vs2 ! t = pivot" using l3(4) True e1(1) by (simp add: permutes_def)
    ultimately show ?thesis using True by auto
  next
    case False
    then show ?thesis using l2(2) same_head_trans(2) by (intro exI [of _ l2] exI [of _ vs1]) (auto simp: permutes_def range_sorted_def e1(1))
  qed
  then obtain l3 vs2 where l3: "(if left < t then qsort cmp check_stack (Suc depth) left (t - 1) asc l2 [] else Some (0, l2, [])) = Some (0, l3, [])"
    "holds l3 vs2" "same_head l2 l3" "permutes left (t - 1) vs1 vs2" "range_sorted asc left (t - 1) vs2" "vs2 ! t = pivot" by blast
  have n2: "length vs2 = length vs" "set vs2 \<subseteq> S" using permutes_length [OF l3(4)] n1 by simp_all
  have "\<exists>l4 vs3. (if right > t then qsort cmp check_stack (Suc depth) (t + 1) right asc l3 [] else Some (0, l3, [])) = Some (0, l4, [])
      \<and> holds l4 vs3 \<and> same_head l3 l4 \<and> permutes (t + 1) right vs2 vs3 \<and> range_sorted asc (t + 1) right vs3"
  proof (cases "right > t")
    case True
    have m: "right - (t + 1) < right - left" "t + 1 \<le> right" "right < length vs2" using True q n2(1) prems(4) by auto
    have d: "\<not> check_stack n" if "n \<le> Suc depth + (right - (t + 1))" for n using prems(5) [of n] m that by simp
    show ?thesis using less.hyps [OF m(1) l3(2) n2(2) m(2,3), of "Suc depth"] d True by simp
  next
    case False
    then show ?thesis using l3(2) same_head_trans(2) by (intro exI [of _ l3] exI [of _ vs2]) (auto simp: permutes_def range_sorted_def)
  qed
  then obtain l4 vs3 where l4: "(if right > t then qsort cmp check_stack (Suc depth) (t + 1) right asc l3 [] else Some (0, l3, [])) = Some (0, l4, [])"
    "holds l4 vs3" "same_head l3 l4" "permutes (t + 1) right vs2 vs3" "range_sorted asc (t + 1) right vs3" by blast
  have lr: "left \<le> t" "t \<le> right" using q by simp_all
  have "range_sorted asc left right vs3"
    using around_pivot [OF n1(2) _ lr e1(2,3) l3(4,6,5) l4(4,5)] n1(1) prems(4) by simp
  moreover have "permutes left right vs vs3"
    using permutes_trans [OF permutes_trans [OF p1 l3(4)] l4(4)] lr by simp
  moreover have "same_head l l4" using t(3) l2(3) l3(3) l4(3) by (simp add: same_head_def)
  moreover have "qsort cmp check_stack depth left right asc l [] = Some (0, l4, [])"
    using prems(5) [of depth] get_cell_holds [OF prems(1) b] t(1) l2(1) l3(1) l4(1) by (simp add: qsort.simps [of cmp check_stack depth left right asc l] pivot_def)
  ultimately show ?case using l4(2) by blast
qed

end

section \<open>The comparison operator\<close>

text \<open>
  The branch of \<open>QoreLogicalComparisonOperatorNode::doComparison\<close> for two integers; \<open>other\<close> is the comparison of other values.
\<close>

definition doComparison :: "(hvalue \<Rightarrow> hvalue \<Rightarrow> int + string) \<Rightarrow> hvalue \<Rightarrow> hvalue \<Rightarrow> int + string" where
  "doComparison other v w =
     (case (v, w) of
        (Some (Scalar l), Some (Scalar r)) \<Rightarrow> (if l < r then Inl (- 1) else Inl (if l = r then 0 else 1))
      | _ \<Rightarrow> other v w)"

fun scalar_of :: "hvalue \<Rightarrow> int" where
  "scalar_of (Some (Scalar i)) = i"
| "scalar_of _ = 0"

text \<open>Integers.\<close>

interpretation int_sort: sort_order "range (\<lambda>i. Some (Scalar i))" "doComparison other" "\<lambda>v w. sgn (scalar_of v - scalar_of w)" for other
  by unfold_locales (auto simp: doComparison_def sgn_if split: if_splits)

text \<open>Dates, which \<open>date_of\<close> reads from the values: the comparison of \<open>Date_Value\<close>.\<close>

interpretation date_sort: sort_order "{v. \<exists>n s. v = Some (Node n s)}" "doComparison (\<lambda>v w. Inl (date_compare (date_of v) (date_of w)))"
  "\<lambda>v w. date_compare (date_of v) (date_of w)" for date_of
proof
  fix v w u :: hvalue
  show "date_compare (date_of v) (date_of w) \<le> 0 \<longleftrightarrow> 0 \<le> date_compare (date_of w) (date_of v)" using date_cmp.cmp_flip [of "date_of w" "date_of v"] by simp
  show "date_compare (date_of v) (date_of w) \<le> 0 \<Longrightarrow> date_compare (date_of w) (date_of u) \<le> 0 \<Longrightarrow> date_compare (date_of v) (date_of u) \<le> 0" by (rule date_cmp.cmp_trans)
  show "v \<in> {v. \<exists>n s. v = Some (Node n s)} \<Longrightarrow> w \<in> {v. \<exists>n s. v = Some (Node n s)} \<Longrightarrow>
      doComparison (\<lambda>v w. Inl (date_compare (date_of v) (date_of w))) v w = Inl (date_compare (date_of v) (date_of w))" by (auto simp: doComparison_def)
qed

section \<open>Properties of sorting\<close>

context sort_order
begin

lemma mergesort_correct:
  assumes "list_st l vs d" "set vs \<subseteq> S"
  shows "\<exists>l' ws. mergesort cmp asc l [] = Some (0, l', []) \<and> holds l' ws \<and> mset ws = mset vs \<and> sorted_wrt (le asc) ws
    \<and> (\<forall>v\<in>S. filter (eqv v) ws = filter (eqv v) vs) \<and> l_obj_count l' = vscans ws + d + (if length vs \<le> 1 then 0 else vscans vs)"
proof -
  obtain l' where "mergesort cmp asc l [] = Some (0, l', [])" "list_st l' (msort (le asc) vs) (d + (if length vs \<le> 1 then 0 else vscans vs))"
    using mergesort_st [OF assms] by blast
  then show ?thesis using msort_correct [OF assms(2), of asc] mset_msort [of "le asc" vs]
    by (intro exI [of _ l'] exI [of _ "msort (le asc) vs"]) (simp add: list_st_def)
qed

lemma qsort_correct:
  assumes "holds l vs" "set vs \<subseteq> S" "vs \<noteq> []" "\<And>n. n < length vs \<Longrightarrow> \<not> check_stack n"
  shows "\<exists>l' ws. qsort cmp check_stack 0 0 (length vs - 1) asc l [] = Some (0, l', []) \<and> holds l' ws \<and> same_head l l' \<and> mset ws = mset vs \<and> sorted_wrt (le asc) ws"
proof -
  have d: "\<not> check_stack n" if "n \<le> 0 + (length vs - 1 - 0)" for n using that assms(3,4) by (cases vs) auto
  obtain l' ws where w: "qsort cmp check_stack 0 0 (length vs - 1) asc l [] = Some (0, l', [])" "holds l' ws" "same_head l l'" "permutes 0 (length vs - 1) vs ws"
    "range_sorted asc 0 (length vs - 1) ws" using qsort_st [OF assms(1,2), of 0 "length vs - 1" 0 check_stack asc] d assms(3) by auto
  have "sorted_wrt (le asc) ws" using w(5) permutes_length [OF w(4)] by (auto simp: sorted_wrt_iff_nth_less range_sorted_def)
  then show ?thesis using w by (auto simp: permutes_def)
qed

lemma list_sort_correct:
  assumes "list_st l vs d" "set vs \<subseteq> S" "\<And>n. n < length vs \<Longrightarrow> \<not> check_stack n"
  shows "\<exists>rv ws. list_sort cmp check_stack asc l [] = Some (Some rv, []) \<and> holds rv ws \<and> mset ws = mset vs \<and> sorted_wrt (le asc) ws"
proof -
  obtain l1 where l1: "list_copy l = Some l1" "list_st l1 vs 0" using list_copy_st [OF assms(1)] by blast
  have n: "l_length l = length vs" by (rule holds_length [OF list_st_holds [OF assms(1)]])
  show ?thesis
  proof (cases "vs = []")
    case True
    then show ?thesis using l1 n by (auto simp: list_sort_def list_st_def)
  next
    case False
    have q: "\<exists>l' ws. qsort cmp check_stack 0 0 (length vs - 1) asc l1 [] = Some (0, l', []) \<and> holds l' ws \<and> same_head l1 l' \<and> mset ws = mset vs \<and> sorted_wrt (le asc) ws"
      using assms(3) by (intro qsort_correct [OF list_st_holds [OF l1(2)] assms(2) False])
    show ?thesis using mergesort_correct [OF l1(2) assms(2), of asc] q l1(1) n False
      by (cases "length vs > QORE_QUICKSORT_LIMIT") (auto simp: list_sort_def)
  qed
qed

lemma sortStable_correct:
  assumes "list_st l vs d" "set vs \<subseteq> S"
  shows "\<exists>rv ws. sortStable cmp asc l [] = Some (Some rv, []) \<and> holds rv ws \<and> mset ws = mset vs \<and> sorted_wrt (le asc) ws
    \<and> (\<forall>v\<in>S. filter (eqv v) ws = filter (eqv v) vs) \<and> l_obj_count rv = (if length vs \<le> 1 then 1 else 2) * vscans ws"
proof -
  obtain l1 where l1: "list_copy l = Some l1" "list_st l1 vs 0" using list_copy_st [OF assms(1)] by blast
  have n: "l_length l = length vs" by (rule holds_length [OF list_st_holds [OF assms(1)]])
  obtain l' ws where w: "mergesort cmp asc l1 [] = Some (0, l', [])" "holds l' ws" "mset ws = mset vs" "sorted_wrt (le asc) ws"
    "\<forall>v\<in>S. filter (eqv v) ws = filter (eqv v) vs" "l_obj_count l' = vscans ws + 0 + (if length vs \<le> 1 then 0 else vscans vs)"
    using mergesort_correct [OF l1(2) assms(2)] by blast
  have "vscans ws = vscans vs" using w(3) by (metis mset_filter size_mset vscans_def)
  then show ?thesis using w l1 n by (cases "vs = []") (auto simp: sortStable_def list_st_def)
qed

end

text \<open>
  C25: Sorting a list, in either direction, by a comparison that is a total preorder on its values gives a list with the same values in order; this holds
  for the quick sort of lists of up to 1000 values, when the stack is large enough for a recursion as deep as the list is long, and for the merge sort of longer ones.
\<close>

theorem sort_sorts:
  assumes "sort_order S cmp c" "list_st l vs d" "set vs \<subseteq> S" "\<And>n. n < length vs \<Longrightarrow> \<not> check_stack n"
  shows "\<exists>rv ws. list_sort cmp check_stack asc l [] = Some (Some rv, []) \<and> holds rv ws \<and> mset ws = mset vs
    \<and> sorted_wrt (\<lambda>a b. if asc then c a b \<le> 0 else 0 \<le> c a b) ws"
  using sort_order.list_sort_correct [OF assms(1-3), of check_stack asc] assms(4) by (simp add: sort_order.le_def [OF assms(1), abs_def])

theorem sort_sorts_witness:
  "\<exists>l rv ws. list_st l [Some (Scalar 3), Some (Scalar 1)] 0 \<and> list_sort (doComparison (\<lambda>_ _. Inl 0)) (\<lambda>n. n > 10) True l [] = Some (Some rv, [])
    \<and> holds rv ws \<and> mset ws = {#Some (Scalar 3), Some (Scalar 1)#} \<and> sorted_wrt (\<lambda>a b. sgn (scalar_of a - scalar_of b) \<le> 0) ws"
proof -
  obtain l where l: "list_st l [Some (Scalar 3), Some (Scalar 1)] 0" using push_all_st [of "list_new PlainList" "[]" 0 "[Some (Scalar 3), Some (Scalar 1)]"] by auto
  show ?thesis using sort_sorts [OF int_sort.sort_order_axioms l, of "\<lambda>n. n > 10" "\<lambda>_ _. Inl 0" True] l by auto
qed

text \<open>
  C26: The stable sort of a list, in either direction, gives the values in order and keeps the order of values that compare as equal.
\<close>

theorem sortStable_sorts:
  assumes "sort_order S cmp c" "list_st l vs d" "set vs \<subseteq> S"
  shows "\<exists>rv ws. sortStable cmp asc l [] = Some (Some rv, []) \<and> holds rv ws \<and> mset ws = mset vs
    \<and> sorted_wrt (\<lambda>a b. if asc then c a b \<le> 0 else 0 \<le> c a b) ws \<and> (\<forall>v\<in>S. filter (\<lambda>w. c v w = 0) ws = filter (\<lambda>w. c v w = 0) vs)"
  using sort_order.sortStable_correct [OF assms, of asc]
  unfolding sort_order.le_def [OF assms(1), abs_def] sort_order.eqv_def [OF assms(1), abs_def] by blast

theorem sortStable_sorts_witness:
  "\<exists>l rv ws. list_st l [Some (Scalar 3), Some (Scalar 1)] 0 \<and> sortStable (doComparison (\<lambda>_ _. Inl 0)) False l [] = Some (Some rv, [])
    \<and> holds rv ws \<and> mset ws = {#Some (Scalar 3), Some (Scalar 1)#} \<and> sorted_wrt (\<lambda>a b. 0 \<le> sgn (scalar_of a - scalar_of b)) ws"
proof -
  obtain l where l: "list_st l [Some (Scalar 3), Some (Scalar 1)] 0" using push_all_st [of "list_new PlainList" "[]" 0 "[Some (Scalar 3), Some (Scalar 1)]"] by auto
  show ?thesis using sortStable_sorts [OF int_sort.sort_order_axioms l, of "\<lambda>_ _. Inl 0" False] l by auto
qed

text \<open>
  The merge sort sets the length of a list to zero and not its scan count, so the count of a list with at least two values that has been
  sorted is twice the number of values that need a scan.
\<close>

theorem mergesort_doubles_scan_count:
  assumes "sort_order S cmp c" "list_st l vs d" "set vs \<subseteq> S" "2 \<le> length vs"
  shows "\<exists>rv. sortStable cmp asc l [] = Some (Some rv, []) \<and> l_obj_count rv = 2 * vscans vs"
proof -
  obtain rv ws where "sortStable cmp asc l [] = Some (Some rv, [])" "mset ws = mset vs" "l_obj_count rv = (if length vs \<le> 1 then 1 else 2) * vscans ws"
    using sort_order.sortStable_correct [OF assms(1-3), of asc] by blast
  moreover have "vscans ws = vscans vs" using calculation(2) by (metis mset_filter size_mset vscans_def)
  ultimately show ?thesis using assms(4) by auto
qed

theorem mergesort_doubles_scan_count_witness:
  "\<exists>l rv. list_st l [Some (Node 1 True), Some (Node 2 True)] 0
    \<and> sortStable (doComparison (\<lambda>v w. Inl (date_compare ((\<lambda>_. Relative tm_zero) v) ((\<lambda>_. Relative tm_zero) w)))) True l [] = Some (Some rv, []) \<and> l_obj_count rv = 4"
proof -
  obtain l where l: "list_st l [Some (Node 1 True), Some (Node 2 True)] 0"
    using push_all_st [of "list_new PlainList" "[]" 0 "[Some (Node 1 True), Some (Node 2 True)]"] by auto
  have "vscans [Some (Node 1 True), Some (Node 2 True)] = 2" by (simp add: hneeds_scan_def)
  then show ?thesis using mergesort_doubles_scan_count [OF date_sort.sort_order_axioms l, of "\<lambda>_. Relative tm_zero" True] l by auto
qed

end
