(* ===== verification/List_Sort_Any.thy ===== *)
theory List_Sort_Any
  imports List_Quicksort
begin

text \<open>
  The quick sort with a comparison that follows no order, as a function of a program may: it ends, stays in the array and permutes the values.  When the
  comparison raises an exception, the array is left with a value missing.
\<close>

section \<open>Any comparison\<close>

definition answers :: "comparator \<Rightarrow> bool" where
  "answers cmp \<longleftrightarrow> (\<forall>a b. \<exists>rc. cmp a b = Inl rc)"

lemma answersE:
  assumes "answers cmp"
  obtains rc where "compare_values cmp a b [] = (Some rc, [])"
proof -
  obtain rc where "cmp a b = Inl rc" using assms by (auto simp: answers_def)
  then show ?thesis using that [of rc] by (simp add: compare_values_def)
qed

lemma scan_right_any:
  assumes "answers cmp" "holds l vs"
  shows "left \<le> right \<Longrightarrow> right < length vs \<Longrightarrow> \<exists>r. scan_right cmp asc pivot left right l [] = Some (Some r, []) \<and> left \<le> r \<and> r \<le> right"
proof (induction right)
  case 0
  obtain rc where "compare_values cmp (vs ! 0) pivot [] = (Some rc, [])" using answersE [OF assms(1)] .
  then show ?case using get_cell_holds [OF assms(2) 0(2)] 0 by (simp add: scan_right.simps [of cmp asc pivot 0 0 l])
next
  case (Suc right)
  obtain rc where "compare_values cmp (vs ! Suc right) pivot [] = (Some rc, [])" using answersE [OF assms(1)] .
  then show ?case using get_cell_holds [OF assms(2) Suc(3)] Suc by (auto simp: scan_right.simps [of cmp asc pivot left "Suc right" l] le_Suc_eq)
qed

lemma scan_left_any:
  assumes "answers cmp" "holds l vs" "right < length vs"
  shows "left \<le> right \<Longrightarrow> \<exists>r. scan_left cmp asc pivot left right l [] = Some (Some r, []) \<and> left \<le> r \<and> r \<le> right"
proof (induction "right - left" arbitrary: left)
  case 0
  obtain rc where "compare_values cmp (vs ! left) pivot [] = (Some rc, [])" using answersE [OF assms(1)] .
  then show ?case using get_cell_holds [OF assms(2), of left] assms(3) 0 by (simp add: scan_left.simps [of cmp asc pivot left left l])
next
  case (Suc n)
  obtain rc where rc: "compare_values cmp (vs ! left) pivot [] = (Some rc, [])" using answersE [OF assms(1)] .
  have lt: "left < right" using Suc(2) by simp
  have "\<exists>r. scan_left cmp asc pivot (Suc left) right l [] = Some (Some r, []) \<and> Suc left \<le> r \<and> r \<le> right" using Suc lt by (intro Suc.hyps) simp_all
  then show ?case using rc lt get_cell_holds [OF assms(2), of left] assms(3) by (auto simp: scan_left.simps [of cmp asc pivot left right l])
qed

text \<open>One round: the value of the pivot is missing at \<open>left\<close> before it and at \<open>left'\<close> after it.\<close>

definition hole_moved :: "hvalue \<Rightarrow> nat \<Rightarrow> nat \<Rightarrow> hvalue list \<Rightarrow> nat \<Rightarrow> hvalue list \<Rightarrow> bool" where
  "hole_moved p left right vs t ws \<longleftrightarrow> left \<le> t \<and> t \<le> right \<and> length ws = length vs \<and> mset (ws[t := p]) = mset (vs[left := p])
     \<and> (\<forall>j. j < left \<or> right < j \<longrightarrow> ws ! j = vs ! j)"

lemma move_hole:
  assumes "holds l vs" "i < length vs" "j < length vs" "i \<noteq> j"
  shows "\<exists>l'. move_entry i j l = Some l' \<and> holds l' (vs[i := vs ! j]) \<and> mset (vs[i := vs ! j, j := p]) = mset (vs[i := p])"
  using move_entry_holds [OF assms(1-3)] mset_hole [OF assms(2-4)] by blast

lemma partition_loop_any:
  assumes a: "answers cmp"
  shows "holds l vs \<Longrightarrow> left \<le> right \<Longrightarrow> right < length vs \<Longrightarrow>
     \<exists>t l' ws. partition_loop cmp asc p left right l [] = Some (Some t, l', []) \<and> holds l' ws \<and> hole_moved p left right vs t ws"
proof (induction "right - left" arbitrary: left right l vs rule: less_induct)
  case less
  note h = less.prems(1)
  show ?case
  proof (cases "left < right")
    case False
    then show ?thesis using less.prems by (auto simp: partition_loop.simps [of cmp asc p right right l] hole_moved_def)
  next
    case lt: True
    obtain r where r: "scan_right cmp asc p left right l [] = Some (Some r, [])" "left \<le> r" "r \<le> right" using scan_right_any [OF a less.prems] by blast
    show ?thesis
    proof (cases "left = r")
      case True
      have "scan_left cmp asc p r r l [] = Some (Some r, [])" using scan_left_any [OF a h, of r r asc p] r less.prems by auto
      then have "partition_loop cmp asc p left right l [] = Some (Some r, l, [])"
        using lt r True by (simp add: partition_loop.simps [of cmp asc p r right l] partition_loop.simps [of cmp asc p r r l])
      then show ?thesis using h r True by (auto simp: hole_moved_def)
    next
      case False
      then have lr: "left < r" "left < length vs" "r < length vs" using r less.prems by simp_all
      define vs1 where "vs1 = vs[left := vs ! r]"
      obtain l1 where l1: "move_entry left r l = Some l1" "holds l1 vs1" "mset (vs1[r := p]) = mset (vs[left := p])"
        using move_hole [OF h lr(2,3) False, of p] by (auto simp: vs1_def)
      have n1: "r < length vs1" "length vs1 = length vs" using lr by (simp_all add: vs1_def)
      obtain k where k: "scan_left cmp asc p (Suc left) r l1 [] = Some (Some k, [])" "Suc left \<le> k" "k \<le> r" using scan_left_any [OF a l1(2) n1(1), of "Suc left"] lr by auto
      show ?thesis
      proof (cases "k = r")
        case True
        have "partition_loop cmp asc p left right l [] = Some (Some r, l1, [])"
          using lt lr r(1) l1(1) k(1) True by (simp add: partition_loop.simps [of cmp asc p left right l] partition_loop.simps [of cmp asc p r r l1])
        moreover have "hole_moved p left right vs r vs1" using l1(3) r(3) lr n1 by (auto simp: hole_moved_def) (auto simp: vs1_def)
        ultimately show ?thesis using l1(2) by blast
      next
        case False
        then have kr: "k < r" "k < length vs1" using k n1 by simp_all
        define vs2 where "vs2 = vs1[r := vs1 ! k]"
        obtain l2 where l2: "move_entry r k l1 = Some l2" "holds l2 vs2" "mset (vs2[k := p]) = mset (vs1[r := p])"
          using move_hole [OF l1(2) n1(1) kr(2), of p] kr(1) by (auto simp: vs2_def)
        have m: "r - 1 - k < right - left" "k \<le> r - 1" "r - 1 < length vs2" using lr kr k r n1 by (auto simp: vs2_def)
        obtain t l' ws where t: "partition_loop cmp asc p k (r - 1) l2 [] = Some (Some t, l', [])" "holds l' ws" "hole_moved p k (r - 1) vs2 t ws"
          using less.hyps [OF m(1) l2(2) m(2,3)] by blast
        have "partition_loop cmp asc p left right l [] = Some (Some t, l', [])"
          using lt lr r(1) l1(1) k(1) kr l2(1) t(1) by (simp add: partition_loop.simps [of cmp asc p left right l])
        moreover have "ws ! j = vs ! j" if "j < left \<or> right < j" for j
        proof -
          have "j < k \<or> r - 1 < j" "j \<noteq> r" "j \<noteq> left" using that lr r k by auto
          moreover from this(1) have "ws ! j = vs2 ! j" using t(3) unfolding hole_moved_def by blast
          ultimately show ?thesis by (simp add: vs2_def vs1_def)
        qed
        then have "hole_moved p left right vs t ws" using t(3) l1(3) l2(3) n1(2) r(3) k(2) kr(1) by (auto simp: hole_moved_def) (simp add: vs2_def)
        ultimately show ?thesis using t(2) by blast
      qed
    qed
  qed
qed

lemma qsort_any:
  assumes a: "answers cmp"
  shows "holds l vs \<Longrightarrow> left \<le> right \<Longrightarrow> right < length vs \<Longrightarrow> (\<And>n. n \<le> depth + (right - left) \<Longrightarrow> \<not> check_stack n) \<Longrightarrow>
     \<exists>l' ws. qsort cmp check_stack depth left right asc l [] = Some (0, l', []) \<and> holds l' ws \<and> mset ws = mset vs"
proof (induction "right - left" arbitrary: depth left right l vs rule: less_induct)
  case less
  note h = less.prems(1)
  let ?p = "vs ! left"
  have b: "left < length vs" using less.prems by simp
  obtain t l1 ws1 where t: "partition_loop cmp asc ?p left right l [] = Some (Some t, l1, [])" "holds l1 ws1" "hole_moved ?p left right vs t ws1"
    using partition_loop_any [OF a less.prems(1-3)] by blast
  have lr: "left \<le> t" "t \<le> right" "t < length ws1" using t(3) less.prems(3) by (simp_all add: hole_moved_def)
  obtain l2 where l2: "set_cell t ?p l1 = Some l2" "holds l2 (ws1[t := ?p])" using set_cell_holds [OF t(2) lr(3), of ?p] by blast
  have m2: "mset (ws1[t := ?p]) = mset vs" "length (ws1[t := ?p]) = length vs" using t(3) b by (simp_all add: hole_moved_def)
  have s: "\<not> check_stack n" if "n \<le> Suc depth + k" "k < right - left" for n k using less.prems(4) [of n] that by simp
  have "\<exists>l3 ws3. (if left < t then qsort cmp check_stack (Suc depth) left (t - 1) asc l2 [] else Some (0, l2, [])) = Some (0, l3, []) \<and> holds l3 ws3 \<and> mset ws3 = mset vs"
  proof (cases "left < t")
    case True
    have m: "t - 1 - left < right - left" "left \<le> t - 1" "t - 1 < length (ws1[t := ?p])" using True lr by auto
    show ?thesis using less.hyps [OF m(1) l2(2) m(2,3), of "Suc depth"] s [OF _ m(1)] m2(1) True by simp
  qed (use l2(2) m2(1) in auto)
  then obtain l3 ws3 where l3: "(if left < t then qsort cmp check_stack (Suc depth) left (t - 1) asc l2 [] else Some (0, l2, [])) = Some (0, l3, [])" "holds l3 ws3" "mset ws3 = mset vs" by blast
  have n3: "length ws3 = length vs" using l3(3) by (rule mset_eq_length)
  have "\<exists>l4 ws4. (if right > t then qsort cmp check_stack (Suc depth) (t + 1) right asc l3 [] else Some (0, l3, [])) = Some (0, l4, []) \<and> holds l4 ws4 \<and> mset ws4 = mset vs"
  proof (cases "right > t")
    case True
    have m: "right - (t + 1) < right - left" "t + 1 \<le> right" "right < length ws3" using True lr n3 less.prems(3) by auto
    show ?thesis using less.hyps [OF m(1) l3(2) m(2,3), of "Suc depth"] s [OF _ m(1)] l3(3) True by simp
  qed (use l3 in auto)
  then show ?case using less.prems(4) [of depth] get_cell_holds [OF h b] t(1) l2(1) l3(1) by (auto simp: qsort.simps [of cmp check_stack depth left right asc l])
qed

text \<open>
  C27: With a comparison that always answers, whatever it answers, the quick sort ends without an access outside of the array and gives a permutation of the values, when
  the stack is large enough for a recursion as deep as the list is long.
\<close>

theorem qsort_ends_with_any_comparison:
  assumes "answers cmp" "holds l vs" "vs \<noteq> []" "\<And>n. n < length vs \<Longrightarrow> \<not> check_stack n"
  shows "\<exists>l' ws. qsort cmp check_stack 0 0 (length vs - 1) asc l [] = Some (0, l', []) \<and> holds l' ws \<and> mset ws = mset vs"
proof -
  have "\<not> check_stack n" if "n \<le> 0 + (length vs - 1 - 0)" for n using that assms(3,4) by (cases vs) auto
  then show ?thesis using qsort_any [OF assms(1,2), of 0 "length vs - 1" 0] assms(3) by simp
qed

theorem qsort_ends_with_any_comparison_witness:
  "\<exists>l l' ws. holds l [None, Some (Scalar 1)] \<and> qsort (\<lambda>a b. Inl (- 1)) (\<lambda>n. n > 10) 0 0 1 False l [] = Some (0, l', []) \<and> holds l' ws \<and> mset ws = {#None, Some (Scalar 1)#}"
proof -
  obtain l where "list_st l [None, Some (Scalar 1)] 0" using push_all_st [of "list_new PlainList" "[]" 0 "[None, Some (Scalar 1)]"] by auto
  then have l: "holds l [None, Some (Scalar 1)]" by (rule list_st_holds)
  have "answers (\<lambda>a b. Inl (- 1))" by (simp add: answers_def)
  then show ?thesis using qsort_ends_with_any_comparison [OF _ l, of "\<lambda>a b. Inl (- 1)" "\<lambda>n. n > 10" False] l by auto
qed

section \<open>An exception in the comparison\<close>

text \<open>A comparison that refuses one value, as the comparison operator refuses a number that is not a number.\<close>

definition refuse_two :: comparator where
  "refuse_two v w = (if v = Some (Node 2 False) \<or> w = Some (Node 2 False) then Inr ''NAN-COMPARE-ERROR'' else Inl (scalar_of v - scalar_of w))"

text \<open>
  When the comparison raises an exception in the middle of a round, the quick sort leaves the array with the pivot overwritten and another value in two places: the references of
  the list are no longer those of its values.
\<close>

theorem qsort_exception_loses_pivot:
  "case push_all [Some (Scalar 5), Some (Node 2 False), Some (Scalar 1)] (list_new PlainList) of
     None \<Rightarrow> False
   | Some l \<Rightarrow> (case qsort refuse_two (\<lambda>_. False) 0 0 2 True l [] of
       None \<Rightarrow> False
     | Some (rc, l', xs) \<Rightarrow> rc = - 1 \<and> xs = [''NAN-COMPARE-ERROR'']
         \<and> read_cells 0 3 l' = Some [Some (Scalar 1), Some (Node 2 False), Some (Scalar 1)])"
  by code_simp

end
