(* ===== verification/Stmt_Sink.thy ===== *)
theory Stmt_Sink
  imports Qore_Prelude
begin

text \<open>
  Exceptions and exception sinks in full: \<^verbatim>\<open>QoreException\<close>, \<^verbatim>\<open>qore_es_private\<close> and
  \<^verbatim>\<open>ExceptionSink\<close> (\<^verbatim>\<open>QoreException.h\<close>, \<^verbatim>\<open>QoreException.cpp\<close>, \<^verbatim>\<open>ExceptionSink.cpp\<close>).  The
  components that only raise exceptions abstract a sink to the list of the codes raised on it; the statements catch,
  rethrow and merge exceptions, and what they do depends on the links of the chain and on the flags of the sink.

  A chain of exceptions linked by \<^verbatim>\<open>next\<close> is the list of its elements; a pointer to an exception is the list that
  starts there.  The sink's \<^verbatim>\<open>tail\<close> pointer is the position in the chain of the element it points to:
  \<^verbatim>\<open>insert\<close> and \<^verbatim>\<open>assimilate\<close> overwrite the \<^verbatim>\<open>next\<close> pointer of that element, which cuts off
  whatever hung there.  Values are of the abstract type \<open>'v\<close>, the value NOTHING is \<open>None\<close>.  Where an exception is
  raised (the location of the running statement and the frames of the call stack) is an argument.
\<close>

section \<open>Exceptions\<close>

datatype qore_call_t = CT_USER | CT_BUILTIN | CT_NEWTHREAD | CT_RETHROW

record exception_location =
  start_line :: int
  end_line :: int
  xl_file :: string
  xl_source :: string
  xl_lang :: string
  xl_offset :: int

record call_info =
  ci_function :: string
  ci_typecode :: qore_call_t
  ci_location :: exception_location

record 'v QoreException =
  ex_type :: qore_call_t
  ex_callStack :: "call_info list"
  ex_err :: "'v option"
  ex_desc :: "'v option"
  ex_arg :: "'v option"
  ex_location :: exception_location

type_synonym 'v exceptions = "'v QoreException list"

record runtime_position =
  rt_location :: exception_location
  rt_stack :: "call_info list"

definition entry :: "'v option list \<Rightarrow> nat \<Rightarrow> 'v option" where
  "entry l i = (if i < length l then l ! i else None)"

definition newException :: "runtime_position \<Rightarrow> 'v option \<Rightarrow> 'v option \<Rightarrow> 'v option \<Rightarrow> 'v QoreException" where
  "newException rt err desc arg = \<lparr> ex_type = CT_BUILTIN, ex_callStack = rt_stack rt, ex_err = err, ex_desc = desc,
     ex_arg = arg, ex_location = rt_location rt \<rparr>"

text \<open>The exception of a \<^verbatim>\<open>throw\<close> statement: the third value and those after it become one list when there is more
  than one.\<close>

definition userException :: "('v option list \<Rightarrow> 'v) \<Rightarrow> runtime_position \<Rightarrow> 'v option list \<Rightarrow> 'v QoreException" where
  "userException mk rt l = \<lparr> ex_type = CT_USER, ex_callStack = rt_stack rt, ex_err = entry l 0, ex_desc = entry l 1,
     ex_arg = (if 3 < length l then Some (mk (drop 2 l)) else entry l 2), ex_location = rt_location rt \<rparr>"

definition replaceTop :: "'v option list \<Rightarrow> 'v QoreException \<Rightarrow> 'v QoreException" where
  "replaceTop l e =
     (if 0 < length l
      then let e1 = e\<lparr>ex_err := entry l 0\<rparr>
           in if 1 < length l
              then let e2 = e1\<lparr>ex_desc := entry l 1\<rparr>
                   in if 2 < length l then e2\<lparr>ex_arg := entry l 2\<rparr> else e2
              else e1
      else e)"

text \<open>The function name of the entry that marks a rethrow: that of the innermost frame, if there is one.\<close>

definition rethrow_entry :: "runtime_position \<Rightarrow> call_info list \<Rightarrow> call_info" where
  "rethrow_entry rt cs = \<lparr> ci_function = (case cs of [] \<Rightarrow> ''<unknown>'' | c # _ \<Rightarrow> ci_function c),
     ci_typecode = CT_RETHROW, ci_location = rt_location rt \<rparr>"

fun exception_rethrow :: "runtime_position \<Rightarrow> 'v exceptions \<Rightarrow> 'v exceptions" where
  "exception_rethrow rt [] = []"
| "exception_rethrow rt (e # es) = e\<lparr>ex_callStack := rethrow_entry rt (ex_callStack e) # ex_callStack e\<rparr> # es"

definition isBuiltin :: "exception_location \<Rightarrow> bool" where
  "isBuiltin l \<longleftrightarrow> xl_file l = ''<builtin>'' \<and> start_line l = end_line l \<and> start_line l = - 1"

fun first_located :: "call_info list \<Rightarrow> exception_location \<Rightarrow> exception_location" where
  "first_located [] l = l"
| "first_located (c # cs) l =
     (if xl_file (ci_location c) \<noteq> ''<builtin>'' then ci_location c else first_located cs l)"

definition getLocation :: "'v QoreException \<Rightarrow> exception_location" where
  "getLocation e = (if isBuiltin (ex_location e) then first_located (ex_callStack e) (ex_location e) else ex_location e)"

text \<open>The exception hash given to the handlers: its fields with the chain below the key \<^verbatim>\<open>next\<close>, which is cut at the
  level \<^verbatim>\<open>QORE_MAX_EXCEPTIONS\<close>.  A chain of hashes is the list of them.\<close>

record 'v exception_info =
  ei_user :: bool
  ei_location :: exception_location
  ei_callstack :: "call_info list"
  ei_err :: "'v option"
  ei_desc :: "'v option"
  ei_arg :: "'v option"

definition QORE_MAX_EXCEPTIONS :: nat where
  "QORE_MAX_EXCEPTIONS = 20"

definition exception_hash :: "'v QoreException \<Rightarrow> 'v exception_info" where
  "exception_hash e = \<lparr> ei_user = (ex_type e = CT_USER), ei_location = getLocation e, ei_callstack = ex_callStack e,
     ei_err = ex_err e, ei_desc = ex_desc e, ei_arg = ex_arg e \<rparr>"

fun makeExceptionObject :: "nat \<Rightarrow> 'v exceptions \<Rightarrow> 'v exception_info list" where
  "makeExceptionObject level [] = []"
| "makeExceptionObject level (e # es) =
     exception_hash e # (if es \<noteq> [] \<and> level < QORE_MAX_EXCEPTIONS then makeExceptionObject (level + 1) es else [])"

section \<open>Sinks\<close>

record 'v es_private =
  es_chain :: "'v exceptions"
  es_tail :: nat
  es_count :: nat
  thread_exit :: bool
  rethrown :: bool
  externally_managed :: bool

definition newSink :: "'v es_private" where
  "newSink = \<lparr> es_chain = [], es_tail = 0, es_count = 0, thread_exit = False, rethrown = False,
     externally_managed = False \<rparr>"

definition isException :: "'v es_private \<Rightarrow> bool" where
  "isException xs \<longleftrightarrow> es_chain xs \<noteq> []"

definition isEvent :: "'v es_private \<Rightarrow> bool" where
  "isEvent xs \<longleftrightarrow> es_chain xs \<noteq> [] \<or> thread_exit xs"

definition raiseThreadExit :: "'v es_private \<Rightarrow> 'v es_private" where
  "raiseThreadExit xs = xs\<lparr>thread_exit := True\<rparr>"

text \<open>Setting the \<^verbatim>\<open>next\<close> pointer of the tail element.\<close>

definition link_tail :: "'v exceptions \<Rightarrow> 'v es_private \<Rightarrow> 'v exceptions" where
  "link_tail es xs = take (es_tail xs + 1) (es_chain xs) @ es"

text \<open>\<^verbatim>\<open>insert\<close> takes a pointer to one exception, makes it the tail and counts one, whatever is linked to it.\<close>

definition es_insert :: "'v exceptions \<Rightarrow> 'v es_private \<Rightarrow> 'v es_private" where
  "es_insert e xs =
     (let ys = (if es_chain xs = [] then xs\<lparr>es_chain := e, es_tail := 0\<rparr>
                else xs\<lparr>es_chain := link_tail e xs, es_tail := es_tail xs + 1\<rparr>)
      in if externally_managed xs then ys else ys\<lparr>es_count := es_count xs + 1\<rparr>)"

definition es_rethrow :: "runtime_position \<Rightarrow> 'v exceptions \<Rightarrow> 'v es_private \<Rightarrow> 'v es_private" where
  "es_rethrow rt old xs = (es_insert (exception_rethrow rt old) xs)\<lparr>rethrown := True\<rparr>"

text \<open>\<open>assimilate xs into\<close> gives the two sinks after the merge: the target and the emptied source.\<close>

definition assimilate :: "'v es_private \<Rightarrow> 'v es_private \<Rightarrow> 'v es_private \<times> 'v es_private" where
  "assimilate xs es =
     (let es1 = (if thread_exit xs then es\<lparr>thread_exit := True\<rparr> else es); xs1 = xs\<lparr>thread_exit := False\<rparr>
      in if es_chain xs = [] then (es1, xs1)
         else let es2 = (if es_chain es = [] then es1\<lparr>es_chain := es_chain xs, es_tail := es_tail xs\<rparr>
                         else es1\<lparr>es_chain := link_tail (es_chain xs) es, es_tail := es_tail es + 1 + es_tail xs\<rparr>);
                  xs2 = xs1\<lparr>es_chain := [], es_tail := 0\<rparr>
              in if externally_managed xs then (es2, xs2)
                 else (es2\<lparr>es_count := es_count es + es_count xs\<rparr>, xs2\<lparr>es_count := 0\<rparr>))"

definition catchException :: "'v es_private \<Rightarrow> 'v exceptions \<times> 'v es_private" where
  "catchException xs = (es_chain xs, xs\<lparr>es_chain := [], es_tail := 0, es_count := 0\<rparr>)"

definition es_clear :: "'v es_private \<Rightarrow> 'v es_private" where
  "es_clear xs = xs\<lparr>es_chain := [], es_tail := 0, es_count := 0, thread_exit := False\<rparr>"

definition overrideLocation :: "exception_location \<Rightarrow> 'v es_private \<Rightarrow> 'v es_private" where
  "overrideLocation l xs = xs\<lparr>es_chain := map (\<lambda>e. e\<lparr>ex_location := l\<rparr>) (es_chain xs)\<rparr>"

definition markExternallyManaged :: "'v es_private \<Rightarrow> 'v es_private" where
  "markExternallyManaged xs = (if externally_managed xs then xs else xs\<lparr>externally_managed := True, es_count := 0\<rparr>)"

definition addStackInfo :: "call_info \<Rightarrow> 'v es_private \<Rightarrow> 'v es_private" where
  "addStackInfo c xs = xs\<lparr>es_chain := map (\<lambda>e. e\<lparr>ex_callStack := c # ex_callStack e\<rparr>) (es_chain xs)\<rparr>"

definition addStack :: "call_info list \<Rightarrow> 'v es_private \<Rightarrow> 'v es_private" where
  "addStack = fold addStackInfo"

definition raiseException_arg :: "runtime_position \<Rightarrow> 'v \<Rightarrow> 'v \<Rightarrow> 'v option \<Rightarrow> 'v es_private \<Rightarrow> 'v es_private" where
  "raiseException_arg rt err desc arg xs = es_insert [newException rt (Some err) (Some desc) arg] xs"

definition raiseException_list :: "('v option list \<Rightarrow> 'v) \<Rightarrow> runtime_position \<Rightarrow> 'v option list \<Rightarrow> 'v es_private \<Rightarrow> 'v es_private" where
  "raiseException_list mk rt l xs = es_insert [userException mk rt l] xs"

section \<open>What a sink keeps\<close>

text \<open>The tail is the last element of the chain.\<close>

definition tail_last :: "'v es_private \<Rightarrow> bool" where
  "tail_last xs \<longleftrightarrow> (es_chain xs = [] \<or> es_tail xs + 1 = length (es_chain xs))"

text \<open>Every element is counted, unless the sink is managed elsewhere.\<close>

definition es_ok :: "'v es_private \<Rightarrow> bool" where
  "es_ok xs \<longleftrightarrow> tail_last xs \<and> es_count xs = (if externally_managed xs then 0 else length (es_chain xs))"

named_theorems sink_defs "definitions of the exception sink"

lemmas [sink_defs] = isException_def isEvent_def raiseThreadExit_def link_tail_def es_insert_def es_rethrow_def
  assimilate_def catchException_def es_clear_def newSink_def tail_last_def es_ok_def Let_def

lemma es_ok_new: "es_ok newSink"
  by (simp add: sink_defs)

lemma link_tail_last: "tail_last xs \<Longrightarrow> es_chain xs \<noteq> [] \<Longrightarrow> link_tail es xs = es_chain xs @ es"
  by (simp add: tail_last_def link_tail_def)

lemma es_chain_insert_last: "tail_last xs \<Longrightarrow> es_chain (es_insert e xs) = es_chain xs @ e"
  by (auto simp: es_insert_def Let_def link_tail_last)

lemma es_ok_insert: "es_ok xs \<Longrightarrow> es_ok (es_insert [e] xs)"
  by (auto simp: sink_defs)

lemma es_ok_assimilate:
  assumes "es_ok xs" "es_ok es" "externally_managed xs = externally_managed es" "assimilate xs es = (es', xs')"
  shows "es_ok es' \<and> es_ok xs' \<and> es_chain es' = es_chain es @ es_chain xs \<and> es_chain xs' = []"
  using assms by (auto simp: sink_defs split: if_splits)

lemma es_ok_clear: "es_ok (es_clear xs)"
  by (simp add: sink_defs)

lemma es_ok_catch: "catchException xs = (e, xs') \<Longrightarrow> es_ok xs' \<and> e = es_chain xs \<and> \<not> isException xs'"
  by (auto simp: sink_defs)

lemma thread_exit_insert [simp]: "thread_exit (es_insert e xs) = thread_exit xs"
  by (simp add: es_insert_def Let_def)

lemma rethrown_insert [simp]: "rethrown (es_insert e xs) = rethrown xs"
  by (simp add: es_insert_def Let_def)

lemma isException_insert [simp]: "e \<noteq> [] \<Longrightarrow> isException (es_insert e xs)"
  by (simp add: sink_defs)

lemma rethrown_assimilate:
  "rethrown (fst (assimilate xs es)) = rethrown es" "rethrown (snd (assimilate xs es)) = rethrown xs"
  by (simp_all add: assimilate_def Let_def)

lemma isException_assimilate: "isException (fst (assimilate xs es)) \<longleftrightarrow> isException xs \<or> isException es"
  by (auto simp: sink_defs)

lemma isEvent_assimilated: "\<not> isEvent (snd (assimilate xs es))"
  by (auto simp: sink_defs)

text \<open>The hash of a chain has at most \<^const>\<open>QORE_MAX_EXCEPTIONS\<close> levels below the top.\<close>

lemma makeExceptionObject_take:
  "level \<le> QORE_MAX_EXCEPTIONS \<Longrightarrow>
   makeExceptionObject level es = map exception_hash (take (QORE_MAX_EXCEPTIONS + 1 - level) es)"
proof (induction es arbitrary: level)
  case (Cons e es)
  have "level < QORE_MAX_EXCEPTIONS \<or> level = QORE_MAX_EXCEPTIONS" using Cons.prems by arith
  then show ?case
  proof
    assume l: "level < QORE_MAX_EXCEPTIONS"
    then have "QORE_MAX_EXCEPTIONS + 1 - level = Suc (QORE_MAX_EXCEPTIONS + 1 - (level + 1))" by simp
    then show ?thesis using l Cons.IH [of "level + 1"] by (cases "es = []") auto
  qed auto
qed simp

text \<open>Merging two sinks that keep their tail at the end of the chain loses nothing and keeps the order; a chain that was
  rethrown leaves the tail at its first element, and the next exception raised cuts off the rest of it.\<close>

lemma rethrow_moves_tail:
  assumes "es_chain xs = []" "old \<noteq> []"
  shows "es_tail (es_rethrow rt old xs) = 0" "length (es_chain (es_rethrow rt old xs)) = length old"
  using assms by (cases old; simp add: sink_defs)+

lemma insert_after_rethrow:
  assumes "es_chain xs = []"
  shows "es_chain (es_insert e (es_rethrow rt (o1 # os) xs)) = exception_rethrow rt [o1] @ e"
  using assms by (simp add: sink_defs)

end
