(* ===== verification/Stmt_Model.thy ===== *)
theory Stmt_Model
  imports Stmt_Sink
begin

text \<open>
  Statements and the state of a thread that executes them: the classes derived from \<^verbatim>\<open>AbstractStatement\<close>,
  statement blocks with their list of block-exit handlers, and the parts of the thread data that the statements use (the
  stack of block-exit iterators and the exception of the innermost catch handler).

  Expressions are evaluated by the operators and the functions of the language.  An expression here is what its evaluation
  does: a function of the program state, an abstract type \<open>'s\<close>, and of the exception sink, both of which it returns
  updated, with its value.  Nothing is assumed of it.  In the same way a local variable is the pair of its
  instantiation and its removal, and the left-hand side of a foreach statement is its assignment.
\<close>

section \<open>Results\<close>

text \<open>An execution ends (\<open>Done\<close>), has not ended within the fuel given (\<open>NoFuel\<close>), or follows a null or
  invalid pointer (\<open>Undef\<close>).\<close>

datatype 'a run = NoFuel | Undef | Done 'a

primrec run_bind :: "'a run \<Rightarrow> ('a \<Rightarrow> 'b run) \<Rightarrow> 'b run" where
  "run_bind NoFuel f = NoFuel"
| "run_bind Undef f = Undef"
| "run_bind (Done x) f = f x"

lemma run_bind_assoc: "run_bind (run_bind r f) g = run_bind r (\<lambda>x. run_bind (f x) g)"
  by (cases r) simp_all

lemma run_bind_Done [simp]: "run_bind r Done = r"
  by (cases r) simp_all

lemma run_bind_eq_Done: "run_bind r f = Done y \<longleftrightarrow> (\<exists>x. r = Done x \<and> f x = Done y)"
  by (cases r) simp_all

lemma run_bind_eq_Undef: "run_bind r f = Undef \<longleftrightarrow> r = Undef \<or> (\<exists>x. r = Done x \<and> f x = Undef)"
  by (cases r) simp_all

lemma run_bind_eq_NoFuel: "run_bind r f = NoFuel \<longleftrightarrow> r = NoFuel \<or> (\<exists>x. r = Done x \<and> f x = NoFuel)"
  by (cases r) simp_all

lemma run_bind_cong: "r = r' \<Longrightarrow> (\<And>x. r' = Done x \<Longrightarrow> f x = g x) \<Longrightarrow> run_bind r f = run_bind r' g"
  by (cases r') simp_all

section \<open>Return codes\<close>

definition RC_RETURN :: int where "RC_RETURN = 1"
definition RC_BREAK :: int where "RC_BREAK = 2"
definition RC_CONTINUE :: int where "RC_CONTINUE = 3"

lemmas rc_defs = RC_RETURN_def RC_BREAK_def RC_CONTINUE_def

section \<open>Expressions, variables, statements\<close>

type_synonym ('a, 'v, 's) expr = "'s \<Rightarrow> 'v es_private \<Rightarrow> 'a \<times> 's \<times> 'v es_private"

datatype ('v, 's) LocalVar = LocalVar (lv_instantiate: "'s \<Rightarrow> 's") (lv_uninstantiate: "(unit, 'v, 's) expr")

type_synonym ('v, 's) LVList = "('v, 's) LocalVar list"

datatype obe_type_e = OBE_Unconditional | OBE_Success | OBE_Error

text \<open>The list expression of a foreach statement: a functional iterator (opened, with no iterator when the value type is
  \<^verbatim>\<open>nothing\<close>, then asked for the next value until it has none), or a reference (evaluated to a run-time
  reference, read, and written back).  Iterators and references are handles of the abstract type \<open>'h\<close>.  The two
  assignments tell whether they failed.\<close>

datatype ('v, 's, 'h) foreach_list =
    FunctionalIterator "('h option, 'v, 's) expr" "'h \<Rightarrow> ('v option option \<times> 'h, 'v, 's) expr"
  | ParseReference "('h, 'v, 's) expr" "'h \<Rightarrow> ('v option, 'v, 's) expr" "'h \<Rightarrow> 'v option \<Rightarrow> (bool, 'v, 's) expr"

text \<open>What a case label matches: a value, compared with \<^verbatim>\<open>isEqualHard\<close> (the default label has NOTHING as its
  value), or an operator or a regular expression applied to the switch value, which may raise.\<close>

datatype 'v case_label =
    CaseValue "'v option"
  | CaseDefault
  | CaseOperator "'v option \<Rightarrow> 'v es_private \<Rightarrow> bool \<times> 'v es_private"

text \<open>A catch clause names a variable or not.\<close>

type_synonym ('v, 's) catch_param = "(('v exception_info list \<Rightarrow> 's \<Rightarrow> 's) \<times> (unit, 'v, 's) expr) option"

datatype ('v, 's, 'h) AbstractStatement =
    ExpressionStatement "(unit, 'v, 's) expr"
  | ReturnStatement "('v option, 'v, 's) expr"
  | ThrowStatement "('v option list, 'v, 's) expr option"
  | RethrowStatement "('v option list, 'v, 's) expr option"
  | ThreadExitStatement
  | BreakStatement
  | ContinueStatement
  | OnBlockExitStatement obe_type_e "('v, 's, 'h) StatementBlock option"
  | IfStatement "('v, 's) LVList" "(bool, 'v, 's) expr" "('v, 's, 'h) StatementBlock option"
      "('v, 's, 'h) StatementBlock option"
  | WhileStatement "('v, 's) LVList" "(bool, 'v, 's) expr" "('v, 's, 'h) StatementBlock option"
  | DoWhileStatement "('v, 's) LVList" "(bool, 'v, 's) expr" "('v, 's, 'h) StatementBlock option"
  | ForStatement "('v, 's) LVList" "(unit, 'v, 's) expr option" "(bool, 'v, 's) expr option"
      "(unit, 'v, 's) expr option" "('v, 's, 'h) StatementBlock option"
  | ForEachStatement "('v, 's) LVList" "'v option \<Rightarrow> (bool, 'v, 's) expr" "('v option, 'v, 's) expr"
      "('v, 's, 'h) foreach_list" "('v, 's, 'h) StatementBlock option"
  | SwitchStatement "('v, 's) LVList" "('v option, 'v, 's) expr" "('v, 's, 'h) CaseNode list"
  | TryStatement "('v, 's, 'h) StatementBlock option" "('v, 's, 'h) StatementBlock option" "('v, 's) catch_param"
  | NestedBlock "('v, 's, 'h) StatementBlock"
and ('v, 's, 'h) StatementBlock =
    StatementBlock (blk_lvars: "('v, 's) LVList") (statement_list: "('v, 's, 'h) AbstractStatement list")
and ('v, 's, 'h) CaseNode =
    CaseNode (case_label: "'v case_label") (case_code: "('v, 's, 'h) StatementBlock option")

type_synonym ('v, 's, 'h) handler = "obe_type_e \<times> ('v, 's, 'h) StatementBlock option"

text \<open>\<^verbatim>\<open>addStatement\<close> appends to the statement list and, for a block-exit statement, pushes its handler at the front
  of the block's handler list.  The handler list of a block is what its statements have pushed.\<close>

fun push_handler :: "('v, 's, 'h) AbstractStatement \<Rightarrow> ('v, 's, 'h) handler list \<Rightarrow> ('v, 's, 'h) handler list" where
  "push_handler (OnBlockExitStatement ty code) l = (ty, code) # l"
| "push_handler s l = l"

definition addStatement ::
    "('v, 's, 'h) AbstractStatement \<Rightarrow> ('v, 's, 'h) AbstractStatement list \<times> ('v, 's, 'h) handler list
     \<Rightarrow> ('v, 's, 'h) AbstractStatement list \<times> ('v, 's, 'h) handler list" where
  "addStatement s b = (fst b @ [s], push_handler s (snd b))"

definition on_block_exit_list :: "('v, 's, 'h) AbstractStatement list \<Rightarrow> ('v, 's, 'h) handler list" where
  "on_block_exit_list ss = snd (fold addStatement ss ([], []))"

text \<open>
  The top-level block of a program grows with every parse: \<^verbatim>\<open>parseCommit\<close> moves the high water mark to the
  end of the statement list, \<^verbatim>\<open>parseRollback\<close> deletes the statements after the mark.
\<close>

record ('v, 's, 'h) top_level_block =
  tl_statements :: "('v, 's, 'h) AbstractStatement list"
  tl_handlers :: "('v, 's, 'h) handler list"
  tl_hwm :: nat

definition tl_new :: "('v, 's, 'h) top_level_block" where
  "tl_new = \<lparr> tl_statements = [], tl_handlers = [], tl_hwm = 0 \<rparr>"

definition tl_add :: "('v, 's, 'h) AbstractStatement \<Rightarrow> ('v, 's, 'h) top_level_block \<Rightarrow> ('v, 's, 'h) top_level_block" where
  "tl_add s b = (case addStatement s (tl_statements b, tl_handlers b) of
     (ss, hs) \<Rightarrow> b\<lparr>tl_statements := ss, tl_handlers := hs\<rparr>)"

definition tl_parseCommit :: "('v, 's, 'h) top_level_block \<Rightarrow> ('v, 's, 'h) top_level_block" where
  "tl_parseCommit b = b\<lparr>tl_hwm := length (tl_statements b)\<rparr>"

definition tl_parseRollback :: "('v, 's, 'h) top_level_block \<Rightarrow> ('v, 's, 'h) top_level_block" where
  "tl_parseRollback b = b\<lparr>tl_statements := take (tl_hwm b) (tl_statements b)\<rparr>"

section \<open>The thread\<close>

text \<open>
  The program state, the sink the statements were given, the return value (a reference that every statement is given), the
  stack of block-exit iterators of the thread, innermost first (an iterator is a position in the handler list of its
  block), and the exception that \<^verbatim>\<open>rethrow\<close> raises again (\<open>None\<close> for a null pointer).
\<close>

record ('v, 's) thread =
  t_env :: 's
  t_xs :: "'v es_private"
  t_rv :: "'v option"
  t_obl :: "nat list"
  t_catch :: "'v exceptions option"

text \<open>What the statements use of the rest of the system: the check of a return value against the declared type, the
  comparison of values, whether the program has the option \<^verbatim>\<open>PO_BROKEN_LOOP_STATEMENT\<close>, the position reported
  for exceptions, the implicit argument given to the on-error handlers and the implicit element number of the foreach
  loops, and the lists among the values.\<close>

record ('v, 's) system =
  q_accept :: "'v option \<Rightarrow> ('v option, 'v, 's) expr"
  q_equal :: "'v option \<Rightarrow> 'v option \<Rightarrow> bool"
  q_broken_loop :: bool
  q_position :: runtime_position
  q_argv :: "'v exception_info list \<Rightarrow> 's \<Rightarrow> 's"
  q_argv_out :: "(unit, 'v, 's) expr"
  q_element :: "int \<Rightarrow> 's \<Rightarrow> int \<times> 's"
  q_list :: "'v \<Rightarrow> 'v option list option"
  q_mklist :: "'v option list \<Rightarrow> 'v"

type_synonym ('v, 's) result = "(int \<times> ('v, 's) thread) run"

definition ev :: "('a, 'v, 's) expr \<Rightarrow> ('v, 's) thread \<Rightarrow> 'a \<times> ('v, 's) thread" where
  "ev e t = (case e (t_env t) (t_xs t) of (a, s, xs) \<Rightarrow> (a, t\<lparr>t_env := s, t_xs := xs\<rparr>))"

definition event :: "('v, 's) thread \<Rightarrow> bool" where
  "event t \<longleftrightarrow> isEvent (t_xs t)"

definition pushBlock :: "nat \<Rightarrow> ('v, 's) thread \<Rightarrow> ('v, 's) thread" where
  "pushBlock i t = t\<lparr>t_obl := i # t_obl t\<rparr>"

definition popBlock :: "('v, 's) thread \<Rightarrow> (nat \<times> ('v, 's) thread) run" where
  "popBlock t = (case t_obl t of [] \<Rightarrow> Undef | i # l \<Rightarrow> Done (i, t\<lparr>t_obl := l\<rparr>))"

definition advance_on_block_exit :: "('v, 's) thread \<Rightarrow> ('v, 's) thread run" where
  "advance_on_block_exit t = (case t_obl t of Suc i # l \<Rightarrow> Done (t\<lparr>t_obl := i # l\<rparr>) | _ \<Rightarrow> Undef)"

text \<open>The scope of local variables: instantiated in order, removed in reverse order when the scope ends.\<close>

definition lv_in :: "('v, 's) LVList \<Rightarrow> ('v, 's) thread \<Rightarrow> ('v, 's) thread" where
  "lv_in l t = t\<lparr>t_env := fold lv_instantiate l (t_env t)\<rparr>"

definition lv_out :: "('v, 's) LVList \<Rightarrow> ('v, 's) thread \<Rightarrow> ('v, 's) thread" where
  "lv_out l t = fold (\<lambda>v t. snd (ev (lv_uninstantiate v) t)) (rev l) t"

definition with_lvars :: "('v, 's) LVList \<Rightarrow> (('v, 's) thread \<Rightarrow> ('v, 's) result) \<Rightarrow> ('v, 's) thread \<Rightarrow> ('v, 's) result" where
  "with_lvars l f t = run_bind (f (lv_in l t)) (\<lambda>(rc, t). Done (rc, lv_out l t))"

section \<open>Lemmas\<close>

lemma on_block_exit_list_fold: "snd (fold addStatement ss (xs, l)) = on_block_exit_list ss @ l"
proof -
  have push: "push_handler s (a @ b) = push_handler s a @ b"
    for s :: "('v, 's, 'h) AbstractStatement" and a b by (cases s) simp_all
  have "snd (fold addStatement ss (xs, l @ m)) = snd (fold addStatement ss (ys, l)) @ m" for l m xs ys
    by (induction ss arbitrary: l xs ys) (simp_all add: addStatement_def push)
  from this [of xs "[]" l "[]"] show ?thesis by (simp add: on_block_exit_list_def)
qed

lemma on_block_exit_list_Nil [simp]: "on_block_exit_list [] = []"
  by (simp add: on_block_exit_list_def)

lemma on_block_exit_list_Cons [simp]: "on_block_exit_list (s # ss) = on_block_exit_list ss @ push_handler s []"
  using on_block_exit_list_fold [of ss "[s]" "push_handler s []"] by (simp add: on_block_exit_list_def addStatement_def)

lemma on_block_exit_list_append: "on_block_exit_list (ss @ [s]) = push_handler s (on_block_exit_list ss)"
  by (simp add: on_block_exit_list_def addStatement_def)

definition tl_ok :: "('v, 's, 'h) top_level_block \<Rightarrow> bool" where
  "tl_ok b \<longleftrightarrow> tl_handlers b = on_block_exit_list (tl_statements b) \<and> tl_hwm b \<le> length (tl_statements b)"

lemma tl_ok_new: "tl_ok tl_new"
  by (simp add: tl_ok_def tl_new_def)

lemma tl_ok_add: "tl_ok b \<Longrightarrow> tl_ok (tl_add s b)"
  by (simp add: tl_ok_def tl_add_def addStatement_def on_block_exit_list_append)

lemma tl_ok_commit: "tl_ok b \<Longrightarrow> tl_ok (tl_parseCommit b)"
  by (simp add: tl_ok_def tl_parseCommit_def)

text \<open>Changing the stack of block-exit iterators commutes with what does not look at it.\<close>

definition set_obl :: "nat list \<Rightarrow> ('v, 's) thread \<Rightarrow> ('v, 's) thread" where
  "set_obl l t = t\<lparr>t_obl := l\<rparr>"

lemma set_obl_sel [simp]:
  "t_env (set_obl l t) = t_env t" "t_xs (set_obl l t) = t_xs t" "t_rv (set_obl l t) = t_rv t"
  "t_catch (set_obl l t) = t_catch t" "t_obl (set_obl l t) = l" "event (set_obl l t) = event t"
  by (simp_all add: set_obl_def event_def)

lemma set_obl_upd [simp]:
  "(set_obl l t)\<lparr>t_env := s\<rparr> = set_obl l (t\<lparr>t_env := s\<rparr>)"
  "(set_obl l t)\<lparr>t_xs := x\<rparr> = set_obl l (t\<lparr>t_xs := x\<rparr>)"
  "(set_obl l t)\<lparr>t_rv := v\<rparr> = set_obl l (t\<lparr>t_rv := v\<rparr>)"
  "(set_obl l t)\<lparr>t_catch := c\<rparr> = set_obl l (t\<lparr>t_catch := c\<rparr>)"
  "(set_obl l t)\<lparr>t_obl := m\<rparr> = set_obl m t"
  "set_obl l (set_obl m t) = set_obl l t"
  by (simp_all add: set_obl_def)

lemma set_obl_id [simp]: "set_obl (t_obl t) t = t"
  by (simp add: set_obl_def)

lemma ev_set_obl [simp]: "ev e (set_obl l t) = (fst (ev e t), set_obl l (snd (ev e t)))"
  by (simp add: ev_def split: prod.splits)

lemma ev_keeps [simp]:
  "t_obl (snd (ev e t)) = t_obl t" "t_catch (snd (ev e t)) = t_catch t" "t_rv (snd (ev e t)) = t_rv t"
  by (simp_all add: ev_def split: prod.splits)

lemma lv_in_set_obl [simp]: "lv_in vs (set_obl l t) = set_obl l (lv_in vs t)"
  by (simp add: lv_in_def)

lemma lv_out_set_obl [simp]: "lv_out vs (set_obl l t) = set_obl l (lv_out vs t)"
proof -
  have "fold (\<lambda>v t. snd (ev (lv_uninstantiate v) t)) ws (set_obl l t) =
      set_obl l (fold (\<lambda>v t. snd (ev (lv_uninstantiate v) t)) ws t)" for ws
    by (induction ws arbitrary: t) simp_all
  then show ?thesis by (simp add: lv_out_def)
qed

lemma lv_keeps [simp]:
  "t_obl (lv_in vs t) = t_obl t" "t_catch (lv_in vs t) = t_catch t" "t_rv (lv_in vs t) = t_rv t"
  "t_xs (lv_in vs t) = t_xs t"
  "t_obl (lv_out vs t) = t_obl t" "t_catch (lv_out vs t) = t_catch t" "t_rv (lv_out vs t) = t_rv t"
proof -
  show "t_obl (lv_in vs t) = t_obl t" "t_catch (lv_in vs t) = t_catch t" "t_rv (lv_in vs t) = t_rv t"
    "t_xs (lv_in vs t) = t_xs t" by (simp_all add: lv_in_def)
  have "t_obl (fold (\<lambda>v t. snd (ev (lv_uninstantiate v) t)) ws t) = t_obl t \<and>
      t_catch (fold (\<lambda>v t. snd (ev (lv_uninstantiate v) t)) ws t) = t_catch t \<and>
      t_rv (fold (\<lambda>v t. snd (ev (lv_uninstantiate v) t)) ws t) = t_rv t" for ws
    by (induction ws arbitrary: t) simp_all
  then show "t_obl (lv_out vs t) = t_obl t" "t_catch (lv_out vs t) = t_catch t" "t_rv (lv_out vs t) = t_rv t"
    by (simp_all add: lv_out_def)
qed

lemma lv_Nil [simp]: "lv_in [] t = t" "lv_out [] t = t" "with_lvars [] f t = f t"
  by (simp_all add: lv_in_def lv_out_def with_lvars_def)

end
