(* ===== verification/Stmt_Exec.thy ===== *)
theory Stmt_Exec
  imports Stmt_Model
begin

text \<open>
  Execution of statements: the \<^verbatim>\<open>execImpl\<close> methods of the statement classes, statement blocks with their
  block-exit handlers (\<^verbatim>\<open>StatementBlock::execIntern\<close>), and the interpreter that ties them together.  Each method
  is a definition that is given the execution of blocks, \<open>ex\<close>; loops that have no bound of their own take fuel.  The
  debugger hooks (\<^verbatim>\<open>tlpd->runtimeCheck()\<close>) are off, and dropping a value runs no code.
\<close>

section \<open>Simple statements\<close>

definition exec_code :: "('b \<Rightarrow> ('v, 's) thread \<Rightarrow> ('v, 's) result) \<Rightarrow> 'b option \<Rightarrow> ('v, 's) thread \<Rightarrow> ('v, 's) result" where
  "exec_code ex code t = (case code of None \<Rightarrow> Done (0, t) | Some b \<Rightarrow> ex b t)"

definition ExpressionStatement_exec :: "(unit, 'v, 's) expr \<Rightarrow> ('v, 's) thread \<Rightarrow> ('v, 's) result" where
  "ExpressionStatement_exec e t = Done (0, snd (ev e t))"

definition ReturnStatement_exec ::
    "('v, 's) system \<Rightarrow> ('v option, 'v, 's) expr \<Rightarrow> ('v, 's) thread \<Rightarrow> ('v, 's) result" where
  "ReturnStatement_exec q e t =
     (let (v, t1) = ev e t
      in if \<not> event t1 then let (w, t2) = ev (q_accept q v) t1 in Done (RC_RETURN, t2\<lparr>t_rv := w\<rparr>)
         else Done (RC_RETURN, t1\<lparr>t_rv := None\<rparr>))"

definition ThrowStatement_exec ::
    "('v, 's) system \<Rightarrow> ('v option list, 'v, 's) expr option \<Rightarrow> ('v, 's) thread \<Rightarrow> ('v, 's) result" where
  "ThrowStatement_exec q args t =
     (let (l, t1) = (case args of None \<Rightarrow> ([], t) | Some e \<Rightarrow> ev e t)
      in if event t1 then Done (0, t1)
         else Done (0, t1\<lparr>t_xs := raiseException_list (q_mklist q) (q_position q) l (t_xs t1)\<rparr>))"

text \<open>\<^verbatim>\<open>replaceTop\<close> changes the caught exception in place.\<close>

definition RethrowStatement_exec ::
    "('v, 's) system \<Rightarrow> ('v option list, 'v, 's) expr option \<Rightarrow> ('v, 's) thread \<Rightarrow> ('v, 's) result" where
  "RethrowStatement_exec q args t =
     (case args of
        None \<Rightarrow> (case t_catch t of
            Some (e # es) \<Rightarrow> Done (0, t\<lparr>t_xs := es_rethrow (q_position q) (e # es) (t_xs t)\<rparr>)
          | _ \<Rightarrow> Undef)
      | Some a \<Rightarrow>
          (let (l, t1) = ev a t
           in if event t1 then Done (0, t1)
              else (case t_catch t1 of
                      Some (e # es) \<Rightarrow>
                        let e' = replaceTop l e
                        in Done (0, t1\<lparr>t_catch := Some (e' # es), t_xs := es_rethrow (q_position q) (e' # es) (t_xs t1)\<rparr>)
                    | _ \<Rightarrow> Undef)))"

definition ThreadExitStatement_exec :: "('v, 's) thread \<Rightarrow> ('v, 's) result" where
  "ThreadExitStatement_exec t = Done (0, t\<lparr>t_xs := raiseThreadExit (t_xs t)\<rparr>)"

definition OnBlockExitStatement_exec :: "('v, 's) thread \<Rightarrow> ('v, 's) result" where
  "OnBlockExitStatement_exec t = run_bind (advance_on_block_exit t) (\<lambda>t. Done (0, t))"

section \<open>Branches and loops\<close>

definition IfStatement_exec ::
    "('b \<Rightarrow> ('v, 's) thread \<Rightarrow> ('v, 's) result) \<Rightarrow> ('v, 's) LVList \<Rightarrow> (bool, 'v, 's) expr \<Rightarrow> 'b option \<Rightarrow> 'b option
     \<Rightarrow> ('v, 's) thread \<Rightarrow> ('v, 's) result" where
  "IfStatement_exec ex lvars cond if_code else_code = with_lvars lvars (\<lambda>t.
     let (v, t1) = ev cond t
     in if event t1 then Done (0, t1) else if v then exec_code ex if_code t1 else exec_code ex else_code t1)"

text \<open>What the loops do with the return code of the body before they go on.\<close>

definition after_body :: "int \<times> ('v, 's) thread \<Rightarrow> (int \<Rightarrow> ('v, 's) thread \<Rightarrow> ('v, 's) result) \<Rightarrow> ('v, 's) result" where
  "after_body r k = (case r of (rc, t) \<Rightarrow>
     if event t \<or> rc = RC_BREAK then Done (0, t)
     else if rc = RC_RETURN then Done (rc, t)
     else k (if rc = RC_CONTINUE then 0 else rc) t)"

definition loop_body ::
    "('b \<Rightarrow> ('v, 's) thread \<Rightarrow> ('v, 's) result) \<Rightarrow> 'b option \<Rightarrow> int \<Rightarrow> ('v, 's) thread
     \<Rightarrow> (int \<Rightarrow> ('v, 's) thread \<Rightarrow> ('v, 's) result) \<Rightarrow> ('v, 's) result" where
  "loop_body ex code rc t k = (case code of None \<Rightarrow> k rc t | Some b \<Rightarrow> run_bind (ex b t) (\<lambda>r. after_body r k))"

primrec while_loop ::
    "('b \<Rightarrow> ('v, 's) thread \<Rightarrow> ('v, 's) result) \<Rightarrow> (bool, 'v, 's) expr \<Rightarrow> 'b option \<Rightarrow> nat \<Rightarrow> int \<Rightarrow> ('v, 's) thread
     \<Rightarrow> ('v, 's) result" where
  "while_loop ex cond code 0 rc t = NoFuel"
| "while_loop ex cond code (Suc n) rc t =
     (let (v, t1) = ev cond t
      in if event t1 then Done (rc, t1)
         else if \<not> v then Done (rc, t1)
         else loop_body ex code rc t1 (while_loop ex cond code n))"

definition WhileStatement_exec ::
    "('b \<Rightarrow> ('v, 's) thread \<Rightarrow> ('v, 's) result) \<Rightarrow> nat \<Rightarrow> ('v, 's) LVList \<Rightarrow> (bool, 'v, 's) expr \<Rightarrow> 'b option
     \<Rightarrow> ('v, 's) thread \<Rightarrow> ('v, 's) result" where
  "WhileStatement_exec ex n lvars cond code = with_lvars lvars (while_loop ex cond code n 0)"

primrec do_while_loop ::
    "('b \<Rightarrow> ('v, 's) thread \<Rightarrow> ('v, 's) result) \<Rightarrow> (bool, 'v, 's) expr \<Rightarrow> 'b option \<Rightarrow> nat \<Rightarrow> int \<Rightarrow> ('v, 's) thread
     \<Rightarrow> ('v, 's) result" where
  "do_while_loop ex cond code 0 rc t = NoFuel"
| "do_while_loop ex cond code (Suc n) rc t =
     loop_body ex code rc t (\<lambda>rc t.
       let (v, t1) = ev cond t
       in if event t1 then Done (rc, t1)
          else if \<not> v then Done (rc, t1)
          else do_while_loop ex cond code n rc t1)"

definition DoWhileStatement_exec ::
    "('b \<Rightarrow> ('v, 's) thread \<Rightarrow> ('v, 's) result) \<Rightarrow> nat \<Rightarrow> ('v, 's) LVList \<Rightarrow> (bool, 'v, 's) expr \<Rightarrow> 'b option
     \<Rightarrow> ('v, 's) thread \<Rightarrow> ('v, 's) result" where
  "DoWhileStatement_exec ex n lvars cond code = with_lvars lvars (do_while_loop ex cond code n 0)"

definition ev_opt :: "'a \<Rightarrow> ('a, 'v, 's) expr option \<Rightarrow> ('v, 's) thread \<Rightarrow> 'a \<times> ('v, 's) thread" where
  "ev_opt a e t = (case e of None \<Rightarrow> (a, t) | Some x \<Rightarrow> ev x t)"

primrec for_loop ::
    "('b \<Rightarrow> ('v, 's) thread \<Rightarrow> ('v, 's) result) \<Rightarrow> (bool, 'v, 's) expr option \<Rightarrow> (unit, 'v, 's) expr option
     \<Rightarrow> 'b option \<Rightarrow> nat \<Rightarrow> int \<Rightarrow> ('v, 's) thread \<Rightarrow> ('v, 's) result" where
  "for_loop ex cond it code 0 rc t = NoFuel"
| "for_loop ex cond it code (Suc n) rc t =
     (if event t then Done (rc, t)
      else let (v, t1) = ev_opt True cond t
           in if event t1 \<or> \<not> v then Done (rc, t1)
              else loop_body ex code rc t1 (\<lambda>rc t.
                let (u, t2) = ev_opt () it t
                in if event t2 then Done (rc, t2) else for_loop ex cond it code n rc t2))"

definition ForStatement_exec ::
    "('b \<Rightarrow> ('v, 's) thread \<Rightarrow> ('v, 's) result) \<Rightarrow> nat \<Rightarrow> ('v, 's) LVList \<Rightarrow> (unit, 'v, 's) expr option
     \<Rightarrow> (bool, 'v, 's) expr option \<Rightarrow> (unit, 'v, 's) expr option \<Rightarrow> 'b option \<Rightarrow> ('v, 's) thread \<Rightarrow> ('v, 's) result" where
  "ForStatement_exec ex n lvars assignment cond it code = with_lvars lvars (\<lambda>t.
     let (u, t1) = ev_opt () assignment t
     in if event t1 then Done (0, t1) else for_loop ex cond it code n 0 t1)"

text \<open>The body of a foreach statement runs with the number of the element as the implicit element number, which the helper
  restores at the end of the iteration.\<close>

definition with_element :: "('v, 's) system \<Rightarrow> int \<Rightarrow> (('v, 's) thread \<Rightarrow> ('a \<times> ('v, 's) thread) run)
    \<Rightarrow> ('v, 's) thread \<Rightarrow> ('a \<times> ('v, 's) thread) run" where
  "with_element q i f t =
     (let (old, s) = q_element q i (t_env t)
      in run_bind (f (t\<lparr>t_env := s\<rparr>)) (\<lambda>(a, t). Done (a, t\<lparr>t_env := snd (q_element q old (t_env t))\<rparr>)))"

primrec foreach_loop ::
    "('v, 's) system \<Rightarrow> ('b \<Rightarrow> ('v, 's) thread \<Rightarrow> ('v, 's) result) \<Rightarrow> ('v option \<Rightarrow> (bool, 'v, 's) expr)
     \<Rightarrow> ('h \<Rightarrow> ('v option option \<times> 'h, 'v, 's) expr) \<Rightarrow> 'b \<Rightarrow> nat \<Rightarrow> int \<Rightarrow> 'h \<Rightarrow> int \<Rightarrow> ('v, 's) thread
     \<Rightarrow> ('v, 's) result" where
  "foreach_loop q ex var getNext b 0 i h rc t = NoFuel"
| "foreach_loop q ex var getNext b (Suc n) i h rc t =
     (let (iv, t1) = ev (getNext h) t
      in case fst iv of
           None \<Rightarrow> Done (rc, t1)
         | Some v \<Rightarrow>
             if event t1 then Done (rc, t1)
             else let (failed, t2) = ev (var v) t1
                  in if failed then Done (rc, t2)
                     else run_bind (with_element q i (ex b) t2)
                            (\<lambda>r. after_body r (foreach_loop q ex var getNext b n (i + 1) (snd iv))))"

text \<open>Iteration over a reference: the values the variable has after each iteration are collected for the write-back.  An
  exception or a failed assignment ends the statement with no write-back (\<open>None\<close>).\<close>

definition ref_iteration ::
    "('b \<Rightarrow> ('v, 's) thread \<Rightarrow> ('v, 's) result) \<Rightarrow> ('v option, 'v, 's) expr \<Rightarrow> 'b \<Rightarrow> ('v, 's) thread
     \<Rightarrow> ((int \<times> 'v option) option \<times> ('v, 's) thread) run" where
  "ref_iteration ex rd b t = run_bind (ex b t) (\<lambda>(rc, t).
     if event t then Done (None, t)
     else let (nv, t2) = ev rd t in if event t2 then Done (None, t2) else Done (Some (rc, nv), t2))"

fun ref_loop ::
    "('v, 's) system \<Rightarrow> ('b \<Rightarrow> ('v, 's) thread \<Rightarrow> ('v, 's) result) \<Rightarrow> ('v option \<Rightarrow> (bool, 'v, 's) expr)
     \<Rightarrow> ('v option, 'v, 's) expr \<Rightarrow> 'b \<Rightarrow> int \<Rightarrow> 'v option list \<Rightarrow> 'v option list \<Rightarrow> int \<Rightarrow> ('v, 's) thread
     \<Rightarrow> ((int \<times> 'v option list) option \<times> ('v, 's) thread) run" where
  "ref_loop q ex var rd b i [] ln rc t = Done (Some (rc, ln), t)"
| "ref_loop q ex var rd b i (v # vs) ln rc t =
     (let (failed, t1) = ev (var v) t
      in if failed then Done (None, t1)
         else run_bind (with_element q i (ref_iteration ex rd b) t1)
                (\<lambda>(r, t). case r of
                   None \<Rightarrow> Done (None, t)
                 | Some (rc, nv) \<Rightarrow>
                     if rc = RC_BREAK then Done (Some (0, ln @ [nv] @ vs), t)
                     else if rc = RC_RETURN then Done (Some (rc, ln @ [nv]), t)
                     else ref_loop q ex var rd b (i + 1) vs (ln @ [nv]) (if rc = RC_CONTINUE then 0 else rc) t))"

definition execRef ::
    "('v, 's) system \<Rightarrow> ('b \<Rightarrow> ('v, 's) thread \<Rightarrow> ('v, 's) result) \<Rightarrow> ('v option \<Rightarrow> (bool, 'v, 's) expr)
     \<Rightarrow> ('v option, 'v, 's) expr \<Rightarrow> ('h, 'v, 's) expr \<Rightarrow> ('h \<Rightarrow> ('v option, 'v, 's) expr)
     \<Rightarrow> ('h \<Rightarrow> 'v option \<Rightarrow> (bool, 'v, 's) expr) \<Rightarrow> 'b option \<Rightarrow> ('v, 's) thread \<Rightarrow> ('v, 's) result" where
  "execRef q ex var rd evalToRef ref_eval ref_assign code t =
     (let (vr, t1) = ev evalToRef t
      in if event t1 then Done (0, t1)
         else let (tlist, t2) = ev (ref_eval vr) t1
              in case (code, tlist) of
                   (Some b, Some v) \<Rightarrow>
                     if event t2 then Done (0, t2)
                     else let vs = (case q_list q v of None \<Rightarrow> [Some v] | Some l \<Rightarrow> l)
                          in if vs = [] then Done (0, t2)
                             else run_bind (ref_loop q ex var rd b 0 vs [] 0 t2) (\<lambda>(r, t3). case r of
                                    None \<Rightarrow> Done (0, t3)
                                  | Some (rc, ln) \<Rightarrow>
                                      let nv = (case q_list q v of None \<Rightarrow> hd ln | Some l \<Rightarrow> Some (q_mklist q ln));
                                          (failed, t4) = ev (ref_assign vr nv) t3
                                      in if failed then Done (0, t4) else Done (rc, t4))
                 | _ \<Rightarrow> Done (0, t2))"

definition ForEachStatement_exec ::
    "('v, 's) system \<Rightarrow> ('b \<Rightarrow> ('v, 's) thread \<Rightarrow> ('v, 's) result) \<Rightarrow> nat \<Rightarrow> ('v, 's) LVList
     \<Rightarrow> ('v option \<Rightarrow> (bool, 'v, 's) expr) \<Rightarrow> ('v option, 'v, 's) expr \<Rightarrow> ('v, 's, 'h) foreach_list \<Rightarrow> 'b option
     \<Rightarrow> ('v, 's) thread \<Rightarrow> ('v, 's) result" where
  "ForEachStatement_exec q ex n lvars var rd l code = with_lvars lvars (\<lambda>t. case l of
       ParseReference evalToRef ref_eval ref_assign \<Rightarrow> execRef q ex var rd evalToRef ref_eval ref_assign code t
     | FunctionalIterator open_it getNext \<Rightarrow>
         let (f, t1) = ev open_it t
         in case (f, code) of
              (Some h, Some b) \<Rightarrow> if event t1 then Done (0, t1) else foreach_loop q ex var getNext b n 0 h 0 t1
            | _ \<Rightarrow> Done (0, t1))"

section \<open>Switch and try\<close>

definition matches :: "('v, 's) system \<Rightarrow> 'v case_label \<Rightarrow> 'v option \<Rightarrow> ('v, 's) thread \<Rightarrow> bool \<times> ('v, 's) thread" where
  "matches q l v t = (case l of
     CaseValue w \<Rightarrow> (q_equal q v w, t)
   | CaseDefault \<Rightarrow> (q_equal q v None, t)
   | CaseOperator f \<Rightarrow> (case f v (t_xs t) of (b, xs) \<Rightarrow> (b, t\<lparr>t_xs := xs\<rparr>)))"

fun find_case :: "('v, 's) system \<Rightarrow> 'v option \<Rightarrow> ('v, 's, 'h) CaseNode list \<Rightarrow> ('v, 's) thread
    \<Rightarrow> ('v, 's, 'h) CaseNode list \<times> ('v, 's) thread" where
  "find_case q v [] t = ([], t)"
| "find_case q v (c # cs) t = (let (m, t1) = matches q (case_label c) v t in if m then (c # cs, t1) else find_case q v cs t1)"

text \<open>The default is the last case added that is one.\<close>

fun deflt :: "('v, 's, 'h) CaseNode list \<Rightarrow> ('v, 's, 'h) CaseNode list" where
  "deflt [] = []"
| "deflt (c # cs) = (case deflt cs of [] \<Rightarrow> (case case_label c of CaseDefault \<Rightarrow> c # cs | _ \<Rightarrow> []) | d # ds \<Rightarrow> d # ds)"

fun run_cases :: "(('v, 's, 'h) StatementBlock \<Rightarrow> ('v, 's) thread \<Rightarrow> ('v, 's) result) \<Rightarrow> ('v, 's, 'h) CaseNode list
    \<Rightarrow> int \<Rightarrow> ('v, 's) thread \<Rightarrow> ('v, 's) result" where
  "run_cases ex [] rc t = Done (rc, t)"
| "run_cases ex (c # cs) rc t =
     (if rc \<noteq> 0 \<or> event t then Done (rc, t)
      else run_bind (case case_code c of None \<Rightarrow> Done (rc, t) | Some b \<Rightarrow> ex b t) (\<lambda>(rc, t). run_cases ex cs rc t))"

definition SwitchStatement_exec ::
    "('v, 's) system \<Rightarrow> (('v, 's, 'h) StatementBlock \<Rightarrow> ('v, 's) thread \<Rightarrow> ('v, 's) result) \<Rightarrow> ('v, 's) LVList
     \<Rightarrow> ('v option, 'v, 's) expr \<Rightarrow> ('v, 's, 'h) CaseNode list \<Rightarrow> ('v, 's) thread \<Rightarrow> ('v, 's) result" where
  "SwitchStatement_exec q ex lvars sexp cases = with_lvars lvars (\<lambda>t.
     let (v, t1) = ev sexp t
     in if event t1 then Done (0, t1)
        else let (w, t2) = find_case q v cases t1; w1 = (case w of [] \<Rightarrow> deflt cases | _ \<Rightarrow> w)
             in run_bind (run_cases ex w1 0 t2) (\<lambda>(rc, t3).
                  Done (if rc = RC_BREAK \<or> (q_broken_loop q \<and> rc = RC_CONTINUE) then 0 else rc, t3)))"

definition catch_block_exec ::
    "('b \<Rightarrow> ('v, 's) thread \<Rightarrow> ('v, 's) result) \<Rightarrow> 'b \<Rightarrow> ('v, 's) catch_param \<Rightarrow> 'v exceptions
     \<Rightarrow> ('v, 's) thread \<Rightarrow> ('v, 's) result" where
  "catch_block_exec ex b param e t =
     (let t1 = t\<lparr>t_catch := Some e\<rparr>;
          t2 = (case param of None \<Rightarrow> t1 | Some (inst, uninst) \<Rightarrow> t1\<lparr>t_env := inst (makeExceptionObject 0 e) (t_env t1)\<rparr>)
      in run_bind (ex b t2) (\<lambda>(rc, t3).
           let t4 = (case param of None \<Rightarrow> t3 | Some (inst, uninst) \<Rightarrow> snd (ev uninst t3))
           in Done (rc, t4\<lparr>t_catch := t_catch t\<rparr>)))"

definition handle_exceptions ::
    "('b \<Rightarrow> ('v, 's) thread \<Rightarrow> ('v, 's) result) \<Rightarrow> 'b option \<Rightarrow> ('v, 's) catch_param \<Rightarrow> int
     \<Rightarrow> ('v, 's) thread \<Rightarrow> ('v, 's) result" where
  "handle_exceptions ex catch_block param rc t =
     (let (e, xs) = catchException (t_xs t); t1 = t\<lparr>t_xs := xs\<rparr>
      in case (e, catch_block) of
           ([], _) \<Rightarrow> Done (rc, t1)
         | (_, None) \<Rightarrow> Done (0, t1)
         | (_, Some b) \<Rightarrow> catch_block_exec ex b param e t1)"

definition TryStatement_exec ::
    "('b \<Rightarrow> ('v, 's) thread \<Rightarrow> ('v, 's) result) \<Rightarrow> 'b option \<Rightarrow> 'b option \<Rightarrow> ('v, 's) catch_param
     \<Rightarrow> ('v, 's) thread \<Rightarrow> ('v, 's) result" where
  "TryStatement_exec ex try_block catch_block param t =
     run_bind (exec_code ex try_block (t\<lparr>t_rv := None\<rparr>)) (\<lambda>(rc, t1).
       run_bind (handle_exceptions ex catch_block param rc t1) (\<lambda>(rc, t2).
         Done (rc, t2\<lparr>t_rv := (case t_rv t of None \<Rightarrow> t_rv t2 | Some v \<Rightarrow> Some v)\<rparr>)))"

section \<open>Blocks\<close>

text \<open>\<^verbatim>\<open>AbstractStatement::exec\<close> does nothing when an exception is active.\<close>

definition statement_exec :: "('a \<Rightarrow> ('v, 's) thread \<Rightarrow> ('v, 's) result) \<Rightarrow> 'a \<Rightarrow> ('v, 's) thread \<Rightarrow> ('v, 's) result" where
  "statement_exec exs s t = (if event t then Done (0, t) else exs s t)"

fun exec_statements :: "('a \<Rightarrow> ('v, 's) thread \<Rightarrow> ('v, 's) result) \<Rightarrow> 'a list \<Rightarrow> ('v, 's) thread \<Rightarrow> ('v, 's) result" where
  "exec_statements exs [] t = Done (0, t)"
| "exec_statements exs (s # ss) t =
     run_bind (statement_exec exs s t) (\<lambda>(rc, t). if rc \<noteq> 0 then Done (rc, t) else exec_statements exs ss t)"

text \<open>The state of the handler loop: the return code of the last handler, whether there is an error, the sink
  the handlers are given, and the thread.\<close>

type_synonym ('v, 's) handling = "int \<times> bool \<times> 'v es_private \<times> ('v, 's) thread"

definition selected :: "obe_type_e \<Rightarrow> bool \<Rightarrow> bool" where
  "selected ty error \<longleftrightarrow> ty = OBE_Unconditional \<or> (\<not> error \<and> ty = OBE_Success) \<or> (error \<and> ty = OBE_Error)"

definition run_handler ::
    "('b \<Rightarrow> ('v, 's) thread \<Rightarrow> ('v, 's) result) \<Rightarrow> 'b \<Rightarrow> 'v es_private \<Rightarrow> ('v, 's) thread
     \<Rightarrow> (int \<times> 'v es_private \<times> ('v, 's) thread) run" where
  "run_handler ex b obe t = run_bind (ex b (t\<lparr>t_xs := obe\<rparr>)) (\<lambda>(nrc, t1). Done (nrc, t_xs t1, t1\<lparr>t_xs := t_xs t\<rparr>))"

text \<open>An on-error handler is given the exception as the implicit argument and as the exception to rethrow; that
  exception is the first one of the chain of the block's sink, which the handler can change in place.\<close>

definition run_error_handler ::
    "('v, 's) system \<Rightarrow> ('b \<Rightarrow> ('v, 's) thread \<Rightarrow> ('v, 's) result) \<Rightarrow> 'b \<Rightarrow> 'v es_private \<Rightarrow> ('v, 's) thread
     \<Rightarrow> (int \<times> 'v es_private \<times> ('v, 's) thread) run" where
  "run_error_handler q ex b obe t =
     (case es_chain (t_xs t) of
        [] \<Rightarrow> Undef
      | e # es \<Rightarrow>
          let t1 = t\<lparr>t_catch := Some (e # es), t_env := q_argv q (makeExceptionObject 0 (e # es)) (t_env t)\<rparr>
          in run_bind (run_handler ex b obe t1) (\<lambda>(nrc, obe1, t2).
               let xs = (case t_catch t2 of None \<Rightarrow> t_xs t2 | Some c \<Rightarrow> (t_xs t2)\<lparr>es_chain := c\<rparr>);
                   t3 = t2\<lparr>t_xs := (if rethrown obe1 then es_clear xs else xs), t_catch := t_catch t\<rparr>
               in Done (nrc, obe1, snd (ev (q_argv_out q) t3))))"

definition merge_handler :: "int \<times> 'v es_private \<times> ('v, 's) thread \<Rightarrow> bool \<Rightarrow> ('v, 's) handling" where
  "merge_handler r error = (case r of (nrc, obe, t) \<Rightarrow>
     if isEvent obe
     then (case assimilate obe (t_xs t) of (xs, obe1) \<Rightarrow> (nrc, True, obe1, t\<lparr>t_xs := xs\<rparr>))
     else (nrc, error, obe, t))"

definition handler_step ::
    "('v, 's) system \<Rightarrow> ('b \<Rightarrow> ('v, 's) thread \<Rightarrow> ('v, 's) result) \<Rightarrow> obe_type_e \<times> 'b option \<Rightarrow> ('v, 's) handling
     \<Rightarrow> ('v, 's) handling run" where
  "handler_step q ex h st = (case (h, st) of ((ty, code), (nrc, error, obe, t)) \<Rightarrow>
     if selected ty error
     then (case code of
             None \<Rightarrow> Done (nrc, error, obe, t)
           | Some b \<Rightarrow>
               run_bind (if ty = OBE_Error then run_error_handler q ex b obe t else run_handler ex b obe t)
                 (\<lambda>r. Done (merge_handler r error)))
     else Done (nrc, error, obe, t))"

fun run_handlers ::
    "('v, 's) system \<Rightarrow> ('b \<Rightarrow> ('v, 's) thread \<Rightarrow> ('v, 's) result) \<Rightarrow> (obe_type_e \<times> 'b option) list
     \<Rightarrow> ('v, 's) handling \<Rightarrow> ('v, 's) handling run" where
  "run_handlers q ex [] st = Done st"
| "run_handlers q ex (h # hs) st = run_bind (handler_step q ex h st) (run_handlers q ex hs)"

definition start_handling :: "('v, 's) thread \<Rightarrow> ('v, 's) handling" where
  "start_handling t = (0, isException (t_xs t), newSink, t)"

definition end_handling :: "int \<Rightarrow> ('v, 's) handling \<Rightarrow> int \<times> ('v, 's) thread" where
  "end_handling rc st = (case st of (nrc, error, obe, t) \<Rightarrow> (if nrc \<noteq> 0 then nrc else rc, t))"

definition execIntern ::
    "('v, 's) system \<Rightarrow> (('v, 's, 'h) StatementBlock \<Rightarrow> ('v, 's) thread \<Rightarrow> ('v, 's) result)
     \<Rightarrow> (('v, 's, 'h) AbstractStatement \<Rightarrow> ('v, 's) thread \<Rightarrow> ('v, 's) result)
     \<Rightarrow> ('v, 's, 'h) AbstractStatement list \<Rightarrow> ('v, 's) thread \<Rightarrow> ('v, 's) result" where
  "execIntern q ex exs ss t =
     (let obl = on_block_exit_list ss; obe = (obl \<noteq> []); t1 = (if obe then pushBlock (length obl) t else t)
      in run_bind (if \<not> event t1 then exec_statements exs ss t1 else Done (0, t1)) (\<lambda>(rc, t2).
           if obe
           then run_bind (popBlock t2) (\<lambda>(i, t3).
                  run_bind (run_handlers q ex (drop i obl) (start_handling t3)) (\<lambda>st. Done (end_handling rc st)))
           else Done (rc, t2)))"

section \<open>The interpreter\<close>

text \<open>A block-exit statement executes nothing but the step of the iterator, so that it needs no fuel.\<close>

fun exec_block :: "('v, 's) system \<Rightarrow> nat \<Rightarrow> ('v, 's, 'h) StatementBlock \<Rightarrow> ('v, 's) thread \<Rightarrow> ('v, 's) result"
and exec_stmt :: "('v, 's) system \<Rightarrow> nat \<Rightarrow> ('v, 's, 'h) AbstractStatement \<Rightarrow> ('v, 's) thread \<Rightarrow> ('v, 's) result" where
  "exec_block q 0 b t = NoFuel"
| "exec_block q (Suc n) b t =
     with_lvars (blk_lvars b) (execIntern q (exec_block q n) (exec_stmt q n) (statement_list b)) t"
| "exec_stmt q 0 s t = (case s of OnBlockExitStatement ty code \<Rightarrow> OnBlockExitStatement_exec t | _ \<Rightarrow> NoFuel)"
| "exec_stmt q (Suc n) s t = (case s of
     ExpressionStatement e \<Rightarrow> ExpressionStatement_exec e t
   | ReturnStatement e \<Rightarrow> ReturnStatement_exec q e t
   | ThrowStatement args \<Rightarrow> ThrowStatement_exec q args t
   | RethrowStatement args \<Rightarrow> RethrowStatement_exec q args t
   | ThreadExitStatement \<Rightarrow> ThreadExitStatement_exec t
   | BreakStatement \<Rightarrow> Done (RC_BREAK, t)
   | ContinueStatement \<Rightarrow> Done (RC_CONTINUE, t)
   | OnBlockExitStatement ty code \<Rightarrow> OnBlockExitStatement_exec t
   | IfStatement lvars cond if_code else_code \<Rightarrow> IfStatement_exec (exec_block q n) lvars cond if_code else_code t
   | WhileStatement lvars cond code \<Rightarrow> WhileStatement_exec (exec_block q n) n lvars cond code t
   | DoWhileStatement lvars cond code \<Rightarrow> DoWhileStatement_exec (exec_block q n) n lvars cond code t
   | ForStatement lvars assignment cond it code \<Rightarrow> ForStatement_exec (exec_block q n) n lvars assignment cond it code t
   | ForEachStatement lvars var rd l code \<Rightarrow> ForEachStatement_exec q (exec_block q n) n lvars var rd l code t
   | SwitchStatement lvars sexp cases \<Rightarrow> SwitchStatement_exec q (exec_block q n) lvars sexp cases t
   | TryStatement try_block catch_block param \<Rightarrow> TryStatement_exec (exec_block q n) try_block catch_block param t
   | NestedBlock b \<Rightarrow> exec_block q n b t)"

text \<open>A function body: the block is executed with a return value that starts as NOTHING, and its return code is
  dropped (\<^verbatim>\<open>StatementBlock::exec\<close>).\<close>

definition block_call :: "('v, 's) system \<Rightarrow> nat \<Rightarrow> ('v, 's, 'h) StatementBlock \<Rightarrow> ('v, 's) thread
    \<Rightarrow> ('v option \<times> ('v, 's) thread) run" where
  "block_call q n b t = run_bind (exec_block q n b (t\<lparr>t_rv := None\<rparr>)) (\<lambda>(rc, t1). Done (t_rv t1, t1\<lparr>t_rv := t_rv t\<rparr>))"

end
