(* ===== verification/Stmt_Frame.thy ===== *)
theory Stmt_Frame
  imports Stmt_Exec
begin

text \<open>
  The stack of block-exit iterators.  Every statement but a block-exit statement leaves the stack as it is and does
  the same whatever is on it.  The law is stated for the execution of blocks as a locale, the statement methods keep
  it, and the interpreter is an instance.
\<close>

definition keep_obl :: "nat list \<Rightarrow> ('a \<times> ('v, 's) thread) run \<Rightarrow> ('a \<times> ('v, 's) thread) run" where
  "keep_obl l r = run_bind r (\<lambda>(a, t). Done (a, set_obl l t))"

lemma keep_obl_pair: "keep_obl l (Done x) = Done (fst x, set_obl l (snd x))"
  by (simp add: keep_obl_def split_beta)

lemma keep_obl_simps [simp]:
  "keep_obl l NoFuel = NoFuel" "keep_obl l Undef = Undef" "keep_obl l (Done (a, t)) = Done (a, set_obl l t)"
  by (simp_all add: keep_obl_def)

lemma keep_obl_bind: "keep_obl l (run_bind r f) = run_bind r (\<lambda>x. keep_obl l (f x))"
  by (cases r) (simp_all add: keep_obl_def)

lemma bind_keep_obl: "run_bind (keep_obl l r) f = run_bind r (\<lambda>x. f (fst x, set_obl l (snd x)))"
  by (cases r) (auto simp: keep_obl_def split_beta)

lemma keep_obl_case_prod: "keep_obl l (case p of (a, b) \<Rightarrow> f a b) = (case p of (a, b) \<Rightarrow> keep_obl l (f a b))"
  by (cases p) simp

lemma keep_obl_if: "keep_obl l (if c then r else r') = (if c then keep_obl l r else keep_obl l r')"
  by simp

lemma keep_obl_option:
  "keep_obl l (case m of None \<Rightarrow> r | Some x \<Rightarrow> f x) = (case m of None \<Rightarrow> keep_obl l r | Some x \<Rightarrow> keep_obl l (f x))"
  by (cases m) simp_all

lemmas keep_obl_push = keep_obl_pair keep_obl_bind bind_keep_obl keep_obl_case_prod keep_obl_if keep_obl_option

text \<open>A computation that does not depend on the stack.\<close>

definition framed :: "(('v, 's) thread \<Rightarrow> ('a \<times> ('v, 's) thread) run) \<Rightarrow> bool" where
  "framed f \<longleftrightarrow> (\<forall>l t. f (set_obl l t) = keep_obl l (f t))"

lemma framedI: "(\<And>l t. f (set_obl l t) = keep_obl l (f t)) \<Longrightarrow> framed f"
  by (simp add: framed_def)

lemma framedD: "framed f \<Longrightarrow> f (set_obl l t) = keep_obl l (f t)"
  by (simp add: framed_def)

lemma framed_keeps: "framed f \<Longrightarrow> f t = Done (a, t') \<Longrightarrow> t_obl t' = t_obl t"
proof -
  assume "framed f" "f t = Done (a, t')"
  then have "Done (a, t') = Done (a, set_obl (t_obl t) t')" using framedD [of f "t_obl t" t] by simp
  then show ?thesis by (metis Pair_inject run.inject set_obl_sel(5))
qed

lemma framed_with_lvars: "framed f \<Longrightarrow> framed (with_lvars vs f)"
  by (rule framedI) (simp add: with_lvars_def framedD keep_obl_push split_beta cong: if_cong option.case_cong)

lemma framed_bind:
  assumes f: "framed f" and g: "\<And>a. framed (g a)"
  shows "framed (\<lambda>t. run_bind (f t) (\<lambda>(a, t). g a t))"
  by (rule framedI) (simp add: framedD [OF f] framedD [OF g] keep_obl_push split_beta cong: if_cong option.case_cong)

lemma framed_ev: "(\<And>a. framed (k a)) \<Longrightarrow> framed (\<lambda>t. case ev e t of (a, t1) \<Rightarrow> k a t1)"
  by (rule framedI) (simp add: framedD split_beta)

lemma framed_if: "framed f \<Longrightarrow> framed g \<Longrightarrow> framed (\<lambda>t. if event t then f t else g t)"
  by (rule framedI) (simp add: framedD)

lemma framed_Done: "framed (\<lambda>t. Done (a, t))"
  by (rule framedI) simp

locale executor =
  fixes ex :: "'b \<Rightarrow> ('v, 's) thread \<Rightarrow> ('v, 's) result"
  assumes ex_framed: "framed (ex b)"
begin

lemma ex_set_obl [simp]: "ex b (set_obl l t) = keep_obl l (ex b t)"
  by (rule framedD [OF ex_framed])

lemma exec_code_framed: "framed (exec_code ex code)"
  by (rule framedI) (simp add: exec_code_def split: option.splits cong: if_cong option.case_cong)

lemma if_framed: "framed (IfStatement_exec ex lvars cond if_code else_code)"
  unfolding IfStatement_exec_def
  by (rule framed_with_lvars, rule framedI)
    (simp add: Let_def split_beta framedD [OF exec_code_framed])

lemma loop_body_framed:
  assumes k: "\<And>rc. framed (k rc)"
  shows "framed (\<lambda>t. loop_body ex code rc t k)"
  by (rule framedI) (simp add: loop_body_def after_body_def framedD [OF k] keep_obl_push split_beta split: option.splits cong: if_cong option.case_cong)

lemma while_framed: "framed (WhileStatement_exec ex n lvars cond code)"
proof -
  have "framed (while_loop ex cond code n rc)" for rc
  proof (induction n arbitrary: rc)
    case (Suc n)
    show ?case by (rule framedI) (simp add: Let_def split_beta framedD [OF loop_body_framed [OF Suc.IH]])
  qed (simp add: framed_def)
  then show ?thesis by (simp add: WhileStatement_exec_def framed_with_lvars)
qed

lemma do_while_framed: "framed (DoWhileStatement_exec ex n lvars cond code)"
proof -
  have "framed (do_while_loop ex cond code n rc)" for rc
  proof (induction n arbitrary: rc)
    case (Suc n)
    have k: "framed (\<lambda>t. let (v, t1) = ev cond t in if event t1 then Done (rc, t1) else if \<not> v then Done (rc, t1)
        else do_while_loop ex cond code n rc t1)" for rc
      by (rule framedI) (simp add: Let_def split_beta framedD [OF Suc.IH])
    show ?case using loop_body_framed [OF k] by (simp only: framed_def do_while_loop.simps simp_thms)
  qed (simp add: framed_def)
  then show ?thesis by (simp add: DoWhileStatement_exec_def framed_with_lvars)
qed

lemma ev_opt_set_obl: "ev_opt a e (set_obl l t) = (fst (ev_opt a e t), set_obl l (snd (ev_opt a e t)))"
  by (simp add: ev_opt_def split: option.splits cong: if_cong option.case_cong)

lemma for_framed: "framed (ForStatement_exec ex n lvars assignment cond it code)"
proof -
  have loop: "framed (for_loop ex cond it code n rc)" for rc
  proof (induction n arbitrary: rc)
    case (Suc n)
    have k: "framed (\<lambda>t. let (u, t2) = ev_opt () it t in if event t2 then Done (rc, t2) else for_loop ex cond it code n rc t2)" for rc
      by (rule framedI) (simp add: Let_def split_beta ev_opt_set_obl framedD [OF Suc.IH])
    show ?case by (rule framedI) (simp add: Let_def split_beta ev_opt_set_obl framedD [OF loop_body_framed [OF k, unfolded Let_def split_beta]])
  qed (simp add: framed_def)
  have "framed (\<lambda>t. let (u, t1) = ev_opt () assignment t in if event t1 then Done (0, t1) else for_loop ex cond it code n 0 t1)"
    by (rule framedI) (simp add: Let_def split_beta ev_opt_set_obl framedD [OF loop])
  then show ?thesis by (simp add: ForStatement_exec_def framed_with_lvars)
qed

lemma with_element_framed: "framed f \<Longrightarrow> framed (with_element q i f)"
  by (rule framedI) (simp add: with_element_def framedD keep_obl_push split_beta cong: if_cong option.case_cong)

lemma foreach_loop_framed: "framed (foreach_loop q ex var getNext b n i h rc)"
proof (induction n arbitrary: i h rc)
  case (Suc n)
  show ?case
    by (rule framedI)
      (simp add: Let_def split_beta framedD [OF with_element_framed [OF ex_framed]] after_body_def
        framedD [OF Suc.IH] keep_obl_push split: option.splits cong: if_cong option.case_cong)
qed (simp add: framed_def)

lemma ref_iteration_framed: "framed (ref_iteration ex rd b)"
  by (rule framedI) (simp add: ref_iteration_def Let_def split_beta keep_obl_push cong: if_cong)

lemma ref_loop_framed: "framed (ref_loop q ex var rd b i vs ln rc)"
proof (induction vs arbitrary: i ln rc)
  case (Cons v vs)
  show ?case
    by (rule framedI)
      (simp add: Let_def split_beta framedD [OF with_element_framed [OF ref_iteration_framed]]
        framedD [OF Cons.IH] keep_obl_push cong: if_cong option.case_cong)
qed (simp add: framed_def)

lemma execRef_framed: "framed (execRef q ex var rd evalToRef ref_eval ref_assign code)"
  by (rule framedI)
    (simp add: execRef_def Let_def split_beta framedD [OF ref_loop_framed] keep_obl_push split: option.splits cong: if_cong option.case_cong)

lemma foreach_framed: "framed (ForEachStatement_exec q ex n lvars var rd l code)"
  unfolding ForEachStatement_exec_def
  by (rule framed_with_lvars, rule framedI)
    (simp add: Let_def split_beta framedD [OF execRef_framed] framedD [OF foreach_loop_framed]
      split: foreach_list.splits option.splits)

lemma catch_block_framed: "framed (catch_block_exec ex b param e)"
  by (rule framedI)
    (cases param; simp add: catch_block_exec_def Let_def split_beta keep_obl_push)

lemma handle_exceptions_framed: "framed (handle_exceptions ex catch_block param rc)"
  by (rule framedI)
    (simp add: handle_exceptions_def Let_def split_beta framedD [OF catch_block_framed] split: list.splits option.splits)

lemma try_framed: "framed (TryStatement_exec ex try_block catch_block param)"
  by (rule framedI)
    (simp add: TryStatement_exec_def split_beta framedD [OF exec_code_framed] framedD [OF handle_exceptions_framed]
      keep_obl_push cong: option.case_cong)

lemma run_handler_set_obl:
  "run_handler ex b obe (set_obl l t) = run_bind (run_handler ex b obe t) (\<lambda>(a, o', t). Done (a, o', set_obl l t))"
  by (simp add: run_handler_def keep_obl_push run_bind_assoc split_beta)

end

text \<open>A handler loop does not depend on the stack either.\<close>

definition set_obl_handling :: "nat list \<Rightarrow> ('v, 's) handling \<Rightarrow> ('v, 's) handling" where
  "set_obl_handling l st = (case st of (nrc, error, obe, t) \<Rightarrow> (nrc, error, obe, set_obl l t))"

definition framed_handling :: "(('v, 's) handling \<Rightarrow> ('v, 's) handling run) \<Rightarrow> bool" where
  "framed_handling f \<longleftrightarrow> (\<forall>l st. f (set_obl_handling l st) = run_bind (f st) (\<lambda>st. Done (set_obl_handling l st)))"

lemma framed_handlingI:
  "(\<And>l nrc error obe t. f (nrc, error, obe, set_obl l t) = run_bind (f (nrc, error, obe, t)) (\<lambda>st. Done (set_obl_handling l st)))
   \<Longrightarrow> framed_handling f"
  by (simp add: framed_handling_def set_obl_handling_def split: prod.splits)

lemma framed_handlingD:
  "framed_handling f \<Longrightarrow> f (set_obl_handling l st) = run_bind (f st) (\<lambda>st. Done (set_obl_handling l st))"
  unfolding framed_handling_def by blast

lemma merge_handler_set_obl: "merge_handler (nrc, obe, set_obl l t) error = set_obl_handling l (merge_handler (nrc, obe, t) error)"
  by (simp add: merge_handler_def set_obl_handling_def split_beta)

context executor
begin

lemma run_error_handler_set_obl:
  "run_error_handler q ex b obe (set_obl l t) =
     run_bind (run_error_handler q ex b obe t) (\<lambda>(a, o', t). Done (a, o', set_obl l t))"
  by (simp add: run_error_handler_def Let_def run_handler_set_obl run_bind_assoc split_beta
    split: list.splits cong: if_cong option.case_cong)

lemma handler_step_framed: "framed_handling (handler_step q ex h)"
proof (rule framed_handlingI)
  fix l :: "nat list" and nrc :: int and error :: bool and obe :: "'v es_private" and t :: "('v, 's) thread"
  show "handler_step q ex h (nrc, error, obe, set_obl l t) =
      run_bind (handler_step q ex h (nrc, error, obe, t)) (\<lambda>st. Done (set_obl_handling l st))"
    by (cases h; cases "snd h")
      (simp_all add: handler_step_def set_obl_handling_def run_handler_set_obl run_error_handler_set_obl run_bind_assoc
        merge_handler_set_obl [unfolded set_obl_handling_def] split_beta)
qed

lemma run_handlers_framed: "framed_handling (run_handlers q ex hs)"
proof (induction hs)
  case (Cons h hs)
  show ?case
    unfolding framed_handling_def
    by (simp only: run_handlers.simps framed_handlingD [OF handler_step_framed] run_bind_assoc run_bind.simps
      framed_handlingD [OF Cons.IH] simp_thms)
qed (simp add: framed_handling_def)

end

section \<open>Blocks as nested scopes\<close>

text \<open>
  What a block means, without iterators: from a block-exit statement on, the rest of the block runs first, then the
  handler.  The result is the return code of the statements and the state of the handling.
\<close>

fun scope ::
    "('v, 's) system \<Rightarrow> (('v, 's, 'h) StatementBlock \<Rightarrow> ('v, 's) thread \<Rightarrow> ('v, 's) result)
     \<Rightarrow> (('v, 's, 'h) AbstractStatement \<Rightarrow> ('v, 's) thread \<Rightarrow> ('v, 's) result)
     \<Rightarrow> ('v, 's, 'h) AbstractStatement list \<Rightarrow> ('v, 's) thread \<Rightarrow> (int \<times> ('v, 's) handling) run" where
  "scope q ex exs [] t = Done (0, start_handling t)"
| "scope q ex exs (s # ss) t =
     (if event t then Done (0, start_handling t)
      else case s of
        OnBlockExitStatement ty code \<Rightarrow>
          run_bind (scope q ex exs ss t) (\<lambda>(rc, st). run_bind (handler_step q ex (ty, code) st) (\<lambda>st. Done (rc, st)))
      | _ \<Rightarrow> run_bind (exs s t) (\<lambda>(rc, t1). if rc \<noteq> 0 then Done (rc, start_handling t1) else scope q ex exs ss t1))"

definition scope_block ::
    "('v, 's) system \<Rightarrow> (('v, 's, 'h) StatementBlock \<Rightarrow> ('v, 's) thread \<Rightarrow> ('v, 's) result)
     \<Rightarrow> (('v, 's, 'h) AbstractStatement \<Rightarrow> ('v, 's) thread \<Rightarrow> ('v, 's) result)
     \<Rightarrow> ('v, 's, 'h) AbstractStatement list \<Rightarrow> ('v, 's) thread \<Rightarrow> ('v, 's) result" where
  "scope_block q ex exs ss t = run_bind (scope q ex exs ss t) (\<lambda>(rc, st). Done (end_handling rc st))"

fun block_exit :: "('v, 's, 'h) AbstractStatement \<Rightarrow> bool" where
  "block_exit (OnBlockExitStatement ty code) = True"
| "block_exit s = False"

lemma push_handler_other [simp]: "\<not> block_exit s \<Longrightarrow> push_handler s l = l"
  by (cases s) simp_all

lemma scope_other [simp]:
  "\<not> block_exit s \<Longrightarrow> scope q ex exs (s # ss) t =
     (if event t then Done (0, start_handling t)
      else run_bind (exs s t) (\<lambda>(rc, t1). if rc \<noteq> 0 then Done (rc, start_handling t1) else scope q ex exs ss t1))"
  by (cases s) simp_all

lemma scope_block_exit [simp]:
  "scope q ex exs (OnBlockExitStatement ty code # ss) t =
     (if event t then Done (0, start_handling t)
      else run_bind (scope q ex exs ss t) (\<lambda>(rc, st). run_bind (handler_step q ex (ty, code) st) (\<lambda>st. Done (rc, st))))"
  by simp

lemma scope_event: "event t \<Longrightarrow> scope q ex exs ss t = Done (0, start_handling t)"
  by (cases ss) simp_all

declare scope.simps(2) [simp del]

lemma start_handling_set_obl: "start_handling (set_obl l t) = set_obl_handling l (start_handling t)"
  by (simp add: start_handling_def set_obl_handling_def)

lemma end_handling_set_obl:
  "end_handling rc (set_obl_handling l st) = (fst (end_handling rc st), set_obl l (snd (end_handling rc st)))"
  by (cases st) (simp add: end_handling_def set_obl_handling_def)

locale block_executor = executor ex
  for ex :: "('v, 's, 'h) StatementBlock \<Rightarrow> ('v, 's) thread \<Rightarrow> ('v, 's) result" +
  fixes exs :: "('v, 's, 'h) AbstractStatement \<Rightarrow> ('v, 's) thread \<Rightarrow> ('v, 's) result"
  assumes exs_framed: "\<not> block_exit s \<Longrightarrow> framed (exs s)"
    and exs_block_exit: "exs (OnBlockExitStatement ty code) t = OnBlockExitStatement_exec t"
begin

lemma switch_framed: "framed (SwitchStatement_exec q ex lvars sexp cases)"
proof -
  have m: "matches q c v (set_obl l t) = (fst (matches q c v t), set_obl l (snd (matches q c v t)))" for c v l t
    by (simp add: matches_def split_beta split: case_label.splits)
  have f: "find_case q v cs (set_obl l t) = (fst (find_case q v cs t), set_obl l (snd (find_case q v cs t)))"
    for v and cs :: "('v, 's, 'h) CaseNode list" and l t
    by (induction cs arbitrary: t) (simp_all add: m Let_def split_beta)
  have r: "framed (run_cases ex cs rc)" for cs rc
  proof (induction cs arbitrary: rc)
    case (Cons c cs)
    show ?case
      by (rule framedI) (cases "case_code c"; simp add: framedD [OF Cons.IH] keep_obl_push split_beta)
  qed (simp add: framed_def)
  show ?thesis
    unfolding SwitchStatement_exec_def
    by (rule framed_with_lvars, rule framedI)
      (simp add: Let_def split_beta f framedD [OF r] keep_obl_push cong: if_cong list.case_cong)
qed

lemma exec_statements_event: "event t \<Longrightarrow> exec_statements exs ss t = Done (0, t)"
  by (induction ss) (simp_all add: statement_exec_def)

lemma scope_simulation:
  "run_bind (exec_statements exs ss (set_obl (length (on_block_exit_list ss) # l) t)) (\<lambda>(rc, t2).
     run_bind (popBlock t2) (\<lambda>(i, t3).
       run_bind (run_handlers q ex (drop i (on_block_exit_list ss @ hs)) (start_handling t3)) (\<lambda>st. Done (rc, st)))) =
   run_bind (scope q ex exs ss (set_obl l t)) (\<lambda>(rc, st). run_bind (run_handlers q ex hs st) (\<lambda>st. Done (rc, st)))"
proof (induction ss arbitrary: t hs)
  case (Cons s ss)
  show ?case
  proof (cases "event t")
    case True
    then show ?thesis by (simp add: statement_exec_def exec_statements_event scope_event popBlock_def)
  next
    case False
    show ?thesis
    proof (cases "block_exit s")
      case True
      then obtain ty code where s: "s = OnBlockExitStatement ty code" by (cases s) auto
      show ?thesis
        using False Cons.IH [of t "(ty, code) # hs"]
        by (simp add: s statement_exec_def exs_block_exit OnBlockExitStatement_exec_def advance_on_block_exit_def
          run_bind_assoc split_beta)
    next
      case False
      note fr = framedD [OF exs_framed [OF False]]
      show ?thesis
      proof (cases "exs s t")
        case (Done r)
        obtain rc t1 where r: "r = (rc, t1)" by (cases r)
        show ?thesis
          using \<open>\<not> event t\<close> False Done r Cons.IH [of t1 hs] by (simp add: statement_exec_def fr popBlock_def)
      qed (use \<open>\<not> event t\<close> False in \<open>simp_all add: statement_exec_def fr\<close>)
    qed
  qed
qed (simp add: popBlock_def)

lemma scope_no_handlers:
  "on_block_exit_list ss = [] \<Longrightarrow>
   scope q ex exs ss t = run_bind (exec_statements exs ss t) (\<lambda>(rc, t). Done (rc, start_handling t))"
proof (induction ss arbitrary: t)
  case (Cons s ss)
  then have s: "\<not> block_exit s" by (cases s) simp_all
  show ?case
  proof (cases "event t")
    case False
    show ?thesis
    proof (cases "exs s t")
      case (Done r)
      then show ?thesis using s False Cons by (cases r) (simp add: statement_exec_def)
    qed (use s False in \<open>simp_all add: statement_exec_def\<close>)
  qed (use s in \<open>simp add: statement_exec_def exec_statements_event\<close>)
qed simp

lemma execIntern_scope: "execIntern q ex exs ss t = scope_block q ex exs ss t"
proof (cases "on_block_exit_list ss = []")
  case True
  have "scope q ex exs ss t = run_bind (if \<not> event t then exec_statements exs ss t else Done (0, t)) (\<lambda>(rc, t). Done (rc, start_handling t))"
    by (simp add: scope_no_handlers [OF True] exec_statements_event)
  then show ?thesis
    using True
    by (simp add: execIntern_def scope_block_def run_bind_assoc split_beta end_handling_def start_handling_def Let_def)
next
  case False
  have sim: "run_bind (exec_statements exs ss (pushBlock (length (on_block_exit_list ss)) t)) (\<lambda>(rc, t2).
      run_bind (popBlock t2) (\<lambda>(i, t3).
        run_bind (run_handlers q ex (drop i (on_block_exit_list ss)) (start_handling t3)) (\<lambda>st. Done (rc, st)))) =
      scope q ex exs ss t"
    using scope_simulation [of ss "t_obl t" t q "[]"] by (simp add: pushBlock_def set_obl_def split_beta)
  have "scope_block q ex exs ss t = run_bind (exec_statements exs ss (pushBlock (length (on_block_exit_list ss)) t)) (\<lambda>(rc, t2).
      run_bind (popBlock t2) (\<lambda>(i, t3).
        run_bind (run_handlers q ex (drop i (on_block_exit_list ss)) (start_handling t3)) (\<lambda>st. Done (end_handling rc st))))"
    by (simp add: scope_block_def run_bind_assoc case_prod_unfold flip: sim)
  then show ?thesis
    using False by (simp add: execIntern_def Let_def exec_statements_event pushBlock_def event_def)
qed

lemma scope_set_obl:
  "scope q ex exs ss (set_obl l t) = run_bind (scope q ex exs ss t) (\<lambda>(rc, st). Done (rc, set_obl_handling l st))"
proof (induction ss arbitrary: t)
  case (Cons s ss)
  show ?case
  proof (cases "block_exit s")
    case True
    then obtain ty code where s: "s = OnBlockExitStatement ty code" by (cases s) auto
    show ?thesis
      by (simp add: s Cons.IH run_bind_assoc split_beta start_handling_set_obl
        framed_handlingD [OF handler_step_framed])
  next
    case False
    show ?thesis
    proof (cases "exs s t")
      case (Done r)
      then show ?thesis
        using False Cons.IH by (cases r) (simp add: framedD [OF exs_framed [OF False]] start_handling_set_obl)
    qed (use False in \<open>simp_all add: framedD [OF exs_framed [OF False]] start_handling_set_obl\<close>)
  qed
qed (simp add: start_handling_set_obl)

lemma execIntern_framed: "framed (execIntern q ex exs ss)"
  by (rule framedI)
    (simp add: execIntern_scope scope_block_def scope_set_obl run_bind_assoc split_beta end_handling_set_obl keep_obl_push)

end

section \<open>The interpreter is an instance\<close>

lemma simple_framed:
  "framed (ExpressionStatement_exec e)" "framed (ReturnStatement_exec q e2)" "framed (ThrowStatement_exec q args)"
  "framed (RethrowStatement_exec q args)" "framed ThreadExitStatement_exec"
  by (rule framedI; simp add: ExpressionStatement_exec_def ReturnStatement_exec_def ThrowStatement_exec_def
    RethrowStatement_exec_def ThreadExitStatement_exec_def Let_def split_beta split: option.splits list.splits)+

lemma framed_stmt: "(\<And>t. f t = g t) \<Longrightarrow> framed g \<Longrightarrow> framed f"
  by (simp add: framed_def)

lemma block_executor_exec:
  fixes q :: "('v, 's) system"
  shows "block_executor (exec_block q n :: ('v, 's, 'h) StatementBlock \<Rightarrow> _) (exec_stmt q n)"
proof (induction n)
  case 0
  show ?case
    by unfold_locales (auto simp: framed_def split: AbstractStatement.splits)
next
  case (Suc n)
  note blk = block_executor.axioms(1) [OF Suc]
  show ?case
  proof
    show "framed (exec_block q (Suc n) b)" for b :: "('v, 's, 'h) StatementBlock"
      by (rule framed_stmt [OF exec_block.simps(2)])
        (rule framed_with_lvars, rule block_executor.execIntern_framed [OF Suc])
    show "framed (exec_stmt q (Suc n) s)" if "\<not> block_exit s" for s :: "('v, 's, 'h) AbstractStatement"
      using that
      by (cases s; intro framedI; simp add: simple_framed [THEN framedD] executor.if_framed [OF blk, THEN framedD]
        executor.while_framed [OF blk, THEN framedD] executor.do_while_framed [OF blk, THEN framedD]
        executor.for_framed [OF blk, THEN framedD] executor.foreach_framed [OF blk, THEN framedD]
        block_executor.switch_framed [OF Suc, THEN framedD] executor.try_framed [OF blk, THEN framedD]
        executor.ex_framed [OF blk, THEN framedD])
    show "exec_stmt q (Suc n) (OnBlockExitStatement ty code) t = OnBlockExitStatement_exec t"
      for ty and code :: "('v, 's, 'h) StatementBlock option" and t by simp
  qed
qed

interpretation interp: block_executor "exec_block q n" "exec_stmt q n"
  by (rule block_executor_exec)

end
