(* ===== verification/Stmt_Fuel.thy ===== *)
theory Stmt_Fuel
  imports Stmt_Frame
begin

text \<open>
  Fuel: an execution that ends with some fuel ends in the same way with more, and code without open-ended loops always
  ends, with fuel that depends only on the nesting of its statements.  The step from one amount of fuel to a larger one is
  a locale over two executions of blocks, of which the second ends whenever the first does.
\<close>

section \<open>More fuel\<close>

definition le_run :: "'a run \<Rightarrow> 'a run \<Rightarrow> bool" where
  "le_run r r' \<longleftrightarrow> (r = NoFuel \<or> r = r')"

named_theorems run_mono "rules of the order of results"

lemma le_run_refl [run_mono]: "le_run r r"
  by (simp add: le_run_def)

lemma le_run_NoFuel: "le_run NoFuel r"
  by (simp add: le_run_def)

lemma le_run_bind [run_mono]: "le_run r r' \<Longrightarrow> (\<And>x. le_run (f x) (g x)) \<Longrightarrow> le_run (run_bind r f) (run_bind r' g)"
  unfolding le_run_def by (cases r; cases r') fastforce+

lemma le_run_if [run_mono]: "le_run a a' \<Longrightarrow> le_run b b' \<Longrightarrow> le_run (if c then a else b) (if c then a' else b')"
  by simp

lemma le_run_prod [run_mono]: "(\<And>x y. le_run (f x y) (g x y)) \<Longrightarrow> le_run (case p of (x, y) \<Rightarrow> f x y) (case p of (x, y) \<Rightarrow> g x y)"
  by (cases p) simp

lemma le_run_option [run_mono]:
  "le_run a a' \<Longrightarrow> (\<And>x. le_run (f x) (g x)) \<Longrightarrow> le_run (case m of None \<Rightarrow> a | Some x \<Rightarrow> f x) (case m of None \<Rightarrow> a' | Some x \<Rightarrow> g x)"
  by (cases m) simp_all

lemma le_run_list [run_mono]:
  "le_run a a' \<Longrightarrow> (\<And>x xs. le_run (f x xs) (g x xs)) \<Longrightarrow>
   le_run (case m of [] \<Rightarrow> a | x # xs \<Rightarrow> f x xs) (case m of [] \<Rightarrow> a' | x # xs \<Rightarrow> g x xs)"
  by (cases m) simp_all

lemma le_run_Let [run_mono]: "(\<And>x. le_run (f x) (g x)) \<Longrightarrow> le_run (let x = v in f x) (let x = v in g x)"
  by simp

lemma le_run_with_lvars [run_mono]: "(\<And>t. le_run (f t) (g t)) \<Longrightarrow> le_run (with_lvars vs f t) (with_lvars vs g t)"
  unfolding with_lvars_def by (intro run_mono)

lemma le_run_with_element [run_mono]: "(\<And>t. le_run (f t) (g t)) \<Longrightarrow> le_run (with_element q i f t) (with_element q i g t)"
  unfolding with_element_def by (intro run_mono)

lemma le_run_after_body [run_mono]: "(\<And>rc t. le_run (k rc t) (k' rc t)) \<Longrightarrow> le_run (after_body r k) (after_body r k')"
  unfolding after_body_def by (intro run_mono)

locale finer =
  fixes ex ex' :: "'b \<Rightarrow> ('v, 's) thread \<Rightarrow> ('v, 's) result"
  assumes ex_mono: "le_run (ex b t) (ex' b t)"
begin

lemma exec_code_mono: "le_run (exec_code ex code t) (exec_code ex' code t)"
  unfolding exec_code_def by (intro run_mono ex_mono)

lemma loop_body_mono:
  "(\<And>rc t. le_run (k rc t) (k' rc t)) \<Longrightarrow> le_run (loop_body ex code rc t k) (loop_body ex' code rc t k')"
  unfolding loop_body_def by (intro run_mono ex_mono)

lemma if_mono: "le_run (IfStatement_exec ex lvars cond c1 c2 t) (IfStatement_exec ex' lvars cond c1 c2 t)"
  unfolding IfStatement_exec_def by (intro run_mono exec_code_mono)

lemma while_mono:
  assumes "n \<le> m" shows "le_run (WhileStatement_exec ex n lvars cond code t) (WhileStatement_exec ex' m lvars cond code t)"
proof -
  have "le_run (while_loop ex cond code n rc t) (while_loop ex' cond code m rc t)" for rc t
    using assms
  proof (induction n arbitrary: m rc t)
    case (Suc n)
    then obtain m' where "m = Suc m'" "n \<le> m'" by (cases m) auto
    note IH = Suc.IH [OF this(2)]
    show ?case unfolding \<open>m = Suc m'\<close> while_loop.simps by (intro run_mono loop_body_mono IH)
  qed (simp add: le_run_NoFuel)
  then show ?thesis unfolding WhileStatement_exec_def by (intro run_mono)
qed

lemma do_while_mono:
  assumes "n \<le> m" shows "le_run (DoWhileStatement_exec ex n lvars cond code t) (DoWhileStatement_exec ex' m lvars cond code t)"
proof -
  have "le_run (do_while_loop ex cond code n rc t) (do_while_loop ex' cond code m rc t)" for rc t
    using assms
  proof (induction n arbitrary: m rc t)
    case (Suc n)
    then obtain m' where "m = Suc m'" "n \<le> m'" by (cases m) auto
    note IH = Suc.IH [OF this(2)]
    show ?case unfolding \<open>m = Suc m'\<close> do_while_loop.simps by (intro run_mono loop_body_mono IH)
  qed (simp add: le_run_NoFuel)
  then show ?thesis unfolding DoWhileStatement_exec_def by (intro run_mono)
qed

lemma for_mono:
  assumes "n \<le> m" shows "le_run (ForStatement_exec ex n lvars a c i code t) (ForStatement_exec ex' m lvars a c i code t)"
proof -
  have "le_run (for_loop ex c i code n rc t) (for_loop ex' c i code m rc t)" for rc t
    using assms
  proof (induction n arbitrary: m rc t)
    case (Suc n)
    then obtain m' where "m = Suc m'" "n \<le> m'" by (cases m) auto
    note IH = Suc.IH [OF this(2)]
    show ?case unfolding \<open>m = Suc m'\<close> for_loop.simps by (intro run_mono loop_body_mono IH)
  qed (simp add: le_run_NoFuel)
  then show ?thesis unfolding ForStatement_exec_def by (intro run_mono)
qed

lemma foreach_loop_mono:
  "n \<le> m \<Longrightarrow> le_run (foreach_loop q ex var nxt b n i h rc t) (foreach_loop q ex' var nxt b m i h rc t)"
proof (induction n arbitrary: m i h rc t)
  case (Suc n)
  then obtain m' where "m = Suc m'" "n \<le> m'" by (cases m) auto
  note IH = Suc.IH [OF this(2)]
  show ?case unfolding \<open>m = Suc m'\<close> foreach_loop.simps by (intro run_mono ex_mono IH)
qed (simp add: le_run_NoFuel)

lemma ref_loop_mono: "le_run (ref_loop q ex var rd b i vs ln rc t) (ref_loop q ex' var rd b i vs ln rc t)"
proof (induction vs arbitrary: i ln rc t)
  case (Cons v vs)
  have "le_run (ref_iteration ex rd b t) (ref_iteration ex' rd b t)" for t
    unfolding ref_iteration_def by (intro run_mono ex_mono)
  then show ?case using Cons.IH by (simp only: ref_loop.simps) (intro run_mono)
qed (simp add: le_run_refl)

lemma foreach_mono:
  "n \<le> m \<Longrightarrow> le_run (ForEachStatement_exec q ex n lvars var rd l code t) (ForEachStatement_exec q ex' m lvars var rd l code t)"
  unfolding ForEachStatement_exec_def execRef_def
  by (cases l; cases code) (auto intro!: run_mono foreach_loop_mono ref_loop_mono split: option.splits)

lemma try_mono: "le_run (TryStatement_exec ex tb cb param t) (TryStatement_exec ex' tb cb param t)"
  unfolding TryStatement_exec_def handle_exceptions_def catch_block_exec_def
  by (intro run_mono exec_code_mono ex_mono)

lemma handler_step_mono: "le_run (handler_step q ex h st) (handler_step q ex' h st)"
  unfolding handler_step_def run_error_handler_def run_handler_def
  by (intro run_mono ex_mono)

end

locale finer_blocks = finer ex ex'
  for ex ex' :: "('v, 's, 'h) StatementBlock \<Rightarrow> ('v, 's) thread \<Rightarrow> ('v, 's) result" +
  fixes exs exs' :: "('v, 's, 'h) AbstractStatement \<Rightarrow> ('v, 's) thread \<Rightarrow> ('v, 's) result"
  assumes exs_mono: "le_run (exs s t) (exs' s t)"
begin

lemma switch_mono: "le_run (SwitchStatement_exec q ex lvars sexp cases t) (SwitchStatement_exec q ex' lvars sexp cases t)"
proof -
  have "le_run (run_cases ex cs rc t) (run_cases ex' cs rc t)" for cs rc t
    by (induction cs arbitrary: rc t; simp only: run_cases.simps) (intro run_mono ex_mono | assumption)+
  then show ?thesis unfolding SwitchStatement_exec_def by (intro run_mono)
qed

lemma run_handlers_mono: "le_run (run_handlers q ex hs st) (run_handlers q ex' hs st)"
proof (induction hs arbitrary: st)
  case (Cons h hs)
  then show ?case by (simp only: run_handlers.simps) (intro run_mono handler_step_mono)
qed (simp add: le_run_refl)

lemma exec_statements_mono: "le_run (exec_statements exs ss t) (exec_statements exs' ss t)"
proof (induction ss arbitrary: t)
  case (Cons s ss)
  then show ?case by (simp only: exec_statements.simps statement_exec_def) (intro run_mono exs_mono)
qed (simp add: le_run_refl)

lemma execIntern_mono: "le_run (execIntern q ex exs ss t) (execIntern q ex' exs' ss t)"
  unfolding execIntern_def by (intro run_mono exec_statements_mono run_handlers_mono)

end

lemma exec_stmt_block_exit [simp]: "exec_stmt q n (OnBlockExitStatement ty code) t = OnBlockExitStatement_exec t"
  by (cases n) simp_all

lemma exec_stmt_zero: "le_run (exec_stmt q 0 s t) (exec_stmt q m s t)"
  by (cases s) (simp_all add: le_run_NoFuel le_run_refl)

lemma finer_blocks_exec:
  fixes q :: "('v, 's) system"
  shows "n \<le> m \<Longrightarrow> finer_blocks (exec_block q n :: ('v, 's, 'h) StatementBlock \<Rightarrow> _) (exec_block q m) (exec_stmt q n) (exec_stmt q m)"
proof (induction n arbitrary: m)
  case 0
  show ?case by unfold_locales (simp add: le_run_NoFuel, rule exec_stmt_zero)
next
  case (Suc n)
  then obtain m' where m: "m = Suc m'" "n \<le> m'" by (cases m) auto
  note IH = Suc.IH [OF m(2)]
  note fin = finer_blocks.axioms(1) [OF IH]
  show ?case
  proof
    show "le_run (exec_block q (Suc n) b t) (exec_block q m b t)" for b :: "('v, 's, 'h) StatementBlock" and t
      unfolding m(1) exec_block.simps(2) by (intro run_mono finer_blocks.execIntern_mono [OF IH])
    show "le_run (exec_stmt q (Suc n) s t) (exec_stmt q m s t)" for s :: "('v, 's, 'h) AbstractStatement" and t
      unfolding m(1)
      by (cases s) (simp_all add: run_mono finer.if_mono [OF fin] finer.while_mono [OF fin m(2)]
        finer.do_while_mono [OF fin m(2)] finer.for_mono [OF fin m(2)] finer.foreach_mono [OF fin m(2)]
        finer_blocks.switch_mono [OF IH] finer.try_mono [OF fin] finer.ex_mono [OF fin])
  qed
qed

interpretation more_fuel: finer_blocks "exec_block q n" "exec_block q (n + k)" "exec_stmt q n" "exec_stmt q (n + k)"
  by (rule finer_blocks_exec) simp

lemma exec_block_more_fuel:
  "exec_block q n b t \<noteq> NoFuel \<Longrightarrow> n \<le> m \<Longrightarrow> exec_block q m b t = exec_block q n b t"
  using more_fuel.ex_mono [of q n b t "m - n"] by (simp add: le_run_def)

section \<open>Code without open-ended loops\<close>

text \<open>The loops over a reference are bounded by the list; the others are not.\<close>

fun bounded_stmt :: "('v, 's, 'h) AbstractStatement \<Rightarrow> bool"
and bounded_block :: "('v, 's, 'h) StatementBlock \<Rightarrow> bool"
and bounded_case :: "('v, 's, 'h) CaseNode \<Rightarrow> bool" where
  "bounded_stmt (OnBlockExitStatement ty code) = (case code of None \<Rightarrow> True | Some b \<Rightarrow> bounded_block b)"
| "bounded_stmt (IfStatement lvars cond c1 c2) =
     ((case c1 of None \<Rightarrow> True | Some b \<Rightarrow> bounded_block b) \<and> (case c2 of None \<Rightarrow> True | Some b \<Rightarrow> bounded_block b))"
| "bounded_stmt (WhileStatement lvars cond code) = False"
| "bounded_stmt (DoWhileStatement lvars cond code) = False"
| "bounded_stmt (ForStatement lvars a cond it code) = False"
| "bounded_stmt (ForEachStatement lvars var rd l code) =
     ((case l of ParseReference _ _ _ \<Rightarrow> True | FunctionalIterator _ _ \<Rightarrow> False) \<and>
      (case code of None \<Rightarrow> True | Some b \<Rightarrow> bounded_block b))"
| "bounded_stmt (SwitchStatement lvars sexp cases) = list_all bounded_case cases"
| "bounded_stmt (TryStatement tb cb param) =
     ((case tb of None \<Rightarrow> True | Some b \<Rightarrow> bounded_block b) \<and> (case cb of None \<Rightarrow> True | Some b \<Rightarrow> bounded_block b))"
| "bounded_stmt (NestedBlock b) = bounded_block b"
| "bounded_stmt s = True"
| "bounded_block (StatementBlock lvars ss) = list_all bounded_stmt ss"
| "bounded_case (CaseNode l code) = (case code of None \<Rightarrow> True | Some b \<Rightarrow> bounded_block b)"

fun stmt_depth :: "('v, 's, 'h) AbstractStatement \<Rightarrow> nat"
and block_depth :: "('v, 's, 'h) StatementBlock \<Rightarrow> nat"
and case_depth :: "('v, 's, 'h) CaseNode \<Rightarrow> nat" where
  "stmt_depth (OnBlockExitStatement ty code) = Suc (case code of None \<Rightarrow> 0 | Some b \<Rightarrow> block_depth b)"
| "stmt_depth (IfStatement lvars cond c1 c2) =
     Suc (max (case c1 of None \<Rightarrow> 0 | Some b \<Rightarrow> block_depth b) (case c2 of None \<Rightarrow> 0 | Some b \<Rightarrow> block_depth b))"
| "stmt_depth (WhileStatement lvars cond code) = Suc (case code of None \<Rightarrow> 0 | Some b \<Rightarrow> block_depth b)"
| "stmt_depth (DoWhileStatement lvars cond code) = Suc (case code of None \<Rightarrow> 0 | Some b \<Rightarrow> block_depth b)"
| "stmt_depth (ForStatement lvars a cond it code) = Suc (case code of None \<Rightarrow> 0 | Some b \<Rightarrow> block_depth b)"
| "stmt_depth (ForEachStatement lvars var rd l code) = Suc (case code of None \<Rightarrow> 0 | Some b \<Rightarrow> block_depth b)"
| "stmt_depth (SwitchStatement lvars sexp cases) = Suc (foldr max (map case_depth cases) 0)"
| "stmt_depth (TryStatement tb cb param) =
     Suc (max (case tb of None \<Rightarrow> 0 | Some b \<Rightarrow> block_depth b) (case cb of None \<Rightarrow> 0 | Some b \<Rightarrow> block_depth b))"
| "stmt_depth (NestedBlock b) = Suc (block_depth b)"
| "stmt_depth s = 1"
| "block_depth (StatementBlock lvars ss) = Suc (foldr max (map stmt_depth ss) 0)"
| "case_depth (CaseNode l code) = (case code of None \<Rightarrow> 0 | Some b \<Rightarrow> block_depth b)"

lemma foldr_max_le: "foldr max (map f xs) (0::nat) \<le> n \<longleftrightarrow> (\<forall>x \<in> set xs. f x \<le> n)"
  by (induction xs) auto

lemma with_lvars_ends: "(\<And>t. f t \<noteq> NoFuel) \<Longrightarrow> with_lvars vs f t \<noteq> NoFuel"
  by (simp add: with_lvars_def run_bind_eq_NoFuel split_beta)

lemma with_element_ends: "(\<And>t. f t \<noteq> NoFuel) \<Longrightarrow> with_element q i f t \<noteq> NoFuel"
  by (simp add: with_element_def run_bind_eq_NoFuel split_beta)

lemma exec_code_ends: "(\<And>b t. code = Some b \<Longrightarrow> ex b t \<noteq> NoFuel) \<Longrightarrow> exec_code ex code t \<noteq> NoFuel"
  by (simp add: exec_code_def split: option.splits)

lemma ref_loop_ends:
  assumes ex: "\<And>t. ex b t \<noteq> NoFuel"
  shows "ref_loop q ex var rd b i vs ln rc t \<noteq> NoFuel"
proof (induction vs arbitrary: i ln rc t)
  case (Cons v vs)
  have "ref_iteration ex rd b t \<noteq> NoFuel" for t
    using ex by (simp add: ref_iteration_def run_bind_eq_NoFuel split_beta Let_def)
  then show ?case
    using with_element_ends [of "ref_iteration ex rd b" q i] Cons.IH
    by (auto simp: Let_def split_beta run_bind_eq_NoFuel split: option.splits if_splits)
qed simp

lemma execRef_ends:
  "(\<And>b t. code = Some b \<Longrightarrow> ex b t \<noteq> NoFuel) \<Longrightarrow> execRef q ex var rd r e a code t \<noteq> NoFuel"
  by (auto simp: execRef_def Let_def split_beta run_bind_eq_NoFuel ref_loop_ends split: option.splits if_splits)

lemma run_cases_ends:
  "(\<And>c b t. c \<in> set cs \<Longrightarrow> case_code c = Some b \<Longrightarrow> ex b t \<noteq> NoFuel) \<Longrightarrow> run_cases ex cs rc t \<noteq> NoFuel"
proof (induction cs arbitrary: rc t)
  case (Cons c cs)
  have "(case case_code c of None \<Rightarrow> Done (rc, t) | Some b \<Rightarrow> ex b t) \<noteq> NoFuel"
    using Cons.prems [of c] by (auto split: option.splits)
  moreover have "run_cases ex cs rc t \<noteq> NoFuel" for rc t by (rule Cons.IH) (meson Cons.prems list.set_intros(2))
  ultimately show ?case by (simp add: run_bind_eq_NoFuel split_beta)
qed simp

lemma find_case_set: "set (fst (find_case q v cs t)) \<subseteq> set cs"
  by (induction cs arbitrary: t) (auto simp: Let_def split_beta split: if_splits)

lemma deflt_set: "set (deflt cs) \<subseteq> set cs"
  by (induction cs) (auto split: list.splits case_label.splits)

lemma switch_ends:
  assumes "\<And>c b t. c \<in> set cases \<Longrightarrow> case_code c = Some b \<Longrightarrow> ex b t \<noteq> NoFuel"
  shows "SwitchStatement_exec q ex lvars sexp cases t \<noteq> NoFuel"
proof -
  have "run_cases ex (case fst (find_case q v cases t1) of [] \<Rightarrow> deflt cases | x # xs \<Rightarrow> fst (find_case q v cases t1)) 0 t2 \<noteq> NoFuel"
    for v t1 t2
  proof (rule run_cases_ends)
    fix c b t assume "c \<in> set (case fst (find_case q v cases t1) of [] \<Rightarrow> deflt cases | x # xs \<Rightarrow> fst (find_case q v cases t1))"
    then have "c \<in> set cases" using find_case_set [of q v cases t1] deflt_set [of cases] by (auto split: list.splits)
    moreover assume "case_code c = Some b"
    ultimately show "ex b t \<noteq> NoFuel" by (rule assms)
  qed
  then show ?thesis
    unfolding SwitchStatement_exec_def by (intro with_lvars_ends) (simp add: Let_def split_beta run_bind_eq_NoFuel)
qed

lemma try_ends:
  assumes tb: "\<And>b t. tb = Some b \<Longrightarrow> ex b t \<noteq> NoFuel" and cb: "\<And>b t. cb = Some b \<Longrightarrow> ex b t \<noteq> NoFuel"
  shows "TryStatement_exec ex tb cb param t \<noteq> NoFuel"
proof -
  have "handle_exceptions ex cb param rc t \<noteq> NoFuel" for rc t
    using cb by (auto simp: handle_exceptions_def catch_block_exec_def Let_def split_beta run_bind_eq_NoFuel
      split: list.splits option.splits)
  then show ?thesis
    using exec_code_ends [of tb ex, OF tb] by (simp add: TryStatement_exec_def run_bind_eq_NoFuel split_beta)
qed

lemma run_handlers_ends:
  "(\<And>ty b t. (ty, Some b) \<in> set hs \<Longrightarrow> ex b t \<noteq> NoFuel) \<Longrightarrow> run_handlers q ex hs st \<noteq> NoFuel"
proof (induction hs arbitrary: st)
  case (Cons h hs)
  have "handler_step q ex h st \<noteq> NoFuel" for st
    using Cons.prems
    by (cases h) (auto simp: handler_step_def run_handler_def run_error_handler_def run_bind_eq_NoFuel Let_def split_beta
      split: option.splits list.splits prod.splits if_splits)
  moreover have "run_handlers q ex hs st \<noteq> NoFuel" for st by (rule Cons.IH) (meson Cons.prems list.set_intros(2))
  ultimately show ?case by (simp add: run_bind_eq_NoFuel)
qed simp

lemma on_block_exit_list_mem: "(ty, code) \<in> set (on_block_exit_list ss) \<Longrightarrow> OnBlockExitStatement ty code \<in> set ss"
proof (induction ss)
  case (Cons s ss)
  then show ?case by (cases s) auto
qed simp

lemma execIntern_ends:
  assumes s: "\<And>s t. s \<in> set ss \<Longrightarrow> exs s t \<noteq> NoFuel"
    and h: "\<And>ty b t. OnBlockExitStatement ty (Some b) \<in> set ss \<Longrightarrow> ex b t \<noteq> NoFuel"
  shows "execIntern q ex exs ss t \<noteq> NoFuel"
proof -
  have "exec_statements exs ss' t \<noteq> NoFuel" if "set ss' \<subseteq> set ss" for ss' t
    using that by (induction ss' arbitrary: t) (auto simp: run_bind_eq_NoFuel statement_exec_def s split: if_splits)
  moreover have "run_handlers q ex (drop i (on_block_exit_list ss)) st \<noteq> NoFuel" for i st
    by (rule run_handlers_ends) (meson h in_set_dropD on_block_exit_list_mem)
  ultimately show ?thesis
    by (auto simp: execIntern_def Let_def run_bind_eq_NoFuel popBlock_def split: list.splits prod.splits if_splits)
qed

lemma bounded_ends:
  fixes b :: "('v, 's, 'h) StatementBlock" and s :: "('v, 's, 'h) AbstractStatement"
  shows "bounded_block b \<Longrightarrow> block_depth b \<le> n \<Longrightarrow> exec_block q n b t \<noteq> NoFuel"
    and "bounded_stmt s \<Longrightarrow> stmt_depth s \<le> n \<Longrightarrow> exec_stmt q n s t \<noteq> NoFuel"
proof (induction n arbitrary: b s t)
  case 0
  { case 1 then show ?case by (cases b) simp }
  { case 2 then show ?case by (cases s) simp_all }
next
  case (Suc n)
  { case 1
    obtain lvars ss where b: "b = StatementBlock lvars ss" by (cases b)
    have "execIntern q (exec_block q n) (exec_stmt q n) ss t \<noteq> NoFuel" for t
    proof (rule execIntern_ends)
      fix s t assume "s \<in> set ss"
      then show "exec_stmt q n s t \<noteq> NoFuel"
        using 1 Suc.IH(2) by (simp add: b foldr_max_le list_all_iff)
    next
      fix ty c t assume "OnBlockExitStatement ty (Some c) \<in> set ss"
      then show "exec_block q n c t \<noteq> NoFuel"
        using 1 Suc.IH(1) [of c t] by (fastforce simp: b foldr_max_le list_all_iff)
    qed
    then show ?case by (simp add: b with_lvars_ends) }
  { case 2
    have blk: "exec_block q n b t \<noteq> NoFuel" if "bounded_block b" "block_depth b \<le> n" for b :: "('v, 's, 'h) StatementBlock" and t
      using Suc.IH(1) that .
    show ?case
    proof (cases s)
      case (SwitchStatement lvars sexp cases)
      have "exec_block q n b t \<noteq> NoFuel" if mem: "c \<in> set cases" and code: "case_code c = Some b" for c b t
      proof -
        obtain l where c: "c = CaseNode l (Some b)" using code by (cases c) auto
        have "bounded_case c" "case_depth c \<le> n" using mem 2 SwitchStatement by (auto simp: foldr_max_le list_all_iff)
        then show ?thesis using c by (intro blk) simp_all
      qed
      then show ?thesis using SwitchStatement by (simp add: switch_ends)
    next
      case (IfStatement lvars cond c1 c2)
      then show ?thesis
        using 2 blk
        by (auto simp: IfStatement_exec_def exec_code_def Let_def split_beta intro!: with_lvars_ends
          split: if_splits option.splits)
    next
      case (ForEachStatement lvars var rd l code)
      then show ?thesis
        using 2 blk by (auto simp: ForEachStatement_exec_def intro!: with_lvars_ends execRef_ends split: foreach_list.splits)
    next
      case (TryStatement tb cb param)
      have "TryStatement_exec (exec_block q n) tb cb param t \<noteq> NoFuel"
        by (rule try_ends) (use 2 TryStatement blk in auto)
      then show ?thesis using TryStatement by simp
    next
      case (OnBlockExitStatement ty code)
      then show ?thesis
        by (simp add: OnBlockExitStatement_exec_def advance_on_block_exit_def split: list.splits nat.splits)
    next
      case (NestedBlock b)
      then show ?thesis using 2 by (simp add: blk)
    qed (use 2 in \<open>simp_all add: ExpressionStatement_exec_def ReturnStatement_exec_def ThrowStatement_exec_def
      RethrowStatement_exec_def ThreadExitStatement_exec_def Let_def split_beta split: option.splits list.splits\<close>) }
qed

end
