(* ===== verification/Stmt_Parse.thy ===== *)
theory Stmt_Parse
  imports Stmt_Fuel
begin

text \<open>
  The checks made when code is parsed (\<^verbatim>\<open>parseInitImpl\<close> of the statement classes): where break, continue
  and rethrow are allowed, and the labels of a switch.  The flags of the parse context that matter for it are three
  booleans.  The result is the list of the exceptions raised.  Then what the checks give at run time: the return
  codes that leave a block, and that rethrow finds an exception.
\<close>

section \<open>The checks\<close>

record pflags =
  pf_break :: bool
  pf_continue :: bool
  pf_rethrow :: bool

definition no_flags :: pflags where
  "no_flags = \<lparr> pf_break = False, pf_continue = False, pf_rethrow = False \<rparr>"

fun is_default :: "('v, 's, 'h) CaseNode \<Rightarrow> bool" where
  "is_default (CaseNode CaseDefault code) = True"
| "is_default c = False"

text \<open>\<^verbatim>\<open>addCase\<close>: every default after the first is an error.\<close>

fun addCase_errors :: "bool \<Rightarrow> ('v, 's, 'h) CaseNode list \<Rightarrow> string list" where
  "addCase_errors seen [] = []"
| "addCase_errors seen (c # cs) =
     (if is_default c \<and> seen then [''PARSE-EXCEPTION''] else []) @ addCase_errors (seen \<or> is_default c) cs"

fun same_value :: "('v, 's) system \<Rightarrow> ('v, 's, 'h) CaseNode \<Rightarrow> ('v, 's, 'h) CaseNode \<Rightarrow> bool" where
  "same_value q (CaseNode (CaseValue v) code) (CaseNode (CaseValue w) code') = q_equal q v w"
| "same_value q c c' = False"

text \<open>One error for each earlier label with an equal value.\<close>

fun duplicate_errors :: "('v, 's) system \<Rightarrow> ('v, 's, 'h) CaseNode list \<Rightarrow> ('v, 's, 'h) CaseNode list \<Rightarrow> string list" where
  "duplicate_errors q earlier [] = []"
| "duplicate_errors q earlier (c # cs) =
     map (\<lambda>_. ''PARSE-EXCEPTION'') (filter (same_value q c) earlier) @ duplicate_errors q (earlier @ [c]) cs"

text \<open>What the statement classes check themselves, and the flags for the code they contain.\<close>

definition break_errors :: "bool \<Rightarrow> pflags \<Rightarrow> string list" where [simp]:
  "break_errors broken_loop f = (if \<not> pf_break f \<and> \<not> broken_loop then [''BREAK-NOT-ALLOWED''] else [])"

definition continue_errors :: "bool \<Rightarrow> pflags \<Rightarrow> string list" where [simp]:
  "continue_errors broken_loop f = (if \<not> pf_continue f \<and> \<not> broken_loop then [''CONTINUE-NOT-ALLOWED''] else [])"

definition rethrow_errors :: "pflags \<Rightarrow> string list" where [simp]:
  "rethrow_errors f = (if \<not> pf_rethrow f then [''RETHROW-NOT-IN-CATCH-BLOCK''] else [])"

definition loop_flags :: "pflags \<Rightarrow> pflags" where [simp]:
  "loop_flags f = f\<lparr>pf_break := True, pf_continue := True\<rparr>"

definition handler_flags :: "obe_type_e \<Rightarrow> pflags \<Rightarrow> pflags" where [simp]:
  "handler_flags ty f = f\<lparr>pf_break := False, pf_continue := False, pf_rethrow := pf_rethrow f \<or> ty = OBE_Error\<rparr>"

definition case_flags :: "pflags \<Rightarrow> pflags" where [simp]:
  "case_flags f = f\<lparr>pf_break := True\<rparr>"

definition catch_flags :: "pflags \<Rightarrow> pflags" where [simp]:
  "catch_flags f = f\<lparr>pf_rethrow := True\<rparr>"

fun parse_stmt :: "('v, 's) system \<Rightarrow> pflags \<Rightarrow> ('v, 's, 'h) AbstractStatement \<Rightarrow> string list"
and parse_block :: "('v, 's) system \<Rightarrow> pflags \<Rightarrow> ('v, 's, 'h) StatementBlock \<Rightarrow> string list"
and parse_case :: "('v, 's) system \<Rightarrow> pflags \<Rightarrow> ('v, 's, 'h) CaseNode \<Rightarrow> string list" where
  "parse_stmt q f BreakStatement = break_errors (q_broken_loop q) f"
| "parse_stmt q f ContinueStatement = continue_errors (q_broken_loop q) f"
| "parse_stmt q f (RethrowStatement args) = rethrow_errors f"
| "parse_stmt q f (OnBlockExitStatement ty code) =
     (case code of
        None \<Rightarrow> []
      | Some b \<Rightarrow> parse_block q (handler_flags ty f) b)"
| "parse_stmt q f (IfStatement lvars cond c1 c2) =
     (case c1 of None \<Rightarrow> [] | Some b \<Rightarrow> parse_block q f b) @ (case c2 of None \<Rightarrow> [] | Some b \<Rightarrow> parse_block q f b)"
| "parse_stmt q f (WhileStatement lvars cond code) =
     (case code of None \<Rightarrow> [] | Some b \<Rightarrow> parse_block q (loop_flags f) b)"
| "parse_stmt q f (DoWhileStatement lvars cond code) =
     (case code of None \<Rightarrow> [] | Some b \<Rightarrow> parse_block q (loop_flags f) b)"
| "parse_stmt q f (ForStatement lvars a cond it code) =
     (case code of None \<Rightarrow> [] | Some b \<Rightarrow> parse_block q (loop_flags f) b)"
| "parse_stmt q f (ForEachStatement lvars var rd l code) =
     (case code of None \<Rightarrow> [] | Some b \<Rightarrow> parse_block q (loop_flags f) b)"
| "parse_stmt q f (SwitchStatement lvars sexp cases) =
     addCase_errors False cases @ duplicate_errors q [] cases @ concat (map (parse_case q (case_flags f)) cases)"
| "parse_stmt q f (TryStatement tb cb param) =
     (case tb of None \<Rightarrow> [] | Some b \<Rightarrow> parse_block q f b) @
     (case cb of None \<Rightarrow> [] | Some b \<Rightarrow> parse_block q (catch_flags f) b)"
| "parse_stmt q f (NestedBlock b) = parse_block q f b"
| "parse_stmt q f s = []"
| "parse_block q f (StatementBlock lvars ss) = concat (map (parse_stmt q f) ss)"
| "parse_case q f (CaseNode l code) = (case code of None \<Rightarrow> [] | Some b \<Rightarrow> parse_block q f b)"

section \<open>Good executions\<close>

text \<open>The return codes the flags allow.\<close>

definition codes :: "pflags \<Rightarrow> int set" where
  "codes f = {0, RC_RETURN} \<union> (if pf_break f then {RC_BREAK} else {}) \<union> (if pf_continue f then {RC_CONTINUE} else {})"

text \<open>The length of the chain of the exception to rethrow, if there is one.\<close>

definition caught :: "nat option \<Rightarrow> ('v, 's) thread \<Rightarrow> bool" where
  "caught c t \<longleftrightarrow> map_option length (t_catch t) = c"

text \<open>
  A result is good when its return code is among those allowed and there is still an exception to rethrow if there was one
  before.  Following a null pointer is good only when \<open>u\<close> permits it.
\<close>

definition good :: "bool \<Rightarrow> nat option \<Rightarrow> 'a set \<Rightarrow> ('a \<times> ('v, 's) thread) run \<Rightarrow> bool" where
  "good u c A r = (case r of NoFuel \<Rightarrow> True | Undef \<Rightarrow> u | Done (a, t) \<Rightarrow> a \<in> A \<and> caught c t)"

lemma good_simps [simp]:
  "good u c A NoFuel" "good u c A Undef = u" "good u c A (Done (a, t)) = (a \<in> A \<and> caught c t)"
  by (simp_all add: good_def)

lemma good_bind:
  "good u c A r \<Longrightarrow> (\<And>a t. a \<in> A \<Longrightarrow> caught c t \<Longrightarrow> good u c B (f (a, t))) \<Longrightarrow> good u c B (run_bind r f)"
  by (cases r) auto

lemma good_bind_any:
  "good u c' A r \<Longrightarrow> (\<And>a t. a \<in> A \<Longrightarrow> good u c B (f (a, t))) \<Longrightarrow> good u c B (run_bind r f)"
  by (cases r) auto

lemma good_mono: "good u c A r \<Longrightarrow> A \<subseteq> B \<Longrightarrow> good u c B r"
  by (cases r) auto

lemma caught_upd [simp]:
  "caught c (t\<lparr>t_env := s\<rparr>) = caught c t" "caught c (t\<lparr>t_xs := xs\<rparr>) = caught c t"
  "caught c (t\<lparr>t_rv := v\<rparr>) = caught c t" "caught c (t\<lparr>t_obl := l\<rparr>) = caught c t"
  "caught c (t\<lparr>t_catch := cx\<rparr>) = (map_option length cx = c)"
  "caught c (snd (ev e t)) = caught c t" "caught c (lv_in vs t) = caught c t" "caught c (lv_out vs t) = caught c t"
  by (simp_all add: caught_def)

lemma caught_ev_opt [simp]: "caught c (snd (ev_opt a e t)) = caught c t"
  by (simp add: ev_opt_def split: option.splits)

lemma good_with_lvars: "(\<And>t. caught c t \<Longrightarrow> good u c A (f t)) \<Longrightarrow> caught c t \<Longrightarrow> good u c A (with_lvars vs f t)"
  unfolding with_lvars_def by (rule good_bind) auto

lemma good_with_element:
  "(\<And>t. caught c t \<Longrightarrow> good u c A (f t)) \<Longrightarrow> caught c t \<Longrightarrow> good u c A (with_element q i f t)"
  unfolding with_element_def Let_def split_beta by (rule good_bind) auto

text \<open>The laws of the execution of the blocks in a piece of code: those in \<open>S\<close> give good results.\<close>

locale good_executor =
  fixes ex :: "'b \<Rightarrow> ('v, 's) thread \<Rightarrow> ('v, 's) result" and S :: "'b set" and u :: bool and c :: "nat option" and A :: "int set"
  assumes ex_good: "b \<in> S \<Longrightarrow> caught c t \<Longrightarrow> good u c A (ex b t)"
begin

lemma exec_code_good: "set_option code \<subseteq> S \<Longrightarrow> 0 \<in> A \<Longrightarrow> caught c t \<Longrightarrow> good u c A (exec_code ex code t)"
  by (cases code) (auto simp: exec_code_def intro: ex_good)

lemma if_good:
  assumes "set_option c1 \<subseteq> S" "set_option c2 \<subseteq> S" "0 \<in> A" "caught c t"
  shows "good u c A (IfStatement_exec ex lvars cond c1 c2 t)"
  unfolding IfStatement_exec_def Let_def split_beta
  by (rule good_with_lvars) (use assms in \<open>auto intro!: exec_code_good\<close>)

lemma loop_body_good:
  assumes "A \<subseteq> {0, RC_RETURN, RC_BREAK, RC_CONTINUE}" "set_option code \<subseteq> S" "caught c t"
    and k: "\<And>t. caught c t \<Longrightarrow> good u c {0, RC_RETURN} (k 0 t)"
  shows "good u c {0, RC_RETURN} (loop_body ex code 0 t k)"
proof (cases code)
  case (Some b)
  have "good u c {0, RC_RETURN} (after_body (rc, t) k)" if "rc \<in> A" "caught c t" for rc t
    using that assms(1) k by (auto simp: after_body_def)
  then show ?thesis using Some assms by (auto simp: loop_body_def intro!: good_bind [OF ex_good])
qed (use assms in \<open>simp add: loop_body_def\<close>)

lemma while_good:
  assumes "A \<subseteq> {0, RC_RETURN, RC_BREAK, RC_CONTINUE}" "set_option code \<subseteq> S" "caught c t"
  shows "good u c {0, RC_RETURN} (WhileStatement_exec ex n lvars cond code t)"
proof -
  have "caught c t \<Longrightarrow> good u c {0, RC_RETURN} (while_loop ex cond code n 0 t)" for t
    by (induction n arbitrary: t) (auto simp: Let_def split_beta intro!: loop_body_good assms)
  then show ?thesis unfolding WhileStatement_exec_def using assms(3) by (rule good_with_lvars)
qed

lemma do_while_good:
  assumes "A \<subseteq> {0, RC_RETURN, RC_BREAK, RC_CONTINUE}" "set_option code \<subseteq> S" "caught c t"
  shows "good u c {0, RC_RETURN} (DoWhileStatement_exec ex n lvars cond code t)"
proof -
  have "caught c t \<Longrightarrow> good u c {0, RC_RETURN} (do_while_loop ex cond code n 0 t)" for t
    by (induction n arbitrary: t) (auto simp: Let_def split_beta intro!: loop_body_good assms)
  then show ?thesis unfolding DoWhileStatement_exec_def using assms(3) by (rule good_with_lvars)
qed

lemma for_good:
  assumes "A \<subseteq> {0, RC_RETURN, RC_BREAK, RC_CONTINUE}" "set_option code \<subseteq> S" "caught c t"
  shows "good u c {0, RC_RETURN} (ForStatement_exec ex n lvars a cond it code t)"
proof -
  have "caught c t \<Longrightarrow> good u c {0, RC_RETURN} (for_loop ex cond it code n 0 t)" for t
    by (induction n arbitrary: t) (auto simp: Let_def split_beta intro!: loop_body_good assms)
  then show ?thesis
    unfolding ForStatement_exec_def Let_def split_beta
    by (intro good_with_lvars) (use assms(3) in auto)
qed

lemma foreach_loop_good:
  assumes "A \<subseteq> {0, RC_RETURN, RC_BREAK, RC_CONTINUE}" "b \<in> S"
  shows "caught c t \<Longrightarrow> good u c {0, RC_RETURN} (foreach_loop q ex var nxt b n i h 0 t)"
proof (induction n arbitrary: i h t)
  case (Suc n)
  have "good u c {0, RC_RETURN} (after_body (rc, t) (foreach_loop q ex var nxt b n (i + 1) h))"
    if "rc \<in> A" "caught c t" for rc h t
    using that assms(1) Suc.IH by (auto simp: after_body_def)
  then show ?case
    using Suc.prems assms(2)
    by (auto simp: Let_def split_beta intro!: good_bind [OF good_with_element [OF ex_good]] split: option.splits)
qed simp

lemma ref_loop_good:
  assumes "A \<subseteq> {0, RC_RETURN, RC_BREAK, RC_CONTINUE}" "b \<in> S"
  shows "caught c t \<Longrightarrow> good u c {r. \<forall>rc l. r = Some (rc, l) \<longrightarrow> rc \<in> {0, RC_RETURN}} (ref_loop q ex var rd b i vs ln 0 t)"
proof (induction vs arbitrary: i ln t)
  case (Cons v vs)
  have it: "good u c {r. \<forall>rc l. r = Some (rc, l) \<longrightarrow> rc \<in> A} (ref_iteration ex rd b t)" if "caught c t" for t
    unfolding ref_iteration_def using that assms(2)
    by (intro good_bind [OF ex_good]) (auto simp: Let_def split_beta)
  show ?case
    using Cons.prems
    by (auto simp: Let_def split_beta intro!: good_bind [OF good_with_element [OF it]] Cons.IH split: option.splits)
      (use assms(1) Cons.IH in \<open>auto\<close>)
qed simp

lemma foreach_good:
  assumes "A \<subseteq> {0, RC_RETURN, RC_BREAK, RC_CONTINUE}" "set_option code \<subseteq> S" "caught c t"
  shows "good u c {0, RC_RETURN} (ForEachStatement_exec q ex n lvars var rd l code t)"
proof -
  have "good u c {0, RC_RETURN} (execRef q ex var rd r e a code t)" if "caught c t" for r e a t
    using that assms(1,2)
    by (auto simp: execRef_def Let_def split_beta simp del: ref_loop.simps intro!: good_bind [OF ref_loop_good]
      split: option.splits)
  then show ?thesis
    unfolding ForEachStatement_exec_def
    by (intro good_with_lvars)
      (use assms in \<open>auto simp: Let_def split_beta intro!: foreach_loop_good split: foreach_list.splits option.splits\<close>)
qed

end

section \<open>Accepted code executes well\<close>

text \<open>An on-error statement is the last block-exit statement of its block: its handler is the first to run.\<close>

fun on_error_last :: "('v, 's, 'h) AbstractStatement list \<Rightarrow> bool" where
  "on_error_last [] = True"
| "on_error_last (OnBlockExitStatement OBE_Error code # ss) = (on_block_exit_list ss = [])"
| "on_error_last (s # ss) = on_error_last ss"

lemma on_error_last_none: "on_block_exit_list ss = [] \<Longrightarrow> on_error_last ss"
  by (induction ss rule: on_error_last.induct) auto

fun error_order_stmt :: "('v, 's, 'h) AbstractStatement \<Rightarrow> bool"
and error_order_block :: "('v, 's, 'h) StatementBlock \<Rightarrow> bool"
and error_order_case :: "('v, 's, 'h) CaseNode \<Rightarrow> bool" where
  "error_order_stmt (OnBlockExitStatement ty code) = (case code of None \<Rightarrow> True | Some b \<Rightarrow> error_order_block b)"
| "error_order_stmt (IfStatement lvars cond c1 c2) =
     ((case c1 of None \<Rightarrow> True | Some b \<Rightarrow> error_order_block b) \<and> (case c2 of None \<Rightarrow> True | Some b \<Rightarrow> error_order_block b))"
| "error_order_stmt (WhileStatement lvars cond code) = (case code of None \<Rightarrow> True | Some b \<Rightarrow> error_order_block b)"
| "error_order_stmt (DoWhileStatement lvars cond code) = (case code of None \<Rightarrow> True | Some b \<Rightarrow> error_order_block b)"
| "error_order_stmt (ForStatement lvars a cond it code) = (case code of None \<Rightarrow> True | Some b \<Rightarrow> error_order_block b)"
| "error_order_stmt (ForEachStatement lvars var rd l code) = (case code of None \<Rightarrow> True | Some b \<Rightarrow> error_order_block b)"
| "error_order_stmt (SwitchStatement lvars sexp cases) = list_all error_order_case cases"
| "error_order_stmt (TryStatement tb cb param) =
     ((case tb of None \<Rightarrow> True | Some b \<Rightarrow> error_order_block b) \<and> (case cb of None \<Rightarrow> True | Some b \<Rightarrow> error_order_block b))"
| "error_order_stmt (NestedBlock b) = error_order_block b"
| "error_order_stmt s = True"
| "error_order_block (StatementBlock lvars ss) = (on_error_last ss \<and> list_all error_order_stmt ss)"
| "error_order_case (CaseNode l code) = (case code of None \<Rightarrow> True | Some b \<Rightarrow> error_order_block b)"

text \<open>What is assumed of a piece of code: the checks pass with flags \<open>f\<close>, and if null pointers are excluded, its
  on-error statements come last and there is an exception to rethrow where the flags allow rethrow.\<close>

definition rethrow_ready :: "bool \<Rightarrow> nat option \<Rightarrow> pflags \<Rightarrow> bool" where
  "rethrow_ready u c f \<longleftrightarrow> u \<or> (pf_rethrow f \<longrightarrow> (\<exists>k. c = Some (Suc k)))"

definition good_blocks :: "('v, 's) system \<Rightarrow> bool \<Rightarrow> pflags \<Rightarrow> ('v, 's, 'h) StatementBlock set" where
  "good_blocks q u f = {b. parse_block q f b = [] \<and> (u \<or> error_order_block b)}"

definition good_exec :: "('v, 's) system \<Rightarrow> bool \<Rightarrow> (('v, 's, 'h) StatementBlock \<Rightarrow> ('v, 's) thread \<Rightarrow> ('v, 's) result) \<Rightarrow> bool" where
  "good_exec q u ex \<longleftrightarrow> (\<forall>f c. rethrow_ready u c f \<longrightarrow> good_executor ex (good_blocks q u f) u c (codes f))"

lemma good_execD: "good_exec q u ex \<Longrightarrow> rethrow_ready u c f \<Longrightarrow> good_executor ex (good_blocks q u f) u c (codes f)"
  by (simp add: good_exec_def)

lemma zero_codes [simp]: "0 \<in> codes f" "RC_RETURN \<in> codes f"
  by (simp_all add: codes_def)

lemma jump_codes: "RC_BREAK \<in> codes f = pf_break f" "RC_CONTINUE \<in> codes f = pf_continue f"
  by (auto simp: codes_def rc_defs)

lemma codes_loop: "codes f \<subseteq> {0, RC_RETURN, RC_BREAK, RC_CONTINUE}"
  by (auto simp: codes_def)

lemma codes_none: "codes (f\<lparr>pf_break := False, pf_continue := False, pf_rethrow := r\<rparr>) = {0, RC_RETURN}"
  by (simp add: codes_def)

lemma good_try:
  fixes q :: "('v, 's) system" and tb cb :: "('v, 's, 'h) StatementBlock option"
  assumes ex: "good_exec q u ex" and r: "rethrow_ready u c f" and t: "caught c t"
    and tb: "set_option tb \<subseteq> good_blocks q u f" and cb: "set_option cb \<subseteq> good_blocks q u (f\<lparr>pf_rethrow := True\<rparr>)"
  shows "good u c (codes f) (TryStatement_exec ex tb cb param t)"
proof -
  have catch: "good u c (codes f) (catch_block_exec ex b param (e # es) t)" if "cb = Some b" "caught c t" for b e es t
  proof -
    have body: "good u (Some (length (e # es))) (codes f) (ex b t1)" if "caught (Some (length (e # es))) t1" for t1
    proof -
      have "codes (f\<lparr>pf_rethrow := True\<rparr>) = codes f" by (simp add: codes_def)
      moreover have "rethrow_ready u (Some (length (e # es))) (f\<lparr>pf_rethrow := True\<rparr>)" by (simp add: rethrow_ready_def)
      ultimately show ?thesis
        using good_executor.ex_good [OF good_execD [OF ex], of _ "f\<lparr>pf_rethrow := True\<rparr>" b] that cb \<open>cb = Some b\<close> by simp
    qed
    show ?thesis
      unfolding catch_block_exec_def Let_def using \<open>caught c t\<close>
      by (cases param) (auto intro!: good_bind_any [OF body] simp: caught_def simp del: makeExceptionObject.simps)
  qed
  have "good u c (codes f) (handle_exceptions ex cb param rc t)" if "rc \<in> codes f" "caught c t" for rc t
    using that catch by (auto simp: handle_exceptions_def Let_def split_beta split: list.splits option.splits)
  then have "good u c (codes f) (run_bind (handle_exceptions ex cb param rc t1) (\<lambda>(rc, t2). Done (rc, t2\<lparr>t_rv := v t2\<rparr>)))"
    if "rc \<in> codes f" "caught c t1" for rc t1 and v :: "('v, 's) thread \<Rightarrow> 'v option"
    using that by (intro good_bind) auto
  then show ?thesis
    unfolding TryStatement_exec_def
    by (intro good_bind [OF good_executor.exec_code_good [OF good_execD [OF ex r] tb]]) (use t in auto)
qed

lemma good_switch:
  fixes q :: "('v, 's) system" and cases :: "('v, 's, 'h) CaseNode list"
  assumes ex: "good_exec q u ex" and r: "rethrow_ready u c f" and t: "caught c t" and nb: "\<not> q_broken_loop q"
    and cs: "\<forall>x \<in> set cases. set_option (case_code x) \<subseteq> good_blocks q u (f\<lparr>pf_break := True\<rparr>)"
  shows "good u c (codes f) (SwitchStatement_exec q ex lvars sexp cases t)"
proof -
  let ?f = "f\<lparr>pf_break := True\<rparr>"
  have "rethrow_ready u c ?f" using r by (simp add: rethrow_ready_def)
  note e = good_executor.ex_good [OF good_execD [OF ex this]]
  have run: "good u c (codes ?f) (run_cases ex xs rc t)" if "set xs \<subseteq> set cases" "rc \<in> codes ?f" "caught c t" for xs rc t
    using that
  proof (induction xs arbitrary: rc t)
    case (Cons x xs)
    have "good u c (codes ?f) (case case_code x of None \<Rightarrow> Done (rc, t) | Some b \<Rightarrow> ex b t)"
      using Cons.prems cs by (auto intro!: e split: option.splits)
    then show ?case using Cons by (auto intro!: good_bind)
  qed simp
  have m: "caught c (snd (matches q l v t)) = caught c t" for l v t
    by (simp add: matches_def split_beta split: case_label.splits)
  have fc: "caught c (snd (find_case q v xs t)) = caught c t" for v and xs :: "('v, 's, 'h) CaseNode list" and t
    by (induction xs arbitrary: t) (simp_all add: Let_def split_beta m)
  have sw: "good u c (codes ?f) (run_cases ex (case fst (find_case q v cases t1) of [] \<Rightarrow> deflt cases
      | y # ys \<Rightarrow> fst (find_case q v cases t1)) 0 (snd (find_case q v cases t1)))" if "caught c t1" for v t1
    using find_case_set [of q v cases t1] deflt_set [of cases] that
    by (intro run) (auto simp: fc split: list.splits)
  have rc: "rc \<in> codes f" if "rc \<in> codes ?f" "rc \<noteq> RC_BREAK" for rc
    using that by (auto simp: codes_def)
  show ?thesis
    unfolding SwitchStatement_exec_def Let_def split_beta
    by (intro good_with_lvars) (use t rc in \<open>auto intro!: good_bind [OF sw]\<close>)
qed

text \<open>The handlers: they return 0 or \<^const>\<open>RC_RETURN\<close>.\<close>

fun good_handling :: "bool \<Rightarrow> nat option \<Rightarrow> ('v, 's) handling run \<Rightarrow> bool" where
  "good_handling u c NoFuel = True"
| "good_handling u c Undef = u"
| "good_handling u c (Done (nrc, error, obe, t)) = (nrc \<in> {0, RC_RETURN} \<and> caught c t)"

lemma merge_handler_good:
  "nrc \<in> {0, RC_RETURN} \<Longrightarrow> caught c t \<Longrightarrow> good_handling u c (Done (merge_handler (nrc, obe, t) error))"
  by (auto simp: merge_handler_def split_beta)

lemma handler_step_good:
  fixes q :: "('v, 's) system" and code :: "('v, 's, 'h) StatementBlock option"
  assumes ex: "good_exec q u ex" and r: "rethrow_ready u c f"
    and code: "set_option code \<subseteq> good_blocks q u (f\<lparr>pf_break := False, pf_continue := False, pf_rethrow := pf_rethrow f \<or> ty = OBE_Error\<rparr>)"
    and st: "nrc \<in> {0, RC_RETURN}" "caught c t"
    and err: "u \<or> (ty = OBE_Error \<and> error \<longrightarrow> isException (t_xs t))"
  shows "good_handling u c (handler_step q ex (ty, code) (nrc, error, obe, t))"
proof (cases "selected ty error \<and> code \<noteq> None")
  case True
  then obtain b where b: "code = Some b" and sel: "selected ty error" by auto
  let ?f = "f\<lparr>pf_break := False, pf_continue := False, pf_rethrow := pf_rethrow f \<or> ty = OBE_Error\<rparr>"
  have run: "good u c' {0, RC_RETURN} (ex b t')" if "rethrow_ready u c' ?f" "caught c' t'" for c' t'
    using good_executor.ex_good [OF good_execD [OF ex that(1)]] that(2) code b codes_none by simp
  show ?thesis
  proof (cases "ty = OBE_Error")
    case True
    show ?thesis
    proof (cases "es_chain (t_xs t)")
      case Nil
      then have u using err sel True by (auto simp: selected_def isException_def)
      then show ?thesis using True b sel Nil by (simp add: handler_step_def run_error_handler_def)
    next
      case (Cons e es)
      let ?t = "t\<lparr>t_catch := Some (e # es), t_env := q_argv q (makeExceptionObject 0 (e # es)) (t_env t), t_xs := obe\<rparr>"
      have "good u (Some (length (e # es))) {0, RC_RETURN} (ex b ?t)"
        by (rule run) (simp_all add: rethrow_ready_def)
      then show ?thesis
        using True b sel Cons st(2)
        by (cases "ex b ?t") (auto simp: handler_step_def run_error_handler_def run_handler_def Let_def split_beta
          caught_def intro!: merge_handler_good [unfolded caught_def] simp del: makeExceptionObject.simps)
    qed
  next
    case False
    then have "rethrow_ready u c ?f" using r by (simp add: rethrow_ready_def)
    then have "good u c {0, RC_RETURN} (ex b (t\<lparr>t_xs := obe\<rparr>))" using st(2) by (intro run) simp_all
    then show ?thesis
      using False b sel
      by (cases "ex b (t\<lparr>t_xs := obe\<rparr>)") (auto simp: handler_step_def run_handler_def intro!: merge_handler_good)
  qed
qed (use st in \<open>auto simp: handler_step_def split: option.splits\<close>)

text \<open>The result of a scope: with no block-exit statement, whether there is an error is as the sink says.\<close>

fun good_scope :: "bool \<Rightarrow> nat option \<Rightarrow> int set \<Rightarrow> bool \<Rightarrow> (int \<times> ('v, 's) handling) run \<Rightarrow> bool" where
  "good_scope u c A plain NoFuel = True"
| "good_scope u c A plain Undef = u"
| "good_scope u c A plain (Done (rc, nrc, error, obe, t)) =
     (rc \<in> A \<and> nrc \<in> {0, RC_RETURN} \<and> caught c t \<and> (plain \<longrightarrow> error = isException (t_xs t)))"

lemma good_scope_start: "rc \<in> A \<Longrightarrow> caught c t \<Longrightarrow> good_scope u c A plain (Done (rc, start_handling t))"
  by (simp add: start_handling_def)

lemma scope_good:
  fixes q :: "('v, 's) system" and ss :: "('v, 's, 'h) AbstractStatement list"
  assumes ex: "good_exec q u ex" and r: "rethrow_ready u c f"
    and exs: "\<And>s t. s \<in> set ss \<Longrightarrow> \<not> block_exit s \<Longrightarrow> caught c t \<Longrightarrow> good u c (codes f) (exs s t)"
    and p: "\<And>s. s \<in> set ss \<Longrightarrow> parse_stmt q f s = [] \<and> (u \<or> error_order_stmt s)"
    and o: "u \<or> on_error_last ss" and t: "caught c t"
  shows "good_scope u c (codes f) (on_block_exit_list ss = []) (scope q ex exs ss t)"
  using exs p o t
proof (induction ss arbitrary: t)
  case (Cons s ss)
  have o': "u \<or> on_error_last ss"
    using Cons.prems(3) by (cases "(s # ss)" rule: on_error_last.cases) (auto simp: on_error_last_none)
  have IH: "caught c t \<Longrightarrow> good_scope u c (codes f) (on_block_exit_list ss = []) (scope q ex exs ss t)" for t
    using Cons.IH Cons.prems(1,2) o' by simp
  show ?case
  proof (cases "event t \<or> \<not> block_exit s")
    case True
    have "good u c (codes f) (exs s t)" if "\<not> event t" using True that Cons.prems by simp
    then show ?thesis
      using True Cons.prems(4) IH
      by (cases "exs s t") (auto simp: scope_event good_scope_start)
  next
    case False
    then obtain ty code where s: "s = OnBlockExitStatement ty code" by (cases s) auto
    have code: "set_option code \<subseteq> good_blocks q u (f\<lparr>pf_break := False, pf_continue := False, pf_rethrow := pf_rethrow f \<or> ty = OBE_Error\<rparr>)"
      using Cons.prems(2) [of s] by (auto simp: s good_blocks_def split: option.splits)
    have "u \<or> (ty = OBE_Error \<longrightarrow> on_block_exit_list ss = [])" using Cons.prems(3) by (cases ty) (auto simp: s)
    then have h: "good_handling u c (handler_step q ex (ty, code) (nrc, error, obe, t'))"
      if "scope q ex exs ss t = Done (rc, nrc, error, obe, t')" for rc nrc error obe t'
      using IH [OF Cons.prems(4)] that by (intro handler_step_good [OF ex r code]) auto
    have "good_scope u c (codes f) False (run_bind (handler_step q ex (ty, code) (nrc, error, obe, t')) (\<lambda>st. Done (rc, st)))"
      if "scope q ex exs ss t = Done (rc, nrc, error, obe, t')" for rc nrc error obe t'
      using h [OF that] IH [OF Cons.prems(4)] that by (cases "handler_step q ex (ty, code) (nrc, error, obe, t')") auto
    then show ?thesis
      using False IH [OF Cons.prems(4)] by (cases "scope q ex exs ss t") (auto simp: s)
  qed
qed (simp add: start_handling_def)

lemma scope_block_good:
  "good_scope u c A plain (scope q ex exs ss t) \<Longrightarrow> {0, RC_RETURN} \<subseteq> A \<Longrightarrow> good u c A (scope_block q ex exs ss t)"
  by (cases "scope q ex exs ss t") (auto simp: scope_block_def end_handling_def)

lemma rethrow_good:
  assumes "rethrow_ready u c f" "pf_rethrow f" "caught c t"
  shows "good u c (codes f) (RethrowStatement_exec q args t)"
proof -
  have "u \<or> (\<exists>e es. t_catch t = Some (e # es))"
    using assms by (cases "t_catch t") (auto simp: rethrow_ready_def caught_def length_Suc_conv)
  then show ?thesis
    using assms(3)
    by (cases args) (auto simp: RethrowStatement_exec_def Let_def split_beta caught_def split: option.splits list.splits)
qed

lemma simple_good:
  assumes "caught c t"
  shows "good u c (codes f) (ExpressionStatement_exec e t)" "good u c (codes f) (ReturnStatement_exec q e2 t)"
    "good u c (codes f) (ThrowStatement_exec q args t)" "good u c (codes f) (ThreadExitStatement_exec t)"
  using assms
  by (simp_all add: ExpressionStatement_exec_def ReturnStatement_exec_def ThrowStatement_exec_def ThreadExitStatement_exec_def
    Let_def split_beta split: option.splits)

lemma stmt_good:
  fixes q :: "('v, 's) system" and s :: "('v, 's, 'h) AbstractStatement"
  assumes ex: "good_exec q u (exec_block q n :: ('v, 's, 'h) StatementBlock \<Rightarrow> _)" and nb: "\<not> q_broken_loop q"
    and r: "rethrow_ready u c f" and t: "caught c t" and p: "parse_stmt q f s = []" and o: "u \<or> error_order_stmt s"
    and s: "\<not> block_exit s"
  shows "good u c (codes f) (exec_stmt q (Suc n) s t)"
proof -
  let ?l = "f\<lparr>pf_break := True, pf_continue := True\<rparr>"
  have "rethrow_ready u c ?l" using r by (simp add: rethrow_ready_def)
  note loop = good_executor.while_good [OF good_execD [OF ex this] codes_loop]
    good_executor.do_while_good [OF good_execD [OF ex this] codes_loop]
    good_executor.for_good [OF good_execD [OF ex this] codes_loop]
    good_executor.foreach_good [OF good_execD [OF ex this] codes_loop]
  have sub: "{0, RC_RETURN} \<subseteq> codes f" by simp
  have blk: "set_option code \<subseteq> good_blocks q u g"
    if "(case code of None \<Rightarrow> [] | Some b \<Rightarrow> parse_block q g b) = []" "u \<or> (case code of None \<Rightarrow> True | Some b \<Rightarrow> error_order_block b)"
    for code :: "('v, 's, 'h) StatementBlock option" and g
    using that by (auto simp: good_blocks_def split: option.splits)
  show ?thesis
  proof (cases s)
    case (IfStatement lvars cond c1 c2)
    then show ?thesis using p o t by (simp, intro good_executor.if_good [OF good_execD [OF ex r]] blk) auto
  next
    case (SwitchStatement lvars sexp cases)
    have "set_option (case_code x) \<subseteq> good_blocks q u (f\<lparr>pf_break := True\<rparr>)" if "x \<in> set cases" for x
    proof -
      have "parse_case q (f\<lparr>pf_break := True\<rparr>) x = []" "u \<or> error_order_case x"
        using that p o SwitchStatement by (auto simp: list_all_iff)
      then show ?thesis by (cases x) (simp add: blk)
    qed
    then show ?thesis using SwitchStatement good_switch [OF ex r t nb] by simp
  next
    case (TryStatement tb cb param)
    then show ?thesis using p o by (simp, intro good_try [OF ex r t] blk) (auto cong: option.case_cong)
  next
    case (RethrowStatement args)
    then show ?thesis using p rethrow_good [OF r _ t] by (simp split: if_splits)
  next
    case (NestedBlock b)
    then show ?thesis using p o t good_executor.ex_good [OF good_execD [OF ex r]] by (simp add: good_blocks_def)
  qed (use p o t nb s in \<open>auto simp: simple_good jump_codes good_blocks_def split: if_splits
      intro!: good_mono [OF _ sub] loop\<close>)
qed

lemma block_good:
  fixes q :: "('v, 's) system" and b :: "('v, 's, 'h) StatementBlock"
  assumes nb: "\<not> q_broken_loop q" and r: "rethrow_ready u c f" and b: "b \<in> good_blocks q u f" and t: "caught c t"
    and ex: "\<And>m. m \<le> n \<Longrightarrow> good_exec q u (exec_block q m :: ('v, 's, 'h) StatementBlock \<Rightarrow> _)"
  shows "good u c (codes f) (exec_block q (Suc n) b t)"
proof -
  obtain vs ss where bs: "b = StatementBlock vs ss" by (cases b)
  have p: "parse_stmt q f s = [] \<and> (u \<or> error_order_stmt s)" if "s \<in> set ss" for s
    using b that by (auto simp: bs good_blocks_def list_all_iff)
  have s: "good u c (codes f) (exec_stmt q n s t)" if "s \<in> set ss" "\<not> block_exit s" "caught c t" for s t
  proof (cases n)
    case 0
    then show ?thesis using that(2) by (cases s) simp_all
  next
    case (Suc m)
    have "good_exec q u (exec_block q m :: ('v, 's, 'h) StatementBlock \<Rightarrow> _)" using ex Suc by simp
    from stmt_good [OF this nb r that(3)] show ?thesis using p [OF that(1)] that(2) Suc by blast
  qed
  have o: "u \<or> on_error_last ss" using b by (auto simp: bs good_blocks_def)
  have "good u c (codes f) (execIntern q (exec_block q n) (exec_stmt q n) ss t)" if "caught c t" for t
    unfolding interp.execIntern_scope
    by (rule scope_block_good [OF scope_good [OF ex [OF order_refl] r s p o that]]) auto
  then show ?thesis using t by (simp add: bs good_with_lvars)
qed

theorem exec_good:
  fixes q :: "('v, 's) system"
  assumes nb: "\<not> q_broken_loop q"
  shows "good_exec q u (exec_block q n :: ('v, 's, 'h) StatementBlock \<Rightarrow> _)"
proof (induction n rule: less_induct)
  case (less n)
  show ?case
  proof (cases n)
    case 0
    then show ?thesis by (simp add: good_exec_def good_executor_def)
  next
    case (Suc m)
    have ex: "good_exec q u (exec_block q k :: ('v, 's, 'h) StatementBlock \<Rightarrow> _)" if "k \<le> m" for k
      using less.IH that Suc by simp
    show ?thesis
      unfolding good_exec_def good_executor_def Suc using block_good [OF nb _ _ _ ex] by blast
  qed
qed

interpretation accepted: good_executor "exec_block (q\<lparr>q_broken_loop := False\<rparr>) n"
    "good_blocks (q\<lparr>q_broken_loop := False\<rparr>) True f" True c "codes f"
  by (rule good_execD [OF exec_good]) (simp_all add: rethrow_ready_def)

end
