(* ===== verification/Stmt_Properties.thy ===== *)
theory Stmt_Properties
  imports Stmt_Parse
begin

text \<open>
  The properties of the statements: what a block with block-exit handlers means, what an execution leaves as it was, what
  the checks at parse time give at run time, when an execution ends, and the write-back of a foreach loop over a
  reference.  Then programs whose behaviour is not what the language promises.  The programs of the witnesses run
  in a small system: values are lists of numbers, the program state is a log of such values.
\<close>

section \<open>A small system\<close>

definition nowhere :: exception_location where
  "nowhere = \<lparr> start_line = 1, end_line = 1, xl_file = ''f'', xl_source = [], xl_lang = ''Qore'', xl_offset = 0 \<rparr>"

definition sys :: "(nat list, nat list list) system" where
  "sys = \<lparr> q_accept = (\<lambda>v s xs. (v, s, xs)), q_equal = (\<lambda>v w. v = w), q_broken_loop = False,
     q_position = \<lparr> rt_location = nowhere, rt_stack = [] \<rparr>, q_argv = (\<lambda>_ s. s), q_argv_out = (\<lambda>s xs. ((), s, xs)),
     q_element = (\<lambda>i s. (0, s)), q_list = (\<lambda>v. Some (map (\<lambda>x. Some [x]) v)),
     q_mklist = (\<lambda>l. map (\<lambda>v. case v of Some (x # _) \<Rightarrow> x | _ \<Rightarrow> 0) l) \<rparr>"

definition start :: "(nat list, nat list list) thread" where
  "start = \<lparr> t_env = [], t_xs = newSink, t_rv = None, t_obl = [], t_catch = None \<rparr>"

type_synonym test_stmt = "(nat list, nat list list, unit) AbstractStatement"
type_synonym test_block = "(nat list, nat list list, unit) StatementBlock"

definition log :: "nat \<Rightarrow> test_stmt" where
  "log n = ExpressionStatement (\<lambda>s xs. ((), s @ [[n]], xs))"

definition ret :: "nat \<Rightarrow> test_stmt" where
  "ret n = ReturnStatement (\<lambda>s xs. (Some [n], s, xs))"

definition throw :: "nat \<Rightarrow> test_stmt" where
  "throw n = ThrowStatement (Some (\<lambda>s xs. ([Some [n]], s, xs)))"

definition blk :: "test_stmt list \<Rightarrow> test_block" where
  "blk ss = StatementBlock [] ss"

definition on_exit :: "test_stmt list \<Rightarrow> test_stmt" where
  "on_exit ss = OnBlockExitStatement OBE_Unconditional (Some (blk ss))"

definition on_success :: "test_stmt list \<Rightarrow> test_stmt" where
  "on_success ss = OnBlockExitStatement OBE_Success (Some (blk ss))"

definition on_error :: "test_stmt list \<Rightarrow> test_stmt" where
  "on_error ss = OnBlockExitStatement OBE_Error (Some (blk ss))"

lemmas test_defs = sys_def start_def log_def ret_def throw_def blk_def on_exit_def on_success_def on_error_def nowhere_def

text \<open>What is visible of a result: the return code, the log, the return value and the codes of the exceptions.\<close>

definition observe :: "(nat list, nat list list) result \<Rightarrow> (int \<times> nat list list \<times> nat list option \<times> nat list option list) option" where
  "observe r = (case r of Done (rc, t) \<Rightarrow> Some (rc, t_env t, t_rv t, map ex_err (es_chain (t_xs t))) | _ \<Rightarrow> None)"

section \<open>Blocks and their handlers\<close>

text \<open>C28: a block executes as nested scopes: a block-exit statement lets the rest of the block run first and then runs
  its handler, so that exactly the handlers of the block-exit statements that were reached run, once each, the last one first,
  whatever ends the block (its end, a return, break or continue, an exception), and the iterators kept on the stack of
  the thread implement just this.  It holds for every block, every thread and every amount of fuel.\<close>

theorem block_nested_scopes:
  "exec_block q (Suc n) (StatementBlock vs ss) t =
     with_lvars vs (scope_block q (exec_block q n) (exec_stmt q n) ss) t"
proof -
  have "execIntern q (exec_block q n) (exec_stmt q n) ss = scope_block q (exec_block q n) (exec_stmt q n) ss"
    by (rule ext) (rule interp.execIntern_scope)
  then show ?thesis by simp
qed

text \<open>C31: a block that ends leaves the stack of block-exit iterators of the thread as it found it, and what it does does
  not depend on what is on that stack.\<close>

theorem block_keeps_iterator_stack:
  assumes "exec_block q n b t = Done (rc, t')"
  shows "t_obl t' = t_obl t \<and> exec_block q n b (t\<lparr>t_obl := l\<rparr>) = Done (rc, t'\<lparr>t_obl := l\<rparr>)"
  using assms framed_keeps [OF interp.ex_framed] framedD [OF interp.ex_framed, of q n b l t]
  by (simp add: set_obl_def)

theorem block_keeps_iterator_stack_witness:
  "\<exists>t'. exec_block sys 5 (blk [on_exit [log 1], on_error [log 2], throw 7, log 3]) start = Done (0, t') \<and> t_obl t' = [] \<and>
     t_env t' = [[2], [1]]"
proof -
  let ?r = "exec_block sys 5 (blk [on_exit [log 1], on_error [log 2], throw 7, log 3]) start"
  have "observe ?r = Some (0, [[2], [1]], None, [Some [7]])" by code_simp
  then obtain t' where t': "?r = Done (0, t')" "t_env t' = [[2], [1]]"
    by (auto simp: observe_def split: run.splits)
  from block_keeps_iterator_stack [OF this(1), of "[]"] have "t_obl t' = []" by (simp add: start_def)
  then show ?thesis using t' by blast
qed

section \<open>What the parse-time checks give\<close>

text \<open>C30: in a program without the parse directive \<open>%broken-loop-statement\<close>, a function body that the parser accepts ends
  with no pending break or continue: its return code is 0 or that of a return statement, whatever its expressions do.  With the
  directive the parser accepts break and continue statements outside of loops, and the statement does not hold.\<close>

theorem accepted_body_return_code:
  assumes "parse_block q no_flags b = []" "\<not> q_broken_loop q" "exec_block q n b t = Done (rc, t')"
  shows "rc = 0 \<or> rc = RC_RETURN"
proof -
  have "rethrow_ready True (map_option length (t_catch t)) no_flags" by (simp add: rethrow_ready_def)
  from good_executor.ex_good [OF good_execD [OF exec_good [OF assms(2)] this], of b t n]
  have "good True (map_option length (t_catch t)) (codes no_flags) (exec_block q n b t)"
    using assms(1) by (simp add: good_blocks_def caught_def)
  then show ?thesis using assms(3) by (simp add: codes_def no_flags_def)
qed

theorem accepted_body_return_code_witness:
  "\<exists>rc t'. exec_block sys 6 (blk [WhileStatement [] (\<lambda>s xs. (True, s, xs)) (Some (blk [log 1, BreakStatement])), ret 2]) start
     = Done (rc, t') \<and> (rc = 0 \<or> rc = RC_RETURN)"
proof -
  let ?b = "blk [WhileStatement [] (\<lambda>s xs. (True, s, xs)) (Some (blk [log 1, BreakStatement])), ret 2]"
  have "observe (exec_block sys 6 ?b start) \<noteq> None" by code_simp
  then obtain rc t' where t': "exec_block sys 6 ?b start = Done (rc, t')"
    by (auto simp: observe_def split: run.splits)
  have "parse_block sys no_flags ?b = []" by (simp add: blk_def log_def ret_def no_flags_def)
  moreover have "\<not> q_broken_loop sys" by (simp add: sys_def)
  ultimately have "rc = 0 \<or> rc = RC_RETURN" by (rule accepted_body_return_code [OF _ _ t'])
  then show ?thesis using t' by blast
qed

text \<open>C29: in a program without \<open>%broken-loop-statement\<close>, an accepted body in which every on-error statement is the last block-exit statement of its block never follows a
  null pointer: rethrow always finds an exception, an on-error handler is always given one, and the iterators on the
  stack are there and move inside of the handler list.\<close>

theorem accepted_body_defined:
  assumes "parse_block q no_flags b = []" "\<not> q_broken_loop q" "error_order_block b"
  shows "exec_block q n b t \<noteq> Undef"
proof -
  have "rethrow_ready False (map_option length (t_catch t)) no_flags" by (simp add: rethrow_ready_def no_flags_def)
  from good_executor.ex_good [OF good_execD [OF exec_good [OF assms(2)] this], of b t n]
  have "good False (map_option length (t_catch t)) (codes no_flags) (exec_block q n b t)"
    using assms(1,3) by (simp add: good_blocks_def caught_def)
  then show ?thesis by (cases "exec_block q n b t") simp_all
qed

theorem accepted_body_defined_witness:
  "exec_block sys 8 (blk [TryStatement (Some (blk [on_exit [log 1], on_error [RethrowStatement None], throw 7]))
       (Some (blk [RethrowStatement None])) None]) start \<noteq> Undef"
  by (rule accepted_body_defined) (simp_all add: test_defs no_flags_def)

section \<open>Ending\<close>

text \<open>Code without open-ended loops always ends: fuel for the depth of its nesting is enough, for every thread and
  whatever its expressions do, and more fuel gives the same result.\<close>

lemma loop_free_ends:
  assumes "bounded_block b" "block_depth b \<le> n"
  shows "exec_block q n b t \<noteq> NoFuel \<and> exec_block q n b t = exec_block q (block_depth b) b t"
proof -
  have d: "exec_block q (block_depth b) b t \<noteq> NoFuel" by (rule bounded_ends(1) [OF assms(1)]) simp
  from exec_block_more_fuel [OF this assms(2)] show ?thesis using d by simp
qed

section \<open>Iterating over a reference\<close>

text \<open>The iterations of a foreach loop over a reference, one by one: \<open>iterates i vs t nvs rc t'\<close> says that from thread \<open>t\<close>
  on the first elements of \<open>vs\<close>, the first of them with the number \<open>i\<close>, are assigned to the variable and the body runs for each of
  them without an exception; that \<open>nvs\<close> are the values of the variable after each run, that \<open>rc\<close> is the return code of the last
  run, and that no run before it ended with a break or a return.\<close>

definition iteration ::
    "('v, 's) system \<Rightarrow> ('b \<Rightarrow> ('v, 's) thread \<Rightarrow> ('v, 's) result) \<Rightarrow> ('v option \<Rightarrow> (bool, 'v, 's) expr)
     \<Rightarrow> ('v option, 'v, 's) expr \<Rightarrow> 'b \<Rightarrow> int \<Rightarrow> 'v option \<Rightarrow> ('v, 's) thread \<Rightarrow> ((int \<times> 'v option) option \<times> ('v, 's) thread) run" where
  "iteration q ex var rd b i v t =
     (let (failed, t1) = ev (var v) t in if failed then Done (None, t1) else with_element q i (ref_iteration ex rd b) t1)"

inductive iterates for q ex var rd b where
  last: "iteration q ex var rd b i v t = Done (Some (rc, nv), t') \<Longrightarrow> iterates q ex var rd b i (v # vs) t [nv] rc t'"
| more: "iteration q ex var rd b i v t = Done (Some (rc, nv), t1) \<Longrightarrow> rc \<noteq> RC_BREAK \<Longrightarrow> rc \<noteq> RC_RETURN
    \<Longrightarrow> iterates q ex var rd b (i + 1) vs t1 nvs rc' t' \<Longrightarrow> iterates q ex var rd b i (v # vs) t (nv # nvs) rc' t'"

lemma ref_loop_iteration:
  "ref_loop q ex var rd b i (v # vs) ln rc t = run_bind (iteration q ex var rd b i v t)
     (\<lambda>(r, t). case r of
        None \<Rightarrow> Done (None, t)
      | Some (rc, nv) \<Rightarrow>
          if rc = RC_BREAK then Done (Some (0, ln @ [nv] @ vs), t)
          else if rc = RC_RETURN then Done (Some (rc, ln @ [nv]), t)
          else ref_loop q ex var rd b (i + 1) vs (ln @ [nv]) (if rc = RC_CONTINUE then 0 else rc) t)"
  by (simp add: iteration_def split_beta Let_def)

lemma ref_loop_iterates:
  assumes "iterates q ex var rd b i vs t nvs rc t'" "length nvs = length vs \<or> rc = RC_BREAK \<or> rc = RC_RETURN"
  shows "ref_loop q ex var rd b i vs ln rc0 t = Done (Some (if rc = RC_BREAK \<or> rc = RC_CONTINUE then 0 else rc,
    ln @ (if rc = RC_BREAK then nvs @ drop (length nvs) vs else nvs)), t')"
  using assms
  by (induction arbitrary: ln rc0 rule: iterates.induct)
     (auto simp: ref_loop_iteration rc_defs simp del: ref_loop.simps(2))

text \<open>C33: a foreach loop over a reference to a list writes back exactly this: the values of the variable after the iterations
  that ran, followed by the elements that were not reached when a break ended the loop, but not when a return statement did: then
  the elements after the current one are gone.  When all iterations ran the list has its length again.  The loop ends with the
  return code of a return statement or with 0, also when the last iteration ended with continue.\<close>

theorem foreach_reference_writes_back:
  assumes "ev evalToRef t = (vr, t1)" "\<not> event t1" "ev (ref_eval vr) t1 = (Some v, t2)" "\<not> event t2" "q_list q v = Some vs"
    and "iterates q ex var rd b 0 vs t2 nvs rc t3" "length nvs = length vs \<or> rc = RC_BREAK \<or> rc = RC_RETURN"
  shows "execRef q ex var rd evalToRef ref_eval ref_assign (Some b) t =
    (let (failed, t4) = ev (ref_assign vr (Some (q_mklist q (if rc = RC_BREAK then nvs @ drop (length nvs) vs else nvs)))) t3
     in Done (if failed \<or> rc = RC_BREAK \<or> rc = RC_CONTINUE then 0 else rc, t4))"
proof -
  have "vs \<noteq> []" using assms(6) by (auto elim: iterates.cases)
  then show ?thesis using assms(1-5) ref_loop_iterates [OF assms(6,7)] by (simp add: execRef_def split_beta Let_def)
qed

text \<open>The witness runs a loop over a list of three elements whose body returns at once: one element is written back.\<close>

lemma foreach_reference_writes_back_witness:
  "observe (execRef sys (exec_block sys 5) (\<lambda>v s xs. (False, s, xs)) (\<lambda>s xs. (Some [5], s, xs)) (\<lambda>s xs. ((), s, xs))
      (\<lambda>_ s xs. (Some [1, 2, 3], s, xs)) (\<lambda>_ v s xs. (False, s @ [case v of None \<Rightarrow> [] | Some w \<Rightarrow> w], xs)) (Some (blk [ret 4])) start)
   = Some (RC_RETURN, [[5]], Some [4], [])"
proof -
  let ?vs = "[Some [1], Some [2], Some [3]] :: nat list option list" and ?t = "start\<lparr>t_rv := Some [4]\<rparr>"
  let ?var = "\<lambda>v s xs. (False, s, xs)" and ?rd = "\<lambda>s xs. (Some [5], s, xs)"
  have "iteration sys (exec_block sys 5) ?var ?rd (blk [ret 4]) 0 (Some [1]) start = Done (Some (RC_RETURN, Some [5]), ?t)"
    by code_simp
  from iterates.last [OF this] have it: "iterates sys (exec_block sys 5) ?var ?rd (blk [ret 4]) 0 ?vs start [Some [5]] RC_RETURN ?t" .
  have l: "q_list sys [1, 2, 3] = Some ?vs" "\<not> event start" by (simp_all add: sys_def start_def event_def newSink_def isEvent_def isException_def)
  show ?thesis
    using foreach_reference_writes_back [of "\<lambda>s xs. ((), s, xs)" start "()" start "\<lambda>_ s xs. (Some [1, 2, 3], s, xs)" "[1, 2, 3]" start,
        OF _ l(2) _ l(2,1) it]
    by (simp add: ev_def observe_def start_def sys_def newSink_def rc_defs)
qed

section \<open>Programs that lose something\<close>

text \<open>With two on-error statements in a block, when the handler that runs first rethrows, the handler that runs next
  makes the exception disappear: the sink of the handlers keeps the mark of the rethrow, and the mark clears the sink of the
  block again.  The block is left as if nothing had been thrown.\<close>

theorem second_on_error_swallows:
  "observe (exec_block sys 6 (blk [on_error [log 1], on_error [log 2, RethrowStatement None], throw 7]) start)
     = Some (0, [[2], [1]], None, [])"
  by code_simp

text \<open>A return statement whose block-exit handler throws leaves its value behind when the exception is caught, and the
  value of the next return statement inside of a try block is dropped for it: the function returns 5 instead of 7.\<close>

theorem caught_return_value_stays:
  "observe (exec_block sys 7 (blk [TryStatement (Some (blk [on_exit [throw 1], ret 5])) (Some (blk [log 1])) None,
       TryStatement (Some (blk [ret 7])) (Some (blk [])) None]) start)
     = Some (RC_RETURN, [[1]], Some [5], [])"
  by code_simp

text \<open>The return code of a handler is lost when a handler that runs after it ends normally: the return statement of
  the on-exit handler sets the return value, and the code after the block runs all the same.\<close>

theorem handler_return_lost:
  "observe (exec_block sys 7 (blk [NestedBlock (blk [on_exit [log 1], on_exit [ret 7]]), log 2]) start)
     = Some (0, [[1], [2]], Some [7], [])"
  "observe (exec_block sys 7 (blk [NestedBlock (blk [on_exit [ret 7]]), log 2]) start) = Some (RC_RETURN, [], Some [7], [])"
  by code_simp+

text \<open>A thread exit in a handler makes the on-error handlers before it run without an exception: a null pointer is
  followed.\<close>

theorem thread_exit_null_exception:
  "exec_block sys 6 (blk [on_error [log 1], on_exit [ThreadExitStatement]]) start = Undef"
  by (simp add: test_defs eval_nat_numeral) code_simp

text \<open>A default label that does not come last takes the value NOTHING before the labels that follow it.\<close>

theorem default_takes_nothing:
  "observe (exec_block sys 6 (blk [SwitchStatement [] (\<lambda>s xs. (None, s, xs))
       [CaseNode CaseDefault (Some (blk [log 1, BreakStatement])), CaseNode (CaseValue None) (Some (blk [log 2]))]]) start)
     = Some (0, [[1]], None, [])"
  by code_simp

text \<open>When a parse is rolled back the handlers of the deleted block-exit statements stay in the handler list of the
  top-level block: the list no longer is that of the statements, and the next block-exit statement that is reached runs the
  handler of the deleted one.\<close>

theorem rollback_keeps_handlers:
  assumes "tl_ok b" "tl_hwm b = length (tl_statements b)"
  shows "\<not> tl_ok (tl_parseRollback (tl_add (OnBlockExitStatement ty code) b))"
    and "tl_handlers (tl_add s (tl_parseRollback (tl_add (OnBlockExitStatement ty code) b))) =
      push_handler s ((ty, code) # tl_handlers b)"
  using assms by (simp_all add: tl_ok_def tl_parseRollback_def tl_add_def addStatement_def)

end
