(* ===== verification/Pool_Source.thy ===== *)
theory Pool_Source
  imports Qore_Prelude
begin

text \<open>
  A database connection: \<^verbatim>\<open>qore_ds_private\<close> and \<^verbatim>\<open>Datasource\<close> (\<^verbatim>\<open>qore_ds_private.h\<close>,
  \<^verbatim>\<open>Datasource.cpp\<close>), as far as they keep track of transactions.  A call of the database driver is an
  answer: the return code, the exceptions raised, and whether the driver has reported the loss of the connection
  (\<^verbatim>\<open>connectionAborted\<close>) during the call.  What the code relies on of a driver is \<open>answer_ok\<close>: a call fails
  exactly when it raises an exception, and a lost connection is a failure.  The statements open on a connection are not
  modelled.  \<open>None\<close> is a failed assertion.
\<close>

record driver_answer =
  da_rc :: int
  da_exc :: xsink
  da_abort :: bool

definition answer_ok :: "driver_answer \<Rightarrow> bool" where
  "answer_ok a \<longleftrightarrow> (da_rc a \<noteq> 0 \<longleftrightarrow> da_exc a \<noteq> []) \<and> (da_abort a \<longrightarrow> da_exc a \<noteq> [])"

record datasource =
  isopen :: bool
  in_transaction :: bool
  active_transaction :: bool
  autocommit :: bool
  connection_aborted :: bool
  keep_lock :: bool

definition ds_new :: datasource where
  "ds_new = \<lparr> isopen = False, in_transaction = False, active_transaction = False, autocommit = False,
     connection_aborted = False, keep_lock = False \<rparr>"

type_synonym ds_result = "(int \<times> datasource \<times> xsink) option"

definition ds_close :: "datasource \<Rightarrow> int \<times> datasource" where
  "ds_close d = (if isopen d then (0, d\<lparr>isopen := False, in_transaction := False, active_transaction := False\<rparr>) else (- 1, d))"

definition connectionAborted :: "datasource \<Rightarrow> datasource option" where
  "connectionAborted d = (if isopen d then Some (snd (ds_close (d\<lparr>connection_aborted := True\<rparr>))) else None)"

text \<open>A call of the driver on an open connection.\<close>

definition driver_call :: "driver_answer \<Rightarrow> datasource \<Rightarrow> xsink \<Rightarrow> ds_result" where
  "driver_call a d xs =
     (if da_abort a then map_option (\<lambda>d. (da_rc a, d, xs @ da_exc a)) (connectionAborted d)
      else Some (da_rc a, d, xs @ da_exc a))"

definition ds_open :: "driver_answer \<Rightarrow> datasource \<Rightarrow> xsink \<Rightarrow> int \<times> datasource \<times> xsink" where
  "ds_open a d xs =
     (if \<not> isopen d
      then let d = d\<lparr>connection_aborted := False\<rparr>; xs = xs @ da_exc a
           in (da_rc a, if xs = [] then d\<lparr>isopen := True\<rparr> else d, xs)
      else (0, d, xs))"

definition beginImplicitTransaction :: "driver_answer \<Rightarrow> datasource \<Rightarrow> xsink \<Rightarrow> ds_result" where
  "beginImplicitTransaction a d xs =
     (if autocommit d then Some (- 1, d, raiseException xs ''AUTOCOMMIT-ERROR'') else driver_call a d xs)"

definition ds_beginTransaction :: "driver_answer \<Rightarrow> datasource \<Rightarrow> xsink \<Rightarrow> ds_result" where
  "ds_beginTransaction a d xs = (case beginImplicitTransaction a d xs of
     None \<Rightarrow> None
   | Some (rc, d, xs) \<Rightarrow>
       if rc = 0 \<and> \<not> in_transaction d
       then if active_transaction d then None else Some (rc, d\<lparr>in_transaction := True\<rparr>, xs)
       else Some (rc, d, xs))"

text \<open>\<^verbatim>\<open>commitIntern\<close> and \<^verbatim>\<open>rollbackIntern\<close> differ in the driver function only.\<close>

definition ds_end_transaction :: "driver_answer \<Rightarrow> datasource \<Rightarrow> xsink \<Rightarrow> ds_result" where
  "ds_end_transaction a d xs =
     (if isopen d then driver_call a (d\<lparr>in_transaction := False, active_transaction := False\<rparr>) xs else None)"

definition ds_commit :: "driver_answer \<Rightarrow> driver_answer \<Rightarrow> datasource \<Rightarrow> xsink \<Rightarrow> ds_result" where
  "ds_commit b a d xs =
     (if \<not> in_transaction d
      then (case beginImplicitTransaction b d xs of
              None \<Rightarrow> None
            | Some (rc, d, xs) \<Rightarrow> if rc \<noteq> 0 then Some (- 1, d, xs) else ds_end_transaction a d xs)
      else ds_end_transaction a d xs)"

definition ds_rollback :: "driver_answer \<Rightarrow> driver_answer \<Rightarrow> datasource \<Rightarrow> xsink \<Rightarrow> ds_result" where
  "ds_rollback b a d xs =
     (if \<not> in_transaction d
      then (case beginImplicitTransaction b d xs of
              None \<Rightarrow> None
            | Some (rc, d, xs) \<Rightarrow> if rc \<noteq> 0 then Some (- 1, d, xs) else ds_end_transaction a d xs)
      else ds_end_transaction a d xs)"

definition statementExecuted :: "bool \<Rightarrow> datasource \<Rightarrow> datasource option" where
  "statementExecuted failed d =
     (if \<not> in_transaction d
      then if \<not> connection_aborted d
           then if active_transaction d \<or> \<not> isopen d then None
                else Some (d\<lparr>in_transaction := True, active_transaction := True\<rparr>)
           else Some d
      else Some (if \<not> failed \<and> \<not> active_transaction d then d\<lparr>active_transaction := True\<rparr> else d))"

definition ds_autoCommit :: "driver_answer \<Rightarrow> datasource \<Rightarrow> xsink \<Rightarrow> ds_result" where
  "ds_autoCommit c d xs = (if autocommit d \<and> \<not> connection_aborted d then driver_call c d xs else Some (0, d, xs))"

text \<open>\<^verbatim>\<open>exec_internal\<close>: \<open>b\<close>, \<open>a\<close> and \<open>c\<close> are the answers to the implicit begin, the statement and the automatic commit.\<close>

definition ds_exec :: "driver_answer \<Rightarrow> driver_answer \<Rightarrow> driver_answer \<Rightarrow> datasource \<Rightarrow> xsink \<Rightarrow> ds_result" where
  "ds_exec b a c d xs = (case (if \<not> autocommit d \<and> \<not> in_transaction d then beginImplicitTransaction b d xs else Some (0, d, xs)) of
     None \<Rightarrow> None
   | Some (rc, d, xs) \<Rightarrow>
       if rc \<noteq> 0 then Some (- 1, d, xs)
       else if \<not> isopen d then None
       else (case driver_call a d xs of
               None \<Rightarrow> None
             | Some (rc, d, xs) \<Rightarrow>
                 if connection_aborted d then if xs = [] then None else Some (0, d, xs)
                 else if autocommit d then driver_call c d xs
                 else map_option (\<lambda>d. (0, d, xs)) (statementExecuted (xs \<noteq> []) d)))"

definition ds_select :: "driver_answer \<Rightarrow> driver_answer \<Rightarrow> datasource \<Rightarrow> xsink \<Rightarrow> ds_result" where
  "ds_select a c d xs = (case driver_call a d xs of
     None \<Rightarrow> None
   | Some (rc, d, xs) \<Rightarrow> (case ds_autoCommit c d xs of
       None \<Rightarrow> None
     | Some (rc, d, xs) \<Rightarrow>
         Some (rc, if in_transaction d \<and> \<not> active_transaction d \<and> xs = [] then d\<lparr>active_transaction := True\<rparr> else d, xs)))"

definition keepLock :: "datasource \<Rightarrow> bool \<times> datasource" where
  "keepLock d = (keep_lock d, d\<lparr>keep_lock := False\<rparr>)"

section \<open>What a connection keeps\<close>

definition ds_ok :: "datasource \<Rightarrow> bool" where
  "ds_ok d \<longleftrightarrow> (active_transaction d \<longrightarrow> in_transaction d) \<and> (in_transaction d \<longrightarrow> isopen d) \<and>
     (connection_aborted d \<longrightarrow> \<not> isopen d) \<and> \<not> autocommit d \<and> \<not> keep_lock d"

definition ds_usable :: "datasource \<Rightarrow> bool" where
  "ds_usable d \<longleftrightarrow> ds_ok d \<and> isopen d"

text \<open>What an operation leaves: a usable connection or a lost one.\<close>

definition ds_after :: "datasource \<Rightarrow> bool" where
  "ds_after d \<longleftrightarrow> ds_ok d \<and> (isopen d \<or> connection_aborted d)"

lemmas ds_defs = ds_close_def connectionAborted_def driver_call_def beginImplicitTransaction_def ds_beginTransaction_def
  ds_end_transaction_def ds_commit_def ds_rollback_def statementExecuted_def ds_autoCommit_def ds_exec_def ds_select_def
  ds_ok_def ds_usable_def answer_ok_def

lemma keepLock_off: "\<not> keep_lock d \<Longrightarrow> keepLock d = (False, d)"
  by (cases d) (simp add: keepLock_def)

lemma ds_new_ok: "ds_ok ds_new"
  by (simp add: ds_ok_def ds_new_def)

lemma ds_open_ok:
  assumes "ds_ok d" "answer_ok a" "ds_open a d [] = (rc, d', xs)"
  shows "ds_ok d' \<and> (rc = 0 \<longleftrightarrow> isopen d') \<and> (rc = 0 \<longleftrightarrow> xs = []) \<and> in_transaction d' = in_transaction d"
  using assms by (auto simp: ds_open_def ds_ok_def answer_ok_def Let_def split: if_splits)

text \<open>The operations on a usable connection never fail an assertion; afterwards it is usable or was lost, and then it is
  in no transaction.\<close>

lemma driver_call_cases:
  assumes "ds_usable d" "answer_ok a" "driver_call a d xs = Some (rc, d', xs')"
  shows "rc = da_rc a \<and> xs' = xs @ da_exc a \<and>
    (\<not> da_abort a \<and> d' = d \<or> da_abort a \<and> rc \<noteq> 0 \<and> xs' \<noteq> [] \<and> ds_ok d' \<and> \<not> isopen d' \<and> connection_aborted d' \<and> \<not> in_transaction d')"
  using assms by (auto simp: ds_defs split: if_splits)

lemma driver_call_some: "ds_usable d \<Longrightarrow> driver_call a d xs \<noteq> None"
  by (simp add: ds_defs)

lemma ds_beginTransaction_ok:
  assumes "ds_usable d" "answer_ok a"
  shows "\<exists>rc d' xs'. ds_beginTransaction a d [] = Some (rc, d', xs') \<and> ds_after d' \<and> (rc = 0 \<longleftrightarrow> xs' = []) \<and>
    (rc \<noteq> 0 \<longrightarrow> in_transaction d' \<longrightarrow> in_transaction d)"
  using assms by (auto simp: ds_defs ds_after_def)

lemma ds_end_transaction_ok:
  assumes "ds_usable d" "answer_ok a"
  shows "\<exists>rc d' xs'. ds_end_transaction a d xs = Some (rc, d', xs') \<and> ds_after d' \<and> \<not> in_transaction d'"
  using assms by (auto simp: ds_defs ds_after_def)

lemma ds_finish_ok:
  assumes "ds_usable d" "answer_ok a" "answer_ok b"
  shows "\<exists>rc d' xs'. ds_commit b a d xs = Some (rc, d', xs') \<and> ds_after d' \<and> \<not> in_transaction d'"
    and "\<exists>rc d' xs'. ds_rollback b a d xs = Some (rc, d', xs') \<and> ds_after d' \<and> \<not> in_transaction d'"
  using assms by (auto simp: ds_defs ds_after_def)

lemma ds_exec_ok:
  assumes "ds_usable d" "answer_ok a" "answer_ok b" "answer_ok c"
  shows "\<exists>rc d' xs'. ds_exec b a c d [] = Some (rc, d', xs') \<and> ds_after d'"
  using assms by (auto simp: ds_defs ds_after_def)

lemma ds_select_ok:
  assumes "ds_usable d" "answer_ok a" "answer_ok c"
  shows "\<exists>rc d' xs'. ds_select a c d [] = Some (rc, d', xs') \<and> ds_after d' \<and> (in_transaction d' \<longrightarrow> in_transaction d)"
  using assms by (auto simp: ds_defs ds_after_def)

end
