(* ===== verification/Pool_System.thy ===== *)
theory Pool_System
  imports Pool_Source
begin

text \<open>
  The connection pool \<^verbatim>\<open>DatasourcePool\<close> (\<^verbatim>\<open>DatasourcePool.cpp\<close>, \<^verbatim>\<open>DatasourcePool.h\<close>) and the limits its
  constructor reads (\<^verbatim>\<open>QC_DatasourcePool.qpp\<close>).  A call of the pool by a thread is cut where the code gives up the
  pool's lock: \<open>getDSIntern\<close> up to the point where the thread has a connection or sleeps, the return from the sleep,
  and the rest (the wait warning, the opening of the connection, the database call and the destructor of the action
  helper), which works on the thread's own connection and takes the lock at its end.  The condition variable is explicit,
  as for the counter: \<open>asleep\<close> are the threads inside \<^verbatim>\<open>wait\<close>, \<open>awoken\<close> those a signal has reached that have not
  run yet; a signal wakes one sleeper, which one is a parameter.  \<open>calls\<close> keeps what a thread inside a call has on its
  stack and \<open>resources\<close> the threads in whose resource list the pool is.  The array of connections is a list as long
  as the code's \<^verbatim>\<open>cmax\<close>; \<open>None\<close> is a failed assertion, an access beyond the array or the use of an end iterator.
  Statement objects, event queues and the arguments of the warning callback are not modelled; the callback itself is
  the list of exceptions it raises, and does not use the pool.
\<close>

section \<open>State\<close>

datatype dah = DAH_NOCHANGE | DAH_ACQUIRE | DAH_RELEASE

datatype ds_action = ASelect | AInfo | AExec | ABegin | ACommit | ARollback

record answers =
  an_callback :: xsink
  an_open :: driver_answer
  an_begin :: driver_answer
  an_call :: driver_answer
  an_auto :: driver_answer

definition answers_ok :: "answers \<Rightarrow> bool" where
  "answers_ok an \<longleftrightarrow> answer_ok (an_open an) \<and> answer_ok (an_begin an) \<and> answer_ok (an_call an) \<and> answer_ok (an_auto an)"

record call =
  ca_action :: ds_action
  ca_new :: bool
  ca_wait :: int
  ca_iter :: bool
  ca_timed :: bool

record dspool =
  pool :: "datasource list"
  tid_list :: "nat \<rightharpoonup> int"
  tmap :: "int \<rightharpoonup> nat"
  free_list :: "nat list"
  dp_min :: nat
  dp_max :: nat
  wait_count :: nat
  wait_max :: int
  tl_warning_ms :: int
  tl_timeout_ms :: int
  stats_reqs :: int
  stats_hits :: int
  warning_callback :: bool
  dp_valid :: bool
  asleep :: "int set"
  awoken :: "int set"
  resources :: "int set"
  calls :: "int \<rightharpoonup> call"

abbreviation cmax :: "dspool \<Rightarrow> nat" where
  "cmax p \<equiv> length (pool p)"

definition put_ds :: "nat \<Rightarrow> datasource \<Rightarrow> dspool \<Rightarrow> dspool" where
  "put_ds fi d p = p\<lparr>pool := (pool p)[fi := d]\<rparr>"

definition end_call :: "int \<Rightarrow> dspool \<Rightarrow> dspool" where
  "end_call t p = p\<lparr>calls := (calls p)(t := None)\<rparr>"

section \<open>Construction\<close>

text \<open>\<^verbatim>\<open>dsp_constructor_hash\<close>: the options \<open>min\<close> and \<open>max\<close>, where given.\<close>

definition DP_MIN :: int where "DP_MIN = 3"

definition DP_MAX :: int where "DP_MAX = 10"

definition dsp_limits :: "int option \<Rightarrow> int option \<Rightarrow> string + int \<times> int" where
  "dsp_limits omin omax =
     (let mn = (case omin of None \<Rightarrow> 0 | Some v \<Rightarrow> int32 v); mx = (case omax of None \<Rightarrow> 0 | Some v \<Rightarrow> int32 v)
      in if omin \<noteq> None \<and> mn < 0 then Inl ''DATASOURCEPOOL-CONSTRUCTOR-ERROR''
         else if omax \<noteq> None \<and> (mx < mn \<or> mx = 0) then Inl ''DATASOURCEPOOL-CONSTRUCTOR-ERROR''
         else Inr (if mn = 0 then DP_MIN else mn, if mx = 0 then DP_MAX else mx))"

definition dp_new :: "nat \<Rightarrow> nat \<Rightarrow> dspool" where
  "dp_new mn mx = \<lparr> pool = [], tid_list = Map.empty, tmap = Map.empty, free_list = [], dp_min = mn, dp_max = mx,
     wait_count = 0, wait_max = 0, tl_warning_ms = 0, tl_timeout_ms = 120000, stats_reqs = 0, stats_hits = 0,
     warning_callback = False, dp_valid = False, asleep = {}, awoken = {}, resources = {}, calls = Map.empty \<rparr>"

text \<open>\<^verbatim>\<open>init\<close>: for each connection the exceptions of its configuration and the driver's answer to the opening.\<close>

definition init_conn :: "(nat \<Rightarrow> xsink \<times> driver_answer) \<Rightarrow> dspool \<Rightarrow> (xsink \<times> dspool) option" where
  "init_conn ans p =
     (let k = cmax p; (cx, oa) = ans k
      in if cx \<noteq> [] then Some (cx, p)
         else let (rc, d, xs) = ds_open oa ds_new []
              in if xs \<noteq> [] then Some (xs, p)
                 else if k < dp_max p then Some ([], p\<lparr>pool := pool p @ [d], free_list := free_list p @ [k]\<rparr>)
                 else None)"

primrec init_loop :: "(nat \<Rightarrow> xsink \<times> driver_answer) \<Rightarrow> nat \<Rightarrow> dspool \<Rightarrow> (xsink \<times> dspool) option" where
  "init_loop ans 0 p = Some ([], p\<lparr>dp_valid := True\<rparr>)"
| "init_loop ans (Suc n) p = (case init_conn ans p of
     None \<Rightarrow> None
   | Some (xs, p) \<Rightarrow> if xs \<noteq> [] then Some (xs, p) else init_loop ans n p)"

definition dp_init :: "(nat \<Rightarrow> xsink \<times> driver_answer) \<Rightarrow> nat \<Rightarrow> nat \<Rightarrow> (xsink \<times> dspool) option" where
  "dp_init ans mn mx = init_loop ans (Suc (mn - 1)) (dp_new mn mx)"

section \<open>Acquiring and releasing a connection\<close>

definition dp_signal :: "int \<Rightarrow> dspool \<Rightarrow> dspool" where
  "dp_signal w p =
     (if wait_count p \<noteq> 0 \<and> w \<in> asleep p then p\<lparr>asleep := asleep p - {w}, awoken := insert w (awoken p)\<rparr> else p)"

text \<open>The common end of the two ways out of the loop of \<open>getDSIntern\<close>.\<close>

definition dp_take :: "int \<Rightarrow> nat \<Rightarrow> call \<Rightarrow> dspool \<Rightarrow> dspool" where
  "dp_take t fi c p = p\<lparr>tmap := (tmap p)(t \<mapsto> fi), tid_list := (tid_list p)(fi \<mapsto> t),
     stats_hits := stats_hits p + (if ca_iter c then 0 else 1),
     wait_max := (if wait_max p < ca_wait c then uint32 (ca_wait c) else wait_max p),
     resources := insert t (resources p), calls := (calls p)(t \<mapsto> c)\<rparr>"

text \<open>\<open>cx\<close> are the exceptions that the configuration raises when a new connection is made from it (\<open>config.get\<close>); the code
  asserts that there are none.\<close>

definition get_loop :: "xsink \<Rightarrow> int \<Rightarrow> call \<Rightarrow> dspool \<Rightarrow> dspool option" where
  "get_loop cx t c p = (case free_list p of
     fi # fl \<Rightarrow> Some (dp_take t fi c (p\<lparr>free_list := fl\<rparr>))
   | [] \<Rightarrow>
       if cmax p < dp_max p then if cx \<noteq> [] then None else Some (dp_take t (cmax p) c (p\<lparr>pool := pool p @ [ds_new]\<rparr>))
       else Some (p\<lparr>wait_count := wait_count p + 1, asleep := insert t (asleep p),
              calls := (calls p)(t \<mapsto> c\<lparr>ca_timed := tl_timeout_ms p \<noteq> 0\<rparr>)\<rparr>))"

definition new_call :: "ds_action \<Rightarrow> bool \<Rightarrow> call" where
  "new_call a new = \<lparr>ca_action = a, ca_new = new, ca_wait = 0, ca_iter = False, ca_timed = False\<rparr>"

definition getDSIntern :: "xsink \<Rightarrow> int \<Rightarrow> ds_action \<Rightarrow> dspool \<Rightarrow> dspool option" where
  "getDSIntern cx t a p =
     (let p = p\<lparr>stats_reqs := stats_reqs p + 1\<rparr>
      in case tmap p t of
           Some fi \<Rightarrow> Some (p\<lparr>stats_hits := stats_hits p + 1, calls := (calls p)(t \<mapsto> new_call a False)\<rparr>)
         | None \<Rightarrow> get_loop cx t (new_call a True) p)"

text \<open>After the sleep: \<open>timed\<close> is the code's \<open>rc\<close>, \<open>us\<close> the time that has passed.\<close>

definition get_wake :: "xsink \<Rightarrow> bool \<Rightarrow> int \<Rightarrow> int \<Rightarrow> dspool \<Rightarrow> (xsink \<times> dspool) option" where
  "get_wake cx timed us t p = (case calls p t of
     None \<Rightarrow> None
   | Some c \<Rightarrow>
       let p = p\<lparr>wait_count := wait_count p - 1, asleep := asleep p - {t}, awoken := awoken p - {t}\<rparr>;
           c = c\<lparr>ca_wait := ca_wait c + us\<rparr>
       in if \<not> dp_valid p then Some ([''DATASOURCEPOOL-ERROR''], end_call t p)
          else if timed \<and> tl_timeout_ms p \<noteq> 0 then Some ([''DATASOURCEPOOL-TIMEOUT''], end_call t p)
          else map_option (Pair []) (get_loop cx t (c\<lparr>ca_iter := True\<rparr>) p))"

definition freeDS :: "int \<Rightarrow> int \<Rightarrow> dspool \<Rightarrow> dspool option" where
  "freeDS w t p = (case tmap p t of
     None \<Rightarrow> None
   | Some fi \<Rightarrow>
       if in_transaction (pool p ! fi) then None
       else Some (dp_signal w (p\<lparr>resources := resources p - {t}, free_list := free_list p @ [fi], tmap := (tmap p)(t := None)\<rparr>)))"

section \<open>An action on a connection\<close>

text \<open>\<^verbatim>\<open>DatasourcePoolActionHelper\<close>: the destructor.\<close>

definition action_end :: "int \<Rightarrow> int \<Rightarrow> dah \<Rightarrow> bool \<Rightarrow> dspool \<Rightarrow> dspool option" where
  "action_end w t cmd new p = (case tmap p t of
     None \<Rightarrow> None
   | Some fi \<Rightarrow>
       let (keep, d) = keepLock (pool p ! fi); p = put_ds fi d p
       in if cmd = DAH_RELEASE \<or> connection_aborted d \<or> new \<and> cmd = DAH_NOCHANGE \<and> \<not> keep then freeDS w t p else Some p)"

text \<open>\<open>checkWait\<close>: \<open>getConfigString\<close> makes a second call of the pool, in which the connection is not a new one.\<close>

definition checkWait :: "int \<Rightarrow> int \<Rightarrow> answers \<Rightarrow> int \<Rightarrow> dspool \<Rightarrow> (xsink \<times> dspool) option" where
  "checkWait w t an wait_total p =
     (if \<not> warning_callback p \<or> wait_total sdiv 1000 < tl_warning_ms p then Some ([], p)
      else case tmap p t of
             None \<Rightarrow> None
           | Some fi \<Rightarrow>
               if \<not> isopen (pool p ! fi) then None
               else map_option (Pair (an_callback an))
                      (action_end w t DAH_NOCHANGE False (p\<lparr>stats_reqs := stats_reqs p + 1, stats_hits := stats_hits p + 1\<rparr>)))"

text \<open>\<open>getDS\<close> after \<open>getDSIntern\<close>; the boolean says whether the caller gets the connection.\<close>

definition getDS_open :: "int \<Rightarrow> int \<Rightarrow> answers \<Rightarrow> bool \<Rightarrow> dspool \<Rightarrow> (bool \<times> xsink \<times> dspool) option" where
  "getDS_open w t an new p = (case tmap p t of
     None \<Rightarrow> None
   | Some fi \<Rightarrow>
       if isopen (pool p ! fi) then Some (True, [], p)
       else if \<not> new then None
       else let (rc, d, xs) = ds_open (an_open an) (pool p ! fi) []; p = put_ds fi d p
            in if rc \<noteq> 0 then map_option (\<lambda>p. (False, xs, p)) (freeDS w t p)
               else if isopen d \<and> xs = [] then Some (True, [], p) else None)"

definition getDS_rest :: "int \<Rightarrow> int \<Rightarrow> answers \<Rightarrow> call \<Rightarrow> dspool \<Rightarrow> (bool \<times> xsink \<times> dspool) option" where
  "getDS_rest w t an c p = (case tmap p t of
     None \<Rightarrow> None
   | Some fi \<Rightarrow>
       if ca_new c \<and> in_transaction (pool p ! fi) then None
       else (case (if ca_wait c \<noteq> 0 then checkWait w t an (ca_wait c) p else Some ([], p)) of
               None \<Rightarrow> None
             | Some (xs, p) \<Rightarrow>
                 if xs \<noteq> [] then if ca_new c then map_option (\<lambda>p. (False, xs, p)) (freeDS w t p) else None
                 else getDS_open w t an (ca_new c) p))"

fun run_action :: "ds_action \<Rightarrow> answers \<Rightarrow> datasource \<Rightarrow> ds_result" where
  "run_action ASelect an d = ds_select (an_call an) (an_auto an) d []"
| "run_action AInfo an d = driver_call (an_call an) d []"
| "run_action AExec an d = ds_exec (an_begin an) (an_call an) (an_auto an) d []"
| "run_action ABegin an d = ds_beginTransaction (an_begin an) d []"
| "run_action ACommit an d = ds_commit (an_begin an) (an_call an) d []"
| "run_action ARollback an d = ds_rollback (an_begin an) (an_call an) d []"

text \<open>The command of the helper at its end; \<open>beginTransaction\<close> changes it (\<open>releaseNew\<close>) when it has failed.\<close>

fun action_cmd :: "ds_action \<Rightarrow> bool \<Rightarrow> int \<Rightarrow> xsink \<Rightarrow> dah option" where
  "action_cmd ASelect new rc xs = Some DAH_NOCHANGE"
| "action_cmd AInfo new rc xs = Some DAH_NOCHANGE"
| "action_cmd AExec new rc xs = Some DAH_ACQUIRE"
| "action_cmd ABegin new rc xs =
     (if rc \<noteq> 0 then if xs = [] then None else Some (if new then DAH_RELEASE else DAH_ACQUIRE)
      else if xs \<noteq> [] then None else Some DAH_ACQUIRE)"
| "action_cmd ACommit new rc xs = Some DAH_RELEASE"
| "action_cmd ARollback new rc xs = Some DAH_RELEASE"

definition pool_act ::
  "int \<Rightarrow> int \<Rightarrow> (datasource \<Rightarrow> ds_result) \<Rightarrow> (bool \<Rightarrow> int \<Rightarrow> xsink \<Rightarrow> dah option) \<Rightarrow> bool \<Rightarrow> dspool \<Rightarrow> (xsink \<times> dspool) option" where
  "pool_act w t run cmd new p = (case tmap p t of
     None \<Rightarrow> None
   | Some fi \<Rightarrow> (case run (pool p ! fi) of
       None \<Rightarrow> None
     | Some (rc, d, xs) \<Rightarrow> (case cmd new rc xs of
         None \<Rightarrow> None
       | Some k \<Rightarrow> map_option (Pair xs) (action_end w t k new (put_ds fi d p)))))"

definition pool_finish :: "int \<Rightarrow> int \<Rightarrow> answers \<Rightarrow> dspool \<Rightarrow> (xsink \<times> dspool) option" where
  "pool_finish w t an p = (case calls p t of
     None \<Rightarrow> None
   | Some c \<Rightarrow> (case getDS_rest w t an c (end_call t p) of
       None \<Rightarrow> None
     | Some (got, xs, p) \<Rightarrow>
         if \<not> got then Some (xs, p)
         else pool_act w t (run_action (ca_action c) an) (action_cmd (ca_action c)) (ca_new c) p))"

section \<open>The end of a thread and of the pool\<close>

text \<open>\<open>cleanup\<close> is called for a thread that ends with the pool in its resource list.\<close>

definition dp_cleanup :: "int \<Rightarrow> int \<Rightarrow> answers \<Rightarrow> dspool \<Rightarrow> (xsink \<times> dspool) option" where
  "dp_cleanup w t an p = (case tmap p t of
     None \<Rightarrow> None
   | Some fi \<Rightarrow> (case ds_rollback (an_begin an) (an_call an) (pool p ! fi) [''DATASOURCEPOOL-LOCK-EXCEPTION''] of
       None \<Rightarrow> None
     | Some (rc, d, xs) \<Rightarrow>
         let p = put_ds fi d p
         in Some (xs, dp_signal w (p\<lparr>resources := resources p - {t}, free_list := free_list p @ [fi], tmap := (tmap p)(t := None)\<rparr>))))"

definition dp_destructor :: "int \<Rightarrow> int \<Rightarrow> answers \<Rightarrow> dspool \<Rightarrow> (xsink \<times> dspool) option" where
  "dp_destructor w t an p =
     (let p = p\<lparr>dp_valid := False\<rparr>;
          xs = map (\<lambda>j. ''DATASOURCEPOOL-ERROR'')
                 (filter (\<lambda>j. Some j \<noteq> tmap p t \<and> in_transaction (pool p ! j)) [0..<cmax p])
      in case tmap p t of
           None \<Rightarrow> Some (xs, p)
         | Some fi \<Rightarrow>
             if in_transaction (pool p ! fi)
             then (case ds_rollback (an_begin an) (an_call an) (pool p ! fi) (raiseException xs ''DATASOURCEPOOL-LOCK-EXCEPTION'') of
                     None \<Rightarrow> None
                   | Some (rc, d, xs) \<Rightarrow> map_option (Pair xs) (freeDS w t (put_ds fi d p)))
             else Some (xs, p))"

definition dp_setErrorTimeout :: "int \<Rightarrow> dspool \<Rightarrow> dspool" where
  "dp_setErrorTimeout ms p = p\<lparr>tl_timeout_ms := uint32 (if ms < 0 then 0 else ms)\<rparr>"

definition dp_setWarningCallback :: "int \<Rightarrow> dspool \<Rightarrow> xsink \<times> dspool" where
  "dp_setWarningCallback ms p =
     (if ms \<le> 0 then ([''DATASOURCEPOOL-SETWARNINGCALLBACK-ERROR''], p)
      else ([], p\<lparr>warning_callback := True, tl_warning_ms := uint32 ms\<rparr>))"

definition dp_clearWarningCallback :: "dspool \<Rightarrow> dspool" where
  "dp_clearWarningCallback p = (if warning_callback p then p\<lparr>warning_callback := False, tl_warning_ms := 0\<rparr> else p)"

definition dp_inTransaction :: "int \<Rightarrow> dspool \<Rightarrow> bool" where
  "dp_inTransaction t p \<longleftrightarrow> tmap p t \<noteq> None"

section \<open>Steps\<close>

datatype pool_op =
    Call ds_action xsink
  | Wake int xsink
  | TimedOut int xsink
  | Finish answers
  | ThreadExit answers
  | Destroy answers
  | SetTimeout int
  | SetWarning int
  | ClearWarning

definition sleeping :: "dspool \<Rightarrow> int \<Rightarrow> bool" where
  "sleeping p t \<longleftrightarrow> t \<in> asleep p \<or> t \<in> awoken p"

text \<open>
  A sleeper may wake up without a signal.  A sleeper with a timeout may time out; \<open>late\<close> says whether a thread that a signal has
  reached may time out all the same, as POSIX allows for \<^verbatim>\<open>pthread_cond_timedwait\<close>.  The drivers are taken to keep
  \<open>answer_ok\<close>.  A call may begin after the deletion: its thread had a reference to the pool before it.
\<close>

fun pool_enabled :: "bool \<Rightarrow> dspool \<Rightarrow> int \<Rightarrow> pool_op \<Rightarrow> bool" where
  "pool_enabled late p t (Call a cx) \<longleftrightarrow> calls p t = None"
| "pool_enabled late p t (Wake us cx) \<longleftrightarrow> sleeping p t"
| "pool_enabled late p t (TimedOut us cx) \<longleftrightarrow> (t \<in> asleep p \<or> late \<and> t \<in> awoken p)
     \<and> (case calls p t of None \<Rightarrow> False | Some c \<Rightarrow> ca_timed c)"
| "pool_enabled late p t (Finish an) \<longleftrightarrow> calls p t \<noteq> None \<and> \<not> sleeping p t \<and> answers_ok an"
| "pool_enabled late p t (ThreadExit an) \<longleftrightarrow> t \<in> resources p \<and> calls p t = None \<and> answers_ok an"
| "pool_enabled late p t (Destroy an) \<longleftrightarrow> dp_valid p \<and> calls p t = None \<and> answers_ok an"
| "pool_enabled late p t _ \<longleftrightarrow> calls p t = None"

text \<open>The exceptions of the configuration, should the step make a new connection.\<close>

fun op_config :: "pool_op \<Rightarrow> xsink" where
  "op_config (Call a cx) = cx"
| "op_config (Wake us cx) = cx"
| "op_config (TimedOut us cx) = cx"
| "op_config _ = []"

fun pool_step :: "int \<Rightarrow> int \<Rightarrow> pool_op \<Rightarrow> dspool \<Rightarrow> (xsink \<times> dspool) option" where
  "pool_step w t (Call a cx) p = map_option (Pair []) (getDSIntern cx t a p)"
| "pool_step w t (Wake us cx) p = get_wake cx False us t p"
| "pool_step w t (TimedOut us cx) p = get_wake cx True us t p"
| "pool_step w t (Finish an) p = pool_finish w t an p"
| "pool_step w t (ThreadExit an) p = dp_cleanup w t an p"
| "pool_step w t (Destroy an) p = dp_destructor w t an p"
| "pool_step w t (SetTimeout ms) p = Some ([], dp_setErrorTimeout ms p)"
| "pool_step w t (SetWarning ms) p = Some (dp_setWarningCallback ms p)"
| "pool_step w t ClearWarning p = Some ([], dp_clearWarningCallback p)"

text \<open>\<open>w\<close> is the thread a signal reaches, should the step give one.\<close>

definition pick_ok :: "dspool \<Rightarrow> int \<Rightarrow> bool" where
  "pick_ok p w \<longleftrightarrow> (asleep p \<noteq> {} \<longrightarrow> w \<in> asleep p)"

inductive pool_reach :: "bool \<Rightarrow> nat \<Rightarrow> nat \<Rightarrow> dspool \<Rightarrow> bool" for late mn mx where
  init: "dp_init ans mn mx = Some ([], p) \<Longrightarrow> \<forall>k. answer_ok (snd (ans k)) \<Longrightarrow> pool_reach late mn mx p"
| step: "pool_reach late mn mx p \<Longrightarrow> pool_enabled late p t op \<Longrightarrow> pick_ok p w \<Longrightarrow> pool_step w t op p = Some (xs, p') \<Longrightarrow> pool_reach late mn mx p'"

end
