(* ===== verification/Pool_Invariant.thy ===== *)
theory Pool_Invariant
  imports Pool_System
begin

text \<open>
  The invariant of the connection pool, and that every step keeps it and is defined.  A locale states what the pool
  relies on of an operation on a connection; its lemma carries the end of every call of the pool, and it is interpreted
  on the six actions.  The invariant is split in what holds of the pool at every moment of a call (\<open>pool_base\<close>) and what
  holds of the connection of one thread (\<open>held_ok\<close>), which a call of that thread may break until its end.
\<close>

section \<open>The invariant\<close>

definition parts_inv :: "dspool \<Rightarrow> bool" where
  "parts_inv p \<longleftrightarrow> distinct (free_list p) \<and> set (free_list p) \<inter> ran (tmap p) = {} \<and>
     set (free_list p) \<union> ran (tmap p) = {..<cmax p} \<and> cmax p \<le> dp_max p \<and> resources p = dom (tmap p) \<and>
     (\<forall>t fi. tmap p t = Some fi \<longrightarrow> tid_list p fi = Some t)"

definition conns_inv :: "dspool \<Rightarrow> bool" where
  "conns_inv p \<longleftrightarrow> (\<forall>d \<in> set (pool p). ds_ok d) \<and> (\<forall>fi \<in> set (free_list p). \<not> in_transaction (pool p ! fi))"

definition sleep_inv :: "dspool \<Rightarrow> bool" where
  "sleep_inv p \<longleftrightarrow> finite (asleep p) \<and> finite (awoken p) \<and> asleep p \<inter> awoken p = {} \<and>
     wait_count p = card (asleep p) + card (awoken p) \<and>
     (\<forall>t. sleeping p t \<longrightarrow> tmap p t = None \<and> (\<exists>c. calls p t = Some c \<and> ca_new c)) \<and>
     (\<forall>t. calls p t \<noteq> None \<longrightarrow> \<not> sleeping p t \<longrightarrow> tmap p t \<noteq> None)"

definition signal_inv :: "bool \<Rightarrow> dspool \<Rightarrow> bool" where
  "signal_inv late p \<longleftrightarrow> (\<not> late \<and> dp_valid p \<and> asleep p \<noteq> {} \<longrightarrow> cmax p = dp_max p \<and> length (free_list p) \<le> card (awoken p))"

definition pool_base :: "bool \<Rightarrow> dspool \<Rightarrow> bool" where
  "pool_base late p \<longleftrightarrow> parts_inv p \<and> conns_inv p \<and> sleep_inv p \<and> signal_inv late p \<and> stats_hits p \<le> stats_reqs p"

text \<open>The connection of a thread is open, unless the thread has only just got it.\<close>

definition held_ok :: "dspool \<Rightarrow> int \<Rightarrow> bool" where
  "held_ok p t \<longleftrightarrow> (case tmap p t of
     None \<Rightarrow> True
   | Some fi \<Rightarrow> (case calls p t of
       None \<Rightarrow> isopen (pool p ! fi)
     | Some c \<Rightarrow> if ca_new c then \<not> in_transaction (pool p ! fi) else isopen (pool p ! fi)))"

definition pool_inv :: "bool \<Rightarrow> dspool \<Rightarrow> bool" where
  "pool_inv late p \<longleftrightarrow> pool_base late p \<and> (\<forall>t. held_ok p t)"

definition others_inv :: "bool \<Rightarrow> int \<Rightarrow> dspool \<Rightarrow> bool" where
  "others_inv late t p \<longleftrightarrow> pool_base late p \<and> (\<forall>t'. t' \<noteq> t \<longrightarrow> held_ok p t')"

lemmas inv_defs = parts_inv_def conns_inv_def sleep_inv_def signal_inv_def sleeping_def

lemma pool_inv_others: "pool_inv late p \<longleftrightarrow> others_inv late t p \<and> held_ok p t"
  by (auto simp: pool_inv_def others_inv_def)

lemma parts_index: "parts_inv p \<Longrightarrow> tmap p t = Some fi \<Longrightarrow> fi < cmax p \<and> fi \<notin> set (free_list p)"
  by (auto simp: parts_inv_def ran_def)

lemma parts_inject: "parts_inv p \<Longrightarrow> tmap p t = Some fi \<Longrightarrow> tmap p t' = Some fi \<Longrightarrow> t = t'"
  unfolding parts_inv_def by (metis option.inject)

lemma ran_fun_upd_None:
  assumes "\<And>t'. m t' = Some v \<Longrightarrow> t' = t" "m t = Some v"
  shows "ran (m(t := None)) = ran m - {v}"
proof (rule set_eqI)
  fix x
  have "(\<exists>t'. t' \<noteq> t \<and> m t' = Some x) \<longleftrightarrow> (\<exists>t'. m t' = Some x) \<and> x \<noteq> v"
    using assms by (metis option.inject)
  then show "x \<in> ran (m(t := None)) \<longleftrightarrow> x \<in> ran m - {v}" by (auto simp: ran_def)
qed

text \<open>A change that leaves a thread's connection and call alone keeps what holds of them.\<close>

lemma held_ok_same:
  assumes "held_ok p t" "tmap q t = tmap p t" "calls q t = calls p t" "\<And>fi. tmap p t = Some fi \<Longrightarrow> pool q ! fi = pool p ! fi"
  shows "held_ok q t"
  using assms by (cases "tmap p t") (auto simp: held_ok_def split: option.splits)

lemma held_ok_none: "tmap p t = None \<Longrightarrow> held_ok p t"
  by (simp add: held_ok_def)

section \<open>The primitive changes\<close>

lemma others_index: "others_inv late t p \<Longrightarrow> tmap p t = Some fi \<Longrightarrow> fi < cmax p \<and> fi \<notin> set (free_list p)"
  by (simp add: others_inv_def pool_base_def parts_index)

lemma others_ds_ok: "others_inv late t p \<Longrightarrow> tmap p t = Some fi \<Longrightarrow> ds_ok (pool p ! fi)"
  using others_index [of late t p fi] by (auto simp: others_inv_def pool_base_def conns_inv_def)

lemma put_ds_fields [simp]:
  "tmap (put_ds fi d p) = tmap p" "calls (put_ds fi d p) = calls p" "free_list (put_ds fi d p) = free_list p"
  "asleep (put_ds fi d p) = asleep p" "awoken (put_ds fi d p) = awoken p" "pool (put_ds fi d p) = (pool p)[fi := d]"
  "tid_list (put_ds fi d p) = tid_list p" "dp_max (put_ds fi d p) = dp_max p" "resources (put_ds fi d p) = resources p"
  "wait_count (put_ds fi d p) = wait_count p" "dp_valid (put_ds fi d p) = dp_valid p"
  "stats_hits (put_ds fi d p) = stats_hits p" "stats_reqs (put_ds fi d p) = stats_reqs p"
  "warning_callback (put_ds fi d p) = warning_callback p"
  by (simp_all add: put_ds_def)

lemma put_ds_others:
  assumes "others_inv late t p" "tmap p t = Some fi" "ds_ok d"
  shows "others_inv late t (put_ds fi d p)"
proof -
  have b: "parts_inv p" "conns_inv p" "sleep_inv p" "signal_inv late p" "stats_hits p \<le> stats_reqs p"
    using assms(1) by (simp_all add: others_inv_def pool_base_def)
  have fi: "fi < cmax p" "fi \<notin> set (free_list p)" using parts_index [OF b(1) assms(2)] by simp_all
  have "parts_inv (put_ds fi d p)" using b(1) by (simp add: parts_inv_def)
  moreover have "conns_inv (put_ds fi d p)"
    using b(2) fi assms(3) set_update_subset_insert [of "pool p" fi d] by (fastforce simp: conns_inv_def nth_list_update)
  moreover have "sleep_inv (put_ds fi d p)" "signal_inv late (put_ds fi d p)"
    using b(3,4) by (simp_all add: sleep_inv_def signal_inv_def sleeping_def)
  moreover have "held_ok (put_ds fi d p) t'" if "t' \<noteq> t" for t'
  proof -
    have "held_ok p t'" using assms(1) that by (simp add: others_inv_def)
    moreover have "fi \<noteq> fi'" if "tmap p t' = Some fi'" for fi'
      using parts_inject [OF b(1) assms(2)] that \<open>t' \<noteq> t\<close> by metis
    ultimately show ?thesis by (auto intro: held_ok_same)
  qed
  ultimately show ?thesis using b(5) by (simp add: others_inv_def pool_base_def)
qed

text \<open>Giving a connection back: what \<open>freeDS\<close> and \<open>cleanup\<close> have in common.\<close>

definition give_back :: "int \<Rightarrow> int \<Rightarrow> nat \<Rightarrow> dspool \<Rightarrow> dspool" where
  "give_back w t fi p = dp_signal w (p\<lparr>resources := resources p - {t}, free_list := free_list p @ [fi], tmap := (tmap p)(t := None)\<rparr>)"

lemma give_back_fields [simp]:
  "tmap (give_back w t fi p) = (tmap p)(t := None)" "calls (give_back w t fi p) = calls p" "pool (give_back w t fi p) = pool p"
  "free_list (give_back w t fi p) = free_list p @ [fi]" "tid_list (give_back w t fi p) = tid_list p"
  "dp_max (give_back w t fi p) = dp_max p" "resources (give_back w t fi p) = resources p - {t}"
  "wait_count (give_back w t fi p) = wait_count p" "dp_valid (give_back w t fi p) = dp_valid p"
  "stats_hits (give_back w t fi p) = stats_hits p" "stats_reqs (give_back w t fi p) = stats_reqs p"
  "sleeping (give_back w t fi p) t' = sleeping p t'"
  by (auto simp: give_back_def dp_signal_def sleeping_def)

lemma dp_signal_max [simp]: "dp_max (dp_signal w p) = dp_max p"
  by (simp add: dp_signal_def)

lemma freeDS_give_back:
  "tmap p t = Some fi \<Longrightarrow> \<not> in_transaction (pool p ! fi) \<Longrightarrow> freeDS w t p = Some (give_back w t fi p)"
  by (simp add: freeDS_def give_back_def)

lemma give_back_sleepers:
  assumes "sleep_inv p" "pick_ok p w" and q_def: "q = give_back w t fi p"
  shows "finite (asleep q) \<and> finite (awoken q) \<and> asleep q \<inter> awoken q = {} \<and> wait_count p = card (asleep q) + card (awoken q) \<and>
    (asleep q \<noteq> {} \<longrightarrow> asleep p \<noteq> {} \<and> card (awoken q) = Suc (card (awoken p)))"
proof (cases "asleep p = {}")
  case True
  then have "asleep q = {}" "awoken q = awoken p" by (simp_all add: q_def give_back_def dp_signal_def)
  then show ?thesis using assms(1) True by (simp add: sleep_inv_def)
next
  case False
  then have w: "w \<in> asleep p" using assms(2) by (simp add: pick_ok_def)
  have f: "finite (asleep p)" "finite (awoken p)" "w \<notin> awoken p" "asleep p \<inter> awoken p = {}"
    "wait_count p = card (asleep p) + card (awoken p)" using assms(1) w by (auto simp: sleep_inv_def)
  have "wait_count p \<noteq> 0" using f(1,5) False by simp
  then have q: "asleep q = asleep p - {w}" "awoken q = insert w (awoken p)"
    using w by (simp_all add: q_def give_back_def dp_signal_def)
  have "card (asleep p) = Suc (card (asleep q))" unfolding q by (rule card.remove [OF f(1) w])
  moreover have "card (awoken q) = Suc (card (awoken p))" unfolding q using f(2,3) by simp
  moreover have "finite (asleep q)" "finite (awoken q)" "asleep q \<inter> awoken q = {}" using f unfolding q by auto
  ultimately show ?thesis using f(5) False by simp
qed

lemma give_back_inv:
  assumes "others_inv late t p" "tmap p t = Some fi" "\<not> in_transaction (pool p ! fi)" "calls p t = None" "pick_ok p w"
  shows "pool_inv late (give_back w t fi p)"
proof -
  let ?q = "give_back w t fi p"
  have b: "parts_inv p" "conns_inv p" "sleep_inv p" "signal_inv late p" "stats_hits p \<le> stats_reqs p"
    using assms(1) by (simp_all add: others_inv_def pool_base_def)
  note fi = parts_index [OF b(1) assms(2)]
  have r: "ran ((tmap p)(t := None)) = ran (tmap p) - {fi}"
    using parts_inject [OF b(1) _ assms(2)] by (intro ran_fun_upd_None assms(2))
  have "fi \<in> ran (tmap p)" using assms(2) by (rule ranI)
  then have "parts_inv ?q" using b(1) fi by (auto simp: parts_inv_def r)
  moreover have "conns_inv ?q" using b(2) assms(3) by (auto simp: conns_inv_def)
  moreover have ns: "\<not> sleeping p t" using b(3) assms(2) by (auto simp: sleep_inv_def)
  note sl = give_back_sleepers [OF b(3) assms(5) refl, of t fi]
  have "sleep_inv ?q" using b(3) ns assms(4) sl by (simp add: sleep_inv_def)
  moreover have "signal_inv late ?q" using b(4) sl by (simp add: signal_inv_def)
  moreover have "held_ok ?q t'" for t'
  proof (cases "t' = t")
    case True
    then show ?thesis by (simp add: held_ok_none)
  next
    case False
    then show ?thesis using assms(1) by (auto simp: others_inv_def intro: held_ok_same)
  qed
  ultimately show ?thesis using b(5) by (simp add: pool_inv_def pool_base_def)
qed

lemma freeDS_inv:
  assumes "others_inv late t p" "tmap p t = Some fi" "\<not> in_transaction (pool p ! fi)" "calls p t = None" "pick_ok p w"
  shows "\<exists>q. freeDS w t p = Some q \<and> pool_inv late q \<and> dp_max q = dp_max p"
  using give_back_inv [OF assms] freeDS_give_back [OF assms(2,3)] by simp

lemma others_kept:
  assumes "others_inv late t p" "tmap p t = Some fi" "isopen (pool p ! fi)" "calls p t = None"
  shows "pool_inv late p"
  using assms by (auto simp: pool_inv_others [of late p t] held_ok_def)

section \<open>The end of a call\<close>

text \<open>What the pool relies on of an operation on a usable connection.\<close>

locale ds_operation =
  fixes run :: "answers \<Rightarrow> datasource \<Rightarrow> ds_result" and cmd :: "bool \<Rightarrow> int \<Rightarrow> xsink \<Rightarrow> dah option"
  assumes run_defined: "ds_usable d \<Longrightarrow> answers_ok an \<Longrightarrow> \<exists>rc d' xs. run an d = Some (rc, d', xs) \<and> ds_after d'"
    and cmd_defined: "ds_usable d \<Longrightarrow> answers_ok an \<Longrightarrow> run an d = Some (rc, d', xs) \<Longrightarrow> cmd new rc xs \<noteq> None"
    and released_idle: "ds_usable d \<Longrightarrow> answers_ok an \<Longrightarrow> (new \<longrightarrow> \<not> in_transaction d) \<Longrightarrow> run an d = Some (rc, d', xs) \<Longrightarrow>
      cmd new rc xs = Some k \<Longrightarrow> k = DAH_RELEASE \<or> new \<and> k = DAH_NOCHANGE \<Longrightarrow> \<not> in_transaction d'"

lemma action_end_inv:
  assumes o: "others_inv late t p" and t: "tmap p t = Some fi" "calls p t = None" and w: "pick_ok p w" and
    d: "ds_after (pool p ! fi)" "cmd = DAH_RELEASE \<or> new \<and> cmd = DAH_NOCHANGE \<Longrightarrow> \<not> in_transaction (pool p ! fi)"
  shows "\<exists>q. action_end w t cmd new p = Some q \<and> pool_inv late q \<and> dp_max q = dp_max p"
proof -
  let ?d = "snd (keepLock (pool p ! fi))"
  have fi: "fi < cmax p" using others_index [OF o t(1)] by simp
  have k: "\<not> fst (keepLock (pool p ! fi))" "?d = pool p ! fi"
    using d(1) by (simp_all add: keepLock_def ds_after_def ds_ok_def)
  have p: "put_ds fi (pool p ! fi) p = p" using fi by (simp add: put_ds_def)
  have e: "action_end w t cmd new p =
    (if cmd = DAH_RELEASE \<or> connection_aborted (pool p ! fi) \<or> new \<and> cmd = DAH_NOCHANGE then freeDS w t p else Some p)"
    using k p t(1) by (simp add: action_end_def split_beta Let_def)
  have a: "connection_aborted (pool p ! fi) \<Longrightarrow> \<not> in_transaction (pool p ! fi)"
    using d(1) by (auto simp: ds_after_def ds_ok_def)
  show ?thesis
  proof (cases "cmd = DAH_RELEASE \<or> connection_aborted (pool p ! fi) \<or> new \<and> cmd = DAH_NOCHANGE")
    case True
    then show ?thesis using freeDS_inv [OF o t(1) _ t(2) w] d(2) a e by auto
  next
    case False
    then have "isopen (pool p ! fi)" using d(1) by (simp add: ds_after_def)
    then show ?thesis using others_kept [OF o t(1) _ t(2)] e False by (simp only: if_False) blast
  qed
qed

context ds_operation
begin

lemma act_inv:
  assumes "others_inv late t p" "tmap p t = Some fi" "calls p t = None" "pick_ok p w" "answers_ok an"
    "isopen (pool p ! fi)" "new \<longrightarrow> \<not> in_transaction (pool p ! fi)"
  shows "\<exists>xs q. pool_act w t (run an) cmd new p = Some (xs, q) \<and> pool_inv late q \<and> dp_max q = dp_max p"
proof -
  have fi: "fi < cmax p" using others_index [OF assms(1,2)] by simp
  have u: "ds_usable (pool p ! fi)" using others_ds_ok [OF assms(1,2)] assms(6) by (simp add: ds_usable_def)
  obtain rc d xs where r: "run an (pool p ! fi) = Some (rc, d, xs)" and d: "ds_after d"
    using run_defined [OF u assms(5)] by blast
  obtain k where k: "cmd new rc xs = Some k" using cmd_defined [OF u assms(5) r] by blast
  have o: "others_inv late t (put_ds fi d p)"
    using put_ds_others [OF assms(1,2)] d by (simp add: ds_after_def)
  have "\<exists>q. action_end w t k new (put_ds fi d p) = Some q \<and> pool_inv late q \<and> dp_max q = dp_max (put_ds fi d p)"
    using released_idle [OF u assms(5,7) r k] d assms(2,3,4) fi
    by (intro action_end_inv [OF o]) (auto simp: pick_ok_def)
  then show ?thesis using assms(2) r k by (auto simp: pool_act_def)
qed

end

lemma run_action_ok:
  assumes "ds_usable d" "answers_ok an"
  shows "\<exists>rc d' xs. run_action a an d = Some (rc, d', xs) \<and> ds_after d'"
proof -
  have a: "answer_ok (an_begin an)" "answer_ok (an_call an)" "answer_ok (an_auto an)"
    using assms(2) by (simp_all add: answers_ok_def)
  have info: "\<exists>rc d' xs. driver_call (an_call an) d [] = Some (rc, d', xs) \<and> ds_after d'"
    using assms(1) a(2) by (auto simp: ds_defs ds_after_def)
  show ?thesis
  proof (cases a)
    case ASelect
    then show ?thesis using ds_select_ok [OF assms(1) a(2,3)] by auto
  next
    case AInfo
    then show ?thesis using info by simp
  next
    case AExec
    then show ?thesis using ds_exec_ok [OF assms(1) a(2,1,3)] by simp
  next
    case ABegin
    then show ?thesis using ds_beginTransaction_ok [OF assms(1) a(1)] by auto
  next
    case ACommit
    then show ?thesis using ds_finish_ok(1) [OF assms(1) a(2,1), of "[]"] by auto
  next
    case ARollback
    then show ?thesis using ds_finish_ok(2) [OF assms(1) a(2,1), of "[]"] by auto
  qed
qed

interpretation acts: ds_operation "run_action a" "action_cmd a" for a
proof (unfold_locales, goal_cases)
  case (1 d an)
  then show ?case by (rule run_action_ok)
next
  case (2 d an rc d' xs new)
  then show ?case by (cases a) (use ds_beginTransaction_ok [of d "an_begin an"] in \<open>auto simp: answers_ok_def\<close>)
next
  case (3 d an new rc d' xs k)
  then show ?case
    using ds_select_ok [of d "an_call an" "an_auto an"] ds_beginTransaction_ok [of d "an_begin an"]
      ds_finish_ok [of d "an_call an" "an_begin an" "[]"] driver_call_cases [of d "an_call an" "[]" rc d' xs]
    by (cases a) (auto simp: answers_ok_def split: if_splits)
qed

section \<open>The steps\<close>

lemma end_call_fields [simp]:
  "tmap (end_call t p) = tmap p" "calls (end_call t p) = (calls p)(t := None)" "free_list (end_call t p) = free_list p"
  "asleep (end_call t p) = asleep p" "awoken (end_call t p) = awoken p" "pool (end_call t p) = pool p"
  "tid_list (end_call t p) = tid_list p" "dp_max (end_call t p) = dp_max p" "resources (end_call t p) = resources p"
  "wait_count (end_call t p) = wait_count p" "dp_valid (end_call t p) = dp_valid p"
  "stats_hits (end_call t p) = stats_hits p" "stats_reqs (end_call t p) = stats_reqs p"
  "warning_callback (end_call t p) = warning_callback p" "sleeping (end_call t p) = sleeping p"
  by (auto simp: end_call_def sleeping_def fun_eq_iff)

lemma end_call_others:
  assumes "pool_inv late p" "\<not> sleeping p t"
  shows "others_inv late t (end_call t p)"
proof -
  have "parts_inv (end_call t p) \<and> conns_inv (end_call t p) \<and> signal_inv late (end_call t p)"
    using assms(1) by (simp add: pool_inv_def pool_base_def parts_inv_def conns_inv_def signal_inv_def)
  moreover have "sleep_inv (end_call t p)"
    using assms unfolding pool_inv_def pool_base_def sleep_inv_def by (auto simp: fun_upd_apply)
  moreover have "held_ok (end_call t p) t'" if "t' \<noteq> t" for t'
    using assms(1) that by (auto simp: pool_inv_def intro: held_ok_same)
  ultimately show ?thesis using assms(1) by (simp add: others_inv_def pool_inv_def pool_base_def)
qed

lemma getDS_open_inv:
  assumes o: "others_inv late t p" and t: "tmap p t = Some fi" "calls p t = None" and w: "pick_ok p w" and
    an: "answers_ok an" and d: "if new then \<not> in_transaction (pool p ! fi) else isopen (pool p ! fi)"
  shows "\<exists>got xs q. getDS_open w t an new p = Some (got, xs, q) \<and> dp_max q = dp_max p \<and>
    (if got then others_inv late t q \<and> tmap q t = Some fi \<and> calls q t = None \<and> pick_ok q w \<and> isopen (pool q ! fi) \<and>
       (new \<longrightarrow> \<not> in_transaction (pool q ! fi)) else pool_inv late q)"
proof (cases "isopen (pool p ! fi)")
  case True
  then show ?thesis using assms by (auto simp: getDS_open_def)
next
  case False
  then have n: "new" "\<not> in_transaction (pool p ! fi)" using d by (auto split: if_splits)
  obtain rc d' xs where e: "ds_open (an_open an) (pool p ! fi) [] = (rc, d', xs)" using prod_cases3 by blast
  have fi: "fi < cmax p" using others_index [OF o t(1)] by simp
  have k: "ds_ok d'" "rc = 0 \<longleftrightarrow> isopen d'" "rc = 0 \<longleftrightarrow> xs = []" "\<not> in_transaction d'"
    using ds_open_ok [OF others_ds_ok [OF o t(1)] _ e] an n by (auto simp: answers_ok_def)
  have o': "others_inv late t (put_ds fi d' p)" by (rule put_ds_others [OF o t(1) k(1)])
  have "\<exists>q. freeDS w t (put_ds fi d' p) = Some q \<and> pool_inv late q \<and> dp_max q = dp_max (put_ds fi d' p)"
    using t w k(4) fi by (intro freeDS_inv [OF o']) (auto simp: pick_ok_def)
  then show ?thesis using False n e t k fi o' w by (cases "rc = 0") (auto simp: getDS_open_def pick_ok_def)
qed

text \<open>The warning counts one more request, and nothing else changes.\<close>

definition count_hit :: "dspool \<Rightarrow> dspool" where
  "count_hit p = p\<lparr>stats_reqs := stats_reqs p + 1, stats_hits := stats_hits p + 1\<rparr>"

lemma count_hit_fields [simp]:
  "tmap (count_hit p) = tmap p" "calls (count_hit p) = calls p" "free_list (count_hit p) = free_list p"
  "asleep (count_hit p) = asleep p" "awoken (count_hit p) = awoken p" "pool (count_hit p) = pool p"
  "tid_list (count_hit p) = tid_list p" "dp_max (count_hit p) = dp_max p" "resources (count_hit p) = resources p"
  "wait_count (count_hit p) = wait_count p" "dp_valid (count_hit p) = dp_valid p" "sleeping (count_hit p) = sleeping p"
  "stats_reqs (count_hit p) = stats_reqs p + 1" "stats_hits (count_hit p) = stats_hits p + 1"
  by (auto simp: count_hit_def sleeping_def fun_eq_iff)

lemma count_hit_base: "pool_base late p \<Longrightarrow> pool_base late (count_hit p)"
  by (simp add: pool_base_def parts_inv_def conns_inv_def sleep_inv_def signal_inv_def)

lemma count_hit_others: "others_inv late t p \<Longrightarrow> others_inv late t (count_hit p)"
  by (auto simp: others_inv_def count_hit_base intro: held_ok_same)

lemma checkWait_cases:
  assumes "others_inv late t p" "tmap p t = Some fi" "checkWait w t an us p = Some (xs, q)"
  shows "xs = [] \<and> q = p \<or> q = count_hit p"
proof (cases "\<not> warning_callback p \<or> us sdiv 1000 < tl_warning_ms p")
  case False
  have d: "ds_ok (pool p ! fi)" by (rule others_ds_ok [OF assms(1,2)])
  have fi: "fi < cmax p" using others_index [OF assms(1,2)] by simp
  have "isopen (pool p ! fi)" using False assms(2,3) by (auto simp: checkWait_def split: if_splits)
  moreover have "put_ds fi (pool p ! fi) (count_hit p) = count_hit p" using fi by (simp add: put_ds_def)
  ultimately have "action_end w t DAH_NOCHANGE False (count_hit p) = Some (count_hit p)"
    using d assms(2) by (auto simp: action_end_def keepLock_off ds_ok_def Let_def)
  then show ?thesis using False assms(2,3) by (auto simp: checkWait_def count_hit_def [symmetric] split: if_splits)
qed (use assms(3) in \<open>auto simp: checkWait_def\<close>)

text \<open>The state of the pool when \<open>getDS\<close> has returned.\<close>

definition got_inv :: "bool \<Rightarrow> int \<Rightarrow> int \<Rightarrow> nat \<Rightarrow> bool \<Rightarrow> bool \<Rightarrow> dspool \<Rightarrow> bool" where
  "got_inv late w t fi new got q \<longleftrightarrow>
     (if got then others_inv late t q \<and> tmap q t = Some fi \<and> calls q t = None \<and> pick_ok q w \<and> isopen (pool q ! fi) \<and>
        (new \<longrightarrow> \<not> in_transaction (pool q ! fi)) else pool_inv late q)"

lemma getDS_rest_inv:
  assumes o: "others_inv late t p" and t: "tmap p t = Some fi" "calls p t = None" and w: "pick_ok p w" and
    an: "answers_ok an" and d: "if ca_new c then \<not> in_transaction (pool p ! fi) else isopen (pool p ! fi)" and
    r: "getDS_rest w t an c p = Some (got, xs, q)"
  shows "got_inv late w t fi (ca_new c) got q \<and> dp_max q = dp_max p"
proof -
  obtain ys p' where c: "(if ca_wait c \<noteq> 0 then checkWait w t an (ca_wait c) p else Some ([], p)) = Some (ys, p')" and
    r': "(if ys \<noteq> [] then if ca_new c then map_option (\<lambda>p. (False, ys, p)) (freeDS w t p') else None
          else getDS_open w t an (ca_new c) p') = Some (got, xs, q)"
    using r t(1) by (auto simp: getDS_rest_def split: option.splits if_splits)
  have "p' = p \<or> p' = count_hit p" using c checkWait_cases [OF o t(1), of w an "ca_wait c" ys p'] by (auto split: if_splits)
  then have p': "others_inv late t p'" "tmap p' t = Some fi" "calls p' t = None" "pick_ok p' w" "pool p' = pool p" "dp_max p' = dp_max p"
    using o t w count_hit_others [OF o] by (auto simp: pick_ok_def)
  show ?thesis
  proof (cases "ys = []")
    case True
    then show ?thesis using getDS_open_inv [OF p'(1-4) an, of "ca_new c"] d r' p'(5,6) by (auto simp: got_inv_def)
  next
    case False
    then have "ca_new c" using r' by (auto split: if_splits)
    then show ?thesis using freeDS_inv [OF p'(1,2) _ p'(3,4)] False d r' p'(5,6) by (auto simp: got_inv_def)
  qed
qed

lemma getDS_rest_defined:
  assumes o: "others_inv late t p" and t: "tmap p t = Some fi" "calls p t = None" and w: "pick_ok p w" and
    an: "answers_ok an" and d: "if ca_new c then \<not> in_transaction (pool p ! fi) else isopen (pool p ! fi)" and
    cb: "\<not> warning_callback p"
  shows "getDS_rest w t an c p \<noteq> None"
proof -
  have "getDS_rest w t an c p = getDS_open w t an (ca_new c) p"
    using t(1) d cb by (auto simp: getDS_rest_def checkWait_def)
  then show ?thesis using getDS_open_inv [OF o t w an d] by auto
qed

lemma finish_start:
  assumes "pool_inv late p" "pool_enabled late p t (Finish an)"
  obtains c fi where "calls p t = Some c" "tmap p t = Some fi" "others_inv late t (end_call t p)"
    "if ca_new c then \<not> in_transaction (pool p ! fi) else isopen (pool p ! fi)"
proof -
  have s: "\<not> sleeping p t" and "calls p t \<noteq> None" using assms(2) by auto
  then obtain c where c: "calls p t = Some c" by blast
  then obtain fi where fi: "tmap p t = Some fi" using assms(1) s by (auto simp: pool_inv_def pool_base_def sleep_inv_def)
  moreover have "held_ok p t" using assms(1) by (simp add: pool_inv_def)
  ultimately show ?thesis using that [OF c fi end_call_others [OF assms(1) s]] c by (simp add: held_ok_def)
qed

lemma finish_inv:
  assumes "pool_inv late p" "pool_enabled late p t (Finish an)" "pick_ok p w" "pool_finish w t an p = Some (xs, q)"
  shows "pool_inv late q \<and> dp_max q = dp_max p"
proof -
  obtain c fi where c: "calls p t = Some c" "tmap p t = Some fi" "others_inv late t (end_call t p)"
    "if ca_new c then \<not> in_transaction (pool p ! fi) else isopen (pool p ! fi)"
    using finish_start [OF assms(1,2)] by blast
  have an: "answers_ok an" using assms(2) by simp
  obtain got ys p' where r: "getDS_rest w t an c (end_call t p) = Some (got, ys, p')" and
    r': "(if \<not> got then Some (ys, p') else pool_act w t (run_action (ca_action c) an) (action_cmd (ca_action c)) (ca_new c) p') = Some (xs, q)"
    using assms(4) c(1) by (auto simp: pool_finish_def split: option.splits prod.splits)
  have g: "got_inv late w t fi (ca_new c) got p' \<and> dp_max p' = dp_max p"
    using getDS_rest_inv [OF c(3) _ _ _ an _ r] c assms(3) by (simp add: pick_ok_def)
  show ?thesis
  proof (cases got)
    case True
    then show ?thesis using acts.act_inv [of late t p' fi w an "ca_new c" "ca_action c"] g r' an by (auto simp: got_inv_def)
  next
    case False
    then show ?thesis using g r' by (auto simp: got_inv_def)
  qed
qed

lemma finish_defined:
  assumes "pool_inv late p" "pool_enabled late p t (Finish an)" "pick_ok p w" "\<not> warning_callback p"
  shows "pool_finish w t an p \<noteq> None"
proof -
  obtain c fi where c: "calls p t = Some c" "tmap p t = Some fi" "others_inv late t (end_call t p)"
    "if ca_new c then \<not> in_transaction (pool p ! fi) else isopen (pool p ! fi)"
    using finish_start [OF assms(1,2)] by blast
  have an: "answers_ok an" using assms(2) by simp
  have w: "pick_ok (end_call t p) w" using assms(3) by (simp add: pick_ok_def)
  have "getDS_rest w t an c (end_call t p) \<noteq> None"
    using getDS_rest_defined [OF c(3) _ _ w an] c assms(4) by simp
  then obtain got ys p' where r: "getDS_rest w t an c (end_call t p) = Some (got, ys, p')" by auto
  have g: "got_inv late w t fi (ca_new c) got p'"
    using getDS_rest_inv [OF c(3) _ _ w an _ r] c by simp
  show ?thesis
  proof (cases got)
    case True
    then show ?thesis using acts.act_inv [of late t p' fi w an "ca_new c" "ca_action c"] g r c(1) an
      by (auto simp: got_inv_def pool_finish_def)
  next
    case False
    then show ?thesis using r c(1) by (simp add: pool_finish_def)
  qed
qed

text \<open>The loop of \<open>getDSIntern\<close>, entered by a thread without a connection.  A thread that has just been woken up takes a
  connection from the free list or finds it empty, so it may enter the loop with one connection more than there are woken
  threads.\<close>

definition entry_inv :: "bool \<Rightarrow> int \<Rightarrow> call \<Rightarrow> dspool \<Rightarrow> bool" where
  "entry_inv late t c p \<longleftrightarrow> parts_inv p \<and> conns_inv p \<and> sleep_inv p \<and> (\<forall>t. held_ok p t) \<and> tmap p t = None \<and> calls p t = None \<and> ca_new c \<and>
     (\<not> late \<and> dp_valid p \<and> asleep p \<noteq> {} \<longrightarrow> cmax p = dp_max p \<and> length (free_list p) \<le> Suc (card (awoken p))) \<and>
     stats_hits p + (if ca_iter c then 0 else 1) \<le> stats_reqs p"

lemma parts_take:
  assumes "parts_inv p" "tmap p t = None" "free_list p = fi # fl"
  shows "parts_inv (dp_take t fi c (p\<lparr>free_list := fl\<rparr>))"
proof -
  have "fi \<notin> ran (tmap p)" using assms(1,3) by (auto simp: parts_inv_def)
  then have "tmap p t' \<noteq> Some fi" for t' by (auto simp: ran_def)
  then show ?thesis using assms by (auto simp: parts_inv_def dp_take_def ran_map_upd)
qed

lemma parts_create:
  assumes "parts_inv p" "tmap p t = None" "free_list p = []" "cmax p < dp_max p"
  shows "parts_inv (dp_take t (cmax p) c (p\<lparr>pool := pool p @ [d]\<rparr>))"
proof -
  have "tmap p t' \<noteq> Some (cmax p)" for t' using parts_index [OF assms(1)] by blast
  then show ?thesis using assms by (auto simp: parts_inv_def dp_take_def ran_map_upd)
qed

lemma sleep_take:
  assumes "sleep_inv p" "calls p t = None"
  shows "sleep_inv (dp_take t fi c (p\<lparr>free_list := fl, pool := ds\<rparr>))"
proof -
  have "\<not> sleeping p t" using assms by (auto simp: sleep_inv_def)
  then show ?thesis using assms by (auto simp: sleep_inv_def dp_take_def sleeping_def)
qed

lemma held_take:
  assumes "\<forall>t. held_ok p t" "tmap p t = None" "ca_new c" "\<not> in_transaction (ds ! fi)"
    "\<And>t' j. tmap p t' = Some j \<Longrightarrow> ds ! j = pool p ! j"
  shows "held_ok (dp_take t fi c (p\<lparr>free_list := fl, pool := ds\<rparr>)) t'"
proof (cases "t' = t")
  case True
  then show ?thesis using assms(3,4) by (simp add: held_ok_def dp_take_def)
next
  case False
  then show ?thesis using assms(1,5) by (auto simp: dp_take_def intro: held_ok_same)
qed

lemma get_loop_inv:
  assumes "entry_inv late t c p" "get_loop cx t c p = Some q"
  shows "pool_inv late q \<and> dp_max q = dp_max p"
proof -
  have e: "parts_inv p" "conns_inv p" "sleep_inv p" "\<forall>t. held_ok p t" "tmap p t = None" "calls p t = None" "ca_new c"
    "\<not> late \<and> dp_valid p \<and> asleep p \<noteq> {} \<longrightarrow> cmax p = dp_max p \<and> length (free_list p) \<le> Suc (card (awoken p))"
    "stats_hits p + (if ca_iter c then 0 else 1) \<le> stats_reqs p"
    using assms(1) by (auto simp: entry_inv_def)
  have ns: "\<not> sleeping p t" using e(3,6) by (auto simp: sleep_inv_def)
  show ?thesis
  proof (cases "free_list p")
    case (Cons fi fl)
    let ?q = "dp_take t fi c (p\<lparr>free_list := fl\<rparr>)"
    have "parts_inv ?q" by (rule parts_take [OF e(1,5) Cons])
    moreover have "conns_inv ?q" using e(2) Cons by (simp add: conns_inv_def dp_take_def)
    moreover have "sleep_inv ?q" using sleep_take [OF e(3,6), of fi c "pool p" fl] by simp
    moreover have "signal_inv late ?q" using e(8) Cons by (auto simp: signal_inv_def dp_take_def)
    moreover have "held_ok ?q t'" for t'
      using held_take [where ds = "pool p" and fi = fi and fl = fl and t' = t', OF e(4,5,7)] e(2) Cons by (simp add: conns_inv_def)
    moreover have "q = ?q" using assms(2) Cons by (simp add: get_loop_def)
    ultimately show ?thesis using e(9) by (simp add: pool_inv_def pool_base_def dp_take_def)
  next
    case Nil
    show ?thesis
    proof (cases "cmax p < dp_max p")
      case True
      let ?q = "dp_take t (cmax p) c (p\<lparr>pool := pool p @ [ds_new]\<rparr>)"
      have "parts_inv ?q" by (rule parts_create [OF e(1,5) Nil True])
      moreover have "conns_inv ?q" using e(2) Nil by (simp add: conns_inv_def dp_take_def ds_new_ok)
      moreover have "sleep_inv ?q" using sleep_take [OF e(3,6), of "cmax p" c "pool p @ [ds_new]" "free_list p"] by simp
      moreover have "signal_inv late ?q" using e(8) True by (auto simp: signal_inv_def dp_take_def)
      moreover have "held_ok ?q t'" for t'
      proof -
        have "held_ok (dp_take t (cmax p) c (p\<lparr>free_list := free_list p, pool := pool p @ [ds_new]\<rparr>)) t'"
          using parts_index [OF e(1)] by (intro held_take [OF e(4,5,7)]) (auto simp: nth_append, simp add: ds_new_def)
        then show ?thesis by simp
      qed
      moreover have "q = ?q" using assms(2) Nil True by (simp add: get_loop_def split: if_splits)
      ultimately show ?thesis using e(9) by (simp add: pool_inv_def pool_base_def dp_take_def)
    next
      case False
      have q: "q = p\<lparr>wait_count := wait_count p + 1, asleep := insert t (asleep p),
        calls := (calls p)(t \<mapsto> c\<lparr>ca_timed := tl_timeout_ms p \<noteq> 0\<rparr>)\<rparr>" using assms(2) Nil False by (simp add: get_loop_def)
      have "parts_inv q" "conns_inv q" using e(1,2) q by (simp_all add: parts_inv_def conns_inv_def)
      moreover have "sleep_inv q" using e(3,5,7) ns q by (auto simp: sleep_inv_def sleeping_def)
      moreover have "signal_inv late q" using e(1) False Nil q by (auto simp: signal_inv_def parts_inv_def)
      moreover have "held_ok q t'" for t'
      proof (cases "t' = t")
        case True
        then show ?thesis using e(5) q by (simp add: held_ok_none)
      next
        case False
        then show ?thesis using e(4) q by (auto intro: held_ok_same)
      qed
      ultimately show ?thesis using e(9) q by (auto simp: pool_inv_def pool_base_def split: if_splits)
    qed
  qed
qed

lemma get_loop_defined: "get_loop [] t c p \<noteq> None"
  by (simp add: get_loop_def split: list.splits)

lemma call_inv:
  assumes "pool_inv late p" "pool_enabled late p t (Call a cx)" "getDSIntern cx t a p = Some q"
  shows "pool_inv late q \<and> dp_max q = dp_max p"
proof (cases "tmap p t")
  case None
  then have "entry_inv late t (new_call a True) (p\<lparr>stats_reqs := stats_reqs p + 1\<rparr>)"
    using assms by (auto simp: entry_inv_def pool_inv_def pool_base_def parts_inv_def conns_inv_def sleep_inv_def
        signal_inv_def sleeping_def new_call_def intro: held_ok_same)
  from get_loop_inv [OF this, of cx q] show ?thesis using None assms(3) by (simp add: getDSIntern_def)
next
  case (Some fi)
  have q: "q = p\<lparr>stats_reqs := stats_reqs p + 1, stats_hits := stats_hits p + 1, calls := (calls p)(t \<mapsto> new_call a False)\<rparr>"
    using Some assms(3) by (simp add: getDSIntern_def)
  have h: "held_ok p t'" for t' using assms(1) by (simp add: pool_inv_def)
  have "held_ok q t'" for t'
  proof (cases "t' = t")
    case True
    then show ?thesis using h [of t] Some assms(2) q by (simp add: held_ok_def new_call_def)
  next
    case False
    then show ?thesis using h [of t'] q by (auto intro: held_ok_same)
  qed
  moreover have "parts_inv q" "conns_inv q" "signal_inv late q" "stats_hits q \<le> stats_reqs q"
    using assms(1) q by (simp_all add: pool_inv_def pool_base_def parts_inv_def conns_inv_def signal_inv_def)
  moreover have "sleep_inv q"
    using assms(1,2) Some q unfolding pool_inv_def pool_base_def sleep_inv_def sleeping_def by auto
  ultimately show ?thesis using q by (simp add: pool_inv_def pool_base_def)
qed

lemma call_defined: "getDSIntern [] t a p \<noteq> None"
  using get_loop_defined by (simp add: getDSIntern_def Let_def split: option.splits)

definition wake_up :: "int \<Rightarrow> dspool \<Rightarrow> dspool" where
  "wake_up t p = end_call t (p\<lparr>wait_count := wait_count p - 1, asleep := asleep p - {t}, awoken := awoken p - {t}\<rparr>)"

lemma wake_up_sleep:
  assumes "sleep_inv p" "sleeping p t"
  shows "sleep_inv (wake_up t p) \<and> (if t \<in> asleep p then awoken (wake_up t p) = awoken p
    else asleep (wake_up t p) = asleep p \<and> card (awoken p) = Suc (card (awoken (wake_up t p))))"
proof -
  have s: "finite (asleep p)" "finite (awoken p)" "asleep p \<inter> awoken p = {}" "wait_count p = card (asleep p) + card (awoken p)"
    using assms(1) by (simp_all add: sleep_inv_def)
  have x: "asleep (wake_up t p) = asleep p - {t}" "awoken (wake_up t p) = awoken p - {t}" "wait_count (wake_up t p) = wait_count p - 1"
    by (simp_all add: wake_up_def)
  have c1: "card (asleep p) = Suc (card (asleep p - {t}))" "awoken p - {t} = awoken p" if "t \<in> asleep p"
    using card.remove [OF s(1) that] that s(3) by blast+
  have c2: "card (awoken p) = Suc (card (awoken p - {t}))" "asleep p - {t} = asleep p" if "t \<notin> asleep p"
    using card.remove [OF s(2), of t] that assms(2) by (auto simp: sleeping_def simp del: card_Diff_insert)
  have "wait_count (wake_up t p) = card (asleep (wake_up t p)) + card (awoken (wake_up t p))"
  proof (cases "t \<in> asleep p")
    case True
    then show ?thesis unfolding x c1(2) [OF True] using c1(1) [OF True] s(4) by linarith
  next
    case False
    then show ?thesis unfolding x c2(2) [OF False] using c2(1) [OF False] s(4) by linarith
  qed
  moreover have "sleeping (wake_up t p) t' \<longleftrightarrow> sleeping p t' \<and> t' \<noteq> t" for t' by (auto simp: sleeping_def x)
  moreover have "tmap (wake_up t p) = tmap p" "calls (wake_up t p) = (calls p)(t := None)" by (simp_all add: wake_up_def)
  ultimately have "sleep_inv (wake_up t p)"
    using assms(1) s(1-3) unfolding sleep_inv_def by (auto simp: x)
  then show ?thesis unfolding x using c1(2) c2 by presburger
qed

lemma wake_up_inv:
  assumes "pool_inv late p" "sleeping p t"
  shows "parts_inv (wake_up t p)" "conns_inv (wake_up t p)" "held_ok (wake_up t p) t'" "tmap (wake_up t p) t = None"
    "stats_hits (wake_up t p) \<le> stats_reqs (wake_up t p)"
proof -
  have n: "tmap p t = None" using assms by (auto simp: pool_inv_def pool_base_def sleep_inv_def)
  show "parts_inv (wake_up t p)" "conns_inv (wake_up t p)" "tmap (wake_up t p) t = None" "stats_hits (wake_up t p) \<le> stats_reqs (wake_up t p)"
    using assms(1) n by (simp_all add: pool_inv_def pool_base_def wake_up_def parts_inv_def conns_inv_def)
  show "held_ok (wake_up t p) t'"
  proof (cases "t' = t")
    case True
    then show ?thesis using n by (simp add: held_ok_none wake_up_def)
  next
    case False
    then show ?thesis using assms(1) by (auto simp: pool_inv_def wake_up_def intro: held_ok_same)
  qed
qed

lemma get_loop_calls: "get_loop cx t c (end_call t p) = get_loop cx t c p"
  by (simp add: get_loop_def end_call_def dp_take_def split: list.splits)

lemma get_wake_cases:
  assumes "calls p t = Some c"
  shows "get_wake cx timed us t p =
    (if \<not> dp_valid p then Some ([''DATASOURCEPOOL-ERROR''], wake_up t p)
     else if timed \<and> tl_timeout_ms p \<noteq> 0 then Some ([''DATASOURCEPOOL-TIMEOUT''], wake_up t p)
     else map_option (Pair []) (get_loop cx t (c\<lparr>ca_wait := ca_wait c + us, ca_iter := True\<rparr>) (wake_up t p)))"
  using assms by (simp add: get_wake_def wake_up_def get_loop_calls Let_def)

lemma sleeping_call: "pool_inv late p \<Longrightarrow> sleeping p t \<Longrightarrow> \<exists>c. calls p t = Some c \<and> ca_new c"
  by (simp add: pool_inv_def pool_base_def sleep_inv_def)

lemma wake_inv:
  assumes "pool_inv late p" "sleeping p t" "timed \<Longrightarrow> t \<in> asleep p \<or> late" "get_wake cx timed us t p = Some (xs, q)"
  shows "pool_inv late q \<and> dp_max q = dp_max p"
proof -
  have b: "sleep_inv p" "signal_inv late p" using assms(1) by (simp_all add: pool_inv_def pool_base_def)
  obtain c where c: "calls p t = Some c" "ca_new c" using sleeping_call [OF assms(1,2)] by blast
  note wu = wake_up_inv [OF assms(1,2)] and s = wake_up_sleep [OF b(1) assms(2)]
  have f: "dp_valid (wake_up t p) = dp_valid p" "cmax (wake_up t p) = cmax p" "dp_max (wake_up t p) = dp_max p"
    "free_list (wake_up t p) = free_list p" "calls (wake_up t p) t = None" "asleep (wake_up t p) \<subseteq> asleep p"
    by (auto simp: wake_up_def)
  have sig: "pool_inv late (wake_up t p)" if "dp_valid p \<Longrightarrow> t \<in> asleep p \<or> late"
  proof -
    have "signal_inv late (wake_up t p)" using b(2) that s f by (auto simp: signal_inv_def)
    then show ?thesis using wu s by (simp add: pool_inv_def pool_base_def)
  qed
  have "entry_inv late t (c\<lparr>ca_wait := ca_wait c + us, ca_iter := True\<rparr>) (wake_up t p)" if "dp_valid p"
    using wu s c(2) f b(2) that by (auto simp: entry_inv_def signal_inv_def split: if_splits)
  from get_loop_inv [OF this, of cx q] show ?thesis
    using assms(4) sig assms(3) f(3) unfolding get_wake_cases [OF c(1)] by (auto split: if_splits)
qed

lemma wake_defined: "pool_inv late p \<Longrightarrow> sleeping p t \<Longrightarrow> get_wake [] timed us t p \<noteq> None"
  using sleeping_call [of late p t] get_wake_cases [of p t _ "[]" timed us] get_loop_defined by auto

lemma cleanup_inv:
  assumes "pool_inv late p" "pool_enabled late p t (ThreadExit an)" "pick_ok p w"
  shows "\<exists>xs q. dp_cleanup w t an p = Some (xs, q) \<and> pool_inv late q \<and> dp_max q = dp_max p"
proof -
  have b: "parts_inv p" "calls p t = None" "answers_ok an" "t \<in> resources p"
    using assms by (simp_all add: pool_inv_def pool_base_def)
  then obtain fi where fi: "tmap p t = Some fi" by (auto simp: parts_inv_def)
  have o: "others_inv late t p" and h: "held_ok p t" using assms(1) by (simp_all add: pool_inv_others [of late p t])
  have lt: "fi < cmax p" using others_index [OF o fi] by simp
  have "ds_usable (pool p ! fi)" using others_ds_ok [OF o fi] h fi b(2) by (simp add: ds_usable_def held_ok_def)
  then obtain rc d xs where r: "ds_rollback (an_begin an) (an_call an) (pool p ! fi) [''DATASOURCEPOOL-LOCK-EXCEPTION''] = Some (rc, d, xs)"
    and d: "ds_after d" "\<not> in_transaction d" using ds_finish_ok(2) b(3) unfolding answers_ok_def by blast
  have "pool_inv late (give_back w t fi (put_ds fi d p))"
    using put_ds_others [OF o fi] d fi b(2) assms(3) lt by (intro give_back_inv) (auto simp: pick_ok_def ds_after_def)
  then show ?thesis using r fi by (simp add: dp_cleanup_def give_back_def Let_def)
qed

lemma destructor_inv:
  assumes "pool_inv late p" "pool_enabled late p t (Destroy an)" "pick_ok p w"
  shows "\<exists>xs q. dp_destructor w t an p = Some (xs, q) \<and> pool_inv late q \<and> dp_max q = dp_max p"
proof -
  define p' where "p' = p\<lparr>dp_valid := False\<rparr>"
  have i: "pool_inv late p'"
    using assms(1) by (auto simp: p'_def pool_inv_def pool_base_def parts_inv_def conns_inv_def sleep_inv_def signal_inv_def
        sleeping_def intro: held_ok_same)
  have p': "tmap p' = tmap p" "pool p' = pool p" "calls p' t = None" "pick_ok p' w" "answers_ok an" "dp_max p' = dp_max p"
    using assms(2,3) by (simp_all add: p'_def pick_ok_def)
  define es where "es = map (\<lambda>j. ''DATASOURCEPOOL-ERROR'') (filter (\<lambda>j. Some j \<noteq> tmap p t \<and> in_transaction (pool p ! j)) [0..<cmax p])"
  have D: "dp_destructor w t an p = (case tmap p t of
      None \<Rightarrow> Some (es, p')
    | Some fi \<Rightarrow>
        if in_transaction (pool p ! fi)
        then (case ds_rollback (an_begin an) (an_call an) (pool p ! fi) (raiseException es ''DATASOURCEPOOL-LOCK-EXCEPTION'') of
                None \<Rightarrow> None
              | Some (rc, d, xs) \<Rightarrow> map_option (Pair xs) (freeDS w t (put_ds fi d p')))
        else Some (es, p'))"
    unfolding p'_def es_def by (cases "tmap p t") (simp_all add: dp_destructor_def Let_def)
  have o: "others_inv late t p'" and h: "held_ok p' t" using i by (simp_all add: pool_inv_others [of late p' t])
  show ?thesis
  proof (cases "\<exists>fi. tmap p t = Some fi \<and> in_transaction (pool p ! fi)")
    case False
    then show ?thesis using D i p'(6) by (auto split: option.splits)
  next
    case True
    then obtain fi where fi: "tmap p' t = Some fi" "in_transaction (pool p ! fi)" using p'(1) by auto
    have lt: "fi < cmax p'" using others_index [OF o fi(1)] by simp
    have "ds_usable (pool p ! fi)" using others_ds_ok [OF o fi(1)] h fi p' by (simp add: ds_usable_def held_ok_def)
    then obtain rc d xs where r: "ds_rollback (an_begin an) (an_call an) (pool p ! fi) (raiseException es ''DATASOURCEPOOL-LOCK-EXCEPTION'')
        = Some (rc, d, xs)" and d: "ds_after d" "\<not> in_transaction d" using ds_finish_ok(2) p'(5) unfolding answers_ok_def by blast
    have "\<exists>q. freeDS w t (put_ds fi d p') = Some q \<and> pool_inv late q \<and> dp_max q = dp_max (put_ds fi d p')"
      using put_ds_others [OF o fi(1)] d fi p' lt by (intro freeDS_inv) (auto simp: pick_ok_def ds_after_def)
    then show ?thesis using D fi r p'(1,6) by auto
  qed
qed

lemma same_state_inv:
  assumes "pool_inv late p" "tmap q = tmap p" "calls q = calls p" "pool q = pool p" "free_list q = free_list p" "asleep q = asleep p"
    "awoken q = awoken p" "tid_list q = tid_list p" "dp_max q = dp_max p" "resources q = resources p" "wait_count q = wait_count p"
    "dp_valid q = dp_valid p" "stats_hits q = stats_hits p" "stats_reqs q = stats_reqs p"
  shows "pool_inv late q"
  using assms(1) unfolding pool_inv_def pool_base_def parts_inv_def conns_inv_def sleep_inv_def signal_inv_def held_ok_def sleeping_def assms(2-) .

lemma pool_step_inv:
  assumes "pool_inv late p" "pool_enabled late p t op" "pick_ok p w" "pool_step w t op p = Some (xs, q)"
  shows "pool_inv late q \<and> dp_max q = dp_max p"
proof (cases op)
  case (Call a cx)
  then show ?thesis using call_inv [OF assms(1), of t a cx q] assms(2,4) by (auto simp del: pool_enabled.simps)
next
  case (Wake us cx)
  then show ?thesis using wake_inv [OF assms(1), of t False cx us xs q] assms(2,4) by auto
next
  case (TimedOut us cx)
  then show ?thesis using wake_inv [OF assms(1), of t True cx us xs q] assms(2,4) by (auto simp: sleeping_def)
next
  case (Finish an)
  then show ?thesis using finish_inv [OF assms(1) _ assms(3)] assms(2,4) by (simp del: pool_enabled.simps)
next
  case (ThreadExit an)
  then show ?thesis using cleanup_inv [OF assms(1) _ assms(3), of t an] assms(2,4) by (auto simp del: pool_enabled.simps)
next
  case (Destroy an)
  then show ?thesis using destructor_inv [OF assms(1) _ assms(3), of t an] assms(2,4) by (auto simp del: pool_enabled.simps)
next
  case (SetTimeout ms)
  then show ?thesis using assms(4) same_state_inv [OF assms(1), of q] by (auto simp: dp_setErrorTimeout_def)
next
  case (SetWarning ms)
  then show ?thesis using assms(1,4) same_state_inv [OF assms(1), of q] by (auto simp: dp_setWarningCallback_def split: if_splits)
next
  case ClearWarning
  then show ?thesis using assms(1,4) same_state_inv [OF assms(1), of q] by (auto simp: dp_clearWarningCallback_def split: if_splits)
qed

lemma pool_step_defined:
  assumes "pool_inv late p" "pool_enabled late p t op" "pick_ok p w" "\<not> warning_callback p" "op_config op = []"
  shows "pool_step w t op p \<noteq> None"
proof (cases op)
  case (Call a cx)
  then show ?thesis using call_defined assms(5) by simp
next
  case (Wake us cx)
  then show ?thesis using wake_defined [OF assms(1), of t False us] assms(2,5) by auto
next
  case (TimedOut us cx)
  then show ?thesis using wake_defined [OF assms(1), of t True us] assms(2,5) by (auto simp: sleeping_def)
next
  case (Finish an)
  then show ?thesis using finish_defined [OF assms(1) _ assms(3,4)] assms(2) by (simp del: pool_enabled.simps)
next
  case (ThreadExit an)
  then show ?thesis using cleanup_inv [OF assms(1) _ assms(3), of t an] assms(2) by (auto simp del: pool_enabled.simps)
next
  case (Destroy an)
  then show ?thesis using destructor_inv [OF assms(1) _ assms(3), of t an] assms(2) by (auto simp del: pool_enabled.simps)
qed simp_all

section \<open>Construction\<close>

text \<open>A pool under construction: no thread uses it yet.\<close>

definition fresh_inv :: "nat \<Rightarrow> dspool \<Rightarrow> bool" where
  "fresh_inv mx p \<longleftrightarrow> free_list p = [0..<cmax p] \<and> tmap p = Map.empty \<and> resources p = {} \<and> calls p = Map.empty \<and> asleep p = {} \<and>
     awoken p = {} \<and> wait_count p = 0 \<and> stats_hits p = 0 \<and> stats_reqs p = 0 \<and> dp_max p = mx \<and> cmax p \<le> mx \<and>
     (\<forall>d \<in> set (pool p). ds_ok d \<and> isopen d \<and> \<not> in_transaction d) \<and> \<not> warning_callback p"

lemma init_conn_inv:
  assumes "fresh_inv mx p" "init_conn ans p = Some (xs, q)" "answer_ok (snd (ans (cmax p)))"
  shows "fresh_inv mx q \<and> (xs = [] \<longrightarrow> cmax q = Suc (cmax p))"
proof -
  obtain cx oa where a: "ans (cmax p) = (cx, oa)" by fastforce
  obtain rc d ys where o: "ds_open oa ds_new [] = (rc, d, ys)" using prod_cases3 by blast
  have "ds_ok d \<and> (isopen d \<longleftrightarrow> ys = []) \<and> \<not> in_transaction d"
    using ds_open_ok [OF ds_new_ok _ o] assms(3) a by (auto simp: ds_new_def)
  then show ?thesis using assms(1,2) a o by (auto simp: init_conn_def fresh_inv_def Let_def split: if_splits)
qed

lemma init_loop_inv:
  assumes "fresh_inv mx p" "init_loop ans n p = Some ([], q)" "\<forall>k. answer_ok (snd (ans k))"
  shows "fresh_inv mx q \<and> cmax q = cmax p + n \<and> dp_valid q"
  using assms
proof (induction n arbitrary: p)
  case 0
  then show ?case by (auto simp: fresh_inv_def)
next
  case (Suc n)
  then obtain p' where c: "init_conn ans p = Some ([], p')" "init_loop ans n p' = Some ([], q)"
    by (auto split: option.splits if_splits)
  then show ?case using Suc.IH [OF _ c(2) Suc.prems(3)] init_conn_inv [OF Suc.prems(1) c(1)] Suc.prems(3) by simp
qed

lemma dp_init_inv:
  assumes "dp_init ans mn mx = Some ([], p)" "\<forall>k. answer_ok (snd (ans k))"
  shows "pool_inv late p \<and> dp_max p = mx \<and> cmax p = Suc (mn - 1) \<and> dp_valid p"
proof -
  have "fresh_inv mx (dp_new mn mx)" by (simp add: fresh_inv_def dp_new_def)
  then have f: "fresh_inv mx p \<and> cmax p = cmax (dp_new mn mx) + Suc (mn - 1) \<and> dp_valid p"
    using init_loop_inv assms unfolding dp_init_def by blast
  have "pool_inv late p" using f by (auto simp: fresh_inv_def pool_inv_def pool_base_def inv_defs held_ok_def atLeast0LessThan)
  then show ?thesis using f by (simp add: fresh_inv_def dp_new_def)
qed

lemma pool_reach_inv: "pool_reach late mn mx p \<Longrightarrow> pool_inv late p \<and> dp_max p = mx"
proof (induction rule: pool_reach.induct)
  case (init ans p)
  then show ?case using dp_init_inv by blast
next
  case (step p t op w xs p')
  then show ?case using pool_step_inv by metis
qed

end
