(* ===== verification/Pool_Properties.thy ===== *)
theory Pool_Properties
  imports Pool_Invariant
begin

text \<open>
  What the invariant of the connection pool says to its users, the bounds of the pool's arrays, and the traces that show
  where the pool does not keep its promises.
\<close>

section \<open>Concrete calls\<close>

definition fine :: driver_answer where
  "fine = \<lparr>da_rc = 0, da_exc = [], da_abort = False\<rparr>"

definition failing :: driver_answer where
  "failing = \<lparr>da_rc = - 1, da_exc = [''DBI-ERROR''], da_abort = False\<rparr>"

definition losing :: driver_answer where
  "losing = \<lparr>da_rc = - 1, da_exc = [''DBI-ERROR''], da_abort = True\<rparr>"

definition all_fine :: answers where
  "all_fine = \<lparr>an_callback = [], an_open = fine, an_begin = fine, an_call = fine, an_auto = fine\<rparr>"

lemmas trace_defs = fine_def failing_def losing_def all_fine_def answers_ok_def answer_ok_def

fun run_steps :: "bool \<Rightarrow> (int \<times> int \<times> pool_op) list \<Rightarrow> dspool \<Rightarrow> dspool option" where
  "run_steps late [] p = Some p"
| "run_steps late ((w, t, op) # ops) p =
     (if pool_enabled late p t op \<and> pick_ok p w
      then case pool_step w t op p of None \<Rightarrow> None | Some (xs, q) \<Rightarrow> run_steps late ops q
      else None)"

lemma run_steps_reach: "run_steps late ops p = Some q \<Longrightarrow> pool_reach late mn mx p \<Longrightarrow> pool_reach late mn mx q"
proof (induction late ops p rule: run_steps.induct)
  case (2 late w t op ops p)
  then obtain xs p' where s: "pool_enabled late p t op" "pick_ok p w" "pool_step w t op p = Some (xs, p')" "run_steps late ops p' = Some q"
    by (auto split: if_splits option.splits)
  have "pool_reach late mn mx p'" by (rule pool_reach.step [OF "2.prems"(2) s(1-3)])
  then show ?case using "2.IH" s by simp
qed simp

definition pool11 :: dspool where
  "pool11 = (dp_new 1 1)\<lparr>pool := [ds_new\<lparr>isopen := True\<rparr>], free_list := [0], dp_valid := True\<rparr>"

lemma pool11_reach: "pool_reach late 1 1 pool11"
proof (rule pool_reach.init)
  show "dp_init (\<lambda>k. ([], fine)) 1 1 = Some ([], pool11)"
    by (simp add: dp_init_def init_conn_def dp_new_def ds_open_def ds_new_def fine_def pool11_def)
  show "\<forall>k. answer_ok (snd ([], fine))" by (simp add: trace_defs)
qed

lemmas pool_evals = pool11_def dp_new_def ds_new_def pick_ok_def sleeping_def getDSIntern_def get_loop_def dp_take_def new_call_def
  get_wake_def freeDS_def action_end_def checkWait_def getDS_open_def getDS_rest_def pool_act_def pool_finish_def dp_cleanup_def
  dp_destructor_def dp_setErrorTimeout_def dp_setWarningCallback_def dp_clearWarningCallback_def put_ds_def end_call_def
  dp_signal_def keepLock_def ds_open_def driver_call_def connectionAborted_def ds_close_def beginImplicitTransaction_def
  ds_beginTransaction_def ds_end_transaction_def ds_commit_def ds_rollback_def statementExecuted_def ds_autoCommit_def
  ds_exec_def ds_select_def raiseException_def uint32_def Let_def

text \<open>A pool of one connection, with which thread 1 is in a transaction.\<close>

definition one_held :: dspool where
  "one_held = pool11\<lparr>pool := [ds_new\<lparr>isopen := True, in_transaction := True, active_transaction := True\<rparr>], free_list := [],
    tmap := [1 \<mapsto> 0], tid_list := [0 \<mapsto> 1], stats_reqs := 1, stats_hits := 1, resources := {1}\<rparr>"

lemma one_held_reach: "pool_reach late 1 1 one_held"
proof (rule run_steps_reach [OF _ pool11_reach])
  show "run_steps late [(0, 1, Call AExec []), (0, 1, Finish all_fine)] pool11 = Some one_held"
    by (simp add: pool_evals trace_defs one_held_def)
qed

section \<open>Connections and threads\<close>

text \<open>
  C35: Whatever the threads do, every connection of the pool is either in the free list, once, or allocated to exactly one
  thread; the pool never has more than its maximum; and a connection in the free list is in no transaction, so that a
  thread never inherits the transaction of another.
\<close>

theorem pool_partition:
  assumes "pool_reach late mn mx p"
  shows "distinct (free_list p) \<and> set (free_list p) \<inter> ran (tmap p) = {} \<and> set (free_list p) \<union> ran (tmap p) = {..<cmax p} \<and>
    cmax p \<le> mx \<and> inj_on (tmap p) (dom (tmap p)) \<and> (\<forall>fi \<in> set (free_list p). \<not> in_transaction (pool p ! fi))"
proof -
  have i: "parts_inv p" "conns_inv p" "dp_max p = mx"
    using pool_reach_inv [OF assms] by (simp_all add: pool_inv_def pool_base_def)
  have "inj_on (tmap p) (dom (tmap p))" using parts_inject [OF i(1)] by (auto simp: inj_on_def)
  then show ?thesis using i by (simp add: parts_inv_def conns_inv_def)
qed

lemma pool_partition_witness:
  "pool_reach True 1 1 one_held \<and> tmap one_held 1 = Some 0 \<and> set (free_list one_held) \<union> ran (tmap one_held) = {..<cmax one_held} \<and> cmax one_held \<le> 1"
  using pool_partition [OF one_held_reach] one_held_reach by (simp add: one_held_def)

text \<open>
  C36: No call of the pool fails an assertion, loses its place in the thread map or uses a connection out of range, in any
  interleaving: neither the assertions of \<open>getDS\<close>, \<open>freeDS\<close> and \<open>cleanup\<close>, nor those of the connection on which the call runs.
  This holds under three conditions: no warning callback is set; the drivers fail exactly when they raise an exception, and a
  lost connection is a failure (\<open>answers_ok\<close> in \<open>pool_enabled\<close>); and the configuration of the pool, which was accepted when the
  pool was made, raises no exception when a further connection is made from it.
\<close>

theorem pool_calls_defined:
  assumes "pool_reach late mn mx p" "pool_enabled late p t op" "pick_ok p w" "\<not> warning_callback p" "op_config op = []"
  shows "\<exists>xs q. pool_step w t op p = Some (xs, q) \<and> pool_reach late mn mx q"
proof -
  have "pool_step w t op p \<noteq> None" using pool_step_defined [OF _ assms(2-5)] pool_reach_inv [OF assms(1)] by blast
  then obtain xs q where "pool_step w t op p = Some (xs, q)" by auto
  then show ?thesis using pool_reach.step [OF assms(1-3)] by blast
qed

lemma pool_calls_defined_witness:
  "\<exists>xs q. pool_step 0 1 (Call ACommit []) one_held = Some (xs, q) \<and> pool_reach True 1 1 q"
  by (rule pool_calls_defined [OF one_held_reach]) (simp_all add: one_held_def pool_evals)

text \<open>The condition on the configuration is needed: a further connection made from it must not raise an exception.\<close>

lemma config_exception_fails:
  "free_list p = [] \<Longrightarrow> cmax p < dp_max p \<Longrightarrow> tmap p t = None \<Longrightarrow> cx \<noteq> [] \<Longrightarrow> pool_step w t (Call a cx) p = None"
  by (simp add: getDSIntern_def get_loop_def)

text \<open>
  C37: No wakeup is lost, under the condition that a thread that a signal has reached does not report a timeout
  (\<open>late = False\<close>): while a thread sleeps in a pool that has not been deleted, all the connections the pool may have exist,
  and there are at most as many free ones as threads that have been woken up for them.  When no woken thread is on its way,
  every connection is in the hands of a thread.  POSIX does not promise the condition for \<^verbatim>\<open>pthread_cond_timedwait\<close>; without
  it the statement is false (\<open>pool_timeout_swallows_signal\<close> below).
\<close>

theorem pool_no_lost_wakeup:
  assumes "pool_reach False mn mx p" "dp_valid p" "t \<in> asleep p"
  shows "cmax p = mx \<and> length (free_list p) \<le> card (awoken p) \<and> (awoken p = {} \<longrightarrow> ran (tmap p) = {..<mx})"
proof -
  have i: "parts_inv p" "signal_inv False p" "dp_max p = mx" using pool_reach_inv [OF assms(1)] by (simp_all add: pool_inv_def pool_base_def)
  then have s: "cmax p = mx \<and> length (free_list p) \<le> card (awoken p)" using assms(2,3) by (auto simp: signal_inv_def)
  moreover have "ran (tmap p) = {..<mx}" if "awoken p = {}" using s i(1) that by (simp add: parts_inv_def)
  ultimately show ?thesis by blast
qed

text \<open>
  A pool of one connection: thread 1 is in a transaction, thread 2 waits.
\<close>

definition one_waits :: dspool where
  "one_waits = one_held\<lparr>stats_reqs := 2, wait_count := 1, asleep := {2},
     calls := [2 \<mapsto> (new_call AExec True)\<lparr>ca_timed := True\<rparr>]\<rparr>"

lemma one_waits_reach: "pool_reach late 1 1 one_waits"
proof (rule run_steps_reach [OF _ one_held_reach])
  show "run_steps late [(0, 2, Call AExec [])] one_held = Some one_waits"
    by (simp add: pool_evals one_held_def one_waits_def)
qed

lemma pool_no_lost_wakeup_witness: "pool_reach False 1 1 one_waits \<and> 2 \<in> asleep one_waits \<and> ran (tmap one_waits) = {..<1}"
  using pool_no_lost_wakeup [OF one_waits_reach, of 2] one_waits_reach by (simp add: one_waits_def one_held_def pool_evals)

text \<open>
  A woken thread that reports a timeout leaves with an exception and does not pass the signal on: with thread 3 waiting too, the
  connection that thread 1 gives back stays free while thread 3 sleeps and no woken thread is on its way.
\<close>

lemma pool_timeout_swallows_signal:
  "\<exists>p. pool_reach True 1 1 p \<and> dp_valid p \<and> asleep p = {3} \<and> awoken p = {} \<and> free_list p = [0]"
proof -
  let ?ops = "[(2, 3, Call AExec []), (2, 1, Call ACommit []), (2, 1, Finish all_fine), (3, 2, TimedOut 10 [])]"
  have "\<exists>p. run_steps True ?ops one_waits = Some p \<and> dp_valid p \<and> asleep p = {3} \<and> awoken p = {} \<and> free_list p = [0]"
    by (simp add: pool_evals trace_defs one_held_def one_waits_def insert_Diff_if)
  then show ?thesis using run_steps_reach [OF _ one_waits_reach] by blast
qed

section \<open>The size of the pool\<close>

lemma init_loop_fine:
  assumes "\<forall>k. ans k = ([], fine)" "dp_max p = mx" "cmax p \<le> mx"
  shows "init_loop ans n p = None \<longleftrightarrow> mx < cmax p + n"
  using assms(2,3)
proof (induction n arbitrary: p)
  case (Suc n)
  let ?q = "p\<lparr>pool := pool p @ [ds_new\<lparr>isopen := True\<rparr>], free_list := free_list p @ [cmax p]\<rparr>"
  have "init_conn ans p = (if cmax p < mx then Some ([], ?q) else None)"
    using assms(1) Suc.prems by (simp add: init_conn_def ds_open_def fine_def ds_new_def Let_def)
  then show ?case using Suc.IH [of ?q] Suc.prems by auto
qed simp

text \<open>
  C38: The constructor from a hash of options opens connections beyond the end of the pool's arrays, when every opening
  succeeds, exactly if \<open>min\<close> is given above 10 without a \<open>max\<close>, or \<open>max\<close> is given as 1 or 2 without a \<open>min\<close>: the
  limits are compared before the defaults are filled in.
\<close>

theorem pool_limits_overrun:
  assumes "dsp_limits omin omax = Inr (mn, mx)" "\<forall>k. ans k = ([], fine)"
  shows "dp_init ans (nat mn) (nat mx) = None \<longleftrightarrow>
    omax = None \<and> (\<exists>v. omin = Some v \<and> 10 < int32 v) \<or>
    (\<forall>v. omin = Some v \<longrightarrow> int32 v = 0) \<and> (\<exists>v. omax = Some v \<and> int32 v < 3)"
proof -
  have "dp_init ans (nat mn) (nat mx) = None \<longleftrightarrow> nat mx < Suc (nat mn - 1)"
    unfolding dp_init_def using init_loop_fine [OF assms(2), of "dp_new (nat mn) (nat mx)" "nat mx" "Suc (nat mn - 1)"]
    by (simp add: dp_new_def del: init_loop.simps)
  also have "\<dots> \<longleftrightarrow> mx < mn" using assms(1)
    by (auto simp: dsp_limits_def Let_def DP_MIN_def DP_MAX_def split: if_splits option.splits)
  finally show ?thesis using assms(1)
    by (auto simp: dsp_limits_def Let_def DP_MIN_def DP_MAX_def split: if_splits option.splits)
qed

lemma pool_limits_overrun_witness: "dsp_limits None (Some 2) = Inr (3, 2) \<and> dp_init (\<lambda>k. ([], fine)) 3 2 = None"
proof -
  have d: "dsp_limits None (Some 2) = Inr (3, 2)" by (simp add: dsp_limits_def int32_def DP_MIN_def)
  show ?thesis using pool_limits_overrun [OF d, of "\<lambda>k. ([], fine)"] d by (simp add: int32_def)
qed

section \<open>Where the pool breaks its promises\<close>

text \<open>
  Deleting a pool does not wake up the threads that wait for a connection, although the code marks the pool invalid
  for them: thread 1 deletes the pool in its transaction while threads 2 and 3 wait; the released connection wakes up
  thread 2, which leaves with an exception and passes the signal on to nobody.  Thread 3 sleeps on with the connection
  free and no thread left in a call or with a connection that could wake it up; here the error timeout is off, with one it
  would leave at its end.
\<close>

lemma deleted_pool_leaves_sleepers:
  "\<exists>p. run_steps late [(0, 2, SetTimeout 0), (0, 2, Call AExec []), (2, 3, Call ASelect []), (2, 1, Destroy all_fine), (3, 2, Wake 10 [])] one_held = Some p \<and>
     asleep p = {3} \<and> awoken p = {} \<and> free_list p = [0] \<and> resources p = {} \<and> \<not> dp_valid p \<and> dom (calls p) = {3} \<and>
     \<not> pool_enabled late p 3 (TimedOut us cx)"
proof -
  let ?ops = "[(0, 2, SetTimeout 0), (0, 2, Call AExec []), (2, 3, Call ASelect []), (2, 1, Destroy all_fine), (3, 2, Wake 10 [])]"
  define p where "p = pool11\<lparr>tl_timeout_ms := 0, tid_list := [0 \<mapsto> 1], stats_reqs := 3, stats_hits := 1, wait_count := 1, asleep := {3},
    dp_valid := False, calls := [3 \<mapsto> new_call ASelect True]\<rparr>"
  have r: "run_steps late ?ops one_held = Some p"
    by (simp add: pool_evals trace_defs one_held_def p_def insert_Diff_if fun_upd_twist)
  then show ?thesis by (intro exI [of _ p]) (simp add: p_def pool11_def dp_new_def new_call_def)
qed

text \<open>
  A thread that has waited longer than the warning threshold and gets a connection that was lost before fails the
  assertion of \<open>getDS\<close> in the nested call for the configuration string (without assertions a failed reopening there
  releases the connection, and the outer call releases it again).
\<close>

theorem warning_on_lost_connection:
  "\<exists>p. run_steps late [(2, 1, SetWarning 1), (2, 1, Call ASelect []), (2, 1, Finish (all_fine\<lparr>an_call := losing\<rparr>)), (0, 2, Wake 2000 [])] one_waits = Some p \<and>
     pool_enabled late p 2 (Finish all_fine) \<and> (\<forall>w. pool_finish w 2 all_fine p = None)"
  by (simp add: pool_evals trace_defs one_held_def one_waits_def signed_divide_int_def)

text \<open>
  When the implicit begin of \<open>exec\<close> fails, the connection stays allocated to the thread although it is in no
  transaction, and the pool tells the thread that it is in one; \<open>beginTransaction\<close> releases the connection in the same case.
\<close>

theorem failed_exec_keeps_connection:
  "\<exists>p. run_steps late [(0, 1, Call AExec []), (0, 1, Finish (all_fine\<lparr>an_begin := failing\<rparr>))] pool11 = Some p \<and>
     dp_inTransaction 1 p \<and> free_list p = [] \<and> \<not> in_transaction (pool p ! 0)"
  "\<exists>p. run_steps late [(0, 1, Call ABegin []), (0, 1, Finish (all_fine\<lparr>an_begin := failing\<rparr>))] pool11 = Some p \<and>
     \<not> dp_inTransaction 1 p \<and> free_list p = [0]"
  by (simp_all add: pool_evals trace_defs dp_inTransaction_def)

text \<open>
  The longest wait is kept in 32 bits: a wait of 4294967296 microseconds (72 minutes) is reported as none.
\<close>

theorem wait_max_wraps:
  "ca_wait c = 4294967296 \<Longrightarrow> wait_max p < 4294967296 \<Longrightarrow> wait_max (dp_take t fi c p) = 0"
  by (simp add: dp_take_def uint32_def)

end
