(* ===== verification/Spec2Isabelle.thy ===== *)
theory Spec2Isabelle
  imports Date_Arith Date_Week Lock_System Lock_RW_System Lock_Counter Queue_Properties Text_Trim Text_Search Text_URL Hash_Properties List_Sort_Any
    Stmt_Properties Pool_Properties
begin

text \<open>
  Qore is an interpreter for a multi-threaded scripting language, written in C++.  This development
  models parts of its run-time library (\<open>src/lib\<close>, \<open>src/include/qore\<close>) that carry logic of their
  own: dates and time zones, the locks and synchronisation classes, the Queue, strings with their
  encodings, hashes and lists, exceptions, the execution of statements, and the pool of database connections.

  \<^bold>\<open>Theories.\<close>
  \<^item> \<open>Qore_Prelude\<close>: integers of fixed width, truncating division, exception sinks, generic lemmas.
  \<^item> \<open>Date_Info\<close>: \<open>qore_date_info\<close>, \<open>qore_simple_tm\<close> and the normalisation helpers of
    \<open>qore_date_private.h\<close> and \<open>qore_date_private.cpp\<close>: the calendar.
  \<^item> \<open>Qore_Text\<close>, \<open>Date_Zone\<close>: \<open>QoreTimeZoneManager\<close>: offset lookup in region zones, offset zones,
    their cache, printing and parsing of UTC offsets.
  \<^item> \<open>Date_Time\<close>: \<open>qore_absolute_time\<close> and \<open>qore_relative_time\<close>.  \<open>Date_Value\<close>:
    \<open>qore_date_private\<close>, the tagged union of both, and the logic of \<open>DateTime\<close> and \<open>DateTimeNode\<close>.
  \<^item> \<open>Date_Week\<close>, \<open>Date_Arith\<close>: properties of dates: round trips, arithmetic, order, ISO weeks.
  \<^item> \<open>Lock_Base\<close>: \<open>AbstractSmartLock\<close>, \<open>VLock\<close> (the locks a thread holds, and the deadlock
    check), the thread resources.  \<open>Lock_Mutex\<close>: \<open>SmartMutex\<close>, \<open>VRMutex\<close>.  \<open>Lock_System\<close>: threads over
    several mutexes as a step relation.
  \<^item> \<open>Lock_RW\<close>, \<open>Lock_RW_System\<close>: \<open>RWLock\<close> and its step relation.  \<open>Lock_Counter\<close>: \<open>QoreCounter\<close>,
    with the internal versions of \<open>dec\<close> and \<open>waitForZero\<close>.
  \<^item> \<open>Queue_Links\<close>: the doubly linked list of a Queue in an explicit heap.  \<open>Queue_System\<close>:
    \<open>qore_queue_private\<close> with its blocking operations and step relation.  \<open>Queue_Properties\<close>.
  \<^item> \<open>Text_Bytes\<close>: byte buffers.  \<open>Text_Encoding\<close>, \<open>Text_UTF8\<close>: \<open>charset.cpp\<close>: characters of the
    encodings, code points.  \<open>Text_Base64\<close>: base64 and hexadecimal text.  \<open>Text_String\<close>: \<open>QoreString\<close>:
    substrings, splicing, extraction.  \<open>Text_Trim\<close>: trimming and reversing.  \<open>Text_Search\<close>: searching.
    \<open>Text_URL\<close>: percent encoding of URLs and URI requests.
  \<^item> \<open>Hash_Members\<close>: \<open>qore_hash_private\<close>: the list of members in an explicit heap and the map from keys to
    them, lookup, assignment, removal.  \<open>Hash_Ops\<close>: merging, copying, comparing, slices, iterators.
    \<open>Hash_Properties\<close>: refinement of association lists in the order of insertion, types, iteration.
  \<^item> \<open>List_Core\<close>: \<open>qore_list_private\<close>: the allocated array, single values, splicing, copies.  \<open>List_Ops\<close>,
    \<open>List_Splice\<close>, \<open>List_Properties\<close>: refinement of lists of values.  \<open>List_Sort\<close>: merge sort and quick sort.
    \<open>List_Sorted\<close>, \<open>List_Quicksort\<close>: their correctness.  \<open>List_Sort_Any\<close>: comparisons that follow no order or raise exceptions.
  \<^item> \<open>Stmt_Sink\<close>: \<open>QoreException\<close> and \<open>ExceptionSink\<close> in full, with the links of the chain.  \<open>Stmt_Model\<close>: the
    classes derived from \<open>AbstractStatement\<close> and the thread data they use.  \<open>Stmt_Exec\<close>: their \<open>execImpl\<close> methods,
    \<open>StatementBlock::execIntern\<close> with the block-exit handlers, and the interpreter.  \<open>Stmt_Frame\<close>: the stack of
    block-exit iterators, and blocks as nested scopes.  \<open>Stmt_Fuel\<close>: fuel and termination.  \<open>Stmt_Parse\<close>: the
    checks of \<open>parseInitImpl\<close> and what they give at run time.  \<open>Stmt_Properties\<close>.
  \<^item> \<open>Pool_Source\<close>: \<open>Datasource\<close> and \<open>qore_ds_private\<close>: the transaction state of a database connection.
    \<open>Pool_System\<close>: \<open>DatasourcePool\<close>, its calls cut at the wait for a connection, and its step relation.  \<open>Pool_Invariant\<close>:
    the invariant of the pool.  \<open>Pool_Properties\<close>: allocation, assertions, wakeups, the bounds of the arrays.

  \<^bold>\<open>Conventions.\<close>  Integers are HOL integers; a conversion to a narrower type and a product or sum the
  source forms in 32 bits go through \<open>int32\<close>.  Objects with identity (locks, threads, nodes) are
  numbers into explicit maps.  An operation is one function per C++ function; \<open>None\<close> is a failed
  assertion or the use of an invalid pointer, exceptions are codes in an exception sink.  A blocking
  operation is cut at its wait: the first part ends with a value that says that the thread sleeps, a
  resume function continues it, and the step relations interleave these parts freely.  The calls by which the
  Queue counts scannable values at its owner come after its lock is released and are steps of their own, so that
  they can overtake each other.  The step relations of the Queue and of the pool have a parameter \<open>late\<close>: with it a
  thread that times out may have consumed a signal, as POSIX allows; the two properties on wake-ups hold
  without it and fail with it, the others hold for both.

  \<^bold>\<open>Conditions on the environment.\<close>  The drivers of the pool fail exactly when they raise an exception and report a
  lost connection as a failure (\<open>answers_ok\<close>); an exception of the configuration of the pool when a further connection
  is made fails an assertion and is excluded where this is said.  The allocation of a string is a parameter of \<open>splice\<close>,
  whose moves read beyond the string when it gets shorter.  The offset of a zone is looked up with unspecified results
  outside of \<open>zone_defined\<close>, which UTC, fixed offsets, and regions with a transition behind \<open>first_pos\<close> satisfy.

  \<^bold>\<open>Interfaces.\<close>  \<open>smart_lock\<close> is the contract of a lock implementation, interpreted for
  \<open>SmartMutex\<close>, \<open>VRMutex\<close> and \<open>RWLock\<close>; \<open>deque\<close> that of a double-ended queue, interpreted for the
  linked list and for the Queue as its users call it; \<open>fixed_zone\<close> that of a zone with one offset;
  \<open>comparison\<close> that of a three-way comparison; \<open>charset\<close> that of a character length function, interpreted for
  UTF-8, UTF-16 in both byte orders, single-byte encodings, and all encodings at once; \<open>ordered_map\<close> that of
  a map that keeps the order of insertion, interpreted for hashes; \<open>sort_order\<close> that of the comparison of a sort, interpreted
  for integers and for dates.  \<open>deque\<close> is interpreted for lists too.
  \<open>executor\<close> and \<open>block_executor\<close> are the contract of the execution of blocks and statements that do not depend on
  the iterator stack, \<open>finer\<close> and \<open>finer_blocks\<close> relate two amounts of fuel, \<open>good_executor\<close> gives good results on accepted
  code; they are interpreted for the interpreter with any fuel.  \<open>ds_operation\<close> is what the pool relies on of an operation on a
  connection, interpreted for the six kinds of calls.

  \<^bold>\<open>Bounds.\<close>  The calendar properties hold from year 0 to about 90000; the code computes with 32-bit
  years and its leap-year rule is wrong below year 0.  ISO weeks are exact but for week 53 of leap years that start on
  a Thursday, where the theorem says what the code computes instead.  Loops are recursive functions with termination
  proofs; the list traversals of the Queue are partial functions whose results are shown to exist.
  String properties hold for strings below 2 to the power of 62 bytes and 64-bit offsets; substrings with a
  length need fewer than 2 to the power of 31 characters, which the code counts in an \<open>int\<close>.

  The interpreter of statements takes fuel, as loops need not end; any fuel that is enough gives the same result, and the
  nesting depth is enough for code without open-ended loops (\<open>loop_free_ends\<close>).  Expressions are functions of the program state and the sink, so that
  their evaluation ends; nothing else is assumed of them.

  The recursion of the quick sort is at most as deep as the list is long; its stack check is a predicate on the depth.

  \<^bold>\<open>Not modelled.\<close>  The rest of the interpreter (parser, operators, classes, objects, types, programs, the debugger),
  I/O, database drivers and statement objects (a driver is the list of its answers), bindings to external libraries, the reader of zone files,
  recursive reference collection; of dates: parsing of text, conversion of values and floating-point numbers, and fractional units; of strings: formatting, HTML
  entities, regular expressions and how the allocation grows; of hashes and lists: text output, the type system (type checks are
  parameters) and initialisation at parse time.  Conversion between encodings by \<open>iconv\<close> is a
  parameter of the functions that use it.
\<close>

end
